(* ===== verification/TVM_Prelude.thy ===== *)
theory TVM_Prelude
  imports Main "HOL-Library.Multiset" "HOL-Library.Monad_Syntax"
begin

text \<open>
  Shared ground of the development: the option monad in which the model runs (None is a failed
  assert, an llvm_unreachable or an access outside a container), the C++ standard algorithms the
  backend calls on ranges, and generic lemmas about lists, positions and multisets.
\<close>

named_theorems option_simps "evaluation of the option monad"
named_theorems perm_simps "multisets of rearranged lists"

section \<open>Failure\<close>

definition check :: "bool \<Rightarrow> unit option" where
  "check b = (if b then Some () else None)"

lemma check_True [simp]: "check True = Some ()"
  by (simp add: check_def)

lemma check_eq_Some [simp]: "check b = Some u \<longleftrightarrow> b"
  by (simp add: check_def)

lemma check_eq_None [simp]: "check b = None \<longleftrightarrow> \<not> b"
  by (simp add: check_def)

lemma bind_check [simp]: "check b \<bind> f = (if b then f () else None)"
  by (simp add: check_def)

text \<open>Unsigned 32-bit subtraction, which wraps around below zero.\<close>

definition usub :: "nat \<Rightarrow> nat \<Rightarrow> nat" where
  "usub a b = (a + 2 ^ 32 - b) mod 2 ^ 32"

lemma usub_le: "b \<le> a \<Longrightarrow> a < 2 ^ 32 \<Longrightarrow> usub a b = a - b"
proof -
  assume ab: "b \<le> a" "a < 2 ^ 32"
  define m :: nat where "m = 2 ^ 32"
  from ab have "a + m - b = (a - b) + m" and "a - b < m"
    unfolding m_def by linarith+
  then show ?thesis unfolding usub_def m_def [symmetric] by (simp only: mod_add_self2 mod_less)
qed

text \<open>A range-based for loop whose body may fail.\<close>

fun foldM :: "('a \<Rightarrow> 's \<Rightarrow> 's option) \<Rightarrow> 'a list \<Rightarrow> 's \<Rightarrow> 's option" where
  "foldM f [] s = Some s"
| "foldM f (x # xs) s = f x s \<bind> foldM f xs"

lemma foldM_append [simp]: "foldM f (xs @ ys) s = foldM f xs s \<bind> foldM f ys"
  by (induction xs arbitrary: s) (simp_all split: Option.bind_splits)

lemma foldM_invariant:
  assumes "foldM f xs s = Some t" and "P s"
    and "\<And>x u v. x \<in> set xs \<Longrightarrow> f x u = Some v \<Longrightarrow> P u \<Longrightarrow> P v"
  shows "P t"
  using assms
proof (induction xs arbitrary: s)
  case Nil
  then show ?case by simp
next
  case (Cons x xs)
  from Cons.prems(1) obtain u where u: "f x s = Some u" "foldM f xs u = Some t"
    by (auto simp: bind_eq_Some_conv)
  have "P u" by (rule Cons.prems(3) [OF _ u(1) Cons.prems(2)]) simp
  then show ?case
    by (rule Cons.IH [OF u(2)]) (rule Cons.prems(3); simp)
qed

fun mapM :: "('a \<Rightarrow> 'b option) \<Rightarrow> 'a list \<Rightarrow> 'b list option" where
  "mapM f [] = Some []"
| "mapM f (x # xs) = do { y \<leftarrow> f x; ys \<leftarrow> mapM f xs; Some (y # ys) }"

section \<open>Positions in a list\<close>

text \<open>The index of the first occurrence, as std::find followed by std::distance gives it.\<close>

fun find_index :: "'a \<Rightarrow> 'a list \<Rightarrow> nat option" where
  "find_index x [] = None"
| "find_index x (y # ys) = (if x = y then Some 0 else map_option Suc (find_index x ys))"

lemma find_index_eq_None [simp]: "find_index x xs = None \<longleftrightarrow> x \<notin> set xs"
  by (induction xs) auto

lemma find_index_Some:
  "find_index x xs = Some i \<Longrightarrow> i < length xs \<and> xs ! i = x \<and> (\<forall>j < i. xs ! j \<noteq> x)"
proof (induction xs arbitrary: i)
  case Nil
  then show ?case by simp
next
  case (Cons y ys)
  then show ?case
    by (fastforce simp: nth_Cons split: if_splits nat.splits)
qed

lemma find_index_member: "x \<in> set xs \<Longrightarrow> \<exists>i. find_index x xs = Some i"
  by (cases "find_index x xs") auto

lemma find_index_distinct:
  "distinct xs \<Longrightarrow> i < length xs \<Longrightarrow> find_index (xs ! i) xs = Some i"
  by (metis distinct_conv_nth find_index_Some find_index_member nth_mem)

lemma count_list_pos: "count_list xs x \<ge> 1 \<longleftrightarrow> x \<in> set xs"
  by (induction xs) auto

section \<open>std::set\_difference on sorted ranges\<close>

fun set_difference :: "'a::linorder list \<Rightarrow> 'a list \<Rightarrow> 'a list" where
  "set_difference [] ys = []"
| "set_difference (x # xs) [] = x # xs"
| "set_difference (x # xs) (y # ys) =
     (if x < y then x # set_difference xs (y # ys)
      else if y < x then set_difference (x # xs) ys
      else set_difference xs ys)"

lemma set_set_difference: "set (set_difference xs ys) \<subseteq> set xs"
  by (induction xs ys rule: set_difference.induct) auto

lemma sorted_set_difference: "sorted xs \<Longrightarrow> sorted (set_difference xs ys)"
proof (induction xs ys rule: set_difference.induct)
  case (3 x xs y ys)
  then show ?case
    using set_set_difference [of xs "y # ys"] by auto
qed auto

lemma mset_set_difference:
  "sorted xs \<Longrightarrow> sorted ys \<Longrightarrow> mset (set_difference xs ys) = mset xs - mset ys"
proof (induction xs ys rule: set_difference.induct)
  case (3 x xs y ys)
  consider "x < y" | "y < x" | "x = y" by fastforce
  then show ?case
  proof cases
    case 1
    with "3.prems" have "x \<notin># mset (y # ys)" by auto
    then have "mset (x # xs) - mset (y # ys) = add_mset x (mset xs - mset (y # ys))"
      by (simp add: diff_union_swap2 add_mset_diff_bothsides count_eq_zero_iff multiset_eq_iff)
    with 1 "3.IH"(1) "3.prems" show ?thesis by simp
  next
    case 2
    with "3.prems" have "y \<notin># mset (x # xs)" by auto
    then have "mset (x # xs) - mset (y # ys) = mset (x # xs) - mset ys"
      by (metis diff_add_mset_swap diff_union_swap2 diff_single_trivial mset.simps(2) add_mset_add_single diff_diff_add_mset union_commute)
    moreover from 2 have "\<not> x < y" by simp
    ultimately show ?thesis using 2 "3.IH"(2) "3.prems" by simp
  next
    case 3
    with "3.IH"(3) "3.prems" show ?thesis by simp
  qed
qed auto

section \<open>Prefixes\<close>

lemma take_2_eq:
  "take (Suc (Suc 0)) t = [a, b] \<longleftrightarrow> 2 \<le> length t \<and> t ! 0 = a \<and> t ! 1 = b"
  by (cases t; cases "tl t") auto

lemma take_3_eq:
  "take (Suc (Suc (Suc 0))) t = [a, b, c] \<longleftrightarrow>
   3 \<le> length t \<and> t ! 0 = a \<and> t ! 1 = b \<and> t ! 2 = c"
  by (cases t; cases "tl t"; cases "tl (tl t)"; auto simp: numeral_3_eq_3 numeral_2_eq_2)

lemma mset_hd_drop: "ys \<noteq> [] \<Longrightarrow> add_mset (ys ! 0) (mset (drop (Suc 0) ys)) = mset ys"
  by (cases ys) auto

section \<open>Exchanging elements of a list\<close>

definition swap_at :: "nat \<Rightarrow> nat \<Rightarrow> 'a list \<Rightarrow> 'a list" where
  "swap_at i j xs = xs[i := xs ! j, j := xs ! i]"

lemma length_swap_at [simp]: "length (swap_at i j xs) = length xs"
  by (simp add: swap_at_def)

lemma nth_swap_at:
  "k < length xs \<Longrightarrow>
   swap_at i j xs ! k = (if k = j then xs ! i else if k = i then xs ! j else xs ! k)"
  by (cases "i = k") (auto simp: swap_at_def nth_list_update)

lemma mset_swap_at [simp, perm_simps]:
  "i < length xs \<Longrightarrow> j < length xs \<Longrightarrow> mset (swap_at i j xs) = mset xs"
  by (simp add: swap_at_def mset_swap)

lemma swap_at_swap_at:
  "i < length xs \<Longrightarrow> j < length xs \<Longrightarrow> swap_at i j (swap_at i j xs) = xs"
  by (rule nth_equalityI) (auto simp: nth_swap_at)

lemma swap_at_commute: "swap_at i j xs = swap_at j i xs"
  by (cases "i = j") (simp_all add: swap_at_def list_update_swap)

lemma swap_at_min_max [simp]: "swap_at (min i j) (max i j) xs = swap_at i j xs"
  by (auto simp: min_def max_def swap_at_commute)

lemma swap_at_0 [simp]:
  "j < length xs \<Longrightarrow> swap_at 0 j (swap_at 0 j xs) = xs"
  "j < length xs \<Longrightarrow> mset (swap_at 0 j xs) = mset xs"
  by (rule swap_at_swap_at mset_swap_at; auto)+

lemma map_swap_at:
  "i < length xs \<Longrightarrow> j < length xs \<Longrightarrow> map f (swap_at i j xs) = swap_at i j (map f xs)"
  by (simp add: swap_at_def map_update)

end
