(* ===== verification/TVM_Change.thy ===== *)
theory TVM_Change
  imports TVM_Prelude
begin

text \<open>
  The stack changes of StackFixup (TVMStackFixup.h): the variant type Change, the constructors
  with their asserts, the immediate-form predicates, and the factory functions makeRoll,
  makeRollRev, makeBlkSwap, makeReverse and makeBlkdrop (TVMStackFixup.cpp).
\<close>

section \<open>Limits\<close>

definition PushLimit :: nat where "PushLimit = 255"
definition XchgLimit :: nat where "XchgLimit = 15"
definition XchgDeepLimit :: nat where "XchgDeepLimit = 255"
definition BlkdropImmLimit :: nat where "BlkdropImmLimit = 15"
definition BlkswapImmLimit :: nat where "BlkswapImmLimit = 15"
definition RollImmLimit :: nat where "RollImmLimit = 15"
definition ReverseImmLimit :: nat where "ReverseImmLimit = 15"

lemmas limit_defs = PushLimit_def XchgLimit_def XchgDeepLimit_def BlkdropImmLimit_def
  BlkswapImmLimit_def RollImmLimit_def ReverseImmLimit_def

section \<open>The variant\<close>

text \<open>
  The booleans of doubleChange and tripleChange say for each argument whether it is pushed (True)
  or exchanged (False). A pushHidden carries the base class's index and the result register.
\<close>

datatype Change =
    pop nat
  | xchgTop nat
  | xchg nat nat
  | pushI nat
  | pushHidden nat nat
  | pushUndef
  | blkswap (deepSz: nat) (topSz: nat)
  | blkdrop nat
  | roll int
  | reverse nat nat
  | doubleChange bool bool nat nat
  | tripleChange bool bool bool nat nat nat

section \<open>Constructors with their asserts\<close>

definition mk_xchgTop :: "nat \<Rightarrow> Change option" where
  "mk_xchgTop i = do { check (i \<le> XchgDeepLimit); Some (xchgTop i) }"

definition mk_swap :: "Change option" where
  "mk_swap = mk_xchgTop 1"

text \<open>xchg stores the smaller index first; the limits are checked unless checkLimits is false.\<close>

definition xchg_unchecked :: "nat \<Rightarrow> nat \<Rightarrow> Change" where
  "xchg_unchecked i j = xchg (min i j) (max i j)"

definition mk_xchg :: "nat \<Rightarrow> nat \<Rightarrow> Change option" where
  "mk_xchg i j = do {
     check (min i j \<le> XchgLimit); check (max i j \<le> XchgLimit); Some (xchg_unchecked i j) }"

definition mk_pushI :: "nat \<Rightarrow> Change option" where
  "mk_pushI i = do { check (i \<le> PushLimit); Some (pushI i) }"

definition pushI_isImm :: "nat \<Rightarrow> bool" where
  "pushI_isImm i \<longleftrightarrow> i \<le> PushLimit"

definition mk_pushHidden :: "nat \<Rightarrow> nat \<Rightarrow> Change option" where
  "mk_pushHidden i r = do { check (i \<le> PushLimit); Some (pushHidden i r) }"

definition mk_blkswap :: "nat \<Rightarrow> nat \<Rightarrow> Change option" where
  "mk_blkswap d t = do { check (d \<ge> 1 \<or> t \<ge> 1); Some (blkswap d t) }"

text \<open>The subtractions of goodFor are unsigned and wrap at zero.\<close>

definition blkswap_goodFor :: "nat \<Rightarrow> nat \<Rightarrow> bool option" where
  "blkswap_goodFor d t = do {
     check (d \<ge> 1 \<or> t \<ge> 1);
     Some (usub d 1 \<le> BlkswapImmLimit \<and> usub t 1 \<le> BlkswapImmLimit) }"

definition mk_rot :: "Change option" where
  "mk_rot = mk_blkswap 1 2"

definition mk_roll :: "int \<Rightarrow> Change option" where
  "mk_roll i = do { check (i \<noteq> 0); Some (roll i) }"

definition roll_isImmRoll :: "int \<Rightarrow> bool" where
  "roll_isImmRoll i \<longleftrightarrow> nat \<bar>i\<bar> \<le> RollImmLimit + 1"

definition mk_reverse :: "nat \<Rightarrow> nat \<Rightarrow> Change option" where
  "mk_reverse d t = do { check (d \<ge> 2); Some (reverse d t) }"

definition reverse_isImm :: "nat \<Rightarrow> nat \<Rightarrow> bool" where
  "reverse_isImm d t \<longleftrightarrow> usub d 2 \<le> ReverseImmLimit \<and> t \<le> ReverseImmLimit"

definition blkdrop_isImm :: "nat \<Rightarrow> bool" where
  "blkdrop_isImm n \<longleftrightarrow> n \<le> BlkdropImmLimit"

subsection \<open>Two- and three-operand exchanges\<close>

definition xchg2 :: "nat \<Rightarrow> nat \<Rightarrow> Change" where
  "xchg2 i j = doubleChange False False i j"

definition push2 :: "nat \<Rightarrow> nat \<Rightarrow> Change" where
  "push2 i j = doubleChange True True i j"

definition xcpu :: "nat \<Rightarrow> nat \<Rightarrow> Change" where
  "xcpu i j = doubleChange False True i j"

definition puxc :: "nat \<Rightarrow> nat \<Rightarrow> Change" where
  "puxc i j = doubleChange True False i j"

definition xchg3 :: "nat \<Rightarrow> nat \<Rightarrow> nat \<Rightarrow> Change" where
  "xchg3 i j k = tripleChange False False False i j k"

definition push3 :: "nat \<Rightarrow> nat \<Rightarrow> nat \<Rightarrow> Change" where
  "push3 i j k = tripleChange True True True i j k"

definition xc2pu :: "nat \<Rightarrow> nat \<Rightarrow> nat \<Rightarrow> Change" where
  "xc2pu i j k = tripleChange False False True i j k"

definition xcpuxc :: "nat \<Rightarrow> nat \<Rightarrow> nat \<Rightarrow> Change" where
  "xcpuxc i j k = tripleChange False True False i j k"

definition xcpu2 :: "nat \<Rightarrow> nat \<Rightarrow> nat \<Rightarrow> Change" where
  "xcpu2 i j k = tripleChange False True True i j k"

definition puxc2 :: "nat \<Rightarrow> nat \<Rightarrow> nat \<Rightarrow> Change" where
  "puxc2 i j k = tripleChange True False False i j k"

definition puxcpu :: "nat \<Rightarrow> nat \<Rightarrow> nat \<Rightarrow> Change" where
  "puxcpu i j k = tripleChange True False True i j k"

definition pu2xc :: "nat \<Rightarrow> nat \<Rightarrow> nat \<Rightarrow> Change" where
  "pu2xc i j k = tripleChange True True False i j k"

lemmas compound_defs = xchg2_def push2_def xcpu_def puxc_def xchg3_def push3_def xc2pu_def
  xcpuxc_def xcpu2_def puxc2_def puxcpu_def pu2xc_def

text \<open>The table index of a compound change: the push flags read as a binary number.\<close>

definition double_code :: "bool \<Rightarrow> bool \<Rightarrow> nat" where
  "double_code p0 p1 = (if p0 then 1 else 0) * 2 + (if p1 then 1 else 0)"

definition triple_code :: "bool \<Rightarrow> bool \<Rightarrow> bool \<Rightarrow> nat" where
  "triple_code p0 p1 p2 =
     (if p0 then 1 else 0) * 4 + (if p1 then 1 else 0) * 2 + (if p2 then 1 else 0)"

definition codeName :: "bool list \<Rightarrow> string" where
  "codeName ps = map (\<lambda>isPush. if isPush then CHR ''p'' else CHR ''x'') ps"

definition countXchgs :: "bool list \<Rightarrow> nat" where
  "countXchgs ps = count_list ps False"

definition countPushes :: "bool list \<Rightarrow> nat" where
  "countPushes ps = count_list ps True"

lemma countXchgs_countPushes: "countXchgs ps + countPushes ps = length ps"
  by (induction ps) (simp_all add: countXchgs_def countPushes_def)

lemma double_code_less: "double_code p0 p1 < 4"
  by (simp add: double_code_def)

lemma triple_code_less: "triple_code p0 p1 p2 < 8"
  by (simp add: triple_code_def)

section \<open>What the constructors have checked\<close>

text \<open>
  The asserts of the constructors, as a property of a change. A pop, a drop, a pushed undefined value and the
  compound exchanges are made without a check. (The constructors with checkLimits = false are called by
  operator += alone, for steps that never become part of a fixup.)
\<close>

fun made :: "Change \<Rightarrow> bool" where
  "made (xchgTop i) \<longleftrightarrow> i \<le> XchgDeepLimit"
| "made (xchg i j) \<longleftrightarrow> i \<le> j \<and> j \<le> XchgLimit"
| "made (pushI i) \<longleftrightarrow> i \<le> PushLimit"
| "made (pushHidden i r) \<longleftrightarrow> i \<le> PushLimit"
| "made (blkswap d t) \<longleftrightarrow> d \<ge> 1 \<or> t \<ge> 1"
| "made (roll i) \<longleftrightarrow> i \<noteq> 0"
| "made (reverse d t) \<longleftrightarrow> d \<ge> 2"
| "made c \<longleftrightarrow> True"

lemma mk_made:
  "mk_xchgTop i = Some c \<Longrightarrow> made c" "mk_xchg i j = Some c \<Longrightarrow> made c" "mk_pushI i = Some c \<Longrightarrow> made c"
  "mk_pushHidden i r = Some c \<Longrightarrow> made c" "mk_blkswap d t = Some c \<Longrightarrow> made c" "mk_roll z = Some c \<Longrightarrow> made c"
  "mk_reverse d t = Some c \<Longrightarrow> made c"
  by (auto simp: mk_xchgTop_def mk_xchg_def xchg_unchecked_def mk_pushI_def mk_pushHidden_def mk_blkswap_def
      mk_roll_def mk_reverse_def min_def max_def split: if_splits)

section \<open>Factories choosing the shortest form\<close>

definition makeRoll :: "nat \<Rightarrow> Change option" where
  "makeRoll deepElem =
     (if deepElem = 1 then mk_xchgTop deepElem
      else do {
        r \<leftarrow> mk_roll (int deepElem);
        if roll_isImmRoll (int deepElem) then Some r
        else do {
          g \<leftarrow> blkswap_goodFor 1 deepElem;
          if g then mk_blkswap 1 deepElem else Some r } })"

definition makeRollRev :: "nat \<Rightarrow> Change option" where
  "makeRollRev toDeepElem =
     (if toDeepElem = 1 then mk_xchgTop toDeepElem
      else do {
        r \<leftarrow> mk_roll (- int toDeepElem);
        if roll_isImmRoll (- int toDeepElem) then Some r
        else do {
          g \<leftarrow> blkswap_goodFor toDeepElem 1;
          if g then mk_blkswap toDeepElem 1 else Some r } })"

definition makeBlkSwap :: "nat \<Rightarrow> nat \<Rightarrow> Change option" where
  "makeBlkSwap deepElems topElems =
     (if deepElems = 1 then makeRoll topElems
      else if topElems = 1 then makeRollRev deepElems
      else mk_blkswap deepElems topElems)"

definition makeReverse :: "nat \<Rightarrow> Change option" where
  "makeReverse sz = do {
     check (sz > 1);
     if sz = 2 then mk_xchgTop 1 else mk_reverse sz 0 }"

definition makeBlkdrop :: "nat \<Rightarrow> Change option" where
  "makeBlkdrop sz = do {
     check (sz > 0);
     if sz = 1 then Some (pop 0) else Some (blkdrop sz) }"

subsection \<open>What the factories return\<close>

lemma mk_xchgTop_1 [simp]: "mk_xchgTop (Suc 0) = Some (xchgTop (Suc 0))"
  by (simp add: mk_xchgTop_def limit_defs)

lemma mk_swap_eq [simp]: "mk_swap = Some (xchgTop 1)"
  by (simp add: mk_swap_def)

lemma mk_rot_eq [simp]: "mk_rot = Some (blkswap 1 2)"
  by (simp add: mk_rot_def mk_blkswap_def)

lemma makeRoll_cases:
  assumes "d > 0"
  shows "makeRoll d = Some (if d = 1 then xchgTop 1 else roll (int d)) \<or>
         makeRoll d = Some (blkswap 1 d)"
  using assms
  by (auto simp: makeRoll_def mk_roll_def blkswap_goodFor_def mk_blkswap_def)

lemma makeRollRev_cases:
  assumes "d > 0"
  shows "makeRollRev d = Some (if d = 1 then xchgTop 1 else roll (- int d)) \<or>
         makeRollRev d = Some (blkswap d 1)"
  using assms
  by (auto simp: makeRollRev_def mk_roll_def blkswap_goodFor_def mk_blkswap_def)

lemma makeRoll_2 [simp]: "makeRoll 2 = Some (roll 2)"
  by (simp add: makeRoll_def mk_roll_def roll_isImmRoll_def limit_defs)

lemma makeRoll_3 [simp]: "makeRoll 3 = Some (roll 3)"
  by (simp add: makeRoll_def mk_roll_def roll_isImmRoll_def limit_defs)

lemma makeRollRev_2 [simp]: "makeRollRev 2 = Some (roll (- 2))"
  by (simp add: makeRollRev_def mk_roll_def roll_isImmRoll_def limit_defs)

end
