(* ===== verification/TVM_Stack.thy ===== *)
theory TVM_Stack
  imports TVM_Change
begin

text \<open>
  The programming model of the hardware stack (class Stack of TVMStack.h and TVMStack.cpp): a
  sequence of virtual registers, the top first, with the operations that track positions and the
  operator += that performs one Change. A StackVreg is its register number: operator== compares
  only that, and the debug variable it also carries is read by the printer alone.
\<close>

section \<open>State\<close>

type_synonym StackVreg = nat
type_synonym Stack = "StackVreg list"

definition UnusedReg :: StackVreg where
  "UnusedReg = 2 ^ 32 - 1"

definition Stack_init :: "nat \<Rightarrow> Stack" where
  "Stack_init sz = replicate sz UnusedReg"

section \<open>Queries and element updates\<close>

definition Stack_position :: "Stack \<Rightarrow> StackVreg \<Rightarrow> nat option" where
  "Stack_position s elem = find_index elem s"

definition Stack_position_from :: "Stack \<Rightarrow> nat \<Rightarrow> StackVreg \<Rightarrow> nat option" where
  "Stack_position_from s start elem = do {
     check (start \<le> length s);
     i \<leftarrow> find_index elem (drop start s);
     Some (start + i) }"

text \<open>Position of occurrence N of the element, counted from the deepest one (N starts at 0).\<close>

definition Stack_positionNrev :: "Stack \<Rightarrow> StackVreg \<Rightarrow> nat \<Rightarrow> nat option" where
  "Stack_positionNrev s elem N =
     (let occ = filter (\<lambda>i. s ! i = elem) (rev [0..<length s])
      in if N < length occ then Some (occ ! N) else None)"

definition Stack_reg :: "Stack \<Rightarrow> nat \<Rightarrow> StackVreg option" where
  "Stack_reg s slot = do { check (slot < length s); Some (s ! slot) }"

definition Stack_set :: "Stack \<Rightarrow> nat \<Rightarrow> StackVreg \<Rightarrow> Stack option" where
  "Stack_set s slot elem = do { check (slot < length s); Some (s[slot := elem]) }"

definition consumeArguments :: "Stack \<Rightarrow> nat \<Rightarrow> Stack option" where
  "consumeArguments s numSlots = do { check (numSlots \<le> length s); Some (drop numSlots s) }"

definition addDef :: "Stack \<Rightarrow> StackVreg \<Rightarrow> Stack" where
  "addDef s r = r # s"

definition slotContains :: "Stack \<Rightarrow> nat \<Rightarrow> StackVreg \<Rightarrow> bool option" where
  "slotContains s slot elem = do { check (slot < length s); Some (s ! slot = elem) }"

definition Stack_exist :: "Stack \<Rightarrow> StackVreg \<Rightarrow> bool" where
  "Stack_exist s elem \<longleftrightarrow> elem \<in> set s"

definition Stack_count :: "Stack \<Rightarrow> StackVreg \<Rightarrow> nat" where
  "Stack_count s elem = count_list s elem"

definition filterByImpDefs :: "Stack \<Rightarrow> Stack \<Rightarrow> Stack" where
  "filterByImpDefs s theStack =
     map (\<lambda>v. if v \<noteq> UnusedReg \<and> \<not> Stack_exist theStack v then UnusedReg else v) s"

text \<open>
  fillUnusedRegs walks the stack from the top and replaces unused slots by registers taken from
  the back of Regs; the reference parameter Regs is returned with what is left.
\<close>

fun fillUnusedRegs :: "Stack \<Rightarrow> StackVreg list \<Rightarrow> Stack \<times> StackVreg list" where
  "fillUnusedRegs [] regs = ([], regs)"
| "fillUnusedRegs (v # s) regs =
     (if regs = [] then (v # s, regs)
      else if v = UnusedReg
           then (let (s', regs') = fillUnusedRegs s (butlast regs) in (last regs # s', regs'))
           else (let (s', regs') = fillUnusedRegs s regs in (v # s', regs')))"

section \<open>operator +=\<close>

subsection \<open>The elementary changes\<close>

definition insert_at :: "nat \<Rightarrow> 'a list \<Rightarrow> 'a list \<Rightarrow> 'a list" where
  "insert_at n ys xs = take n xs @ ys @ drop n xs"

fun apply_simple :: "Change \<Rightarrow> Stack \<Rightarrow> Stack option" where
  "apply_simple (pop i) s = do { check (i < length s); Some (tl (s[i := s ! 0])) }"
| "apply_simple (xchgTop i) s = do { check (i < length s); Some (swap_at 0 i s) }"
| "apply_simple (xchg i j) s = do {
     check (i < length s); check (j < length s); Some (swap_at i j s) }"
| "apply_simple (pushI i) s = do { check (i < length s); Some (s ! i # s) }"
| "apply_simple (pushHidden i r) s = Some s"
| "apply_simple pushUndef s = Some (UnusedReg # s)"
| "apply_simple (blkswap d t) s = do {
     check (d + t \<le> length s);
     Some (insert_at d (take t s) (drop t s)) }"
| "apply_simple (roll i) s = do {
     check (nat \<bar>i\<bar> < length s);
     if i > 0 then Some (s ! nat i # take (nat i) s @ drop (Suc (nat i)) s)
     else Some (insert_at (nat (- i)) [hd s] (tl s)) }"
| "apply_simple (reverse d t) s = do {
     check (t + d \<le> length s);
     Some (take t s @ rev (take d (drop t s)) @ drop (t + d) s) }"
| "apply_simple (blkdrop n) s = do { check (n \<le> length s); Some (drop n s) }"
| "apply_simple (doubleChange p0 p1 i j) s = None"
| "apply_simple (tripleChange p0 p1 p2 i j k) s = None"

subsection \<open>The compound changes as sequences of elementary ones\<close>

fun double_steps :: "bool \<Rightarrow> bool \<Rightarrow> nat \<Rightarrow> nat \<Rightarrow> Change list" where
  "double_steps True True i j = [pushI i, pushI (j + 1)]"
| "double_steps True False i j = [pushI i, xchgTop 1, xchgTop (j + 1)]"
| "double_steps False True i j = [xchgTop i, pushI j]"
| "double_steps False False i j = [xchg_unchecked 1 i, xchgTop j]"

fun triple_steps :: "bool \<Rightarrow> bool \<Rightarrow> bool \<Rightarrow> nat \<Rightarrow> nat \<Rightarrow> nat \<Rightarrow> Change list" where
  "triple_steps True True True i j k = [pushI i, pushI (j + 1), pushI (k + 2)]"
| "triple_steps True True False i j k =
     [pushI i, xchgTop 1, pushI (j + 1), xchgTop 1, xchgTop (k + 2)]"
| "triple_steps True False True i j k = [pushI i, xchgTop 1, xchgTop (j + 1), pushI (k + 1)]"
| "triple_steps True False False i j k =
     [pushI i, xchgTop 2, xchg_unchecked 1 (j + 1), xchgTop (k + 1)]"
| "triple_steps False True True i j k = [xchgTop i, pushI j, pushI (k + 1)]"
| "triple_steps False True False i j k =
     [xchg_unchecked 1 i, pushI j, xchgTop 1, xchgTop (k + 1)]"
| "triple_steps False False True i j k = [xchg_unchecked 1 i, xchgTop j, pushI k]"
| "triple_steps False False False i j k =
     [xchg_unchecked 2 i, xchg_unchecked 1 j, xchgTop k]"

fun apply_change :: "Change \<Rightarrow> Stack \<Rightarrow> Stack option" where
  "apply_change (doubleChange p0 p1 i j) s = do {
     check (i < length s); check (j < length s);
     foldM apply_simple (double_steps p0 p1 i j) s }"
| "apply_change (tripleChange p0 p1 p2 i j k) s = do {
     check (i < length s); check (j < length s); check (k < length s);
     foldM apply_simple (triple_steps p0 p1 p2 i j k) s }"
| "apply_change c s = apply_simple c s"

section \<open>Elementary facts\<close>

lemma UnusedReg_max: "r < 2 ^ 32 \<Longrightarrow> r \<le> UnusedReg"
  by (simp add: UnusedReg_def)

lemma length_insert_at [simp]: "length (insert_at n ys xs) = length xs + length ys"
  by (simp add: insert_at_def)

lemma nth_insert_at:
  "n \<le> length xs \<Longrightarrow> k < length xs + length ys \<Longrightarrow>
   insert_at n ys xs ! k =
     (if k < n then xs ! k else if k < n + length ys then ys ! (k - n) else xs ! (k - length ys))"
  by (auto simp: insert_at_def nth_append min_def)

lemma mset_insert_at [simp, perm_simps]: "mset (insert_at n ys xs) = mset ys + mset xs"
  by (simp add: insert_at_def) (metis append_take_drop_id mset_append union_commute)

lemma mset_take_drop [perm_simps]: "mset (take n xs) + mset (drop n xs) = mset xs"
  by (metis append_take_drop_id mset_append)

end
