(* ===== verification/TVM_Fixup.thy ===== *)
theory TVM_Fixup
  imports TVM_Stack
begin

text \<open>
  StackFixup (TVMStackFixup.cpp): a sequence of changes with a comment each, applied to a stack by
  apply; removal of elements, the peephole pass optimize, and annotate. A comment is the rendering
  of a stack; the model keeps the stack it renders (None is the empty comment).
\<close>

section \<open>The interface of step-wise execution\<close>

text \<open>
  Anything that runs a list of steps one after the other, failing as soon as one fails. The
  fixups interpret it with operator +=, the code generator with the machine it targets.
\<close>

locale step_runner =
  fixes step :: "'c \<Rightarrow> 's \<Rightarrow> 's option"
    and run :: "'c list \<Rightarrow> 's \<Rightarrow> 's option"
  assumes run_Nil: "run [] s = Some s"
    and run_Cons: "run (c # cs) s = step c s \<bind> run cs"
begin

lemma run_append: "run (cs @ ds) s = run cs s \<bind> run ds"
  by (induction cs arbitrary: s) (simp_all add: run_Nil run_Cons split: Option.bind_splits)

lemma run_append_Some:
  "run (cs @ ds) s = Some u \<longleftrightarrow> (\<exists>t. run cs s = Some t \<and> run ds t = Some u)"
  by (simp add: run_append bind_eq_Some_conv)

lemma run_single: "run [c] s = step c s"
  by (cases "step c s") (simp_all add: run_Nil run_Cons)

lemma run_preserves:
  assumes "run cs s = Some t" and "P s"
    and "\<And>c u v. c \<in> set cs \<Longrightarrow> step c u = Some v \<Longrightarrow> P u \<Longrightarrow> P v"
  shows "P t"
  using assms
proof (induction cs arbitrary: s)
  case Nil
  then show ?case by (simp add: run_Nil)
next
  case (Cons c cs)
  then obtain u where u: "step c s = Some u" "run cs u = Some t"
    by (auto simp: run_Cons bind_eq_Some_conv)
  have "P u" by (rule Cons.prems(3) [OF _ u(1) Cons.prems(2)]) simp
  then show ?case
    by (rule Cons.IH [OF u(2)]) (rule Cons.prems(3); simp)
qed

lemma run_measure:
  assumes "run cs s = Some t"
    and "\<And>c u v. c \<in> set cs \<Longrightarrow> step c u = Some v \<Longrightarrow> f v = f u"
  shows "f t = f s"
  by (rule run_preserves [OF assms(1), of "\<lambda>u. f u = f s"]) (simp_all add: assms(2))

end

section \<open>State and application\<close>

type_synonym Comment = "Stack option"
type_synonym StackFixup = "(Change \<times> Comment) list"

definition add_change :: "Change \<Rightarrow> StackFixup \<Rightarrow> StackFixup" where
  "add_change c fx = fx @ [(c, None)]"

definition set_last_comment :: "Stack \<Rightarrow> StackFixup \<Rightarrow> StackFixup option" where
  "set_last_comment s fx =
     (if fx = [] then None else Some (butlast fx @ [(fst (last fx), Some s)]))"

text \<open>The idiom rv(cur += rv(change)): append, perform on the running stack, comment.\<close>

definition emit :: "Change \<Rightarrow> StackFixup \<times> Stack \<Rightarrow> (StackFixup \<times> Stack) option" where
  "emit c = (\<lambda>(fx, cur). do {
     let fx1 = add_change c fx;
     cur' \<leftarrow> apply_change c cur;
     fx2 \<leftarrow> set_last_comment cur' fx1;
     Some (fx2, cur') })"

definition changes :: "StackFixup \<Rightarrow> Change list" where
  "changes fx = map fst fx"

definition apply_changes :: "Change list \<Rightarrow> Stack \<Rightarrow> Stack option" where
  "apply_changes = foldM apply_change"

definition apply_fixup :: "StackFixup \<Rightarrow> Stack \<Rightarrow> Stack option" where
  "apply_fixup fx s = apply_changes (changes fx) s"

fun annotate :: "StackFixup \<Rightarrow> Stack \<Rightarrow> StackFixup option" where
  "annotate [] cur = Some []"
| "annotate ((c, _) # fx) cur = do {
     cur' \<leftarrow> apply_change c cur;
     fx' \<leftarrow> annotate fx cur';
     Some ((c, Some cur') # fx') }"

interpretation fixup: step_runner apply_change apply_changes
  by unfold_locales (simp_all add: apply_changes_def)

section \<open>Removal of elements\<close>

definition removeElem :: "StackVreg \<Rightarrow> StackFixup \<times> Stack \<Rightarrow> (StackFixup \<times> Stack) option" where
  "removeElem vreg = (\<lambda>(fx, stack). do {
     i \<leftarrow> Stack_position stack vreg;
     if i = 0 then emit (pop 0) (fx, stack)
     else if i = 1 then emit (pop 1) (fx, stack)
     else do {
       c \<leftarrow> makeRoll i;
       st \<leftarrow> emit c (fx, stack);
       emit (pop 0) st } })"

fun removeNElem ::
  "nat \<Rightarrow> StackVreg \<Rightarrow> StackFixup \<times> Stack \<Rightarrow> (StackFixup \<times> Stack) option" where
  "removeNElem 0 vreg st = Some st"
| "removeNElem (Suc n) vreg st = removeElem vreg st \<bind> removeNElem n vreg"

definition removeAllElem ::
  "StackVreg \<Rightarrow> StackFixup \<times> Stack \<Rightarrow> (StackFixup \<times> Stack) option" where
  "removeAllElem vreg st = removeNElem (Stack_count (snd st) vreg) vreg st"

section \<open>optimize\<close>

text \<open>
  The iterator loop of optimizeEqualXchgs with the iterator as an index: two neighbouring equal
  exchanges with the top are erased and the scan steps back to the element before them.
\<close>

function optimizeEqualXchgs_loop :: "(Change \<times> 'c) list \<Rightarrow> nat \<Rightarrow> (Change \<times> 'c) list" where
  "optimizeEqualXchgs_loop cs it =
     (if it \<ge> length cs then cs
      else if it = 0 then optimizeEqualXchgs_loop cs 1
      else (case (fst (cs ! it), fst (cs ! (it - 1))) of
              (xchgTop a, xchgTop b) \<Rightarrow>
                if a = b then optimizeEqualXchgs_loop (take (it - 1) cs @ drop (it + 1) cs) (it - 1)
                else optimizeEqualXchgs_loop cs (it + 1)
            | _ \<Rightarrow> optimizeEqualXchgs_loop cs (it + 1)))"
  by pat_completeness auto
termination
  by (relation "measure (\<lambda>(cs, it). 2 * length cs - it)") auto

declare optimizeEqualXchgs_loop.simps [simp del]

definition optimizeEqualXchgs :: "(Change \<times> 'c) list \<Rightarrow> (Change \<times> 'c) list" where
  "optimizeEqualXchgs cs = (if cs = [] then [] else optimizeEqualXchgs_loop cs 1)"

fun is_push :: "Change \<Rightarrow> bool" where
  "is_push (pushI i) = True"
| "is_push pushUndef = True"
| "is_push _ = False"

definition optimize :: "bool \<Rightarrow> (Change \<times> 'c) list \<Rightarrow> (Change \<times> 'c) list" where
  "optimize isCommutative cs0 =
     (if cs0 = [] then []
      else (let cs = optimizeEqualXchgs cs0
            in if isCommutative
               then (if length cs = 1
                     then (if fst (cs ! 0) = xchgTop 1 then [] else cs)
                     else if length cs = 2 \<and> is_push (fst (cs ! 0))
                     then (if fst (cs ! 1) = xchgTop 1 then butlast cs else cs)
                     else cs)
               else cs))"

subsection \<open>optimize keeps what the fixup does\<close>

lemma xchgTop_twice:
  "apply_change (xchgTop a) s = Some t \<Longrightarrow> apply_change (xchgTop a) t = Some s"
  by (auto simp: swap_at_swap_at split: if_splits)

lemma changes_take_drop: "changes (take n fx @ drop m fx) = take n (changes fx) @ drop m (changes fx)"
  by (simp add: changes_def take_map drop_map)

lemma apply_changes_erase_pair:
  assumes "apply_changes (cs @ xchgTop a # xchgTop a # ds) s = Some t"
  shows "apply_changes (cs @ ds) s = Some t"
proof -
  from assms obtain u v w where "apply_changes cs s = Some u" and
      uv: "apply_change (xchgTop a) u = Some v" and vw: "apply_change (xchgTop a) v = Some w" and
      "apply_changes ds w = Some t"
    by (auto simp: fixup.run_append_Some fixup.run_Cons bind_eq_Some_conv
        simp del: apply_change.simps)
  moreover have "w = u"
    using xchgTop_twice [OF uv] vw by simp
  ultimately show ?thesis by (simp add: fixup.run_append)
qed

lemma optimizeEqualXchgs_loop_cases:
  obtains (stop) "optimizeEqualXchgs_loop cs it = cs"
  | (start) "it = 0" "it < length cs" "optimizeEqualXchgs_loop cs it = optimizeEqualXchgs_loop cs 1"
  | (erase) n a where "it = Suc n" "Suc n < length cs"
      "fst (cs ! Suc n) = xchgTop a" "fst (cs ! n) = xchgTop a"
      "optimizeEqualXchgs_loop cs it =
       optimizeEqualXchgs_loop (take n cs @ drop (Suc (Suc n)) cs) n"
  | (skip) "it \<noteq> 0" "it < length cs"
      "\<not> (\<exists>a. fst (cs ! it) = xchgTop a \<and> fst (cs ! (it - 1)) = xchgTop a)"
      "optimizeEqualXchgs_loop cs it = optimizeEqualXchgs_loop cs (it + 1)"
proof -
  consider "it \<ge> length cs" | "it = 0" "it < length cs"
    | a where "it \<noteq> 0" "it < length cs" "fst (cs ! it) = xchgTop a" "fst (cs ! (it - 1)) = xchgTop a"
    | "it \<noteq> 0" "it < length cs"
      "\<not> (\<exists>a. fst (cs ! it) = xchgTop a \<and> fst (cs ! (it - 1)) = xchgTop a)"
    by fastforce
  then show thesis
  proof cases
    case 1
    then show ?thesis by (intro stop) (simp add: optimizeEqualXchgs_loop.simps [of cs it])
  next
    case 2
    then show ?thesis by (intro start) (simp_all add: optimizeEqualXchgs_loop.simps [of cs 0])
  next
    case 3
    then obtain n where "it = Suc n" by (cases it) auto
    with 3 show ?thesis
      by (intro erase [of n a]) (simp_all add: optimizeEqualXchgs_loop.simps [of cs "Suc n"])
  next
    case 4
    have "optimizeEqualXchgs_loop cs it = optimizeEqualXchgs_loop cs (it + 1)"
      using 4 by (subst optimizeEqualXchgs_loop.simps) (auto split: Change.splits)
    with 4 show ?thesis by (intro skip)
  qed
qed

lemma optimizeEqualXchgs_loop_sound:
  "apply_changes (map fst cs) s = Some t \<Longrightarrow>
   apply_changes (map fst (optimizeEqualXchgs_loop cs it)) s = Some t"
proof (induction "2 * length cs - it" arbitrary: cs it rule: less_induct)
  case less
  show ?case
  proof (cases rule: optimizeEqualXchgs_loop_cases [of cs it])
    case stop
    with less.prems show ?thesis by simp
  next
    case start
    with less show ?thesis by simp
  next
    case (erase n a)
    have "cs = take n cs @ cs ! n # cs ! Suc n # drop (Suc (Suc n)) cs"
      using erase(2) by (metis Cons_nth_drop_Suc Suc_lessD id_take_nth_drop)
    then have "map fst cs = map fst (take n cs @ cs ! n # cs ! Suc n # drop (Suc (Suc n)) cs)"
      by (rule arg_cong)
    also have "\<dots> = map fst (take n cs) @ xchgTop a # xchgTop a # map fst (drop (Suc (Suc n)) cs)"
      using erase(3,4) by simp
    finally have "apply_changes (map fst (take n cs @ drop (Suc (Suc n)) cs)) s = Some t"
      by (metis apply_changes_erase_pair less.prems map_append)
    moreover have "2 * length (take n cs @ drop (Suc (Suc n)) cs) - n < 2 * length cs - it"
      using erase(1,2) by simp
    ultimately show ?thesis
      unfolding erase(5) by (intro less.hyps)
  next
    case skip
    with less show ?thesis by simp
  qed
qed

lemma optimizeEqualXchgs_sound:
  "apply_changes (map fst cs) s = Some t \<Longrightarrow>
   apply_changes (map fst (optimizeEqualXchgs cs)) s = Some t"
  by (cases "cs = []") (simp_all add: optimizeEqualXchgs_def optimizeEqualXchgs_loop_sound)

lemma optimize_sound:
  "apply_changes (map fst cs) s = Some t \<Longrightarrow>
   apply_changes (map fst (optimize False cs)) s = Some t"
  using optimizeEqualXchgs_sound [of cs s t] by (cases "cs = []") (simp_all add: optimize_def Let_def)

text \<open>For a commutative instruction the two topmost elements may come out exchanged.\<close>

lemma optimize_commutative_sound:
  assumes "apply_changes (map fst cs) s = Some t"
  shows "apply_changes (map fst (optimize c cs)) s = Some t \<or>
         (c \<and> 2 \<le> length t \<and> apply_changes (map fst (optimize c cs)) s = Some (swap_at 0 1 t))"
proof -
  note base = optimizeEqualXchgs_sound [OF assms]
  let ?cs = "optimizeEqualXchgs cs"
  show ?thesis
  proof (cases "c \<and> optimize c cs \<noteq> ?cs \<and> cs \<noteq> []")
    case False
    then have "cs = [] \<or> optimize c cs = ?cs"
      by (auto simp: optimize_def Let_def split: if_splits)
    then show ?thesis using base assms by (auto simp: optimize_def [of c "[]"])
  next
    case True
    then consider x where "?cs = [x]" "fst x = xchgTop 1" "optimize c cs = []"
      | x y where "?cs = [x, y]" "fst y = xchgTop 1" "optimize c cs = [x]"
      by (auto simp: optimize_def Let_def length_Suc_conv numeral_2_eq_2 split: if_splits)
    then show ?thesis
    proof cases
      case 1
      with base have "t = swap_at 0 1 s" "1 < length s"
        by (auto simp: fixup.run_single split: if_splits)
      moreover from this have "swap_at 0 1 t = s" by simp
      ultimately show ?thesis using 1 True
        by (simp add: fixup.run_Nil)
    next
      case 2
      with base obtain u where u: "apply_change (fst x) s = Some u" "t = swap_at 0 1 u" "1 < length u"
        by (auto simp: fixup.run_Cons fixup.run_Nil bind_eq_Some_conv split: if_splits)
      moreover from this have "swap_at 0 1 t = u" by simp
      ultimately show ?thesis using 2 True
        by (simp add: fixup.run_single)
    qed
  qed
qed

section \<open>Comments\<close>

text \<open>Every comment of a fixup is the stack after its change.\<close>

fun commented :: "StackFixup \<Rightarrow> Stack \<Rightarrow> bool" where
  "commented [] s = True"
| "commented ((c, m) # fx) s =
     (case apply_change c s of None \<Rightarrow> False | Some t \<Rightarrow> m = Some t \<and> commented fx t)"

lemma annotate_commented: "annotate fx s = Some fx' \<Longrightarrow> commented fx' s \<and> changes fx' = changes fx"
  by (induction fx s arbitrary: fx' rule: annotate.induct)
     (auto simp: bind_eq_Some_conv changes_def simp del: apply_change.simps)

lemma annotate_total:
  "apply_fixup fx s = Some t \<Longrightarrow> \<exists>fx'. annotate fx s = Some fx'"
  by (induction fx s rule: annotate.induct)
     (auto simp: apply_fixup_def changes_def fixup.run_Cons bind_eq_Some_conv simp del: apply_change.simps)

lemma commented_append:
  "commented (fx @ gx) s \<longleftrightarrow>
   (\<exists>t. commented fx s \<and> apply_fixup fx s = Some t \<and> commented gx t)"
  by (induction fx s rule: commented.induct)
     (auto simp: apply_fixup_def changes_def fixup.run_Cons fixup.run_Nil bind_eq_Some_conv
        simp del: apply_change.simps split: option.splits)

subsection \<open>The emitting idiom\<close>

text \<open>
  built s (fx, cur): the fixup fx leads from s to the running stack cur, and every comment is right.
\<close>

definition built :: "Stack \<Rightarrow> StackFixup \<times> Stack \<Rightarrow> bool" where
  "built s = (\<lambda>(fx, cur). apply_fixup fx s = Some cur \<and> commented fx s)"

lemma built_init [simp]: "built s ([], s)"
  by (simp add: built_def apply_fixup_def changes_def fixup.run_Nil)

lemma emit_eq: "emit c (fx, cur) = map_option (\<lambda>t. (fx @ [(c, Some t)], t)) (apply_change c cur)"
  by (cases "apply_change c cur")
     (simp_all add: emit_def add_change_def set_last_comment_def Let_def)

lemma emit_built:
  "emit c st = Some st' \<Longrightarrow> built s st \<Longrightarrow> built s st'"
  by (cases st)
     (auto simp: emit_eq built_def apply_fixup_def changes_def fixup.run_append fixup.run_single
        commented_append simp del: apply_change.simps)

section \<open>Printing\<close>

definition printElement :: "(StackVreg \<Rightarrow> string) \<Rightarrow> StackVreg \<Rightarrow> string" where
  "printElement printReg v = (if v = UnusedReg then ''x'' else printReg v)"

definition Stack_print :: "(StackVreg \<Rightarrow> string) \<Rightarrow> Stack \<Rightarrow> string" where
  "Stack_print printReg s =
     ''{ '' @ concat (map (\<lambda>e. printElement printReg e @ '' | '') (rev s)) @ ''- }''"

end
