(* ===== verification/TVM_Deleter.thy ===== *)
theory TVM_Deleter
  imports TVM_Fixup
begin

text \<open>
  The Deleter of TVMStackFixup.cpp: find the positions of the registers to delete, gather them block
  by block on top of the stack, and drop them together.
\<close>

section \<open>The model\<close>

text \<open>
  The constructor's loop takes registers from the back of delVregs; for a register equal to the
  last one the search goes on behind the last position.
\<close>

fun Deleter_find ::
  "Stack \<Rightarrow> StackVreg list \<Rightarrow> StackVreg option \<Rightarrow> nat \<Rightarrow> nat list \<Rightarrow> nat list option" where
  "Deleter_find cur [] lastVreg lastPos acc = Some acc"
| "Deleter_find cur (v # vs) lastVreg lastPos acc = do {
     pos \<leftarrow> (if lastVreg = Some v then Stack_position_from cur (lastPos + 1) v
             else Stack_position cur v);
     Deleter_find cur vs (Some v) pos (acc @ [pos]) }"

definition Deleter_indices :: "Stack \<Rightarrow> StackVreg list \<Rightarrow> nat list option" where
  "Deleter_indices cur delVregs = map_option sort (Deleter_find cur (rev delVregs) None 0 [])"

text \<open>The inner loop of extractBlock: how far the run of consecutive indices goes.\<close>

fun extend_block :: "nat \<Rightarrow> nat list \<Rightarrow> nat \<times> nat list" where
  "extend_block curLast [] = (curLast, [])"
| "extend_block curLast (x # xs) =
     (if curLast + 1 = x then extend_block (curLast + 1) xs else (curLast, x # xs))"

fun extractBlock :: "nat list \<Rightarrow> ((nat \<times> nat) \<times> nat list) option" where
  "extractBlock [] = None"
| "extractBlock (x # xs) = (let (l, rest) = extend_block x xs in Some ((x, l), rest))"

lemma extend_block_length: "length (snd (extend_block l xs)) \<le> length xs"
  by (induction l xs rule: extend_block.induct) auto

lemma extractBlock_length: "extractBlock xs = Some (b, rest) \<Longrightarrow> length rest < length xs"
  using extend_block_length [of "hd xs" "tl xs"]
  by (cases xs) (auto split: prod.splits)

function deleteBlocks_loop ::
  "nat list \<Rightarrow> StackFixup \<times> Stack \<Rightarrow> (StackFixup \<times> Stack) option" where
  "deleteBlocks_loop idx st =
     (case extractBlock idx of
        None \<Rightarrow> Some st
      | Some ((beg, lst), rest) \<Rightarrow> do {
          let sz = 1 + lst - beg;
          st' \<leftarrow> (if beg \<noteq> 0 then do { c \<leftarrow> makeBlkSwap sz beg; emit c st } else Some st);
          deleteBlocks_loop rest st' })"
  by pat_completeness auto
termination
  by (relation "measure (\<lambda>(idx, st). length idx)") (auto dest: extractBlock_length)

declare deleteBlocks_loop.simps [simp del]

definition deleteBlocks ::
  "nat list \<Rightarrow> StackFixup \<times> Stack \<Rightarrow> (StackFixup \<times> Stack) option" where
  "deleteBlocks idx st = do {
     st' \<leftarrow> deleteBlocks_loop idx st;
     if length idx \<noteq> 0 then do { c \<leftarrow> makeBlkdrop (length idx); emit c st' } else Some st' }"

section \<open>Moving a block to the top\<close>

definition block_to_top :: "nat \<Rightarrow> nat \<Rightarrow> 'a list \<Rightarrow> 'a list" where
  "block_to_top d t s = take d (drop t s) @ take t s @ drop (d + t) s"

lemma length_block_to_top [simp]: "d + t \<le> length s \<Longrightarrow> length (block_to_top d t s) = length s"
  by (simp add: block_to_top_def)

lemma mset_block_to_top [simp, perm_simps]: "mset (block_to_top d t s) = mset s"
proof -
  have "s = take t s @ take d (drop t s) @ drop (d + t) s"
    by (metis append_take_drop_id drop_drop)
  then have "mset s = mset (take t s) + (mset (take d (drop t s)) + mset (drop (d + t) s))"
    by (metis mset_append)
  then show ?thesis by (simp add: block_to_top_def)
qed

lemma apply_blkswap:
  "d + t \<le> length s \<Longrightarrow> apply_change (blkswap d t) s = Some (block_to_top d t s)"
  by (simp add: insert_at_def block_to_top_def add.commute)

lemma apply_roll:
  assumes "0 < t" "t < length s"
  shows "apply_change (roll (int t)) s = Some (block_to_top 1 t s)"
  using assms by (simp add: block_to_top_def take_Suc hd_drop_conv_nth)

lemma apply_rollrev:
  assumes "0 < d" "d < length s"
  shows "apply_change (roll (- int d)) s = Some (block_to_top d 1 s)"
  using assms by (cases s) (simp_all add: block_to_top_def insert_at_def)

lemma apply_swap_block:
  "2 \<le> length s \<Longrightarrow> apply_change (xchgTop (Suc 0)) s = Some (block_to_top (Suc 0) (Suc 0) s)"
  by (cases s; cases "tl s") (auto simp: block_to_top_def swap_at_def)

lemma makeRoll_apply:
  assumes "0 < t" "t < length s"
  shows "\<exists>c. makeRoll t = Some c \<and> apply_change c s = Some (block_to_top 1 t s)"
  using makeRoll_cases [OF assms(1)]
proof
  assume "makeRoll t = Some (if t = 1 then xchgTop 1 else roll (int t))"
  then show ?thesis using assms apply_swap_block apply_roll by (cases "t = 1") auto
next
  assume "makeRoll t = Some (blkswap 1 t)"
  then show ?thesis using assms apply_blkswap by (metis Suc_leI plus_1_eq_Suc)
qed

lemma makeRollRev_apply:
  assumes "0 < d" "d < length s"
  shows "\<exists>c. makeRollRev d = Some c \<and> apply_change c s = Some (block_to_top d 1 s)"
  using makeRollRev_cases [OF assms(1)]
proof
  assume "makeRollRev d = Some (if d = 1 then xchgTop 1 else roll (- int d))"
  then show ?thesis using assms apply_swap_block apply_rollrev by (cases "d = 1") auto
next
  assume "makeRollRev d = Some (blkswap d 1)"
  then show ?thesis using assms apply_blkswap by (metis Suc_eq_plus1 Suc_leI)
qed

lemma makeBlkSwap_apply:
  assumes "0 < d" "0 < t" "d + t \<le> length s"
  shows "\<exists>c. makeBlkSwap d t = Some c \<and> apply_change c s = Some (block_to_top d t s)"
proof -
  consider "d = 1" | "d \<noteq> 1" "t = 1" | "d \<noteq> 1" "t \<noteq> 1" by blast
  then show ?thesis
  proof cases
    case 1
    then show ?thesis using makeRoll_apply [of t s] assms by (simp add: makeBlkSwap_def)
  next
    case 2
    then show ?thesis using makeRollRev_apply [of d s] assms by (simp add: makeBlkSwap_def)
  next
    case 3
    then show ?thesis using apply_blkswap [OF assms(3)] assms(1)
      by (simp add: makeBlkSwap_def mk_blkswap_def del: apply_change.simps)
  qed
qed

lemma emit_apply:
  "apply_change c cur = Some t \<Longrightarrow> emit c (fx, cur) = Some (fx @ [(c, Some t)], t)"
  by (simp add: emit_eq)

text \<open>The same on the emitting state: what the fixup looks like is kept by built alone.\<close>

lemma emit_makeBlkSwap:
  assumes "0 < d" "0 < t" "d + t \<le> length (snd st)" "built s st"
  shows "\<exists>c st'. makeBlkSwap d t = Some c \<and> emit c st = Some st' \<and> built s st' \<and>
           snd st' = block_to_top d t (snd st)"
proof -
  obtain fx cur where st: "st = (fx, cur)" by (cases st)
  obtain c where c: "makeBlkSwap d t = Some c" "apply_change c cur = Some (block_to_top d t cur)"
    using makeBlkSwap_apply [of d t cur] assms st by auto
  then have e: "emit c st = Some (fx @ [(c, Some (block_to_top d t cur))], block_to_top d t cur)"
    by (simp add: st emit_apply)
  with c emit_built [OF e assms(4)] show ?thesis by (auto simp: st)
qed

lemma emit_makeBlkdrop:
  assumes "0 < n" "n \<le> length (snd st)" "built s st"
  shows "\<exists>c st'. makeBlkdrop n = Some c \<and> emit c st = Some st' \<and> built s st' \<and>
           snd st' = drop n (snd st)"
proof -
  obtain fx cur where st: "st = (fx, cur)" by (cases st)
  have "\<exists>c. makeBlkdrop n = Some c \<and> apply_change c cur = Some (drop n cur)"
    using assms(1,2) st by (cases cur; cases "n = 1") (simp_all add: makeBlkdrop_def)
  then obtain c where c: "makeBlkdrop n = Some c" "apply_change c cur = Some (drop n cur)"
    by blast
  then have e: "emit c st = Some (fx @ [(c, Some (drop n cur))], drop n cur)"
    by (simp add: st emit_apply)
  with c emit_built [OF e assms(3)] show ?thesis by (auto simp: st)
qed

section \<open>Finding the positions\<close>

text \<open>Equal elements are neighbours.\<close>

fun grouped :: "'a list \<Rightarrow> bool" where
  "grouped [] = True"
| "grouped (x # xs) \<longleftrightarrow> (x \<in> set xs \<longrightarrow> hd xs = x) \<and> grouped xs"

lemma grouped_replicate_append: "grouped ys \<Longrightarrow> x \<notin> set ys \<Longrightarrow> grouped (replicate n x @ ys)"
  by (induction n) (auto simp: hd_append)

lemma grouped_descending: "sorted_wrt (\<ge>) (xs :: nat list) \<Longrightarrow> grouped xs"
proof (induction xs)
  case (Cons x xs)
  then show ?case by (cases xs) (auto intro: antisym)
qed simp

lemma count_mset_card: "count (mset xs) v = card {q. q < length xs \<and> xs ! q = v}"
proof -
  have "count (mset xs) v = length (filter (\<lambda>y. y = v) xs)"
    by (induction xs) auto
  then show ?thesis by (simp add: length_filter_conv_card)
qed

lemma count_image_distinct:
  "distinct acc \<Longrightarrow> count (image_mset f (mset acc)) v = card {q \<in> set acc. f q = v}"
proof (induction acc)
  case (Cons a acc)
  have "{q \<in> set (a # acc). f q = v} =
      (if f a = v then insert a {q \<in> set acc. f q = v} else {q \<in> set acc. f q = v})"
    by auto
  with Cons show ?case by (simp add: card_insert_if)
qed simp

text \<open>
  The state of the search: the positions found so far are distinct, and of the register found last
  they are exactly the ones up to its last position.
\<close>

definition found_inv :: "Stack \<Rightarrow> StackVreg list \<Rightarrow> StackVreg option \<Rightarrow> nat \<Rightarrow> nat list \<Rightarrow> bool" where
  "found_inv cur vs lastVreg p acc \<longleftrightarrow>
     distinct acc \<and> set acc \<subseteq> {..<length cur} \<and>
     (lastVreg = None \<longrightarrow> acc = []) \<and>
     (\<forall>v. lastVreg = Some v \<longrightarrow> p < length cur \<and> (v \<in> set vs \<longrightarrow> hd vs = v) \<and>
        {q \<in> set acc. cur ! q = v} = {q. q \<le> p \<and> cur ! q = v}) \<and>
     (\<forall>w \<in> set vs. lastVreg \<noteq> Some w \<longrightarrow> w \<notin> (!) cur ` set acc) \<and>
     mset vs + image_mset ((!) cur) (mset acc) \<subseteq># mset cur"

lemma found_inv_sub:
  "found_inv cur vs lastVreg p acc \<Longrightarrow>
   mset vs + image_mset ((!) cur) (mset acc) \<subseteq># mset cur"
  by (simp add: found_inv_def)

lemma found_inv_first:
  assumes inv: "found_inv cur (v # vs) lastVreg p acc" and "lastVreg \<noteq> Some v"
    and "grouped (v # vs)"
  shows "\<exists>i. Stack_position cur v = Some i \<and> found_inv cur vs (Some v) i (acc @ [i])"
proof -
  have "v \<in> set cur"
    using inv by (auto simp: found_inv_def dest: mset_subset_eqD)
  then obtain i where i: "Stack_position cur v = Some i"
    by (auto simp: Stack_position_def dest: find_index_member)
  then have fi: "i < length cur" "cur ! i = v" "\<forall>j < i. cur ! j \<noteq> v"
    by (auto simp: Stack_position_def dest: find_index_Some)
  have new: "\<forall>q \<in> set acc. cur ! q \<noteq> v" using inv assms(2) by (auto simp: found_inv_def)
  have "{q \<in> set (acc @ [i]). cur ! q = v} = {q. q \<le> i \<and> cur ! q = v}"
    using fi new by (auto simp: le_less)
  moreover have "w \<notin> (!) cur ` set (acc @ [i])" if "w \<in> set vs" "v \<noteq> w" for w
    using that inv assms(3) fi(2) by (cases vs) (auto simp: found_inv_def)
  ultimately have "found_inv cur vs (Some v) i (acc @ [i])"
    using inv fi new assms(3) by (auto simp: found_inv_def add.commute)
  with i show ?thesis by blast
qed

lemma found_inv_next:
  assumes inv: "found_inv cur (v # vs) (Some v) p acc" and "grouped (v # vs)"
  shows "\<exists>i. Stack_position_from cur (p + 1) v = Some i \<and> found_inv cur vs (Some v) i (acc @ [i])"
proof -
  let ?A = "{q. q < p + 1 \<and> cur ! q = v}"
  have p: "p < length cur" and acc: "{q \<in> set acc. cur ! q = v} = ?A" and dist: "distinct acc"
    using inv by (auto simp: found_inv_def)
  have "count (mset (take (p + 1) cur)) v = card ?A"
    using p by (simp add: count_mset_card) (metis (mono_tags, lifting) less_trans_Suc nth_take)
  moreover have "count (image_mset ((!) cur) (mset acc)) v = card ?A"
    using count_image_distinct [OF dist, of "(!) cur" v] acc by simp
  moreover have "count (mset (v # vs) + image_mset ((!) cur) (mset acc)) v \<le> count (mset cur) v"
    using inv mset_subset_eq_count by (fast dest: found_inv_sub)
  moreover have "count (mset cur) v =
      count (mset (take (p + 1) cur)) v + count (mset (drop (p + 1) cur)) v"
    by (metis append_take_drop_id count_union mset_append)
  ultimately have "Suc (count (mset vs) v) \<le> count (mset (drop (p + 1) cur)) v" by simp
  then have "0 < count (mset (drop (p + 1) cur)) v" by (rule less_le_trans [OF zero_less_Suc])
  then have "v \<in># mset (drop (p + 1) cur)" by (simp only: count_greater_zero_iff)
  then have "v \<in> set (drop (p + 1) cur)" by simp
  then obtain k where k: "find_index v (drop (p + 1) cur) = Some k"
    using find_index_member by fastforce
  define i where "i = p + 1 + k"
  have fi: "i < length cur" "cur ! i = v" "\<And>j. p < j \<Longrightarrow> j < i \<Longrightarrow> cur ! j \<noteq> v"
  proof -
    show "i < length cur" "cur ! i = v"
      using find_index_Some [OF k] by (auto simp: i_def)
    fix j assume "p < j" "j < i"
    then have "j - (p + 1) < k" "p + 1 + (j - (p + 1)) = j" by (auto simp: i_def)
    then show "cur ! j \<noteq> v" using find_index_Some [OF k] p by (metis Suc_eq_plus1 Suc_leI nth_drop)
  qed
  have "i \<notin> set acc" using acc fi by (auto simp: i_def)
  moreover have "{q \<in> set (acc @ [i]). cur ! q = v} = {q. q \<le> i \<and> cur ! q = v}"
  proof -
    have "{q \<in> set (acc @ [i]). cur ! q = v} = insert i ?A" using acc fi by auto
    also have "\<dots> = {q. q \<le> i \<and> cur ! q = v}"
      using fi by (auto simp: i_def) (metis Suc_eq_plus1 i_def le_neq_implies_less not_less_eq)
    finally show ?thesis .
  qed
  moreover have "w \<notin> (!) cur ` set (acc @ [i])" if "w \<in> set vs" "v \<noteq> w" for w
    using that inv fi(2) by (auto simp: found_inv_def)
  ultimately have "found_inv cur vs (Some v) i (acc @ [i])"
    using inv fi assms(2) by (auto simp: found_inv_def)
  then show ?thesis
    using k p by (auto simp: Stack_position_from_def i_def)
qed

lemma Deleter_find_found:
  "found_inv cur vs lastVreg p acc \<Longrightarrow> grouped vs \<Longrightarrow>
   \<exists>idx. Deleter_find cur vs lastVreg p acc = Some idx \<and> distinct idx \<and>
     set idx \<subseteq> {..<length cur} \<and>
     image_mset ((!) cur) (mset idx) = mset vs + image_mset ((!) cur) (mset acc)"
proof (induction vs arbitrary: lastVreg p acc)
  case Nil
  then show ?case by (simp add: found_inv_def)
next
  case (Cons v vs)
  have "\<exists>i. (if lastVreg = Some v then Stack_position_from cur (p + 1) v else Stack_position cur v)
       = Some i \<and> found_inv cur vs (Some v) i (acc @ [i]) \<and> cur ! i = v"
  proof (cases "lastVreg = Some v")
    case True
    with Cons.prems found_inv_next obtain i where
      "Stack_position_from cur (p + 1) v = Some i" "found_inv cur vs (Some v) i (acc @ [i])" by blast
    moreover from this(1) have "cur ! i = v"
      by (auto simp: Stack_position_from_def bind_eq_Some_conv split: if_splits dest!: find_index_Some)
    ultimately show ?thesis using True by simp
  next
    case False
    with Cons.prems found_inv_first obtain i where
      "Stack_position cur v = Some i" "found_inv cur vs (Some v) i (acc @ [i])" by blast
    moreover from this(1) have "cur ! i = v"
      by (auto simp: Stack_position_def dest!: find_index_Some)
    ultimately show ?thesis using False by simp
  qed
  then obtain i where i: "(if lastVreg = Some v then Stack_position_from cur (p + 1) v
      else Stack_position cur v) = Some i" "found_inv cur vs (Some v) i (acc @ [i])" "cur ! i = v"
    by blast
  from Cons.prems(2) have "grouped vs" by simp
  from Cons.IH [OF i(2) this] i(1,3) show ?case by auto
qed

lemma Deleter_indices_found:
  assumes "mset vs \<subseteq># mset cur" "grouped (rev vs)"
  shows "\<exists>idx. Deleter_indices cur vs = Some idx \<and> sorted_wrt (<) idx \<and>
     set idx \<subseteq> {..<length cur} \<and> image_mset ((!) cur) (mset idx) = mset vs"
proof -
  have "found_inv cur (rev vs) None 0 []"
    using assms(1) by (auto simp: found_inv_def)
  from Deleter_find_found [OF this assms(2)] show ?thesis
    by (fastforce simp: Deleter_indices_def strict_sorted_iff)
qed

section \<open>Gathering and dropping the blocks\<close>

definition select :: "(nat \<Rightarrow> bool) \<Rightarrow> nat \<Rightarrow> 'a list \<Rightarrow> 'a list" where
  "select P m s = map ((!) s) (filter P [0..<m])"

lemma select_split:
  assumes "m \<le> b" "b \<le> e" "e \<le> length s"
    and "\<And>i. m \<le> i \<Longrightarrow> i < b \<Longrightarrow> P i" and "\<And>i. b \<le> i \<Longrightarrow> i < e \<Longrightarrow> \<not> P i"
  shows "select P e s = select P m s @ take (b - m) (drop m s)"
proof -
  have "[0..<e] = [0..<m] @ [m..<b] @ [b..<e]"
    using assms(1,2) by (metis le0 le_trans upt_add_eq_append le_add_diff_inverse)
  moreover have "filter P [m..<b] = [m..<b]" "filter P [b..<e] = []"
    using assms(4,5) by (simp_all add: filter_id_conv filter_empty_conv)
  moreover have "map ((!) s) [m..<b] = take (b - m) (drop m s)"
    using assms(1-3) by (intro nth_equalityI) auto
  ultimately show ?thesis by (simp add: select_def)
qed

lemma extend_block_spec:
  assumes "sorted_wrt (<) (x # xs)" "extend_block x xs = (l, rest)"
  shows "x \<le> l \<and> set (x # xs) = {x..l} \<union> set rest \<and> (\<forall>r \<in> set rest. l + 1 < r) \<and>
         sorted_wrt (<) rest \<and> length (x # xs) = (l + 1 - x) + length rest"
  using assms
proof (induction x xs rule: extend_block.induct)
  case (1 x)
  then show ?case by simp
next
  case (2 x y ys)
  show ?case
  proof (cases "x + 1 = y")
    case True
    with 2 have "y \<le> l \<and> set (y # ys) = {y..l} \<union> set rest \<and> (\<forall>r \<in> set rest. l + 1 < r) \<and>
        sorted_wrt (<) rest \<and> length (y # ys) = (l + 1 - y) + length rest" by simp
    with True show ?thesis by auto
  next
    case False
    with "2.prems" show ?thesis by fastforce
  qed
qed

text \<open>
  The invariant between blocks: below position m the stack is the gathered elements followed by the
  kept ones, in their old order; from m on it is untouched.
\<close>

definition gathered :: "nat list \<Rightarrow> Stack \<Rightarrow> nat \<Rightarrow> nat \<Rightarrow> Stack \<Rightarrow> bool" where
  "gathered idx s m n cur \<longleftrightarrow>
     (\<exists>D. length D = n \<and> cur = D @ select (\<lambda>i. i \<notin> set idx) m s @ drop m s \<and>
          n + length (select (\<lambda>i. i \<notin> set idx) m s) = m)"

lemma gathered_step:
  assumes "gathered idx s m n cur" "m \<le> b" "b \<le> l" "l < length s"
    and "\<And>i. m \<le> i \<Longrightarrow> i < b \<Longrightarrow> i \<notin> set idx" and "{b..l} \<subseteq> set idx"
  shows "gathered idx s (l + 1) (n + (l + 1 - b)) (block_to_top (l + 1 - b) b cur)"
proof -
  let ?P = "\<lambda>i. i \<notin> set idx"
  obtain D where D: "length D = n" "cur = D @ select ?P m s @ drop m s"
    "n + length (select ?P m s) = m"
    using assms(1) by (auto simp: gathered_def)
  have sel: "select ?P (l + 1) s = select ?P m s @ take (b - m) (drop m s)"
    using assms(2-6) by (intro select_split [where b = b]) auto
  have "take b cur = D @ select ?P m s @ take (b - m) (drop m s)"
    using D assms(2) by simp
  moreover have "drop b cur = drop b s" "drop (l + 1 - b + b) cur = drop (l + 1) s"
    using D assms(2,3) by simp_all
  ultimately have "block_to_top (l + 1 - b) b cur =
      (take (l + 1 - b) (drop b s) @ D) @ select ?P (l + 1) s @ drop (l + 1) s"
    unfolding block_to_top_def sel by simp
  moreover have "length (take (l + 1 - b) (drop b s) @ D) = n + (l + 1 - b)"
    using D(1) assms(3,4) by simp
  moreover have "n + (l + 1 - b) + length (select ?P (l + 1) s) = l + 1"
    unfolding sel using D(3) assms(2-4) by simp
  ultimately show ?thesis unfolding gathered_def by blast
qed

lemma block_to_top_0: "block_to_top d 0 s = s"
  by (simp add: block_to_top_def)

lemma deleteBlocks_loop_gathers:
  assumes "gathered idx s m n (snd st)" "built s0 st" "sorted_wrt (<) rest"
    and "set rest \<subseteq> {m..<length s}" "set rest = {i \<in> set idx. m \<le> i}" "m \<le> length s"
  shows "\<exists>st'. deleteBlocks_loop rest st = Some st' \<and> built s0 st' \<and>
           gathered idx s (length s) (n + length rest) (snd st')"
  using assms
proof (induction "length rest" arbitrary: rest st m n rule: less_induct)
  case (less rest st m n)
  show ?case
  proof (cases rest)
    case Nil
    with less.prems have "\<And>i. m \<le> i \<Longrightarrow> i \<notin> set idx" by auto
    then have "select (\<lambda>i. i \<notin> set idx) (length s) s =
        select (\<lambda>i. i \<notin> set idx) m s @ drop m s"
      using less.prems(6) select_split [of m "length s" "length s" s "\<lambda>i. i \<notin> set idx"] by simp
    with less.prems(1,6) have "gathered idx s (length s) n (snd st)"
      by (auto simp: gathered_def)
    with Nil less.prems(2) show ?thesis by (simp add: deleteBlocks_loop.simps)
  next
    case (Cons b xs)
    obtain l rest' where ext: "extend_block b xs = (l, rest')" by (cases "extend_block b xs")
    have spec: "b \<le> l" "set rest = {b..l} \<union> set rest'" "\<forall>r \<in> set rest'. l + 1 < r"
      "sorted_wrt (<) rest'" "length rest = (l + 1 - b) + length rest'"
      using extend_block_spec [OF _ ext] less.prems(3) Cons by auto
    have b: "m \<le> b" "l < length s" using spec less.prems(4) by auto
    have "b \<le> r" if "r \<in> set rest" for r using that less.prems(3) Cons by auto
    then have gap: "\<And>i. m \<le> i \<Longrightarrow> i < b \<Longrightarrow> i \<notin> set idx"
      using less.prems(5) by (metis (mono_tags, lifting) leD mem_Collect_eq)
    have blk: "{b..l} \<subseteq> set idx" using spec less.prems(5) by auto
    note step = gathered_step [OF less.prems(1) b(1) spec(1) b(2) gap blk]
    have len: "length (snd st) = length s"
      using less.prems(1,6) by (auto simp: gathered_def)
    have "\<exists>st'. (if b \<noteq> 0 then do { c \<leftarrow> makeBlkSwap (1 + l - b) b; emit c st } else Some st) = Some st'
        \<and> built s0 st' \<and> snd st' = block_to_top (l + 1 - b) b (snd st)"
    proof (cases "b = 0")
      case False
      then show ?thesis
        using emit_makeBlkSwap [of "l + 1 - b" b st s0] spec(1) b(2) len less.prems(2)
        by (auto simp: bind_eq_Some_conv)
    next
      case True
      with less.prems(1,2) b(1) show ?thesis by (simp add: block_to_top_0 block_to_top_def)
    qed
    then obtain st' where st': "(if b \<noteq> 0 then do { c \<leftarrow> makeBlkSwap (1 + l - b) b; emit c st }
        else Some st) = Some st'" "built s0 st'" "snd st' = block_to_top (l + 1 - b) b (snd st)"
      by blast
    have rest': "set rest' \<subseteq> {l + 1..<length s}" "set rest' = {i \<in> set idx. l + 1 \<le> i}"
    proof -
      show "set rest' \<subseteq> {l + 1..<length s}" using spec(2,3) less.prems(4) by fastforce
      have "{i \<in> set idx. l + 1 \<le> i} = {i \<in> set rest. l + 1 \<le> i}"
        unfolding less.prems(5) using b(1) spec(1) by fastforce
      also have "\<dots> = set rest'" unfolding spec(2) using spec(3) by fastforce
      finally show "set rest' = {i \<in> set idx. l + 1 \<le> i}" by (rule sym)
    qed
    have "extractBlock rest = Some ((b, l), rest')" using Cons ext by simp
    moreover have "length rest' < length rest" using spec(1,5) by simp
    then obtain st2 where st2: "deleteBlocks_loop rest' st' = Some st2" "built s0 st2"
        "gathered idx s (length s) (n + (l + 1 - b) + length rest') (snd st2)"
      using less.hyps [of rest' "l + 1" "n + (l + 1 - b)" st'] step st'(2,3) rest' spec(4) b(2)
      by auto
    moreover have "n + (l + 1 - b) + length rest' = n + length rest" using spec(5) by simp
    ultimately show ?thesis using st'(1)
      by (subst deleteBlocks_loop.simps) (simp only: option.case prod.case Let_def
          Option.bind.bind_lunit, metis)
  qed
qed

definition kept :: "nat list \<Rightarrow> 'a list \<Rightarrow> 'a list" where
  "kept idx s = select (\<lambda>i. i \<notin> set idx) (length s) s"

lemma mset_kept:
  assumes "distinct idx" "set idx \<subseteq> {..<length s}"
  shows "mset s = image_mset ((!) s) (mset idx) + mset (kept idx s)"
proof -
  have "mset s = image_mset ((!) s) (mset [0..<length s])"
    by (metis map_nth mset_map)
  also have "mset [0..<length s] =
      mset (filter (\<lambda>i. i \<in> set idx) [0..<length s]) + mset (filter (\<lambda>i. i \<notin> set idx) [0..<length s])"
    by (metis mset_filter multiset_partition)
  also have "mset (filter (\<lambda>i. i \<in> set idx) [0..<length s]) = mset idx"
    using assms by (intro set_eq_iff_mset_eq_distinct [THEN iffD1]) auto
  finally show ?thesis by (simp add: kept_def select_def)
qed

lemma deleteBlocks_correct:
  assumes "built s0 st" "sorted_wrt (<) idx" "set idx \<subseteq> {..<length (snd st)}"
  shows "\<exists>st'. deleteBlocks idx st = Some st' \<and> built s0 st' \<and> snd st' = kept idx (snd st)"
proof -
  let ?s = "snd st"
  have "gathered idx ?s 0 0 ?s" by (simp add: gathered_def select_def)
  then obtain st1 where st1: "deleteBlocks_loop idx st = Some st1" "built s0 st1"
      "gathered idx ?s (length ?s) (length idx) (snd st1)"
    using deleteBlocks_loop_gathers [of idx ?s 0 0 st s0 idx] assms by fastforce
  then have d: "drop (length idx) (snd st1) = kept idx ?s" "length idx \<le> length (snd st1)"
    by (auto simp: gathered_def kept_def)
  show ?thesis
  proof (cases "idx = []")
    case True
    with st1 d show ?thesis by (simp add: deleteBlocks_def)
  next
    case False
    with emit_makeBlkdrop [of "length idx" st1 s0] st1 d show ?thesis
      by (auto simp: deleteBlocks_def)
  qed
qed

text \<open>The constructor followed by the call operator.\<close>

definition Deleter_run ::
  "StackVreg list \<Rightarrow> StackFixup \<times> Stack \<Rightarrow> (StackFixup \<times> Stack) option" where
  "Deleter_run delVregs st = do {
     idx \<leftarrow> Deleter_indices (snd st) delVregs;
     deleteBlocks idx st }"

lemma Deleter_run_correct:
  assumes "built s0 st" "mset del \<subseteq># mset (snd st)" "grouped (rev del)"
  shows "\<exists>st' idx. Deleter_run del st = Some st' \<and> built s0 st' \<and>
     snd st' = kept idx (snd st) \<and> mset (snd st') = mset (snd st) - mset del"
proof -
  obtain idx where idx: "Deleter_indices (snd st) del = Some idx" "sorted_wrt (<) idx"
      "set idx \<subseteq> {..<length (snd st)}" "image_mset ((!) (snd st)) (mset idx) = mset del"
    using Deleter_indices_found [OF assms(2,3)] by blast
  obtain st' where st': "deleteBlocks idx st = Some st'" "built s0 st'"
      "snd st' = kept idx (snd st)"
    using deleteBlocks_correct [OF assms(1) idx(2,3)] by blast
  moreover have "mset (snd st) = mset del + mset (kept idx (snd st))"
    using mset_kept [of idx "snd st"] idx by (simp add: strict_sorted_iff)
  ultimately show ?thesis using idx(1) by (auto simp: Deleter_run_def)
qed

end
