(* ===== verification/TVM_Train.thy ===== *)
theory TVM_Train
  imports TVM_Deleter
begin

text \<open>
  Vagon, Train and generateVagonXchgs of TVMStackFixup.cpp: a permutation of the stack is split into
  ranges (vagons) that occur in the source, possibly reversed, and performed by moving the ranges to
  the top one after the other.
\<close>

section \<open>The model\<close>

record Vagon =
  DeepIdx :: nat
  TopIdx :: nat
  Inverted :: bool

definition mk_Vagon :: "nat \<Rightarrow> nat \<Rightarrow> bool \<Rightarrow> Vagon option" where
  "mk_Vagon d t isInv = do {
     check (d \<ge> t);
     Some \<lparr> DeepIdx = d, TopIdx = t, Inverted = isInv \<rparr> }"

type_synonym AquiredVec = "bool list"

text \<open>The deepest slot of the source that holds the register and is not yet taken.\<close>

definition searchSrc :: "Stack \<Rightarrow> AquiredVec \<Rightarrow> StackVreg \<Rightarrow> nat option" where
  "searchSrc Src Aq v = find (\<lambda>j. Src ! j = v \<and> \<not> Aq ! j) (rev [0..<length Src])"

fun goRight :: "Stack \<Rightarrow> Stack \<Rightarrow> AquiredVec \<Rightarrow> nat \<Rightarrow> nat \<Rightarrow> nat" where
  "goRight Src Dst Aq (Suc s) (Suc d) =
     (if Dst ! d = Src ! s \<and> \<not> Aq ! s then Suc (goRight Src Dst Aq s d) else 0)"
| "goRight Src Dst Aq _ _ = 0"

fun goLeft :: "Stack \<Rightarrow> Stack \<Rightarrow> AquiredVec \<Rightarrow> nat \<Rightarrow> nat \<Rightarrow> nat" where
  "goLeft Src Dst Aq s (Suc d) =
     (if s < usub (length Src) 1 \<and> Dst ! d = Src ! Suc s \<and> \<not> Aq ! Suc s
      then Suc (goLeft Src Dst Aq (Suc s) d) else 0)"
| "goLeft Src Dst Aq s 0 = 0"

definition setAquired :: "AquiredVec \<Rightarrow> Vagon \<Rightarrow> AquiredVec" where
  "setAquired Aq V = map (\<lambda>i. Aq ! i \<or> (TopIdx V \<le> i \<and> i \<le> DeepIdx V)) [0..<length Aq]"

text \<open>The loop of build; n is Sz - RevI, the number of destination slots still to cover.\<close>

function build_loop ::
  "Stack \<Rightarrow> Stack \<Rightarrow> nat \<Rightarrow> AquiredVec \<Rightarrow> Vagon list \<Rightarrow> Vagon list option" where
  "build_loop Src Dst n Aq vs =
     (if n = 0 then Some vs
      else do {
        let IdxI = n - 1;
        f \<leftarrow> searchSrc Src Aq (Dst ! IdxI);
        let RightLen = goRight Src Dst Aq f IdxI;
        let LeftLen = goLeft Src Dst Aq f IdxI;
        if LeftLen > RightLen
        then do {
          V \<leftarrow> mk_Vagon (f + LeftLen) f True;
          build_loop Src Dst (n - 1 - LeftLen) (setAquired Aq V) (vs @ [V]) }
        else do {
          V \<leftarrow> mk_Vagon f (f - RightLen) False;
          build_loop Src Dst (n - 1 - RightLen) (setAquired Aq V) (vs @ [V]) } })"
  by pat_completeness auto
termination
  by (relation "measure (\<lambda>(Src, Dst, n, Aq, vs). n)") auto

declare build_loop.simps [simp del]

definition Train_build :: "Stack \<Rightarrow> Stack \<Rightarrow> Vagon list option" where
  "Train_build Src Dst = do {
     check (length Src = length Dst);
     build_loop Src Dst (length Src) (replicate (length Src) False) [] }"

text \<open>Moving a vagon to the top pushes the vagons above it down by its size.\<close>

definition shift_vagon :: "Vagon \<Rightarrow> Vagon \<Rightarrow> Vagon" where
  "shift_vagon V W =
     (let sz = DeepIdx V + 1 - TopIdx V
      in if TopIdx W < TopIdx V
         then W \<lparr> TopIdx := TopIdx W + sz, DeepIdx := DeepIdx W + sz \<rparr> else W)"

definition vagon_step ::
  "Vagon \<Rightarrow> Vagon list \<Rightarrow> StackFixup \<times> Stack \<Rightarrow> (Vagon list \<times> StackFixup \<times> Stack) option" where
  "vagon_step V rest st = do {
     let sz = DeepIdx V + 1 - TopIdx V;
     (rest', st1) \<leftarrow>
       (if TopIdx V \<noteq> 0
        then do { c \<leftarrow> makeBlkSwap sz (TopIdx V); st1 \<leftarrow> emit c st;
                  Some (map (shift_vagon V) rest, st1) }
        else Some (rest, st));
     st2 \<leftarrow> (if Inverted V then do { c \<leftarrow> makeReverse sz; emit c st1 } else Some st1);
     Some (rest', st2) }"

lemma vagon_step_length:
  "vagon_step V rest st = Some (rest', st') \<Longrightarrow> length rest' = length rest"
  by (auto simp: vagon_step_def Let_def bind_eq_Some_conv split: if_splits)

function vagon_loop ::
  "Vagon list \<Rightarrow> StackFixup \<times> Stack \<Rightarrow> (StackFixup \<times> Stack) option" where
  "vagon_loop [] st = Some st"
| "vagon_loop (V # rest) st =
     (case vagon_step V rest st of
        None \<Rightarrow> None
      | Some (rest', st') \<Rightarrow> vagon_loop rest' st')"
  by pat_completeness auto
termination
  by (relation "measure (\<lambda>(vs, st). length vs)") (auto dest: vagon_step_length)

text \<open>restVagons.begin() is read before the loop, so an empty train has no defined behaviour.\<close>

definition generateVagonXchgs ::
  "StackFixup \<Rightarrow> Stack \<Rightarrow> Stack \<Rightarrow> StackFixup option" where
  "generateVagonXchgs rv from to = do {
     check (length from = length to);
     Vagons \<leftarrow> Train_build from to;
     check (Vagons \<noteq> []);
     let V = hd Vagons;
     let rest = (if DeepIdx V + 1 = length from \<and> \<not> Inverted V then tl Vagons else Vagons);
     (rv', cur) \<leftarrow> vagon_loop rest (rv, from);
     check (cur = to);
     Some rv' }"

section \<open>Ranges\<close>

definition vrange :: "Vagon \<Rightarrow> nat set" where
  "vrange V = {TopIdx V..DeepIdx V}"

definition slice :: "Vagon \<Rightarrow> 'a list \<Rightarrow> 'a list" where
  "slice V s = take (DeepIdx V + 1 - TopIdx V) (drop (TopIdx V) s)"

definition segment :: "'a list \<Rightarrow> Vagon \<Rightarrow> 'a list" where
  "segment s V = (if Inverted V then rev (slice V s) else slice V s)"

definition covered :: "Vagon list \<Rightarrow> nat set" where
  "covered vs = (\<Union>V \<in> set vs. vrange V)"

definition outside :: "Vagon list \<Rightarrow> 'a list \<Rightarrow> 'a list" where
  "outside vs s = nths s (- covered vs)"

definition content :: "'a list \<Rightarrow> Vagon list \<Rightarrow> 'a list" where
  "content s vs = concat (map (segment s) (rev vs))"

text \<open>
  A well-formed train: every vagon is a range of the stack, an inverted one has at least two
  elements, and no two of them meet.
\<close>

definition vagon_ok :: "nat \<Rightarrow> Vagon \<Rightarrow> bool" where
  "vagon_ok sz V \<longleftrightarrow> TopIdx V \<le> DeepIdx V \<and> DeepIdx V < sz \<and> (Inverted V \<longrightarrow> TopIdx V < DeepIdx V)"

definition train_ok :: "nat \<Rightarrow> Vagon list \<Rightarrow> bool" where
  "train_ok sz vs \<longleftrightarrow> (\<forall>V \<in> set vs. vagon_ok sz V) \<and>
     sorted_wrt (\<lambda>V W. vrange V \<inter> vrange W = {}) vs"

lemma train_ok_Nil [simp]: "train_ok sz []"
  by (simp add: train_ok_def)

lemma train_ok_Cons:
  "train_ok sz (V # vs) \<longleftrightarrow>
   vagon_ok sz V \<and> (\<forall>W \<in> set vs. vrange V \<inter> vrange W = {}) \<and> train_ok sz vs"
  by (auto simp: train_ok_def)

lemma train_ok_snoc:
  "train_ok sz (vs @ [V]) \<longleftrightarrow> train_ok sz vs \<and> vagon_ok sz V \<and> covered vs \<inter> vrange V = {}"
  by (auto simp: train_ok_def sorted_wrt_append covered_def)

lemma covered_simps [simp]:
  "covered [] = {}" "covered (V # vs) = vrange V \<union> covered vs"
  "covered (vs @ ws) = covered vs \<union> covered ws"
  by (auto simp: covered_def)

lemma content_snoc [simp]: "content s (vs @ [V]) = segment s V @ content s vs"
  by (simp add: content_def)

lemma content_Cons: "content s (V # vs) = content s vs @ segment s V"
  by (simp add: content_def)

lemma content_Nil [simp]: "content s [] = []"
  by (simp add: content_def)

lemma content_cong:
  assumes "\<And>W. W \<in> set ws \<Longrightarrow> segment s W = segment t W"
  shows "content s ws = content t ws"
  unfolding content_def by (rule arg_cong [where f = concat], rule map_cong) (auto simp: assms)

lemma outside_Nil [simp]: "outside [] s = s"
  by (simp add: outside_def nths_all)

lemma disjoint_ranges:
  assumes "vrange V \<inter> vrange W = {}" "TopIdx V \<le> DeepIdx V" "TopIdx W \<le> DeepIdx W"
  shows "DeepIdx W < TopIdx V \<or> DeepIdx V < TopIdx W"
proof (rule ccontr)
  assume "\<not> ?thesis"
  with assms(2,3) have "max (TopIdx V) (TopIdx W) \<in> vrange V \<inter> vrange W"
    by (auto simp: vrange_def)
  with assms(1) show False by blast
qed

section \<open>One step of the loop\<close>

text \<open>The three parts of a stack: above the vagon, the vagon, below it.\<close>

lemma split_at_vagon:
  assumes "vagon_ok (length s) V"
  obtains A B C where "s = A @ B @ C" "length A = TopIdx V" "length B = DeepIdx V + 1 - TopIdx V"
    "slice V s = B" "block_to_top (DeepIdx V + 1 - TopIdx V) (TopIdx V) s = B @ A @ C"
proof -
  let ?A = "take (TopIdx V) s" and ?B = "slice V s" and ?C = "drop (DeepIdx V + 1) s"
  have le: "TopIdx V \<le> DeepIdx V" "DeepIdx V + 1 \<le> length s"
    using assms by (auto simp: vagon_ok_def)
  have "drop (TopIdx V) s = ?B @ drop (DeepIdx V + 1 - TopIdx V) (drop (TopIdx V) s)"
    by (simp only: slice_def append_take_drop_id)
  also have "drop (DeepIdx V + 1 - TopIdx V) (drop (TopIdx V) s) = ?C"
    using le by simp
  finally have "s = ?A @ ?B @ ?C" by (metis append_take_drop_id)
  moreover have "block_to_top (DeepIdx V + 1 - TopIdx V) (TopIdx V) s = ?B @ ?A @ ?C"
    using le by (simp add: block_to_top_def slice_def)
  ultimately show thesis
    using le by (intro that [of ?A ?B ?C]) (simp_all add: slice_def)
qed

lemma vrange_shift:
  assumes "vagon_ok sz V" "vagon_ok sz W" "vrange V \<inter> vrange W = {}"
  shows "vrange (shift_vagon V W) =
     (if DeepIdx W < TopIdx V then (\<lambda>i. i + (DeepIdx V + 1 - TopIdx V)) ` vrange W else vrange W)"
    and "DeepIdx W < TopIdx V \<or> DeepIdx V < TopIdx W"
proof -
  show d: "DeepIdx W < TopIdx V \<or> DeepIdx V < TopIdx W"
    using assms by (intro disjoint_ranges) (auto simp: vagon_ok_def)
  show "vrange (shift_vagon V W) =
     (if DeepIdx W < TopIdx V then (\<lambda>i. i + (DeepIdx V + 1 - TopIdx V)) ` vrange W else vrange W)"
  proof -
    have "(\<lambda>i. i + n) ` {a..b} = {a + n..b + n}" for a b n :: nat by simp
    moreover have "TopIdx W < TopIdx V \<longleftrightarrow> DeepIdx W < TopIdx V"
      using d assms(1,2) by (auto simp: vagon_ok_def)
    ultimately show ?thesis by (simp add: shift_vagon_def vrange_def Let_def)
  qed
qed

lemma slice_append_right:
  "length A \<le> TopIdx W \<Longrightarrow> slice W (A @ C) = take (DeepIdx W + 1 - TopIdx W) (drop (TopIdx W - length A) C)"
  by (simp add: slice_def)

lemma slice_append_left: "DeepIdx W < length A \<Longrightarrow> slice W (A @ C) = slice W A"
  by (cases "TopIdx W \<le> DeepIdx W") (auto simp: slice_def)

lemma segment_shift:
  assumes "vagon_ok (length s) V" "vagon_ok (length s) W" "vrange V \<inter> vrange W = {}"
  shows "segment (block_to_top (DeepIdx V + 1 - TopIdx V) (TopIdx V) s) (shift_vagon V W) =
     segment s W"
proof -
  obtain A B C where p: "s = A @ B @ C" "length A = TopIdx V"
      "length B = DeepIdx V + 1 - TopIdx V"
      "block_to_top (DeepIdx V + 1 - TopIdx V) (TopIdx V) s = B @ A @ C"
    using split_at_vagon [OF assms(1)] by metis
  have le: "TopIdx V \<le> DeepIdx V" "TopIdx W \<le> DeepIdx W"
    using assms(1,2) by (auto simp: vagon_ok_def)
  consider "DeepIdx W < TopIdx V" | "DeepIdx V < TopIdx W"
    using vrange_shift(2) [OF assms] by blast
  then have "slice (shift_vagon V W) (B @ A @ C) = slice W (A @ B @ C)"
  proof cases
    case 1
    then have "slice (shift_vagon V W) (B @ A @ C) = slice W A"
      using p(2,3) le by (simp add: shift_vagon_def slice_def Let_def)
    moreover have "slice W (A @ B @ C) = slice W A"
      using 1 p(2) by (intro slice_append_left) simp
    ultimately show ?thesis by simp
  next
    case 2
    then have "shift_vagon V W = W" using le by (simp add: shift_vagon_def)
    moreover have "length (A @ B) = DeepIdx V + 1" "length (B @ A) = DeepIdx V + 1"
      using p(2,3) le by simp_all
    ultimately show ?thesis
      using 2 slice_append_right [of "A @ B" W C] slice_append_right [of "B @ A" W C]
      by (simp add: add.commute)
  qed
  moreover have "Inverted (shift_vagon V W) = Inverted W" by (simp add: shift_vagon_def Let_def)
  ultimately show ?thesis using p by (simp add: segment_def)
qed

lemma covered_shift:
  assumes "\<forall>W \<in> set vs. vagon_ok sz W \<and> vrange V \<inter> vrange W = {}" "vagon_ok sz V"
  defines "d \<equiv> DeepIdx V + 1 - TopIdx V"
  shows "covered (map (shift_vagon V) vs) =
     (\<lambda>i. i + d) ` (covered vs \<inter> {..<TopIdx V}) \<union> (covered vs \<inter> {TopIdx V + d..})"
proof -
  have "vrange (shift_vagon V W) =
     (\<lambda>i. i + d) ` (vrange W \<inter> {..<TopIdx V}) \<union> (vrange W \<inter> {TopIdx V + d..})"
    if "W \<in> set vs" for W
  proof -
    have W: "vagon_ok sz W" "vrange V \<inter> vrange W = {}" using assms(1) that by auto
    note sh = vrange_shift [OF assms(2) W]
    have le: "TopIdx V \<le> DeepIdx V" using assms(2) by (simp add: vagon_ok_def)
    consider "DeepIdx W < TopIdx V" | "DeepIdx V < TopIdx W" using sh(2) by blast
    then show ?thesis
    proof cases
      case 1
      then have "vrange W \<inter> {..<TopIdx V} = vrange W" "vrange W \<inter> {TopIdx V + d..} = {}"
        using le by (auto simp: vrange_def d_def)
      with 1 sh(1) show ?thesis by (simp add: d_def)
    next
      case 2
      then have "vrange W \<inter> {..<TopIdx V} = {}" "vrange W \<inter> {TopIdx V + d..} = vrange W"
        using le by (auto simp: vrange_def d_def)
      with 2 sh(1) le W(1) show ?thesis by (simp add: vagon_ok_def)
    qed
  qed
  then have "covered (map (shift_vagon V) vs) = (\<Union>W \<in> set vs.
     (\<lambda>i. i + d) ` (vrange W \<inter> {..<TopIdx V}) \<union> (vrange W \<inter> {TopIdx V + d..}))"
    by (simp add: covered_def)
  also have "\<dots> = (\<lambda>i. i + d) ` (covered vs \<inter> {..<TopIdx V}) \<union> (covered vs \<inter> {TopIdx V + d..})"
    by (auto simp: covered_def)
  finally show ?thesis .
qed

lemma outside_shift:
  assumes "train_ok (length s) (V # vs)"
  shows "outside (map (shift_vagon V) vs)
           (block_to_top (DeepIdx V + 1 - TopIdx V) (TopIdx V) s) =
         slice V s @ outside (V # vs) s"
proof -
  let ?d = "DeepIdx V + 1 - TopIdx V" and ?R = "covered vs"
  let ?R' = "covered (map (shift_vagon V) vs)"
  have V: "vagon_ok (length s) V" and
    vs: "\<forall>W \<in> set vs. vagon_ok (length s) W \<and> vrange V \<inter> vrange W = {}"
    using assms by (auto simp: train_ok_Cons train_ok_def)
  obtain A B C where p: "s = A @ B @ C" "length A = TopIdx V" "length B = ?d" "slice V s = B"
      "block_to_top ?d (TopIdx V) s = B @ A @ C"
    using split_at_vagon [OF V] by metis
  have R': "?R' = (\<lambda>i. i + ?d) ` (?R \<inter> {..<TopIdx V}) \<union> (?R \<inter> {TopIdx V + ?d..})"
    by (rule covered_shift [OF vs V])
  have "nths (B @ A @ C) (- ?R') =
      nths B (- ?R') @ nths A {j. j + ?d \<notin> ?R'} @ nths C {j. j + (TopIdx V + ?d) \<notin> ?R'}"
    by (simp add: nths_append p(2,3) ac_simps)
  also have "nths B (- ?R') = B"
    using p(3) R' by (intro nths_all) auto
  also have "nths A {j. j + ?d \<notin> ?R'} = nths A (- (vrange V \<union> ?R))"
    unfolding nths_def using p(2) R'
    by (intro arg_cong [where f = "map fst"] filter_cong refl)
       (auto simp: set_zip vrange_def)
  also have "nths C {j. j + (TopIdx V + ?d) \<notin> ?R'} =
      nths C {j. j + (TopIdx V + ?d) \<notin> vrange V \<union> ?R}"
    using R' V by (intro arg_cong [where f = "nths C"]) (auto simp: vrange_def vagon_ok_def)
  finally have l: "nths (B @ A @ C) (- ?R') = B @ nths A (- (vrange V \<union> ?R)) @
      nths C {j. j + (TopIdx V + ?d) \<notin> vrange V \<union> ?R}" .
  have "nths B {j. j + TopIdx V \<notin> vrange V \<union> ?R} = []"
    using p(3) V by (auto simp: nths_def vrange_def vagon_ok_def set_zip filter_empty_conv)
  then have "nths (A @ B @ C) (- (vrange V \<union> ?R)) =
      nths A (- (vrange V \<union> ?R)) @ nths C {j. j + (TopIdx V + ?d) \<notin> vrange V \<union> ?R}"
    by (simp add: nths_append p(2,3) ac_simps)
  with l show ?thesis unfolding outside_def p(5) using p(1,4) by simp
qed

lemma shift_ok:
  assumes "train_ok sz (V # vs)"
  shows "train_ok sz (map (shift_vagon V) vs)"
    and "\<forall>W \<in> set (map (shift_vagon V) vs). DeepIdx V + 1 - TopIdx V \<le> TopIdx W"
proof -
  let ?d = "DeepIdx V + 1 - TopIdx V"
  have V: "vagon_ok sz V" and W: "\<And>W. W \<in> set vs \<Longrightarrow> vagon_ok sz W \<and> vrange V \<inter> vrange W = {}"
    and dis: "sorted_wrt (\<lambda>V W. vrange V \<inter> vrange W = {}) vs"
    using assms by (auto simp: train_ok_Cons train_ok_def)
  have d: "DeepIdx W < TopIdx V \<or> DeepIdx V < TopIdx W" if "W \<in> set vs" for W
    using W [OF that] V by (blast dest: vrange_shift(2))
  have 1: "vagon_ok sz (shift_vagon V W) \<and> ?d \<le> TopIdx (shift_vagon V W)"
    if "W \<in> set vs" for W
    using W [OF that] d [OF that] V by (auto simp: vagon_ok_def shift_vagon_def Let_def)
  then show "\<forall>W \<in> set (map (shift_vagon V) vs). ?d \<le> TopIdx W" by simp
  have apart: "vrange (shift_vagon V A) \<inter> vrange (shift_vagon V B) = {}"
    if "A \<in> set vs" "B \<in> set vs" "vrange A \<inter> vrange B = {}" for A B
  proof -
    have "DeepIdx A < TopIdx B \<or> DeepIdx B < TopIdx A"
      using that W by (intro disjoint_ranges) (auto simp: vagon_ok_def)
    moreover have "TopIdx A \<le> DeepIdx A" "TopIdx B \<le> DeepIdx B" "TopIdx V \<le> DeepIdx V"
      using W [OF that(1)] W [OF that(2)] V by (simp_all add: vagon_ok_def)
    moreover note d [OF that(1)] d [OF that(2)]
    ultimately have "DeepIdx (shift_vagon V A) < TopIdx (shift_vagon V B) \<or>
        DeepIdx (shift_vagon V B) < TopIdx (shift_vagon V A)"
      by (simp add: shift_vagon_def Let_def) arith
    then show ?thesis by (auto simp: vrange_def)
  qed
  have "sorted_wrt (\<lambda>A B. vrange (shift_vagon V A) \<inter> vrange (shift_vagon V B) = {}) vs"
    by (rule sorted_wrt_mono_rel [OF apart dis])
  then have "sorted_wrt (\<lambda>V W. vrange V \<inter> vrange W = {}) (map (shift_vagon V) vs)"
    by (simp add: sorted_wrt_map)
  with 1 show "train_ok sz (map (shift_vagon V) vs)" by (simp add: train_ok_def)
qed

lemma outside_top:
  assumes "\<forall>W \<in> set ws. length B \<le> TopIdx W"
  shows "outside ws (B @ Y) = B @ nths Y {j. j + length B \<notin> covered ws}"
proof -
  have "nths B (- covered ws) = B"
    using assms by (intro nths_all) (force simp: covered_def vrange_def)
  then show ?thesis by (simp add: outside_def nths_append)
qed

lemma content_top:
  assumes "\<forall>W \<in> set ws. length B \<le> TopIdx W" "length B' = length B"
  shows "content (B @ Y) ws = content (B' @ Y) ws"
proof -
  have "segment (B @ Y) W = segment (B' @ Y) W" if "W \<in> set ws" for W
    using assms that by (simp add: segment_def slice_append_right)
  then show ?thesis by (rule content_cong)
qed

lemma emit_makeReverse:
  assumes "2 \<le> n" "n \<le> length (snd st)" "built s st"
  shows "\<exists>c st'. makeReverse n = Some c \<and> emit c st = Some st' \<and> built s st' \<and>
           snd st' = rev (take n (snd st)) @ drop n (snd st)"
proof -
  obtain fx cur where st: "st = (fx, cur)" by (cases st)
  have "\<exists>c. makeReverse n = Some c \<and> apply_change c cur = Some (rev (take n cur) @ drop n cur)"
  proof (cases "n = 2")
    case True
    with assms(2) st obtain x y zs where "cur = x # y # zs"
      by (cases cur; cases "tl cur") auto
    with True show ?thesis by (simp add: makeReverse_def swap_at_def numeral_2_eq_2)
  next
    case False
    with assms(1,2) st show ?thesis by (simp add: makeReverse_def mk_reverse_def)
  qed
  then obtain c where c: "makeReverse n = Some c"
      "apply_change c cur = Some (rev (take n cur) @ drop n cur)" by blast
  then have e: "emit c st = Some (fx @ [(c, Some (rev (take n cur) @ drop n cur))],
      rev (take n cur) @ drop n cur)"
    by (simp add: st emit_apply)
  with c emit_built [OF e assms(3)] show ?thesis by (auto simp: st)
qed

lemma vagon_step_correct:
  assumes "train_ok (length (snd st)) (V # vs)" "built s0 st"
  shows "\<exists>vs' st'. vagon_step V vs st = Some (vs', st') \<and> built s0 st' \<and>
     train_ok (length (snd st')) vs' \<and>
     outside vs' (snd st') = segment (snd st) V @ outside (V # vs) (snd st) \<and>
     content (snd st') vs' = content (snd st) vs"
proof -
  let ?s = "snd st" and ?d = "DeepIdx V + 1 - TopIdx V" and ?vs = "map (shift_vagon V) vs"
  have V: "vagon_ok (length ?s) V" using assms(1) by (simp add: train_ok_Cons)
  then have le: "0 < ?d" "?d + TopIdx V \<le> length ?s" by (auto simp: vagon_ok_def)
  obtain A B C where p: "?s = A @ B @ C" "length B = ?d" "slice V ?s = B"
      "block_to_top ?d (TopIdx V) ?s = B @ A @ C"
    using split_at_vagon [OF V] by metis
  have "\<exists>st1. (if TopIdx V \<noteq> 0
        then do { c \<leftarrow> makeBlkSwap ?d (TopIdx V); st1 \<leftarrow> emit c st;
                  Some (map (shift_vagon V) vs, st1) }
        else Some (vs, st)) = Some (?vs, st1) \<and> built s0 st1 \<and> snd st1 = B @ A @ C"
  proof (cases "TopIdx V = 0")
    case True
    then have "shift_vagon V = (\<lambda>W. W)" by (simp add: shift_vagon_def Let_def fun_eq_iff)
    with True p(4) assms(2) show ?thesis by (simp add: block_to_top_0)
  next
    case False
    then show ?thesis
      using emit_makeBlkSwap [OF le(1) _ le(2) assms(2)] p(4) by (auto simp del: One_nat_def)
  qed
  then obtain st1 where st1: "(if TopIdx V \<noteq> 0
        then do { c \<leftarrow> makeBlkSwap ?d (TopIdx V); st1 \<leftarrow> emit c st;
                  Some (map (shift_vagon V) vs, st1) }
        else Some (vs, st)) = Some (?vs, st1)" "built s0 st1" "snd st1 = B @ A @ C" by blast
  have len: "length (snd st1) = length ?s" using st1(3) p(1) by simp
  have out: "outside ?vs (snd st1) = B @ outside (V # vs) ?s"
    using outside_shift [OF assms(1)] p st1(3) by simp
  have con: "content (snd st1) ?vs = content ?s vs"
  proof -
    have "segment (B @ A @ C) (shift_vagon V W) = segment ?s W" if "W \<in> set vs" for W
      using segment_shift [of ?s V W] assms(1) that p(4) by (auto simp: train_ok_Cons train_ok_def)
    then show ?thesis by (auto simp: content_def st1(3) rev_map intro!: arg_cong [where f = concat])
  qed
  note ok = shift_ok [OF assms(1)]
  have step: "vagon_step V vs st =
      (if Inverted V then do { c \<leftarrow> makeReverse ?d; emit c st1 } else Some st1) \<bind>
      (\<lambda>st2. Some (?vs, st2))"
    unfolding vagon_step_def Let_def st1(1) by simp
  show ?thesis
  proof (cases "Inverted V")
    case False
    then show ?thesis
      using st1 len ok out con p(3) step by (simp add: segment_def)
  next
    case True
    then have "2 \<le> ?d" using V by (auto simp: vagon_ok_def)
    moreover have "?d \<le> length (snd st1)" using le len by simp
    ultimately obtain c st2 where st2: "makeReverse ?d = Some c" "emit c st1 = Some st2"
        "built s0 st2" "snd st2 = rev B @ A @ C"
      using emit_makeReverse [of ?d st1 s0] st1(2,3) p(2) by auto
    have "outside ?vs (snd st2) = rev B @ outside (V # vs) ?s"
      using outside_top [of ?vs B "A @ C"] outside_top [of ?vs "rev B" "A @ C"] ok(2) out
      by (simp add: p(2) st1(3) st2(4))
    moreover have "content (snd st2) ?vs = content ?s vs"
      using content_top [of ?vs B "rev B" "A @ C"] ok(2) con by (simp add: p(2) st1(3) st2(4))
    moreover have "length (snd st2) = length ?s" using st2(4) p(1) by simp
    ultimately show ?thesis
      using True st2 ok p(3) step by (simp add: segment_def)
  qed
qed

lemma vagon_loop_correct:
  assumes "train_ok (length (snd st)) vs" "built s0 st"
  shows "\<exists>st'. vagon_loop vs st = Some st' \<and> built s0 st' \<and>
           snd st' = content (snd st) vs @ outside vs (snd st)"
  using assms
proof (induction "length vs" arbitrary: vs st)
  case 0
  then show ?case by simp
next
  case (Suc n)
  then obtain V ws where vs: "vs = V # ws" by (cases vs) auto
  with vagon_step_correct Suc.prems obtain ws' st' where s: "vagon_step V ws st = Some (ws', st')"
      "built s0 st'" "train_ok (length (snd st')) ws'"
      "outside ws' (snd st') = segment (snd st) V @ outside (V # ws) (snd st)"
      "content (snd st') ws' = content (snd st) ws" by metis
  have "n = length ws'" using Suc.hyps(2) vs vagon_step_length [OF s(1)] by simp
  from Suc.hyps(1) [OF this s(3,2)] obtain st2 where
      "vagon_loop ws' st' = Some st2" "built s0 st2"
      "snd st2 = content (snd st') ws' @ outside ws' (snd st')" by blast
  with s vs show ?case by (simp add: content_Cons)
qed

section \<open>Building the train\<close>

lemma mset_nths_Un:
  "A \<inter> B = {} \<Longrightarrow> mset (nths s (A \<union> B)) = mset (nths s A) + mset (nths s B)"
proof (induction s arbitrary: A B)
  case (Cons x s)
  have "{j. Suc j \<in> A} \<inter> {j. Suc j \<in> B} = {}" using Cons.prems by blast
  from Cons.IH [OF this] have "mset (nths s {j. Suc j \<in> A \<or> Suc j \<in> B}) =
      mset (nths s {j. Suc j \<in> A}) + mset (nths s {j. Suc j \<in> B})"
    by (simp add: Collect_disj_eq)
  then show ?case using Cons.prems by (auto simp: nths_Cons)
qed simp

lemma nths_cong: "(\<And>i. i < length s \<Longrightarrow> i \<in> A \<longleftrightarrow> i \<in> B) \<Longrightarrow> nths s A = nths s B"
  unfolding nths_def by (intro arg_cong [where f = "map fst"] filter_cong) (auto simp: set_zip)

lemma nths_vrange:
  assumes "vagon_ok (length s) V"
  shows "nths s (vrange V) = slice V s"
proof -
  obtain A B C where p: "s = A @ B @ C" "length A = TopIdx V" "length B = DeepIdx V + 1 - TopIdx V"
      "slice V s = B"
    using split_at_vagon [OF assms] by metis
  have le: "TopIdx V \<le> DeepIdx V" using assms by (simp add: vagon_ok_def)
  have "nths A (vrange V) = nths A {}" using p(2) by (intro nths_cong) (simp add: vrange_def)
  moreover have "nths B {j. j + length A \<in> vrange V} = B"
    using p(2,3) by (intro nths_all) (auto simp: vrange_def)
  moreover have "nths C {j. j + length (A @ B) \<in> vrange V} = nths C {}"
    using p(2,3) le by (intro nths_cong) (auto simp: vrange_def)
  ultimately have "nths (A @ B @ C) (vrange V) = B" by (simp add: nths_append ac_simps)
  with p show ?thesis by simp
qed

lemma outside_snoc:
  assumes "vagon_ok (length s) V" "covered vs \<inter> vrange V = {}"
  shows "mset (outside vs s) = mset (slice V s) + mset (outside (vs @ [V]) s)"
proof -
  have "- covered vs = vrange V \<union> - covered (vs @ [V])" using assms(2) by auto
  then have "mset (outside vs s) = mset (nths s (vrange V \<union> - covered (vs @ [V])))"
    by (simp add: outside_def)
  also have "\<dots> = mset (nths s (vrange V)) + mset (nths s (- covered (vs @ [V])))"
    by (rule mset_nths_Un) auto
  finally show ?thesis by (simp add: nths_vrange [OF assms(1)] outside_def)
qed

lemma goRight_spec:
  "R = goRight Src Dst Aq f d \<Longrightarrow>
   R \<le> f \<and> R \<le> d \<and> (\<forall>k < R. Dst ! (d - Suc k) = Src ! (f - Suc k) \<and> \<not> Aq ! (f - Suc k))"
proof (induction Src Dst Aq f d arbitrary: R rule: goRight.induct)
  case (1 Src Dst Aq s d)
  show ?case
  proof (cases "Dst ! d = Src ! s \<and> \<not> Aq ! s")
    case True
    then obtain r where "R = Suc r" "r = goRight Src Dst Aq s d" using "1.prems" by simp
    with 1(1) [OF True this(2)] True show ?thesis by (auto simp: less_Suc_eq_0_disj)
  next
    case False
    with "1.prems" show ?thesis by auto
  qed
qed auto

lemma goLeft_spec:
  "L = goLeft Src Dst Aq f d \<Longrightarrow> f < length Src \<Longrightarrow> length Src < 2 ^ 32 \<Longrightarrow>
   f + L < length Src \<and> L \<le> d \<and> (\<forall>k < L. Dst ! (d - Suc k) = Src ! (f + Suc k) \<and> \<not> Aq ! (f + Suc k))"
proof (induction Src Dst Aq f d arbitrary: L rule: goLeft.induct)
  case (1 Src Dst Aq s d)
  let ?P = "s < usub (length Src) 1 \<and> Dst ! d = Src ! Suc s \<and> \<not> Aq ! Suc s"
  show ?case
  proof (cases ?P)
    case True
    then obtain l where l: "L = Suc l" "l = goLeft Src Dst Aq (Suc s) d" using "1.prems" by simp
    have "Suc s < length Src" using True "1.prems"(2,3) by (auto simp: usub_le)
    with 1(1) [OF True l(2)] "1.prems"(3) have
      "Suc s + l < length Src" "l \<le> d"
      "\<forall>k < l. Dst ! (d - Suc k) = Src ! (Suc s + Suc k) \<and> \<not> Aq ! (Suc s + Suc k)" by blast+
    with True l(1) show ?thesis by (auto simp: less_Suc_eq_0_disj)
  next
    case False
    with "1.prems" show ?thesis by auto
  qed
qed auto

lemma searchSrc_Some:
  assumes "searchSrc Src Aq v = Some f"
  shows "f < length Src \<and> Src ! f = v \<and> \<not> Aq ! f"
  using assms unfolding searchSrc_def by (auto simp: find_Some_iff rev_nth)

lemma searchSrc_total:
  "i < length Src \<Longrightarrow> Src ! i = v \<Longrightarrow> \<not> Aq ! i \<Longrightarrow> \<exists>f. searchSrc Src Aq v = Some f"
  by (cases "searchSrc Src Aq v") (auto simp: searchSrc_def find_None_iff)

definition build_inv :: "Stack \<Rightarrow> Stack \<Rightarrow> nat \<Rightarrow> AquiredVec \<Rightarrow> Vagon list \<Rightarrow> bool" where
  "build_inv Src Dst n Aq vs \<longleftrightarrow>
     length Aq = length Src \<and> length Dst = length Src \<and> n \<le> length Src \<and>
     train_ok (length Src) vs \<and> (\<forall>i < length Src. Aq ! i \<longleftrightarrow> i \<in> covered vs) \<and>
     content Src vs = drop n Dst \<and> mset (take n Dst) = mset (outside vs Src)"

lemma build_inv_step:
  assumes "build_inv Src Dst n Aq vs" "vagon_ok (length Src) V" "n' \<le> n"
    and "\<And>i. i \<in> vrange V \<Longrightarrow> \<not> Aq ! i"
    and "segment Src V = take (n - n') (drop n' Dst)"
  shows "build_inv Src Dst n' (setAquired Aq V) (vs @ [V])"
proof -
  have dis: "covered vs \<inter> vrange V = {}"
    using assms(1,2,4) by (fastforce simp: build_inv_def vrange_def vagon_ok_def)
  have "drop n' Dst = take (n - n') (drop n' Dst) @ drop n Dst"
    using assms(3) by (metis append_take_drop_id drop_drop le_add_diff_inverse2)
  then have con: "content Src (vs @ [V]) = drop n' Dst"
    using assms(1,5) by (simp add: build_inv_def)
  have "take n Dst = take n' Dst @ take (n - n') (drop n' Dst)"
    using assms(3) by (metis le_add_diff_inverse take_add)
  then have "mset (take n Dst) = mset (take n' Dst) + mset (segment Src V)"
    using assms(5) by simp
  moreover have "mset (segment Src V) = mset (slice V Src)" by (simp add: segment_def)
  ultimately have "mset (take n' Dst) = mset (outside (vs @ [V]) Src)"
    using outside_snoc [OF assms(2) dis] assms(1) by (simp add: build_inv_def)
  with con dis assms(1-3) show ?thesis
    by (auto simp: build_inv_def train_ok_snoc setAquired_def vrange_def)
qed

lemma build_loop_correct:
  assumes "build_inv Src Dst n Aq vs" "length Src < 2 ^ 32"
  shows "\<exists>ws Aq'. build_loop Src Dst n Aq vs = Some ws \<and> build_inv Src Dst 0 Aq' ws"
  using assms
proof (induction n arbitrary: Aq vs rule: less_induct)
  case (less n)
  show ?case
  proof (cases "n = 0")
    case True
    with less.prems show ?thesis by (auto simp: build_loop.simps [of Src Dst 0])
  next
    case False
    have inv: "length Dst = length Src" "n \<le> length Src" "\<forall>i < length Src. Aq ! i \<longleftrightarrow> i \<in> covered vs"
      "mset (take n Dst) = mset (outside vs Src)"
      using less.prems(1) by (auto simp: build_inv_def)
    let ?v = "Dst ! (n - 1)"
    have "take n Dst ! (n - 1) = ?v" "n - 1 < length (take n Dst)" using False inv(1,2) by auto
    then have "?v \<in> set (take n Dst)" by (metis nth_mem)
    then have "?v \<in> set (outside vs Src)" using inv(4) by (metis set_mset_mset)
    then obtain i where "i < length Src" "i \<notin> covered vs" "Src ! i = ?v"
      by (auto simp: outside_def set_nths)
    then obtain f where f: "searchSrc Src Aq ?v = Some f"
      using inv(3) searchSrc_total by blast
    then have fs: "f < length Src" "Src ! f = ?v" "\<not> Aq ! f" using searchSrc_Some by blast+
    define R where "R = goRight Src Dst Aq f (n - 1)"
    define L where "L = goLeft Src Dst Aq f (n - 1)"
    have Rs: "R \<le> f" "R \<le> n - 1"
      "\<And>k. k < R \<Longrightarrow> Dst ! (n - 1 - Suc k) = Src ! (f - Suc k) \<and> \<not> Aq ! (f - Suc k)"
      using goRight_spec [OF R_def] by auto
    have Ls: "f + L < length Src" "L \<le> n - 1"
      "\<And>k. k < L \<Longrightarrow> Dst ! (n - 1 - Suc k) = Src ! (f + Suc k) \<and> \<not> Aq ! (f + Suc k)"
      using goLeft_spec [OF L_def fs(1) less.prems(2)] by auto
    show ?thesis
    proof (cases "L > R")
      case True
      define V where "V = \<lparr> DeepIdx = f + L, TopIdx = f, Inverted = True \<rparr>"
      have "segment Src V = take (n - (n - 1 - L)) (drop (n - 1 - L) Dst)"
      proof (rule nth_equalityI)
        show "length (segment Src V) = length (take (n - (n - 1 - L)) (drop (n - 1 - L) Dst))"
          using Ls(1,2) inv(1,2) False by (simp add: V_def segment_def slice_def)
        fix k assume "k < length (segment Src V)"
        then have k: "k \<le> L" using Ls(1) by (simp add: V_def segment_def slice_def)
        have "segment Src V ! k = Src ! (f + (L - k))"
          using k Ls(1) by (simp add: V_def segment_def slice_def rev_nth)
        also have "\<dots> = Dst ! (n - 1 - (L - k))"
          using k Ls(3) [of "L - k - 1"] fs(2) by (cases "k = L") (auto simp: Suc_diff_Suc)
        also have "n - 1 - (L - k) = n - 1 - L + k" using k Ls(2) by simp
        finally show "segment Src V ! k = take (n - (n - 1 - L)) (drop (n - 1 - L) Dst) ! k"
          using k Ls(2) inv(1,2) False by simp
      qed
      moreover have "\<not> Aq ! i" if "i \<in> vrange V" for i
      proof (cases "i = f")
        case False
        with that have "i - f - 1 < L" "f + Suc (i - f - 1) = i" by (auto simp: V_def vrange_def)
        with Ls(3) [of "i - f - 1"] show ?thesis by simp
      qed (use fs in simp)
      moreover have "vagon_ok (length Src) V" using True Ls(1) by (simp add: V_def vagon_ok_def)
      ultimately have "build_inv Src Dst (n - 1 - L) (setAquired Aq V) (vs @ [V])"
        using build_inv_step [OF less.prems(1)] by simp
      then have "\<exists>ws Aq'. build_loop Src Dst (n - 1 - L) (setAquired Aq V) (vs @ [V]) = Some ws \<and>
          build_inv Src Dst 0 Aq' ws"
        using less.IH [of "n - 1 - L"] False less.prems(2) by fastforce
      with True False f show ?thesis
        by (subst build_loop.simps) (simp add: Let_def R_def L_def V_def mk_Vagon_def)
    next
      case F: False
      define V where "V = \<lparr> DeepIdx = f, TopIdx = f - R, Inverted = False \<rparr>"
      have "segment Src V = take (n - (n - 1 - R)) (drop (n - 1 - R) Dst)"
      proof (rule nth_equalityI)
        show "length (segment Src V) = length (take (n - (n - 1 - R)) (drop (n - 1 - R) Dst))"
          using Rs(1,2) inv(1,2) fs(1) False by (simp add: V_def segment_def slice_def)
        fix k assume "k < length (segment Src V)"
        then have k: "k \<le> R" using Rs(1) fs(1) by (simp add: V_def segment_def slice_def)
        have "segment Src V ! k = Src ! (f - (R - k))"
          using k Rs(1) fs(1) by (simp add: V_def segment_def slice_def)
        also have "\<dots> = Dst ! (n - 1 - (R - k))"
          using k Rs(3) [of "R - k - 1"] fs(2) by (cases "k = R") (auto simp: Suc_diff_Suc)
        also have "n - 1 - (R - k) = n - 1 - R + k" using k Rs(2) by simp
        finally show "segment Src V ! k = take (n - (n - 1 - R)) (drop (n - 1 - R) Dst) ! k"
          using k Rs(2) inv(1,2) False by simp
      qed
      moreover have "\<not> Aq ! i" if "i \<in> vrange V" for i
      proof (cases "i = f")
        case False
        with that Rs(1) have "f - i - 1 < R" "f - Suc (f - i - 1) = i"
          by (auto simp: V_def vrange_def)
        with Rs(3) [of "f - i - 1"] show ?thesis by simp
      qed (use fs in simp)
      moreover have "vagon_ok (length Src) V" using fs(1) by (simp add: V_def vagon_ok_def)
      ultimately have "build_inv Src Dst (n - 1 - R) (setAquired Aq V) (vs @ [V])"
        using build_inv_step [OF less.prems(1)] by simp
      then have "\<exists>ws Aq'. build_loop Src Dst (n - 1 - R) (setAquired Aq V) (vs @ [V]) = Some ws \<and>
          build_inv Src Dst 0 Aq' ws"
        using less.IH [of "n - 1 - R"] False less.prems(2) by fastforce
      with F False f show ?thesis
        by (subst build_loop.simps) (simp add: Let_def R_def L_def V_def mk_Vagon_def)
    qed
  qed
qed

lemma Train_build_correct:
  assumes "mset Src = mset Dst" "length Src < 2 ^ 32"
  shows "\<exists>vs. Train_build Src Dst = Some vs \<and> train_ok (length Src) vs \<and>
           content Src vs = Dst \<and> outside vs Src = []"
proof -
  have len: "length Src = length Dst" using assms(1) by (rule mset_eq_length)
  have "build_inv Src Dst (length Src) (replicate (length Src) False) []"
    using assms(1) len by (simp add: build_inv_def)
  from build_loop_correct [OF this assms(2)] len show ?thesis
    by (auto simp: Train_build_def build_inv_def)
qed

lemma generateVagonXchgs_correct:
  assumes "mset from = mset to" "from \<noteq> []" "length from < 2 ^ 32" "built s0 (rv, from)"
  shows "\<exists>rv'. generateVagonXchgs rv from to = Some rv' \<and> built s0 (rv', to)"
proof -
  obtain vs where vs: "Train_build from to = Some vs" "train_ok (length from) vs"
      "content from vs = to" "outside vs from = []"
    using Train_build_correct [OF assms(1,3)] by blast
  have len: "length from = length to" using assms(1) by (rule mset_eq_length)
  have "vs \<noteq> []" using vs(4) assms(2) by auto
  then obtain V ws where V: "vs = V # ws" by (cases vs) auto
  let ?rest = "if DeepIdx V + 1 = length from \<and> \<not> Inverted V then ws else V # ws"
  have "train_ok (length from) ?rest" using vs(2) V by (auto simp: train_ok_Cons)
  then obtain st where st: "vagon_loop ?rest (rv, from) = Some st" "built s0 st"
      "snd st = content from ?rest @ outside ?rest from"
    using vagon_loop_correct [of "(rv, from)" ?rest s0] assms(4) by auto
  have "snd st = to"
  proof (cases "DeepIdx V + 1 = length from \<and> \<not> Inverted V")
    case False
    then have "?rest = V # ws" by (simp only: if_False)
    then show ?thesis using st(3) vs(3,4) V by (simp only: append_Nil2)
  next
    case True
    have V_ok: "vagon_ok (length from) V" and "vrange V \<inter> covered ws = {}"
      using vs(2) V by (auto simp: train_ok_Cons covered_def)
    moreover have "\<forall>i < length from. i \<in> covered vs"
    proof -
      have "set (nths from (- covered vs)) = {}" using vs(4) by (simp add: outside_def)
      then show ?thesis unfolding set_nths by blast
    qed
    ultimately have "outside ws from = nths from (vrange V)"
      using V unfolding outside_def by (intro nths_cong) auto
    also have "\<dots> = segment from V"
      using nths_vrange [OF V_ok] True by (simp add: segment_def)
    finally show ?thesis using st(3) vs(3) V True by (simp add: content_Cons)
  qed
  with st vs(1) V len show ?thesis
    by (cases st) (auto simp: generateVagonXchgs_def Let_def)
qed

end
