(* ===== verification/TVM_Diff.thy ===== *)
theory TVM_Diff
  imports TVM_Train
begin

text \<open>
  StackFixup::Diff of TVMStackFixup.cpp: the changes that turn one stack into another, where unused
  slots of the target may hold anything. It is followed by DiffForReturn, DiffForReturnMulti and
  DiffForHiddenStack.
\<close>

section \<open>The model\<close>

definition used_regs :: "Stack \<Rightarrow> StackVreg list" where
  "used_regs s = filter (\<lambda>v. v \<noteq> UnusedReg) (sort s)"

definition addElem :: "StackVreg \<Rightarrow> StackFixup \<times> Stack \<Rightarrow> (StackFixup \<times> Stack) option" where
  "addElem vreg st =
     (if vreg = UnusedReg then emit pushUndef st
      else do {
        i \<leftarrow> Stack_position (snd st) vreg;
        c \<leftarrow> mk_pushI i;
        emit c st })"

definition Diff :: "Stack \<Rightarrow> Stack \<Rightarrow> StackFixup option" where
  "Diff to from = do {
     let delVregs0 = set_difference (used_regs from) (used_regs to);
     let (unmaskedTo, delVregs1) = fillUnusedRegs to delVregs0;
     let fromRegs2 = set_difference (sort from) delVregs1;
     let delVregs = delVregs1 @ set_difference fromRegs2 (sort unmaskedTo);
     st \<leftarrow> (if delVregs \<noteq> [] then Deleter_run delVregs ([], from) else Some ([], from));
     let addVregs = set_difference (sort unmaskedTo) (sort (snd st));
     (rv, cur) \<leftarrow> foldM addElem addVregs st;
     check (length unmaskedTo = length cur);
     rv' \<leftarrow> generateVagonXchgs rv cur unmaskedTo;
     Some (optimize False rv') }"

text \<open>The exchange of slots i and j in DiffForReturn, and the final drop.\<close>

definition exchange_slots ::
  "nat \<Rightarrow> nat \<Rightarrow> StackFixup \<times> Stack \<Rightarrow> (StackFixup \<times> Stack) option" where
  "exchange_slots i j st =
     (if i \<noteq> j
      then (if i = 0 then do { c \<leftarrow> mk_xchgTop j; emit c st }
            else if j = 0 then do { c \<leftarrow> mk_xchgTop i; emit c st }
            else if i \<le> XchgLimit \<and> j \<le> XchgLimit then do { c \<leftarrow> mk_xchg i j; emit c st }
            else do { ci \<leftarrow> mk_xchgTop i; s1 \<leftarrow> emit ci st;
                      cj \<leftarrow> mk_xchgTop j; s2 \<leftarrow> emit cj s1; emit ci s2 })
      else Some st)"

definition drop_pops :: "nat \<Rightarrow> StackFixup \<times> Stack \<Rightarrow> (StackFixup \<times> Stack) option" where
  "drop_pops numPops st =
     (if numPops \<noteq> 0 then do { c \<leftarrow> makeBlkdrop numPops; emit c st } else Some st)"

text \<open>j is size(from) - 1 and wraps around on an empty stack; numPops is then left at 0.\<close>

definition DiffForReturn :: "Stack \<Rightarrow> StackVreg option \<Rightarrow> StackFixup option" where
  "DiffForReturn from Preserved = do {
     let numPops = length from;
     (st, numPops') \<leftarrow>
       (case Preserved of
          None \<Rightarrow> Some (([], from), numPops)
        | Some r \<Rightarrow> do {
            let j = usub (length from) 1;
            (st1, i) \<leftarrow>
              (if r = UnusedReg
               then do { st1 \<leftarrow> (if numPops = 0 then emit pushUndef ([], from) else Some ([], from));
                         Some (st1, j) }
               else do { i \<leftarrow> Stack_position from r; Some (([], from), i) });
            let numPops' = numPops - 1;
            st2 \<leftarrow> exchange_slots i j st1;
            Some (st2, numPops') });
     (rv, cur) \<leftarrow> drop_pops numPops' st;
     annotate (optimize False rv) from }"

definition DiffForReturnMulti :: "Stack \<Rightarrow> StackVreg list \<Rightarrow> StackFixup option" where
  "DiffForReturnMulti Src RetRegs = Diff (rev RetRegs) Src"

definition DiffForHiddenStack :: "Stack \<Rightarrow> nat \<Rightarrow> StackVreg \<Rightarrow> StackFixup option" where
  "DiffForHiddenStack Src Element OutRegister = do {
     c \<leftarrow> mk_pushHidden (length Src + Element) OutRegister;
     (rv, cur) \<leftarrow> emit c ([], Src);
     Some rv }"

section \<open>Filling unused slots\<close>

text \<open>The specification of a target with holes: used slots are met, holes are free.\<close>

definition matches :: "Stack \<Rightarrow> Stack \<Rightarrow> bool" where
  "matches s to \<longleftrightarrow> list_all2 (\<lambda>v w. w \<noteq> UnusedReg \<longrightarrow> v = w) s to"

lemma matches_refl [simp]: "matches s s"
  by (simp add: matches_def list_all2_refl)

lemma matches_length: "matches s to \<Longrightarrow> length s = length to"
  by (simp add: matches_def list_all2_lengthD)

lemma matches_nth: "matches s to \<Longrightarrow> i < length to \<Longrightarrow> to ! i \<noteq> UnusedReg \<Longrightarrow> s ! i = to ! i"
  by (simp add: matches_def list_all2_conv_all_nth)

text \<open>What fillUnusedRegs takes from the list is a suffix of it; it goes where the holes were.\<close>

lemma fillUnusedRegs_spec:
  "fillUnusedRegs to regs = (s', regs') \<Longrightarrow>
   matches s' to \<and>
   (\<exists>taken n. regs = regs' @ taken \<and> mset s' + replicate_mset n UnusedReg = mset to + mset taken \<and>
      n = length taken \<and> n \<le> count (mset to) UnusedReg)"
proof (induction to regs arbitrary: s' regs' rule: fillUnusedRegs.induct)
  case (2 v s regs)
  consider "regs = []" | "regs \<noteq> []" "v = UnusedReg" | "regs \<noteq> []" "v \<noteq> UnusedReg" by blast
  then show ?case
  proof cases
    case 1
    with "2.prems" show ?thesis by simp
  next
    case 2
    obtain t r where tr: "fillUnusedRegs s (butlast regs) = (t, r)" by fastforce
    from "2.IH"(1) [OF 2 tr] obtain taken n where
      "matches t s" "butlast regs = r @ taken" "n = length taken"
      "mset t + replicate_mset n UnusedReg = mset s + mset taken" "n \<le> count (mset s) UnusedReg"
      by blast
    moreover have "s' = last regs # t" "regs' = r" using "2.prems" 2 tr by auto
    moreover have "regs = butlast regs @ [last regs]" using 2 by simp
    ultimately have "matches s' (v # s) \<and> regs = regs' @ (taken @ [last regs]) \<and>
      mset s' + replicate_mset (Suc n) UnusedReg = mset (v # s) + mset (taken @ [last regs]) \<and>
      Suc n = length (taken @ [last regs]) \<and> Suc n \<le> count (mset (v # s)) UnusedReg"
      using 2(2) by (auto simp: matches_def)
    then show ?thesis by blast
  next
    case 3
    obtain t r where tr: "fillUnusedRegs s regs = (t, r)" by fastforce
    from "2.IH"(2) [OF 3 tr] obtain taken n where
      "matches t s" "regs = r @ taken" "n = length taken"
      "mset t + replicate_mset n UnusedReg = mset s + mset taken" "n \<le> count (mset s) UnusedReg"
      by blast
    moreover have "s' = v # t" "regs' = r" using "2.prems" 3 tr by auto
    ultimately show ?thesis using 3(2) by (auto simp: matches_def)
  qed
qed (simp add: matches_def)

section \<open>The correctness of Diff\<close>

lemma mset_used_regs: "mset (used_regs s) = filter_mset (\<lambda>v. v \<noteq> UnusedReg) (mset s)"
  by (simp add: used_regs_def)

lemma sorted_used_regs [simp]: "sorted (used_regs s)"
  using sorted_filter [of id "sort s"] by (simp add: used_regs_def)

lemma count_used_regs: "count (mset (used_regs s)) v = (if v = UnusedReg then 0 else count (mset s) v)"
  by (simp add: mset_used_regs)

text \<open>
  The counts of the four register lists of Diff. Here D is the first difference, taken and rest its
  two parts, and unmasked the target with its holes filled.
\<close>

lemma fill_counts:
  fixes frm to unmasked taken rest :: "nat multiset"
  assumes "\<And>v. count (rest + taken) v =
      (if v = UnusedReg then 0 else count frm v - count to v)"
    and "unmasked + replicate_mset n UnusedReg = to + taken"
    and "v \<noteq> UnusedReg"
  shows "count unmasked v = count to v + count taken v"
    and "count rest v + count taken v = count frm v - count to v"
    and "count (frm - rest) v \<le> count unmasked v"
    and "count to v > 0 \<longrightarrow> count frm v > 0 \<Longrightarrow>
         count (frm - rest) v < count unmasked v \<Longrightarrow> count (frm - rest) v > 0"
proof -
  from assms(1) [of v] assms(3) show r: "count rest v + count taken v = count frm v - count to v"
    by simp
  have "count (unmasked + replicate_mset n UnusedReg) v = count (to + taken) v"
    using assms(2) by simp
  with assms(3) show u: "count unmasked v = count to v + count taken v" by simp
  show "count (frm - rest) v \<le> count unmasked v" using r u by simp
  show "count (frm - rest) v > 0"
    if "count to v > 0 \<longrightarrow> count frm v > 0" "count (frm - rest) v < count unmasked v"
    using r u that unfolding count_diff by arith
qed

lemma emit_pushUndef:
  "built s0 st \<Longrightarrow> \<exists>st'. emit pushUndef st = Some st' \<and> built s0 st' \<and> snd st' = UnusedReg # snd st"
  using emit_built [of pushUndef st] by (cases st) (simp add: emit_eq)

lemma addElem_correct:
  assumes "built s0 st" "v = UnusedReg \<or> v \<in> set (snd st)" "length (snd st) \<le> 256"
  shows "\<exists>st'. addElem v st = Some st' \<and> built s0 st' \<and> snd st' = v # snd st"
proof (cases "v = UnusedReg")
  case True
  then show ?thesis using emit_pushUndef [OF assms(1)] by (auto simp: addElem_def)
next
  case False
  obtain fx cur where st: "st = (fx, cur)" by (cases st)
  obtain i where i: "Stack_position cur v = Some i" "i < length cur" "cur ! i = v"
    using assms(2) False st by (auto simp: Stack_position_def dest!: find_index_member dest: find_index_Some)
  then have e: "emit (pushI i) st = Some (fx @ [(pushI i, Some (v # cur))], v # cur)"
    using st by (simp add: emit_eq)
  with emit_built [OF e assms(1)] i False assms(3) st show ?thesis
    by (auto simp: addElem_def mk_pushI_def limit_defs)
qed

lemma addElems_correct:
  assumes "built s0 st" "\<And>v. v \<in> set vs \<Longrightarrow> v = UnusedReg \<or> v \<in> set (snd st)"
    "length (snd st) + length vs \<le> 257"
  shows "\<exists>st'. foldM addElem vs st = Some st' \<and> built s0 st' \<and> snd st' = rev vs @ snd st"
  using assms
proof (induction vs arbitrary: st)
  case (Cons v vs)
  obtain st1 where st1: "addElem v st = Some st1" "built s0 st1" "snd st1 = v # snd st"
    using addElem_correct [of s0 st v] Cons.prems by auto
  have "v' = UnusedReg \<or> v' \<in> set (snd st1)" if "v' \<in> set vs" for v'
    using Cons.prems(2) [of v'] that st1(3) by auto
  moreover have "length (snd st1) + length vs \<le> 257" using st1(3) Cons.prems(3) by simp
  ultimately obtain st2 where
      "foldM addElem vs st1 = Some st2" "built s0 st2" "snd st2 = rev vs @ snd st1"
    using Cons.IH [OF st1(2)] by blast
  with st1 show ?case by simp
qed simp

lemma all_equal_replicate: "(\<And>x. x \<in> set xs \<Longrightarrow> x = a) \<Longrightarrow> xs = replicate (length xs) a"
  by (induction xs) auto

text \<open>
  The intermediate results: the second difference holds unused slots only, the deletion can be
  done, and every register that is then missing can be copied from the stack.
\<close>

lemma Diff_lists:
  assumes fill: "fillUnusedRegs to (set_difference (used_regs from) (used_regs to)) = (unm, del1)"
    and avail: "\<forall>v \<in> set to. v \<noteq> UnusedReg \<longrightarrow> v \<in> set from"
  defines "sdiff \<equiv> set_difference (set_difference (sort from) del1) (sort unm)"
  shows "matches unm to"
    and "mset (del1 @ sdiff) \<subseteq># mset from"
    and "grouped (rev (del1 @ sdiff))"
    and "mset from - mset (del1 @ sdiff) \<subseteq># mset unm"
    and "\<And>v. v \<in># mset unm - (mset from - mset (del1 @ sdiff)) \<Longrightarrow>
           v = UnusedReg \<or> v \<in># mset from - mset (del1 @ sdiff)"
proof -
  obtain taken n where t: "set_difference (used_regs from) (used_regs to) = del1 @ taken"
      "mset unm + replicate_mset n UnusedReg = mset to + mset taken" "n = length taken"
      "n \<le> count (mset to) UnusedReg" "matches unm to"
    using fillUnusedRegs_spec [OF fill] by metis
  show "matches unm to" by fact
  have "sorted (del1 @ taken)"
    using sorted_set_difference [OF sorted_used_regs] t(1) by metis
  then have sd: "sorted del1" by (simp add: sorted_append)
  have "mset (del1 @ taken) = mset (used_regs from) - mset (used_regs to)"
    using mset_set_difference [of "used_regs from" "used_regs to"] t(1) by simp
  then have cnt: "count (mset del1 + mset taken) v =
      (if v = UnusedReg then 0 else count (mset from) v - count (mset to) v)" for v
    by (simp add: count_used_regs)
  note fc = fill_counts [OF cnt t(2)]
  have U: "UnusedReg \<notin># mset del1 + mset taken"
    using cnt [of UnusedReg] by (simp only: count_eq_zero_iff [symmetric] if_True simp_thms)
  have f2: "mset (set_difference (sort from) del1) = mset from - mset del1"
    using mset_set_difference [of "sort from" del1] sd by simp
  have sdm: "mset sdiff = mset from - mset del1 - mset unm"
    using mset_set_difference [of "set_difference (sort from) del1" "sort unm"] f2
      sorted_set_difference [of "sort from" del1] by (simp add: sdiff_def)
  have "v = UnusedReg" if "v \<in> set sdiff" for v
  proof (rule ccontr)
    assume "v \<noteq> UnusedReg"
    from fc(3) [OF this] have "count (mset sdiff) v = 0" using sdm by simp
    with that show False by (simp add: count_eq_zero_iff)
  qed
  then have rep: "sdiff = replicate (length sdiff) UnusedReg" by (rule all_equal_replicate)
  have d1: "mset del1 \<subseteq># mset from"
  proof (rule mset_subset_eqI)
    fix v show "count (mset del1) v \<le> count (mset from) v"
      using cnt [of v] unfolding count_union by (cases "v = UnusedReg") (simp_all only: if_True if_False, arith+)
  qed
  have sub: "mset sdiff \<subseteq># mset from - mset del1"
    unfolding sdm by (rule diff_subset_eq_self)
  with d1 show 2: "mset (del1 @ sdiff) \<subseteq># mset from"
    by (simp add: subset_eq_diff_conv subset_mset.le_diff_conv2 add.commute)
  have "grouped (rev del1)" using sd by (intro grouped_descending) (simp add: sorted_wrt_rev)
  moreover have "UnusedReg \<notin> set (rev del1)" using U by auto
  ultimately have "grouped (replicate (length sdiff) UnusedReg @ rev del1)"
    by (rule grouped_replicate_append)
  then show "grouped (rev (del1 @ sdiff))" using rep by (metis rev_append rev_replicate)
  have cur: "mset from - mset (del1 @ sdiff) = (mset from - mset del1) \<inter># mset unm"
    using sdm by (simp add: multiset_eq_iff) (simp add: min_def, arith?)
  then show "mset from - mset (del1 @ sdiff) \<subseteq># mset unm" by simp
  fix v assume v: "v \<in># mset unm - (mset from - mset (del1 @ sdiff))"
  show "v = UnusedReg \<or> v \<in># mset from - mset (del1 @ sdiff)"
  proof (cases "v = UnusedReg")
    case False
    have "count (mset from - mset (del1 @ sdiff)) v < count (mset unm) v"
      using v unfolding count_greater_zero_iff [symmetric] count_diff by arith
    then have lt: "count (mset from - mset del1) v < count (mset unm) v"
      unfolding cur by (simp add: min_def split: if_splits)
    have im: "count (mset to) v > 0 \<longrightarrow> count (mset from) v > 0" using avail False by auto
    have "count (mset from - mset del1) v > 0" by (rule fc(4) [OF False im lt])
    with lt have "count ((mset from - mset del1) \<inter># mset unm) v > 0" by simp
    then show ?thesis unfolding cur by (simp only: count_greater_zero_iff simp_thms)
  qed simp
qed

lemma built_optimize:
  assumes "built s (rv, t)"
  shows "apply_fixup (optimize False rv) s = Some t"
  using optimize_sound [of rv s t] assms by (simp add: built_def apply_fixup_def changes_def)

lemma Diff_reaches:
  assumes "to \<noteq> []" "length to \<le> 256"
    and "\<forall>v \<in> set to. v \<noteq> UnusedReg \<longrightarrow> v \<in> set from"
  shows "\<exists>fx t. Diff to from = Some fx \<and> apply_fixup fx from = Some t \<and> matches t to"
proof -
  obtain unm del1 where fill:
    "fillUnusedRegs to (set_difference (used_regs from) (used_regs to)) = (unm, del1)" by fastforce
  define del where
    "del = del1 @ set_difference (set_difference (sort from) del1) (sort unm)"
  note L = Diff_lists [OF fill assms(3), folded del_def]
  have "\<exists>st. (if del \<noteq> [] then Deleter_run del ([], from) else Some ([], from)) = Some st \<and>
      built from st \<and> mset (snd st) = mset from - mset del"
    using Deleter_run_correct [of "from" "([], from)" del] L(2,3) by auto
  then obtain st where st: "(if del \<noteq> [] then Deleter_run del ([], from) else Some ([], from)) = Some st"
      "built from st" "mset (snd st) = mset from - mset del" by blast
  let ?add = "set_difference (sort unm) (sort (snd st))"
  have add: "mset ?add = mset unm - mset (snd st)"
    using mset_set_difference [of "sort unm" "sort (snd st)"] by simp
  have unm: "length unm = length to" using L(1) by (rule matches_length)
  have total: "mset ?add + mset (snd st) = mset unm"
    using add st(3) L(4) by (metis subset_mset.diff_add)
  then have len: "length (snd st) + length ?add = length to"
    using unm by (metis add.commute size_mset size_union)
  have "v = UnusedReg \<or> v \<in> set (snd st)" if "v \<in> set ?add" for v
    using L(5) [of v] that add st(3) by (metis set_mset_mset)
  then obtain st2 where st2: "foldM addElem ?add st = Some st2" "built from st2"
      "snd st2 = rev ?add @ snd st"
    using addElems_correct [OF st(2), of ?add] len assms(2) by auto
  have eq: "mset (snd st2) = mset unm" using total st2(3) by simp
  then have len2: "length (snd st2) = length unm" by (rule mset_eq_length)
  have "snd st2 \<noteq> []" "length (snd st2) < 2 ^ 32" using len2 unm assms(1,2) by auto
  then obtain rv where rv: "generateVagonXchgs (fst st2) (snd st2) unm = Some rv"
      "built from (rv, unm)"
    using generateVagonXchgs_correct [OF eq, of "from" "fst st2"] st2(2) by auto
  have "Diff to from = Some (optimize False rv)"
    unfolding Diff_def fill Let_def prod.case del_def [symmetric] st(1)
    using st2(1) len2 rv(1) by (simp add: split_beta)
  moreover have "apply_fixup (optimize False rv) from = Some unm"
    using rv(2) by (rule built_optimize)
  ultimately show ?thesis using L(1) by blast
qed

section \<open>Returning\<close>

lemma built_annotate:
  assumes "built s (rv, t)"
  shows "\<exists>fx. annotate (optimize False rv) s = Some fx \<and> apply_fixup fx s = Some t \<and> commented fx s"
proof -
  have r: "apply_fixup (optimize False rv) s = Some t" by (rule built_optimize [OF assms])
  then obtain fx where "annotate (optimize False rv) s = Some fx" using annotate_total by blast
  moreover from annotate_commented [OF this] r have "apply_fixup fx s = Some t \<and> commented fx s"
    by (simp add: apply_fixup_def)
  ultimately show ?thesis by blast
qed

lemma emit_Some:
  "apply_change c (snd st) = Some t \<Longrightarrow> built s0 st \<Longrightarrow>
   \<exists>st'. emit c st = Some st' \<and> built s0 st' \<and> snd st' = t"
  using emit_built [of c st _ s0] by (cases st) (simp add: emit_apply)

lemma drop_pops_correct:
  assumes "built s0 st" "n \<le> length (snd st)"
  shows "\<exists>st'. drop_pops n st = Some st' \<and> built s0 st' \<and> snd st' = drop n (snd st)"
  using emit_makeBlkdrop [of n st s0] assms
  by (cases "n = 0") (auto simp: drop_pops_def bind_eq_Some_conv)

lemma DiffForReturn_nothing:
  "\<exists>fx. DiffForReturn from None = Some fx \<and> apply_fixup fx from = Some [] \<and> commented fx from"
proof -
  obtain st where st: "drop_pops (length from) ([], from) = Some st" "built from st" "snd st = []"
    using drop_pops_correct [of "from" "([], from)" "length from"] by auto
  obtain rv where rv: "st = (rv, [])" using st(3) by (cases st) simp
  show ?thesis
    using built_annotate [of "from" rv "[]"] st rv by (simp add: DiffForReturn_def)
qed

lemma exchange_slots_correct:
  assumes "built s0 st" "i < length (snd st)" "j < length (snd st)" "length (snd st) \<le> 256"
  shows "\<exists>st'. exchange_slots i j st = Some st' \<and> built s0 st' \<and> snd st' = swap_at i j (snd st)"
proof -
  have m: "mk_xchgTop k = Some (xchgTop k)" if "k = i \<or> k = j" for k
    using that assms(2-4) by (auto simp: mk_xchgTop_def limit_defs)
  consider "i = j" | "i \<noteq> j" "i = 0" | "i \<noteq> j" "i \<noteq> 0" "j = 0"
    | "i \<noteq> j" "i \<noteq> 0" "j \<noteq> 0" "i \<le> XchgLimit \<and> j \<le> XchgLimit"
    | "i \<noteq> j" "i \<noteq> 0" "j \<noteq> 0" "\<not> (i \<le> XchgLimit \<and> j \<le> XchgLimit)" by blast
  then show ?thesis
  proof cases
    case 1
    then show ?thesis using assms(1) by (simp add: exchange_slots_def swap_at_def)
  next
    case 2
    then show ?thesis
      using emit_Some [OF _ assms(1), of "xchgTop j" "swap_at i j (snd st)"] m assms(3) by (simp add: exchange_slots_def)
  next
    case 3
    then show ?thesis
      using emit_Some [OF _ assms(1), of "xchgTop i" "swap_at i j (snd st)"] m assms(2)
      by (simp add: exchange_slots_def swap_at_commute)
  next
    case 4
    then have "mk_xchg i j = Some (xchg_unchecked i j)" by (simp add: mk_xchg_def min_def max_def)
    moreover have "apply_change (xchg_unchecked i j) (snd st) = Some (swap_at i j (snd st))"
      using assms(2,3) by (simp add: xchg_unchecked_def min_def max_def swap_at_commute [of j i])
    ultimately show ?thesis using 4 emit_Some [OF _ assms(1)] by (simp add: exchange_slots_def)
  next
    case 5
    obtain s1 where s1: "emit (xchgTop i) st = Some s1" "built s0 s1" "snd s1 = swap_at 0 i (snd st)"
      using emit_Some [OF _ assms(1), of "xchgTop i" "swap_at 0 i (snd st)"] assms(2) by auto
    obtain s2 where s2: "emit (xchgTop j) s1 = Some s2" "built s0 s2" "snd s2 = swap_at 0 j (snd s1)"
      using emit_Some [OF _ s1(2), of "xchgTop j" "swap_at 0 j (snd s1)"] assms(3) s1(3) by auto
    obtain s3 where s3: "emit (xchgTop i) s2 = Some s3" "built s0 s3" "snd s3 = swap_at 0 i (snd s2)"
      using emit_Some [OF _ s2(2), of "xchgTop i" "swap_at 0 i (snd s2)"] assms(2) s1(3) s2(3) by auto
    have "swap_at 0 i (swap_at 0 j (swap_at 0 i (snd st))) = swap_at i j (snd st)"
      using 5(1-3) assms(2,3) less_le_trans [of 0 i "length (snd st)"] by (intro nth_equalityI) (auto simp: nth_swap_at)
    with 5 m s1 s2 s3 show ?thesis by (cases s3) (auto simp: exchange_slots_def)
  qed
qed

lemma DiffForReturn_preserves:
  assumes "r \<in> set from" "r \<noteq> UnusedReg" "length from \<le> 256"
  shows "\<exists>fx. DiffForReturn from (Some r) = Some fx \<and>
           apply_fixup fx from = Some [r] \<and> commented fx from"
proof -
  let ?j = "length from - 1"
  obtain i where i: "Stack_position from r = Some i" "i < length from" "from ! i = r"
    using find_index_member [OF assms(1)] by (auto simp: Stack_position_def dest: find_index_Some)
  have j: "usub (length from) 1 = ?j" using i(2) assms(3) by (intro usub_le) auto
  obtain st where st: "exchange_slots i ?j ([], from) = Some st" "built from st"
      "snd st = swap_at i ?j from"
    using exchange_slots_correct [of "from" "([], from)" i ?j] i(2) assms(3) by fastforce
  obtain st2 where st2: "drop_pops ?j st = Some st2" "built from st2" "snd st2 = drop ?j (snd st)"
    using drop_pops_correct [OF st(2), of ?j] st(3) by auto
  have "drop ?j (swap_at i ?j from) = [swap_at i ?j from ! ?j]"
    using i(2) by (simp add: Cons_nth_drop_Suc [symmetric])
  then have res: "snd st2 = [r]" using st2(3) st(3) i(2,3) by (simp add: nth_swap_at)
  have "DiffForReturn from (Some r) = annotate (optimize False (fst st2)) from"
    unfolding DiffForReturn_def Let_def option.case using assms(2) i(1) j st(1) st2(1)
    by (simp add: split_beta)
  with built_annotate [of "from" "fst st2" "[r]"] st2(2) res show ?thesis by (cases st2) auto
qed

lemma DiffForReturn_hole:
  "\<exists>fx t. DiffForReturn from (Some UnusedReg) = Some fx \<and>
     apply_fixup fx from = Some t \<and> length t = 1 \<and> commented fx from"
proof (cases "from = []")
  case True
  obtain st where st: "emit pushUndef ([], []) = Some st" "built [] st" "snd st = [UnusedReg]"
    using emit_pushUndef [of "[]" "([], [])"] by auto
  with True built_annotate [of "[]" "fst st" "[UnusedReg]"] show ?thesis
    by (cases st) (auto simp: DiffForReturn_def Let_def exchange_slots_def drop_pops_def)
next
  case False
  let ?n = "length from - 1"
  obtain st where st: "drop_pops ?n ([], from) = Some st" "built from st" "snd st = drop ?n from"
    using drop_pops_correct [of "from" "([], from)" ?n] by auto
  have "DiffForReturn from (Some UnusedReg) = annotate (optimize False (fst st)) from"
    unfolding DiffForReturn_def Let_def option.case using False st(1)
    by (simp add: split_beta exchange_slots_def)
  moreover have "length (drop ?n from) = 1" using False by (cases "from") auto
  ultimately show ?thesis
    using built_annotate [of "from" "fst st" "drop ?n from"] st(2,3) by (cases st) auto
qed

lemma DiffForReturnMulti_reaches:
  assumes "RetRegs \<noteq> []" "length RetRegs \<le> 256"
    and "\<forall>r \<in> set RetRegs. r \<noteq> UnusedReg \<longrightarrow> r \<in> set Src"
  shows "\<exists>fx t. DiffForReturnMulti Src RetRegs = Some fx \<and> apply_fixup fx Src = Some t \<and>
           matches t (rev RetRegs)"
  unfolding DiffForReturnMulti_def using assms by (intro Diff_reaches) auto

lemma DiffForHiddenStack_keeps:
  "DiffForHiddenStack Src e r = Some fx \<Longrightarrow>
   fx = [(pushHidden (length Src + e) r, Some Src)] \<and> apply_fixup fx Src = Some Src"
  by (auto simp: DiffForHiddenStack_def mk_pushHidden_def bind_eq_Some_conv emit_eq apply_fixup_def
      changes_def fixup.run_single split: if_splits)

end
