(* ===== verification/TVM_Patterns.thy ===== *)
theory TVM_Patterns
  imports TVM_Fixup
begin

text \<open>
  The exchange patterns of TVMStackPatterns.cpp: how two or three arguments found at given stack
  positions are brought to the top with few instructions. Each pattern returns the changes it
  appends to the fixup; a letter of its name says whether that argument is exchanged (x) or
  pushed (p).
\<close>

section \<open>Index correction\<close>

text \<open>XchgPairCorrector: where the element of a position is after the two were exchanged.\<close>

definition correct :: "nat \<Rightarrow> nat \<Rightarrow> nat \<Rightarrow> nat" where
  "correct deep tp idx = (if idx = deep then tp else if idx = tp then deep else idx)"

lemma nth_swap_correct:
  "d < length s \<Longrightarrow> t < length s \<Longrightarrow> i < length s \<Longrightarrow> swap_at d t s ! correct d t i = s ! i"
  by (simp add: correct_def nth_swap_at)

lemma correct_less [simp]: "d < n \<Longrightarrow> t < n \<Longrightarrow> i < n \<Longrightarrow> correct d t i < n"
  by (simp add: correct_def)

definition arg0 :: "nat \<Rightarrow> bool" where
  "arg0 idx \<longleftrightarrow> idx = 1"

definition arg1 :: "nat \<Rightarrow> bool" where
  "arg1 idx \<longleftrightarrow> idx = 0"

definition noArg :: "nat \<Rightarrow> bool" where
  "noArg idx \<longleftrightarrow> idx \<ge> 2"

definition is_xx :: "nat \<Rightarrow> nat \<Rightarrow> nat \<Rightarrow> bool" where
  "is_xx a b c \<longleftrightarrow> noArg a \<and> noArg b \<and> noArg c"

definition is_xc :: "nat \<Rightarrow> nat \<Rightarrow> nat \<Rightarrow> bool" where
  "is_xc a b c \<longleftrightarrow> arg1 c \<and> noArg a \<and> noArg b"

definition is_ax :: "nat \<Rightarrow> nat \<Rightarrow> nat \<Rightarrow> bool" where
  "is_ax a b c \<longleftrightarrow> arg0 a \<and> noArg b \<and> noArg c"

definition is_ab :: "nat \<Rightarrow> nat \<Rightarrow> nat \<Rightarrow> bool" where
  "is_ab a b c \<longleftrightarrow> arg0 a \<and> arg1 b \<and> noArg c"

definition is_ac :: "nat \<Rightarrow> nat \<Rightarrow> nat \<Rightarrow> bool" where
  "is_ac a b c \<longleftrightarrow> arg0 a \<and> arg1 c \<and> noArg b"

definition is_bx :: "nat \<Rightarrow> nat \<Rightarrow> nat \<Rightarrow> bool" where
  "is_bx a b c \<longleftrightarrow> arg0 b \<and> noArg a \<and> noArg c"

definition is_ba :: "nat \<Rightarrow> nat \<Rightarrow> nat \<Rightarrow> bool" where
  "is_ba a b c \<longleftrightarrow> arg0 b \<and> arg1 a \<and> noArg c"

definition is_bc :: "nat \<Rightarrow> nat \<Rightarrow> nat \<Rightarrow> bool" where
  "is_bc a b c \<longleftrightarrow> arg0 b \<and> arg1 c \<and> noArg a"

definition is_cx :: "nat \<Rightarrow> nat \<Rightarrow> nat \<Rightarrow> bool" where
  "is_cx a b c \<longleftrightarrow> arg0 c \<and> noArg a \<and> noArg b"

definition is_ca :: "nat \<Rightarrow> nat \<Rightarrow> nat \<Rightarrow> bool" where
  "is_ca a b c \<longleftrightarrow> arg0 c \<and> arg1 a \<and> noArg b"

definition is_cb :: "nat \<Rightarrow> nat \<Rightarrow> nat \<Rightarrow> bool" where
  "is_cb a b c \<longleftrightarrow> arg0 c \<and> arg1 b \<and> noArg a"

lemmas arg_defs = arg0_def arg1_def noArg_def is_xx_def is_xc_def is_ax_def is_ab_def is_ac_def
  is_bx_def is_ba_def is_bc_def is_cx_def is_ca_def is_cb_def

section \<open>One argument\<close>

definition pattern_x :: "nat \<Rightarrow> nat \<Rightarrow> Change list option" where
  "pattern_x i dst0 =
     (if i = dst0 then Some []
      else if dst0 = 0 then do { c \<leftarrow> mk_xchgTop i; Some [c] }
      else if i = 0 then do { c \<leftarrow> mk_xchgTop dst0; Some [c] }
      else do { c \<leftarrow> mk_xchg i dst0; Some [c] })"

section \<open>Two arguments\<close>

definition pattern2_pp :: "nat \<Rightarrow> nat \<Rightarrow> Change list option" where
  "pattern2_pp i j = Some [push2 i j]"

definition pattern2_xp :: "nat \<Rightarrow> nat \<Rightarrow> Change list option" where
  "pattern2_xp i j =
     (if i = 0 then do { c \<leftarrow> mk_pushI j; Some [c] }
      else Some [xcpu i (correct 0 i j)])"

definition pattern2_px :: "nat \<Rightarrow> nat \<Rightarrow> Change list option" where
  "pattern2_px i j =
     (if j = 0 then do { c \<leftarrow> mk_pushI i; d \<leftarrow> mk_swap; Some [c, d] }
      else Some [puxc i j])"

definition pattern2_xx :: "nat \<Rightarrow> nat \<Rightarrow> Change list option" where
  "pattern2_xx i j =
     (if i = 1 \<and> j = 0 then Some []
      else if i = 1 then pattern_x j 0
      else if j = 0 then pattern_x i 1
      else if j = 1 \<and> i \<noteq> 0 then Some [xchg2 i i]
      else if j = 1 \<and> i = 0 then do { c \<leftarrow> mk_swap; Some [c] }
      else Some [xchg2 i j])"

text \<open>The overload with explicit destinations.\<close>

definition pattern2_xx_dst :: "nat \<Rightarrow> nat \<Rightarrow> nat \<Rightarrow> nat \<Rightarrow> Change list option" where
  "pattern2_xx_dst i j dst0 dst1 = do {
     check (dst0 \<noteq> dst1 \<and> i \<noteq> j);
     if i = dst0 \<and> j = dst1 then Some []
     else if i = dst0 then pattern_x j dst1
     else if j = dst1 then pattern_x i dst0
     else if dst0 = 1 \<and> dst1 = 0 then pattern2_xx i j
     else if dst0 = 0 \<and> dst1 = 1 then pattern2_xx j i
     else do {
       cs \<leftarrow> pattern_x i dst0;
       ds \<leftarrow> pattern_x (correct i dst0 j) dst1;
       Some (cs @ ds) } }"

section \<open>Three arguments\<close>

definition pattern3_xxx :: "nat \<Rightarrow> nat \<Rightarrow> nat \<Rightarrow> Change list option" where
  "pattern3_xxx i j k =
     (if i < 3 \<and> j < 3 \<and> k < 3
      then (if i = 2 \<and> j = 1 \<and> k = 0 then Some []
            else if i = 2 \<and> j = 0 \<and> k = 1 then do { c \<leftarrow> mk_swap; Some [c] }
            else if i = 1 \<and> j = 2 \<and> k = 0 then do { c \<leftarrow> mk_xchg 2 1; Some [c] }
            else if i = 0 \<and> j = 2 \<and> k = 1 then do { c \<leftarrow> makeRollRev 2; Some [c] }
            else if i = 1 \<and> j = 0 \<and> k = 2 then do { c \<leftarrow> mk_rot; Some [c] }
            else if i = 0 \<and> j = 1 \<and> k = 2 then do { c \<leftarrow> mk_reverse 3 0; Some [c] }
            else None)
      else if i = 2 then pattern2_xx j k
      else (let j1 = correct i 2 j; k1 = correct i 2 k; k2 = correct j1 1 k1
            in Some [xchg3 i j1 k2]))"

definition pattern3_xxp :: "nat \<Rightarrow> nat \<Rightarrow> nat \<Rightarrow> Change list option" where
  "pattern3_xxp i j k =
     (if is_ab i j k then do { c \<leftarrow> mk_pushI k; Some [c] }
      else if is_ax i j k then pattern2_xp j k
      else (let j1 = correct i 1 j; k1 = correct i 1 k; k2 = correct j1 0 k1
            in Some [xc2pu i j1 k2]))"

definition pattern3_xpx :: "nat \<Rightarrow> nat \<Rightarrow> nat \<Rightarrow> Change list option" where
  "pattern3_xpx i j k =
     (if i = 1 \<and> k = 0 then do { c \<leftarrow> mk_pushI j; d \<leftarrow> mk_swap; Some [c, d] }
      else if i = 1 then pattern2_px j k
      else (let j1 = correct i 1 j; k1 = correct i 1 k
            in if k1 = 0
               then do { c \<leftarrow> mk_xchg i 1; d \<leftarrow> mk_pushI j1; e \<leftarrow> mk_swap; Some [c, d, e] }
               else Some [xcpuxc i j1 k1]))"

definition pattern3_xpp :: "nat \<Rightarrow> nat \<Rightarrow> nat \<Rightarrow> Change list option" where
  "pattern3_xpp i j k =
     (if i = 0 then pattern2_pp j k else Some [xcpu2 i (correct i 0 j) (correct i 0 k)])"

definition impl_pxx :: "nat \<Rightarrow> nat \<Rightarrow> nat \<Rightarrow> Change list option" where
  "impl_pxx i j k = Some [puxc2 i j k]"

definition pattern3_pxx :: "nat \<Rightarrow> nat \<Rightarrow> nat \<Rightarrow> Change list option" where
  "pattern3_pxx i j k =
     (if is_xx i j k then impl_pxx i j k
      else if is_xc i j k \<or> is_ac i j k then impl_pxx i j j
      else if is_bx i j k then do { c \<leftarrow> makeRollRev 2; Some [xcpu k i, c] }
      else if is_ba i j k then do { c \<leftarrow> makeRollRev 2; Some [xcpu k k, c] }
      else if is_bc i j k then do { p \<leftarrow> mk_pushI i; c \<leftarrow> makeRollRev 2; Some [p, c] }
      else if is_cx i j k then do { c \<leftarrow> mk_xchgTop 2; Some [xcpu j i, c] }
      else if is_ca i j k then do { c \<leftarrow> mk_xchgTop 2; Some [xcpu j j, c] }
      else if is_cb i j k then do { p \<leftarrow> mk_pushI i; c \<leftarrow> mk_xchgTop 2; Some [p, c] }
      else impl_pxx i j k)"

definition impl_pxp :: "nat \<Rightarrow> nat \<Rightarrow> nat \<Rightarrow> Change list option" where
  "impl_pxp i j k = Some [puxcpu i j k]"

definition pattern3_pxp :: "nat \<Rightarrow> nat \<Rightarrow> nat \<Rightarrow> Change list option" where
  "pattern3_pxp i j k =
     (if j = 0 then do { cs \<leftarrow> pattern2_pp i k; c \<leftarrow> mk_xchg 2 1; Some (cs @ [c]) }
      else if k = 0 then impl_pxp i j j
      else impl_pxp i j k)"

definition pattern3_ppx :: "nat \<Rightarrow> nat \<Rightarrow> nat \<Rightarrow> Change list option" where
  "pattern3_ppx i j k =
     (if k = 0 then do { cs \<leftarrow> pattern2_pp i j; c \<leftarrow> makeRoll 2; Some (cs @ [c]) }
      else if j = 0 \<and> k \<noteq> 1
      then do { cs \<leftarrow> pattern3_xpp k i k; c \<leftarrow> makeRoll 2; Some (cs @ [c]) }
      else if k = 1 then do { cs \<leftarrow> pattern2_pp i j; c \<leftarrow> makeRoll 3; Some (cs @ [c]) }
      else Some [pu2xc i j k])"

definition pattern3_ppp :: "nat \<Rightarrow> nat \<Rightarrow> nat \<Rightarrow> Change list option" where
  "pattern3_ppp i j k = Some [push3 i j k]"

section \<open>The dispatch of DiffForArgs\<close>

definition pattern2 :: "bool \<Rightarrow> bool \<Rightarrow> nat \<Rightarrow> nat \<Rightarrow> Change list option" where
  "pattern2 psh0 psh1 pos0 pos1 =
     (if psh0 \<and> psh1 then pattern2_pp pos0 pos1
      else if \<not> psh0 \<and> \<not> psh1 then pattern2_xx pos0 pos1
      else if \<not> psh0 \<and> psh1 then pattern2_xp pos0 pos1
      else pattern2_px pos0 pos1)"

definition pattern3 ::
  "bool \<Rightarrow> bool \<Rightarrow> bool \<Rightarrow> nat \<Rightarrow> nat \<Rightarrow> nat \<Rightarrow> Change list option" where
  "pattern3 psh0 psh1 psh2 pos0 pos1 pos2 =
     (if \<not> psh0 \<and> \<not> psh1 \<and> \<not> psh2 then pattern3_xxx pos0 pos1 pos2
      else if \<not> psh0 \<and> \<not> psh1 \<and> psh2 then pattern3_xxp pos0 pos1 pos2
      else if \<not> psh0 \<and> psh1 \<and> \<not> psh2 then pattern3_xpx pos0 pos1 pos2
      else if \<not> psh0 \<and> psh1 \<and> psh2 then pattern3_xpp pos0 pos1 pos2
      else if psh0 \<and> \<not> psh1 \<and> \<not> psh2 then pattern3_pxx pos0 pos1 pos2
      else if psh0 \<and> \<not> psh1 \<and> psh2 then pattern3_pxp pos0 pos1 pos2
      else if psh0 \<and> psh1 \<and> \<not> psh2 then pattern3_ppx pos0 pos1 pos2
      else pattern3_ppp pos0 pos1 pos2)"

section \<open>What a pattern must achieve\<close>

text \<open>
  brings r s args pushed: the changes run on s, the values that lay at the positions args are on
  top in order (the last argument topmost), and nothing else happened to the stack but that the
  values at the positions pushed were duplicated.
\<close>

definition brings :: "Change list option \<Rightarrow> Stack \<Rightarrow> nat list \<Rightarrow> nat list \<Rightarrow> bool" where
  "brings r s args pushed \<longleftrightarrow>
     (case r of None \<Rightarrow> False
      | Some cs \<Rightarrow> (case apply_changes cs s of None \<Rightarrow> False
         | Some t \<Rightarrow> take (length args) t = rev (map ((!) s) args) \<and>
                    mset t = mset (map ((!) s) pushed) + mset s))"

lemma brings2:
  "brings (Some cs) s [i, j] pushed \<longleftrightarrow>
    (\<exists>t. apply_changes cs s = Some t \<and> 2 \<le> length t \<and> t ! 0 = s ! j \<and> t ! 1 = s ! i \<and>
         mset t = mset (map ((!) s) pushed) + mset s)"
  by (auto simp: brings_def take_2_eq split: option.splits)

lemma brings3:
  "brings (Some cs) s [i, j, k] pushed \<longleftrightarrow>
    (\<exists>t. apply_changes cs s = Some t \<and> 3 \<le> length t \<and>
         t ! 0 = s ! k \<and> t ! 1 = s ! j \<and> t ! 2 = s ! i \<and>
         mset t = mset (map ((!) s) pushed) + mset s)"
  by (auto simp: brings_def take_3_eq split: option.splits)

lemma bringsD:
  assumes "brings r s args pushed"
  obtains cs t where "r = Some cs" "apply_changes cs s = Some t"
    "take (length args) t = rev (map ((!) s) args)" "mset t = mset (map ((!) s) pushed) + mset s"
  using assms by (auto simp: brings_def split: option.splits)

lemmas run_simps = fixup.run_Nil fixup.run_Cons
lemmas mk_defs = mk_xchgTop_def mk_xchg_def mk_pushI_def mk_reverse_def limit_defs compound_defs
  xchg_unchecked_def

subsection \<open>Chains of exchanges\<close>

lemma correct_eq_iff [simp]: "correct d t x = correct d t y \<longleftrightarrow> x = y"
  by (auto simp: correct_def)

lemma correct_ends [simp]: "correct d t d = t" "correct d t t = d"
  by (auto simp: correct_def)

lemma two_swaps:
  assumes "i < length s" "j < length s" "i \<noteq> j" "a < length s" "b < length s" "a \<noteq> b"
  defines "t \<equiv> swap_at b (correct i a j) (swap_at a i s)"
  shows "t ! a = s ! i" "t ! b = s ! j"
proof -
  have "correct i a j \<noteq> a" using assms(3) by (auto simp: correct_def)
  then show "t ! a = s ! i" using assms by (simp add: nth_swap_at)
  show "t ! b = s ! j" using assms by (auto simp: nth_swap_at correct_def)
qed

lemma three_swaps:
  assumes ijk: "i < length s" "j < length s" "k < length s" "i \<noteq> j" "i \<noteq> k" "j \<noteq> k"
    and len: "2 < length s"
  defines "j1 \<equiv> correct i 2 j"
  defines "k2 \<equiv> correct j1 1 (correct i 2 k)"
  defines "t \<equiv> swap_at 0 k2 (swap_at 1 j1 (swap_at 2 i s))"
  shows "t ! 0 = s ! k" "t ! 1 = s ! j" "t ! 2 = s ! i"
proof -
  let ?s2 = "swap_at 1 j1 (swap_at 2 i s)"
  have j1: "j1 < length s" "j1 \<noteq> 2" using ijk len by (auto simp: j1_def correct_def)
  have k1: "correct i 2 k < length s" "correct i 2 k \<noteq> 2" "correct i 2 k \<noteq> j1"
    using ijk len by (auto simp: j1_def correct_def)
  have k2: "k2 < length s" "k2 \<noteq> 1" "k2 \<noteq> 2" using j1 k1 len by (auto simp: k2_def correct_def)
  have two: "?s2 ! 2 = s ! i" "?s2 ! 1 = s ! j"
    using two_swaps [of i s j 2 1] ijk len by (simp_all add: j1_def)
  have "?s2 ! k2 = s ! k"
    using ijk len j1 k1 by (auto simp: k2_def nth_swap_at correct_def)
  then show "t ! 0 = s ! k" unfolding t_def using len k2 by (subst nth_swap_at) auto
  show "t ! 1 = s ! j" "t ! 2 = s ! i"
    using two len k2 by (simp_all add: t_def nth_swap_at)
qed

lemma apply_xchg3: "i < length s \<Longrightarrow> j < length s \<Longrightarrow> k < length s \<Longrightarrow> 2 < length s \<Longrightarrow>
   apply_change (xchg3 i j k) s = Some (swap_at 0 k (swap_at 1 j (swap_at 2 i s)))"
  by (simp add: xchg3_def xchg_unchecked_def min_less_iff_disj)

lemma apply_xc2pu: "i < length s \<Longrightarrow> j < length s \<Longrightarrow> k < length s \<Longrightarrow> 1 < length s \<Longrightarrow>
   apply_change (xc2pu i j k) s =
     (let t = swap_at 0 j (swap_at 1 i s) in Some (t ! k # t))"
  by (simp add: xc2pu_def xchg_unchecked_def min_less_iff_disj Let_def)

lemma xchg3_brings:
  assumes "i < length s" "j < length s" "k < length s" "i \<noteq> j" "i \<noteq> k" "j \<noteq> k" "2 < length s"
  shows "brings (Some [xchg3 i (correct i 2 j) (correct (correct i 2 j) 1 (correct i 2 k))])
           s [i, j, k] []"
  using three_swaps [OF assms] assms
  by (simp add: brings3 fixup.run_single apply_xchg3 del: apply_change.simps)

lemma xc2pu_brings:
  assumes "i < length s" "j < length s" "k < length s" "i \<noteq> j"
  shows "brings (Some [xc2pu i (correct i 1 j) (correct (correct i 1 j) 0 (correct i 1 k))])
           s [i, j, k] [k]"
proof -
  have l: "1 < length s" "0 < length s" using assms by auto
  let ?t = "swap_at 0 (correct i 1 j) (swap_at 1 i s)"
  have "?t ! correct (correct i 1 j) 0 (correct i 1 k) = s ! k"
    using assms l
    by (subst swap_at_commute, subst nth_swap_correct; simp add: swap_at_commute nth_swap_correct)
  then show ?thesis
    using two_swaps [of i s j 1 0] assms l
    by (simp add: brings3 fixup.run_single apply_xc2pu del: apply_change.simps)
qed

section \<open>The patterns are correct\<close>

lemma length_2: "i < length s \<Longrightarrow> j < length s \<Longrightarrow> i \<noteq> j \<Longrightarrow> s \<noteq> [] \<and> Suc 0 < length s"
  by auto

lemma pattern2_pp_brings:
  "i < length s \<Longrightarrow> j < length s \<Longrightarrow> brings (pattern2_pp i j) s [i, j] [i, j]"
  by (auto simp: pattern2_pp_def brings2 run_simps mk_defs)

lemma pattern2_xp_brings:
  assumes "i < length s" "j < length s" "j \<le> XchgLimit"
  shows "brings (pattern2_xp i j) s [i, j] [j]"
proof -
  have "s \<noteq> []" using assms by auto
  with assms show ?thesis
    by (auto simp: pattern2_xp_def brings2 run_simps nth_swap_at mk_defs correct_def)
qed

lemma pattern2_px_brings:
  assumes "i < length s" "j < length s" "i \<le> XchgLimit"
  shows "brings (pattern2_px i j) s [i, j] [i]"
  using assms by (auto simp: pattern2_px_def brings2 run_simps nth_swap_at mk_defs)

lemma pattern2_xx_brings:
  assumes "i < length s" "j < length s" "i \<noteq> j" "i \<le> XchgLimit" "j \<le> XchgLimit"
  shows "brings (pattern2_xx i j) s [i, j] []"
  using assms length_2 [OF assms(1-3)]
  by (auto simp: pattern2_xx_def pattern_x_def mk_defs brings2 run_simps nth_swap_at)

lemma pattern3_xxx_small:
  assumes "s = x # y # z # r"
  shows "brings (pattern3_xxx 2 1 0) s [2, 1, 0] []" "brings (pattern3_xxx 2 0 1) s [2, 0, 1] []"
    "brings (pattern3_xxx 1 2 0) s [1, 2, 0] []" "brings (pattern3_xxx 0 2 1) s [0, 2, 1] []"
    "brings (pattern3_xxx 1 0 2) s [1, 0, 2] []" "brings (pattern3_xxx 0 1 2) s [0, 1, 2] []"
  using assms by (simp_all add: pattern3_xxx_def brings3 run_simps mk_defs nth_swap_at insert_at_def)

lemma pattern3_xxx_brings:
  assumes "i < length s" "j < length s" "k < length s" "i \<noteq> j" "i \<noteq> k" "j \<noteq> k"
    and "i \<le> XchgLimit" "j \<le> XchgLimit" "k \<le> XchgLimit"
  shows "brings (pattern3_xxx i j k) s [i, j, k] []"
proof -
  have len: "2 < length s" using assms(1-6) by linarith
  consider "i < 3" "j < 3" "k < 3" | "\<not> (i < 3 \<and> j < 3 \<and> k < 3)" "i = 2"
    | "\<not> (i < 3 \<and> j < 3 \<and> k < 3)" "i \<noteq> 2" by blast
  then show ?thesis
  proof cases
    case 1
    then have "i = 0 \<or> i = 1 \<or> i = 2" "j = 0 \<or> j = 1 \<or> j = 2" "k = 0 \<or> k = 1 \<or> k = 2"
      by linarith+
    then have "(i, j, k) \<in> {(2, 1, 0), (2, 0, 1), (1, 2, 0), (0, 2, 1), (1, 0, 2), (0, 1, 2)}"
      using assms(4-6) by (elim disjE) simp_all
    moreover obtain x y z r where "s = x # y # z # r"
      using len by (cases s; cases "tl s"; cases "tl (tl s)") auto
    ultimately show ?thesis
      using pattern3_xxx_small [of s x y z r] by (elim insertE) simp_all
  next
    case 2
    then have "\<not> (j < 3 \<and> k < 3)" by simp
    moreover have "s \<noteq> []" "Suc 0 < length s" using len by auto
    ultimately show ?thesis using 2(2) assms len
      by (auto simp: pattern3_xxx_def pattern2_xx_def pattern_x_def brings3 run_simps nth_swap_at
          mk_defs)
  next
    case 3
    then have "pattern3_xxx i j k =
        Some [xchg3 i (correct i 2 j) (correct (correct i 2 j) 1 (correct i 2 k))]"
      by (auto simp: pattern3_xxx_def Let_def)
    then show ?thesis using xchg3_brings [OF assms(1-6) len] by simp
  qed
qed

lemma pattern3_xxp_brings:
  assumes "i < length s" "j < length s" "k < length s" "i \<noteq> j" "k \<le> XchgLimit"
  shows "brings (pattern3_xxp i j k) s [i, j, k] [k]"
proof (cases "i = 1 \<and> k \<ge> 2 \<and> j \<noteq> 1")
  case False
  then have "\<not> is_ab i j k" "\<not> is_ax i j k" using assms(4) by (auto simp: arg_defs)
  then show ?thesis
    using xc2pu_brings [OF assms(1-4)] by (simp add: pattern3_xxp_def Let_def)
next
  case True
  then show ?thesis
    using assms length_2 [OF assms(1,2,4)]
    by (auto simp: pattern3_xxp_def pattern2_xp_def brings3 run_simps nth_swap_at mk_defs Let_def
        arg_defs correct_def)
qed

lemma pattern3_xpx_brings:
  assumes "i < length s" "j < length s" "k < length s" "i \<noteq> k" "i \<le> XchgLimit" "j \<le> XchgLimit"
  shows "brings (pattern3_xpx i j k) s [i, j, k] [j]"
  using assms length_2 [OF assms(1,3,4)]
  by (auto simp: pattern3_xpx_def pattern2_px_def brings3 run_simps nth_swap_at mk_defs correct_def
      Let_def)

lemma pattern3_xpp_brings:
  assumes "i < length s" "j < length s" "k < length s"
  shows "brings (pattern3_xpp i j k) s [i, j, k] [j, k]"
proof -
  have "s \<noteq> []" using assms by auto
  with assms show ?thesis
    by (auto simp: pattern3_xpp_def pattern2_pp_def brings3 run_simps nth_swap_at mk_defs
        correct_def)
qed

lemma pattern3_pxx_brings:
  assumes "i < length s" "j < length s" "k < length s" "i \<noteq> j" "i \<noteq> k" "j \<noteq> k" "i \<le> XchgLimit"
  shows "brings (pattern3_pxx i j k) s [i, j, k] [i]"
  using assms length_2 [OF assms(1,2,4)]
  by (auto simp: pattern3_pxx_def impl_pxx_def brings3 run_simps nth_swap_at nth_insert_at mk_defs
      correct_def Let_def arg_defs)

text \<open>
  The push-exchange-push pattern is correct unless the last two arguments are the same register
  (which happens when an instruction uses a register twice and kills it).
\<close>

lemma pattern3_pxp_brings:
  assumes "i < length s" "j < length s" "k < length s" "i \<noteq> j" "j = k \<longrightarrow> j = 0"
  shows "brings (pattern3_pxp i j k) s [i, j, k] [i, k]"
proof -
  have "s \<noteq> []" using assms by auto
  with assms show ?thesis
    by (auto simp: pattern3_pxp_def impl_pxp_def pattern2_pp_def brings3 run_simps nth_swap_at
        mk_defs)
qed

text \<open>
  The push-push-exchange pattern is correct unless the second argument is on top of the stack and
  the third lies below the two topmost elements.
\<close>

lemma pattern3_ppx_brings:
  assumes "i < length s" "j < length s" "k < length s" "i \<noteq> k" "j \<noteq> k" "j = 0 \<longrightarrow> k < 2"
  shows "brings (pattern3_ppx i j k) s [i, j, k] [i, j]"
proof -
  obtain x y r where s: "s = x # y # r"
    using length_2 [OF assms(1,3,4)] by (cases s; cases "tl s") auto
  consider "k = 0" | "k = 1" | "k \<ge> 2" "j \<noteq> 0" using assms(6) by linarith
  then show ?thesis
  proof cases
    case 1
    with assms show ?thesis
      by (simp add: pattern3_ppx_def pattern2_pp_def brings3 run_simps compound_defs s)
  next
    case 2
    with assms show ?thesis
      by (simp add: pattern3_ppx_def pattern2_pp_def brings3 run_simps compound_defs s)
  next
    case 3
    with assms show ?thesis
      by (simp add: pattern3_ppx_def brings3 run_simps compound_defs nth_swap_at s)
  qed
qed

lemma pattern3_ppp_brings:
  "i < length s \<Longrightarrow> j < length s \<Longrightarrow> k < length s \<Longrightarrow>
   brings (pattern3_ppp i j k) s [i, j, k] [i, j, k]"
  by (auto simp: pattern3_ppp_def brings3 run_simps mk_defs)

text \<open>
  The two patterns that are wrong: push-push-exchange with the second argument on top and the third
  below the second slot duplicates the third register and takes it for the second as well, and
  push-exchange-push when the second argument is also the third and not on top.
\<close>

lemma pattern3_defects:
  assumes "distinct s" "i < length s" "0 < k" "k < length s" "i \<noteq> k"
  shows "2 \<le> k \<Longrightarrow> i \<noteq> 0 \<Longrightarrow> \<not> brings (pattern3 True True False i 0 k) s [i, 0, k] [i, 0]"
    and "\<not> brings (pattern3 True False True i k k) s [i, k, k] [i, k]"
proof -
  have ne: "s \<noteq> []" using assms by auto
  then have diff: "s ! k \<noteq> s ! 0" using assms nth_eq_iff_index_eq [of s k 0] by simp
  show "\<not> brings (pattern3 True True False i 0 k) s [i, 0, k] [i, 0]" if "2 \<le> k" "i \<noteq> 0"
    using that assms ne diff
    by (auto simp: pattern3_def pattern3_ppx_def pattern3_xpp_def brings3 run_simps nth_swap_at mk_defs correct_def)
  show "\<not> brings (pattern3 True False True i k k) s [i, k, k] [i, k]"
    using assms ne diff
    by (auto simp: pattern3_def pattern3_pxp_def impl_pxp_def brings3 run_simps nth_swap_at mk_defs nth_Cons split: nat.splits)
qed

end
