(* ===== verification/TVM_Args.thy ===== *)
theory TVM_Args
  imports TVM_Diff TVM_Patterns
begin

text \<open>
  StackFixup::DiffForArgs of TVMStackFixup.cpp: the changes that bring the arguments of an
  instruction to the top of the stack, moving the registers it kills and copying the others.
\<close>

section \<open>The model\<close>

record MIArg =
  Vreg :: StackVreg
  IsKilled :: bool

type_synonym MIArgs = "MIArg list"

record argInfo =
  PrevArgs :: nat
  Push :: bool
  SrcPos :: nat

definition argInfo_of :: "MIArgs \<Rightarrow> nat \<Rightarrow> Stack \<Rightarrow> argInfo option" where
  "argInfo_of args idx CurStack = do {
     check (idx < length args);
     let arg = args ! idx;
     let vreg = Vreg arg;
     let prev = count_list (take idx args) arg;
     if vreg = UnusedReg then Some \<lparr> PrevArgs = prev, Push = True, SrcPos = 0 \<rparr>
     else do {
       let psh = (if IsKilled arg then Stack_count CurStack vreg \<le> prev
                  else Stack_count CurStack vreg \<le> prev + 1);
       pos \<leftarrow> (if \<not> psh then Stack_positionNrev CurStack vreg prev
               else Stack_position CurStack vreg);
       Some \<lparr> PrevArgs = prev, Push = psh, SrcPos = pos \<rparr> } }"

text \<open>The first loop: the infos, the push offset, and whether no pattern applies.\<close>

definition collect_step ::
  "MIArgs \<Rightarrow> Stack \<Rightarrow> nat \<Rightarrow> argInfo list \<times> nat \<times> bool \<Rightarrow> (argInfo list \<times> nat \<times> bool) option" where
  "collect_step args cur i = (\<lambda>(infos, off, cant). do {
     a \<leftarrow> argInfo_of args i cur;
     Some (infos @ [a], (if Push a then off + 1 else off),
           cant \<or> off + SrcPos a > XchgLimit \<or> Vreg (args ! i) = UnusedReg) })"

definition collect_args :: "MIArgs \<Rightarrow> Stack \<Rightarrow> (argInfo list \<times> nat \<times> bool) option" where
  "collect_args args cur = foldM (collect_step args cur) [0..<length args] ([], 0, False)"

definition already_good :: "argInfo list \<Rightarrow> bool" where
  "already_good infos \<longleftrightarrow>
     (\<forall>i < length infos. \<not> Push (infos ! i) \<and> SrcPos (infos ! i) = length infos - i - 1)"

text \<open>The last loop, for argument lists no pattern covers.\<close>

definition place_arg ::
  "MIArg \<times> argInfo \<Rightarrow> nat \<times> StackFixup \<times> Stack \<Rightarrow> (nat \<times> StackFixup \<times> Stack) option" where
  "place_arg = (\<lambda>(arg, info) (Offset, st).
     if Push info
     then (if Vreg arg = UnusedReg
           then do { st' \<leftarrow> emit pushUndef st; Some (Offset + 1, st') }
           else do { i \<leftarrow> Stack_position (snd st) (Vreg arg);
                     c \<leftarrow> mk_pushI i; st' \<leftarrow> emit c st; Some (Offset + 1, st') })
     else do {
       Pos \<leftarrow> Stack_position_from (snd st) Offset (Vreg arg);
       if Pos \<noteq> 0
       then do { c \<leftarrow> makeRoll Pos; st' \<leftarrow> emit c st; Some (Offset + 1, st') }
       else Some (Offset, st) })"

definition place_args ::
  "MIArgs \<Rightarrow> argInfo list \<Rightarrow> StackFixup \<times> Stack \<Rightarrow> (nat \<times> StackFixup \<times> Stack) option" where
  "place_args args infos st = foldM place_arg (zip args infos) (0, st)"

text \<open>Patterns append their changes without a comment and without touching the running stack.\<close>

definition add_changes :: "Change list \<Rightarrow> StackFixup \<Rightarrow> StackFixup" where
  "add_changes cs rv = rv @ map (\<lambda>c. (c, None)) cs"

definition select_changes ::
  "MIArgs \<Rightarrow> argInfo list \<Rightarrow> bool \<Rightarrow> StackFixup \<times> Stack \<Rightarrow> StackFixup option" where
  "select_changes args infos cant st =
     (if length args = 1 \<and> \<not> cant
      then do {
        check (Vreg (args ! 0) \<noteq> UnusedReg);
        pos \<leftarrow> Stack_position (snd st) (Vreg (args ! 0));
        if Push (infos ! 0) then do { c \<leftarrow> mk_pushI pos; map_option fst (emit c st) }
        else if pos \<noteq> 0 then do { c \<leftarrow> mk_xchgTop pos; map_option fst (emit c st) }
        else Some (fst st) }
      else if length args = 2 \<and> \<not> cant
      then do {
        check (Vreg (args ! 0) \<noteq> UnusedReg); check (Vreg (args ! 1) \<noteq> UnusedReg);
        cs \<leftarrow> pattern2 (Push (infos ! 0)) (Push (infos ! 1)) (SrcPos (infos ! 0)) (SrcPos (infos ! 1));
        Some (add_changes cs (fst st)) }
      else if length args = 3 \<and> \<not> cant
      then do {
        check (Vreg (args ! 0) \<noteq> UnusedReg); check (Vreg (args ! 1) \<noteq> UnusedReg);
        check (Vreg (args ! 2) \<noteq> UnusedReg);
        cs \<leftarrow> pattern3 (Push (infos ! 0)) (Push (infos ! 1)) (Push (infos ! 2))
                (SrcPos (infos ! 0)) (SrcPos (infos ! 1)) (SrcPos (infos ! 2));
        Some (add_changes cs (fst st)) }
      else map_option (\<lambda>(off, rv, cur). rv) (place_args args infos st))"

definition top_unused :: "Stack \<Rightarrow> nat" where
  "top_unused s = length (takeWhile (\<lambda>v. v = UnusedReg) s)"

definition DiffForArgs :: "Stack \<Rightarrow> MIArgs \<Rightarrow> bool \<Rightarrow> StackFixup option" where
  "DiffForArgs From args isCommutative =
     (if args = [] then Some []
      else do {
        st \<leftarrow> drop_pops (top_unused From) ([], From);
        (infos, off, cant) \<leftarrow> collect_args args (snd st);
        if already_good infos then annotate (fst st) From
        else do {
          rv \<leftarrow> select_changes args infos cant st;
          annotate (optimize isCommutative rv) From } })"

section \<open>The specification\<close>

text \<open>
  The stacks DiffForArgs is called on hold no register twice, and the argument list says for each
  register once and for all whether it is killed.
\<close>

definition unique_regs :: "Stack \<Rightarrow> bool" where
  "unique_regs s \<longleftrightarrow> distinct (filter (\<lambda>v. v \<noteq> UnusedReg) s)"

definition args_ok :: "MIArgs \<Rightarrow> Stack \<Rightarrow> bool" where
  "args_ok args s \<longleftrightarrow>
     (\<forall>a \<in> set args. Vreg a = UnusedReg \<or> Vreg a \<in> set s) \<and>
     (\<forall>a \<in> set args. \<forall>b \<in> set args. Vreg a = Vreg b \<longrightarrow> IsKilled a = IsKilled b)"

text \<open>An argument is copied unless it is the first use of a killed register.\<close>

definition copied :: "MIArgs \<Rightarrow> nat \<Rightarrow> bool" where
  "copied args i \<longleftrightarrow> Vreg (args ! i) = UnusedReg \<or> \<not> IsKilled (args ! i) \<or>
     Vreg (args ! i) \<in> set (map Vreg (take i args))"

definition copied_regs :: "MIArgs \<Rightarrow> StackVreg list" where
  "copied_regs args = map (\<lambda>i. Vreg (args ! i)) (filter (copied args) [0..<length args])"

definition moved_regs :: "MIArgs \<Rightarrow> StackVreg list" where
  "moved_regs args = map (\<lambda>i. Vreg (args ! i)) (filter (\<lambda>i. \<not> copied args i) [0..<length args])"

lemma copied_regs_2: "copied_regs [a, b] = (if copied [a, b] 0 then [Vreg a] else []) @
    (if copied [a, b] 1 then [Vreg b] else [])"
  by (simp add: copied_regs_def upt_rec)

lemma copied_regs_3: "copied_regs [a, b, c] = (if copied [a, b, c] 0 then [Vreg a] else []) @
    (if copied [a, b, c] 1 then [Vreg b] else []) @ (if copied [a, b, c] 2 then [Vreg c] else [])"
  by (simp add: copied_regs_def upt_rec numeral_2_eq_2)

text \<open>
  The goal: the arguments are on top in order, and the rest of the stack is what was there less
  the moved registers.
\<close>

definition args_on_top :: "MIArgs \<Rightarrow> Stack \<Rightarrow> Stack \<Rightarrow> bool" where
  "args_on_top args s t \<longleftrightarrow>
     take (length args) t = rev (map Vreg args) \<and>
     mset t = mset (copied_regs args) + mset s"

lemma mset_copied_moved: "mset (copied_regs args) + mset (moved_regs args) = mset (map Vreg args)"
proof -
  let ?f = "\<lambda>i. Vreg (args ! i)" and ?is = "[0..<length args]"
  have "mset (copied_regs args) + mset (moved_regs args) =
      image_mset ?f (filter_mset (copied args) (mset ?is) +
        filter_mset (\<lambda>i. \<not> copied args i) (mset ?is))"
    unfolding copied_regs_def moved_regs_def mset_map mset_filter image_mset_union ..
  also have "\<dots> = image_mset ?f (mset ?is)" by (metis multiset_partition)
  also have "\<dots> = mset (map Vreg (map ((!) args) ?is))" by (simp add: multiset.map_comp comp_def)
  also have "\<dots> = mset (map Vreg args)" by (simp only: map_nth)
  finally show ?thesis .
qed

lemma args_on_top_rest:
  assumes "args_on_top args s t"
  shows "mset (drop (length args) t) + mset (moved_regs args) = mset s"
proof -
  have "mset t = mset (rev (map Vreg args)) + mset (drop (length args) t)"
    using assms by (metis args_on_top_def append_take_drop_id mset_append)
  moreover have "mset t = mset (copied_regs args) + mset s"
    using assms by (simp add: args_on_top_def)
  ultimately have "mset (copied_regs args) + (mset (moved_regs args) + mset (drop (length args) t)) =
      mset (copied_regs args) + mset s"
    using mset_copied_moved [of args] by (simp add: add.assoc)
  then show ?thesis by (simp add: add.commute)
qed

section \<open>Argument infos\<close>

lemma unique_count: "unique_regs s \<Longrightarrow> v \<noteq> UnusedReg \<Longrightarrow> v \<in> set s \<Longrightarrow> count_list s v = 1"
  by (induction s) (auto simp: unique_regs_def split: if_splits)

lemma unique_position:
  assumes "unique_regs s" "v \<noteq> UnusedReg" "i < length s" "j < length s" "s ! i = v" "s ! j = v"
  shows "i = j"
proof (rule ccontr)
  assume "i \<noteq> j"
  then obtain a b where ab: "a < b" "b < length s" "s ! a = v" "s ! b = v"
    using assms(3-6) by (metis linorder_neqE_nat)
  then have "s = take b s @ v # drop (Suc b) s" "v \<in> set (take b s)"
    using id_take_nth_drop [of b s] by (auto simp: in_set_conv_nth)
  moreover from this(1) have "filter (\<lambda>v. v \<noteq> UnusedReg) s =
      filter (\<lambda>v. v \<noteq> UnusedReg) (take b s) @ v # filter (\<lambda>v. v \<noteq> UnusedReg) (drop (Suc b) s)"
    using assms(2) by (metis (mono_tags, lifting) filter.simps(2) filter_append)
  ultimately show False using assms(1,2) by (simp add: unique_regs_def)
qed

lemma unique_positionNrev:
  assumes "unique_regs s" "v \<noteq> UnusedReg" "Stack_position s v = Some p"
  shows "Stack_positionNrev s v 0 = Some p"
proof -
  have p: "p < length s" "s ! p = v"
    using assms(3) by (auto simp: Stack_position_def dest: find_index_Some)
  let ?occ = "filter (\<lambda>i. s ! i = v) (rev [0..<length s])"
  have "p \<in> set ?occ" using p by simp
  moreover have "q = p" if "q \<in> set ?occ" for q
  proof -
    have "q < length s" "s ! q = v" using that by auto
    then show ?thesis using unique_position [OF assms(1,2) _ p(1) _ p(2)] by blast
  qed
  ultimately obtain qs where "?occ = p # qs" by (metis list.exhaust list.set_intros(1) empty_iff empty_set)
  then show ?thesis by (simp add: Stack_positionNrev_def Let_def)
qed

lemma argInfo_of_unique:
  assumes "unique_regs s" "args_ok args s" "i < length args"
  shows "\<exists>a. argInfo_of args i s = Some a \<and> Push a = copied args i \<and>
    (Vreg (args ! i) \<noteq> UnusedReg \<longrightarrow>
       Stack_position s (Vreg (args ! i)) = Some (SrcPos a) \<and> SrcPos a < length s \<and>
       s ! SrcPos a = Vreg (args ! i))"
proof (cases "Vreg (args ! i) = UnusedReg")
  case True
  then show ?thesis using assms(3) by (simp add: argInfo_of_def copied_def Let_def)
next
  case False
  let ?a = "args ! i" and ?prev = "count_list (take i args) (args ! i)"
  have a: "?a \<in> set args" using assms(3) by simp
  then have "Vreg ?a \<in> set s" using assms(2) False by (auto simp: args_ok_def)
  then obtain p where p: "Stack_position s (Vreg ?a) = Some p" and
      cnt: "Stack_count s (Vreg ?a) = 1"
    using find_index_member unique_count [OF assms(1) False]
    by (fastforce simp: Stack_position_def Stack_count_def)
  then have ps: "p < length s" "s ! p = Vreg ?a"
    by (auto simp: Stack_position_def dest: find_index_Some)
  have "b = ?a \<longleftrightarrow> Vreg b = Vreg ?a" if "b \<in> set (take i args)" for b
    using assms(2) a set_take_subset [of i args] that unfolding args_ok_def
    by (metis MIArg.equality old.unit.exhaust subset_iff)
  then have "?a \<in> set (take i args) \<longleftrightarrow> Vreg ?a \<in> set (map Vreg (take i args))"
    by (metis (no_types, lifting) image_eqI imageE set_map)
  then have prev: "1 \<le> ?prev \<longleftrightarrow> Vreg ?a \<in> set (map Vreg (take i args))"
    by (simp only: count_list_pos)
  let ?psh = "if IsKilled ?a then 1 \<le> ?prev else 1 \<le> ?prev + 1"
  have psh: "?psh = copied args i" using prev False by (auto simp: copied_def)
  have "(if \<not> ?psh then Stack_positionNrev s (Vreg ?a) ?prev else Stack_position s (Vreg ?a)) = Some p"
    using p unique_positionNrev [OF assms(1) False p] by (cases "?prev = 0") auto
  then have "argInfo_of args i s = Some \<lparr> PrevArgs = ?prev, Push = ?psh, SrcPos = p \<rparr>"
    using assms(3) False cnt
    by (cases "IsKilled ?a"; cases "1 \<le> ?prev") (simp_all add: argInfo_of_def Let_def)
  with psh p ps show ?thesis by simp
qed

definition info_ok :: "MIArgs \<Rightarrow> Stack \<Rightarrow> argInfo list \<Rightarrow> bool" where
  "info_ok args s infos \<longleftrightarrow> length infos = length args \<and>
     (\<forall>i < length args. Push (infos ! i) = copied args i \<and>
        (Vreg (args ! i) \<noteq> UnusedReg \<longrightarrow> SrcPos (infos ! i) < length s \<and>
           Stack_position s (Vreg (args ! i)) = Some (SrcPos (infos ! i)) \<and>
           s ! SrcPos (infos ! i) = Vreg (args ! i)))"

lemma collect_args_ok:
  assumes "unique_regs s" "args_ok args s"
  shows "\<exists>infos off cant. collect_args args s = Some (infos, off, cant) \<and> info_ok args s infos \<and>
    (\<not> cant \<longrightarrow> (\<forall>i < length args. SrcPos (infos ! i) \<le> XchgLimit \<and> Vreg (args ! i) \<noteq> UnusedReg))"
proof -
  have "\<exists>infos off cant.
     foldM (collect_step args s) [0..<m] ([], 0, False) = Some (infos, off, cant) \<and>
     length infos = m \<and>
     (\<forall>i < m. Push (infos ! i) = copied args i \<and>
        (Vreg (args ! i) \<noteq> UnusedReg \<longrightarrow> SrcPos (infos ! i) < length s \<and>
           Stack_position s (Vreg (args ! i)) = Some (SrcPos (infos ! i)) \<and>
           s ! SrcPos (infos ! i) = Vreg (args ! i))) \<and>
     (\<not> cant \<longrightarrow> (\<forall>i < m. SrcPos (infos ! i) \<le> XchgLimit \<and> Vreg (args ! i) \<noteq> UnusedReg))"
    if "m \<le> length args" for m
    using that
  proof (induction m)
    case 0
    show ?case by (intro exI [of _ "[]"] exI [of _ 0] exI [of _ False]) simp
  next
    case (Suc m)
    then obtain infos off cant where IH:
      "foldM (collect_step args s) [0..<m] ([], 0, False) = Some (infos, off, cant)"
      "length infos = m"
      "\<forall>i < m. Push (infos ! i) = copied args i \<and>
        (Vreg (args ! i) \<noteq> UnusedReg \<longrightarrow> SrcPos (infos ! i) < length s \<and>
           Stack_position s (Vreg (args ! i)) = Some (SrcPos (infos ! i)) \<and>
           s ! SrcPos (infos ! i) = Vreg (args ! i))"
      "\<not> cant \<longrightarrow> (\<forall>i < m. SrcPos (infos ! i) \<le> XchgLimit \<and> Vreg (args ! i) \<noteq> UnusedReg)"
      by auto
    obtain a where a: "argInfo_of args m s = Some a" "Push a = copied args m"
      "Vreg (args ! m) \<noteq> UnusedReg \<longrightarrow>
         Stack_position s (Vreg (args ! m)) = Some (SrcPos a) \<and> SrcPos a < length s \<and>
         s ! SrcPos a = Vreg (args ! m)"
      using argInfo_of_unique [OF assms, of m] Suc.prems by auto
    have "foldM (collect_step args s) [0..<Suc m] ([], 0, False) =
        Some (infos @ [a], (if Push a then off + 1 else off),
           cant \<or> off + SrcPos a > XchgLimit \<or> Vreg (args ! m) = UnusedReg)"
      using IH(1) a(1) by (simp add: collect_step_def)
    moreover have "length (infos @ [a]) = Suc m" using IH(2) by simp
    moreover have "\<forall>i < Suc m. Push ((infos @ [a]) ! i) = copied args i \<and>
        (Vreg (args ! i) \<noteq> UnusedReg \<longrightarrow> SrcPos ((infos @ [a]) ! i) < length s \<and>
           Stack_position s (Vreg (args ! i)) = Some (SrcPos ((infos @ [a]) ! i)) \<and>
           s ! SrcPos ((infos @ [a]) ! i) = Vreg (args ! i))"
      using IH(2,3) a by (auto simp: nth_append less_Suc_eq)
    moreover have "\<not> (cant \<or> off + SrcPos a > XchgLimit \<or> Vreg (args ! m) = UnusedReg) \<longrightarrow>
        (\<forall>i < Suc m. SrcPos ((infos @ [a]) ! i) \<le> XchgLimit \<and> Vreg (args ! i) \<noteq> UnusedReg)"
      using IH(2,4) by (auto simp: nth_append less_Suc_eq)
    ultimately show ?case by blast
  qed
  from this [OF order_refl] show ?thesis
    unfolding collect_args_def info_ok_def by blast
qed

section \<open>The general placement\<close>

lemma copied_regs_take:
  assumes "m < length args"
  shows "copied_regs (take (Suc m) args) =
    copied_regs (take m args) @ (if copied args m then [Vreg (args ! m)] else [])"
proof -
  have "copied (take k args) i = copied args i" if "i < k" "k \<le> length args" for i k
    using that by (simp add: copied_def min_def)
  then have "filter (copied (take k args)) [0..<k] = filter (copied args) [0..<k]"
      if "k \<le> length args" for k
    using that by (intro filter_cong) auto
  then have e: "copied_regs (take k args) = map (\<lambda>i. Vreg (args ! i)) (filter (copied args) [0..<k])"
      if "k \<le> length args" for k
    using that by (auto simp: copied_regs_def min_def)
  show ?thesis using e [of m] e [of "Suc m"] assms by simp
qed

lemma place_step:
  assumes ctx: "unique_regs s" "args_ok args s" "info_ok args s infos" "m < length args"
    and top: "args_on_top (take m args) s (snd st)" and "built s0 st" "off \<le> m"
    and lim: "length (snd st) \<le> 256"
  shows "\<exists>off' st'. place_arg (args ! m, infos ! m) (off, st) = Some (off', st') \<and> off' \<le> Suc m \<and>
     built s0 st' \<and> args_on_top (take (Suc m) args) s (snd st') \<and>
     length (snd st') \<le> Suc (length (snd st))"
proof -
  let ?v = "Vreg (args ! m)" and ?cur = "snd st"
  have tk: "take (Suc m) args = take m args @ [args ! m]" using ctx(4) by (simp add: take_Suc_conv_app_nth)
  have len_m: "length (take m args) = m" and len_S: "length (take (Suc m) args) = Suc m"
    using ctx(4) by simp_all
  have top_m: "take m ?cur = rev (map Vreg (take m args))"
    and ms: "mset ?cur = mset (copied_regs (take m args)) + mset s"
    using top unfolding args_on_top_def len_m by blast+
  have m_le: "m \<le> length ?cur"
    using arg_cong [OF top_m, of length] len_m by (simp add: min_def split: if_splits)
  have inf: "Push (infos ! m) = copied args m" using ctx(3,4) by (simp add: info_ok_def)
  have avail: "?v = UnusedReg \<or> ?v \<in> set s" using ctx(2,4) by (simp add: args_ok_def)
  have in_cur: "?v \<noteq> UnusedReg \<Longrightarrow> ?v \<in> set ?cur"
    using avail arg_cong [OF ms, of set_mset] by auto
  show ?thesis
  proof (cases "copied args m")
    case True
    have "\<exists>st'. (if ?v = UnusedReg then emit pushUndef st
        else do { i \<leftarrow> Stack_position ?cur ?v; c \<leftarrow> mk_pushI i; emit c st }) = Some st' \<and>
        built s0 st' \<and> snd st' = ?v # ?cur"
      using addElem_correct [OF assms(6), of ?v] in_cur lim by (auto simp: addElem_def)
    then obtain st' where st': "(if ?v = UnusedReg then emit pushUndef st
        else do { i \<leftarrow> Stack_position ?cur ?v; c \<leftarrow> mk_pushI i; emit c st }) = Some st'"
        "built s0 st'" "snd st' = ?v # ?cur" by blast
    have "place_arg (args ! m, infos ! m) (off, st) = Some (off + 1, st')"
      using st'(1) True inf
      by (cases st') (auto simp: place_arg_def bind_eq_Some_conv split: if_splits)
    moreover have "args_on_top (take (Suc m) args) s (snd st')"
      using st'(3) top_m ms True copied_regs_take [OF ctx(4)] ctx(4)
      by (simp add: args_on_top_def tk min_def)
    ultimately show ?thesis using st' assms(7) by auto
  next
    case False
    then have v: "?v \<noteq> UnusedReg" "?v \<notin> set (map Vreg (take m args))" by (auto simp: copied_def)
    have "set (take m ?cur) = set (map Vreg (take m args))" using top_m by simp
    then have "?v \<notin> set (take m ?cur)" using v(2) by simp
    moreover have "?v \<in> set (take m ?cur) \<union> set (drop m ?cur)"
      using in_cur [OF v(1)] by (metis append_take_drop_id set_append)
    ultimately have "?v \<in> set (drop m ?cur)" by blast
    have in_off: "?v \<in> set (drop off ?cur)"
      using \<open>?v \<in> set (drop m ?cur)\<close> set_drop_subset_set_drop [OF assms(7), of ?cur] by blast
    obtain k where k: "find_index ?v (drop off ?cur) = Some k"
      using find_index_member [OF in_off] by blast
    define p where "p = off + k"
    have p: "Stack_position_from ?cur off ?v = Some p" "p < length ?cur" "?cur ! p = ?v"
      using k find_index_Some [OF k] m_le assms(7) by (auto simp: Stack_position_from_def p_def)
    have mp: "m \<le> p"
    proof (rule ccontr)
      assume "\<not> m \<le> p"
      then have "?v \<in> set (take m ?cur)" using p(2,3) by (auto simp: in_set_conv_nth)
      with \<open>?v \<notin> set (take m ?cur)\<close> show False ..
    qed
    have nc: "copied_regs (take (Suc m) args) = copied_regs (take m args)"
      using copied_regs_take [OF ctx(4)] False by simp
    show ?thesis
    proof (cases "p = 0")
      case True
      then have "m = 0" using mp by simp
      moreover have "place_arg (args ! m, infos ! m) (off, st) = Some (off, st)"
        using p(1) True inf False by (simp add: place_arg_def)
      moreover have "take 1 ?cur = [?v]" using p(2,3) True by (cases ?cur) auto
      ultimately have "args_on_top (take (Suc m) args) s ?cur"
        unfolding args_on_top_def len_S using ms nc tk by simp
      then show ?thesis using assms(6,7) \<open>m = 0\<close>
        \<open>place_arg (args ! m, infos ! m) (off, st) = Some (off, st)\<close> by auto
    next
      case pos: False
      let ?new = "block_to_top 1 p ?cur"
      obtain c where c: "makeRoll p = Some c" "apply_change c ?cur = Some ?new"
        using makeRoll_apply [of p ?cur] pos p(2) by auto
      obtain st' where st': "emit c st = Some st'" "built s0 st'" "snd st' = ?new"
        using emit_Some [OF c(2) assms(6)] by blast
      have "place_arg (args ! m, infos ! m) (off, st) = Some (off + 1, st')"
        using p(1) pos c(1) st'(1) inf False by (simp add: place_arg_def)
      moreover have "?new = ?v # take p ?cur @ drop (1 + p) ?cur"
        using p(2,3) by (simp add: block_to_top_def take_Suc hd_drop_conv_nth)
      moreover have "take m (take p ?cur @ drop (1 + p) ?cur) = take m ?cur"
        using mp p(2) by (simp add: min_def)
      moreover have "mset ?new = mset ?cur" using p(2) by (intro mset_block_to_top)
      ultimately show ?thesis
        using st' assms(7) ms nc ctx(4) top_m by (auto simp: args_on_top_def tk min_def)
    qed
  qed
qed

lemma place_args_correct:
  assumes ctx: "unique_regs s" "args_ok args s" "info_ok args s infos" "built s0 (fx, s)"
    and lim: "length s + length args \<le> 256"
  shows "\<exists>off rv t. place_args args infos (fx, s) = Some (off, rv, t) \<and> built s0 (rv, t) \<and>
     args_on_top args s t"
proof -
  have "\<exists>off st. foldM place_arg (take m (zip args infos)) (0, (fx, s)) = Some (off, st) \<and>
     built s0 st \<and> args_on_top (take m args) s (snd st) \<and> off \<le> m \<and> length (snd st) \<le> length s + m"
    if "m \<le> length args" for m
    using that
  proof (induction m)
    case 0
    then show ?case using ctx(4) by (simp add: args_on_top_def copied_regs_def)
  next
    case (Suc m)
    then obtain off st where IH: "foldM place_arg (take m (zip args infos)) (0, (fx, s)) = Some (off, st)"
        "built s0 st" "args_on_top (take m args) s (snd st)" "off \<le> m" "length (snd st) \<le> length s + m"
      by auto
    have m: "m < length args" using Suc.prems by simp
    have "length (snd st) \<le> 256" using IH(5) lim m by simp
    from place_step [OF ctx(1-3) m IH(3,2,4) this] obtain off' st' where
      "place_arg (args ! m, infos ! m) (off, st) = Some (off', st')" "off' \<le> Suc m"
      "built s0 st'" "args_on_top (take (Suc m) args) s (snd st')"
      "length (snd st') \<le> Suc (length (snd st))" by blast
    moreover have "take (Suc m) (zip args infos) = take m (zip args infos) @ [(args ! m, infos ! m)]"
      using m ctx(3) by (simp add: take_Suc_conv_app_nth info_ok_def)
    ultimately show ?case using IH(1,5) by auto
  qed
  from this [OF order_refl] obtain off st where
    "foldM place_arg (take (length args) (zip args infos)) (0, (fx, s)) = Some (off, st)"
    "built s0 st" "args_on_top args s (snd st)" by auto
  then show ?thesis by (cases st) (auto simp: place_args_def)
qed

section \<open>Choosing the changes\<close>

text \<open>
  The two argument configurations of which a pattern makes something else: push-exchange-push with
  the second and third argument in the same slot, and push-push-exchange with the second argument
  on top and the third below the second slot.
\<close>

definition pattern_defect :: "MIArgs \<Rightarrow> Stack \<Rightarrow> bool" where
  "pattern_defect args s \<longleftrightarrow> length args = 3 \<and> copied args 0 \<and>
     (let j = Stack_position s (Vreg (args ! 1)); k = Stack_position s (Vreg (args ! 2))
      in (\<not> copied args 1 \<and> copied args 2 \<and> j = k \<and> j \<noteq> Some 0) \<or>
         (copied args 1 \<and> \<not> copied args 2 \<and> j = Some 0 \<and> k \<noteq> Some 0 \<and> k \<noteq> Some 1))"

lemma pattern2_brings:
  assumes "i < length s" "j < length s" "i \<le> XchgLimit" "j \<le> XchgLimit" "\<not> p1 \<longrightarrow> i \<noteq> j"
  shows "brings (pattern2 p0 p1 i j) s [i, j] ((if p0 then [i] else []) @ (if p1 then [j] else []))"
  using assms pattern2_pp_brings [of i s j] pattern2_xp_brings [of i s j]
    pattern2_px_brings [of i s j] pattern2_xx_brings [of i s j]
  by (cases p0; cases p1) (simp_all add: pattern2_def)

lemma pattern3_brings:
  assumes "i < length s" "j < length s" "k < length s"
    and "i \<le> XchgLimit" "j \<le> XchgLimit" "k \<le> XchgLimit"
    and "\<not> p1 \<longrightarrow> i \<noteq> j" "\<not> p2 \<longrightarrow> i \<noteq> k \<and> j \<noteq> k"
    and "p0 \<and> \<not> p1 \<and> p2 \<and> j = k \<longrightarrow> j = 0"
    and "p0 \<and> p1 \<and> \<not> p2 \<and> j = 0 \<longrightarrow> k < 2"
  shows "brings (pattern3 p0 p1 p2 i j k) s [i, j, k]
    ((if p0 then [i] else []) @ (if p1 then [j] else []) @ (if p2 then [k] else []))"
  using assms pattern3_xxx_brings [of i s j k] pattern3_xxp_brings [of i s j k]
    pattern3_xpx_brings [of i s j k] pattern3_xpp_brings [of i s j k]
    pattern3_pxx_brings [of i s j k] pattern3_pxp_brings [of i s j k]
    pattern3_ppx_brings [of i s j k] pattern3_ppp_brings [of i s j k]
  by (cases p0; cases p1; cases p2) (simp_all add: pattern3_def)

lemma not_copied_distinct:
  assumes "\<not> copied args b" "a < b" "b < length args"
  shows "Vreg (args ! a) \<noteq> Vreg (args ! b)"
proof
  assume "Vreg (args ! a) = Vreg (args ! b)"
  moreover have "args ! a \<in> set (take b args)"
    using assms(2,3) by (auto simp: in_set_conv_nth intro!: exI [of _ a])
  ultimately have "copied args b" unfolding copied_def by (metis image_eqI set_map)
  with assms(1) show False ..
qed

lemma apply_add_changes:
  assumes "built s0 (fx, s)" "apply_changes cs s = Some t"
  shows "apply_fixup (add_changes cs fx) s0 = Some t"
  using assms by (simp add: built_def apply_fixup_def add_changes_def changes_def comp_def
      fixup.run_append)

lemma brings_args_on_top:
  assumes "brings r s poss dups" "map ((!) s) poss = map Vreg args"
    "map ((!) s) dups = copied_regs args" "built s0 (fx, s)"
  shows "\<exists>cs t. r = Some cs \<and> apply_fixup (add_changes cs fx) s0 = Some t \<and> args_on_top args s t"
proof -
  obtain cs t where r: "r = Some cs" "apply_changes cs s = Some t"
    "take (length poss) t = rev (map ((!) s) poss)" "mset t = mset (map ((!) s) dups) + mset s"
    using assms(1) by (rule bringsD)
  have "length poss = length args" using arg_cong [OF assms(2), of length] by simp
  with r(3,4) assms(2,3) have "args_on_top args s t" by (simp add: args_on_top_def)
  with r(1) apply_add_changes [OF assms(4) r(2)] show ?thesis by blast
qed

lemma place_args_fixup:
  assumes ctx: "unique_regs s" "args_ok args s" "info_ok args s infos" "built s0 (fx, s)"
    and lim: "length s + length args \<le> 256"
  shows "\<exists>rv t. map_option (\<lambda>(off, rv, cur). rv) (place_args args infos (fx, s)) = Some rv \<and>
     apply_fixup rv s0 = Some t \<and> args_on_top args s t"
  using place_args_correct [OF assms] by (auto simp: built_def)

lemma select_changes_correct:
  assumes ctx: "unique_regs s" "args_ok args s" "info_ok args s infos" "built s0 (fx, s)"
    and lim: "length s + length args \<le> 256"
    and cant: "\<not> cant \<longrightarrow>
      (\<forall>i < length args. SrcPos (infos ! i) \<le> XchgLimit \<and> Vreg (args ! i) \<noteq> UnusedReg)"
    and nodef: "\<not> pattern_defect args s"
  shows "\<exists>rv t. select_changes args infos cant (fx, s) = Some rv \<and>
     apply_fixup rv s0 = Some t \<and> args_on_top args s t"
proof -
  let ?p = "\<lambda>i. SrcPos (infos ! i)"
  have I: "Push (infos ! i) = copied args i" "Vreg (args ! i) \<noteq> UnusedReg"
      "Stack_position s (Vreg (args ! i)) = Some (?p i)" "?p i < length s"
      "s ! ?p i = Vreg (args ! i)" "?p i \<le> XchgLimit" if "i < length args" "\<not> cant" for i
    using ctx(3) cant that by (simp_all add: info_ok_def)
  have D: "?p a \<noteq> ?p b" if "\<not> copied args b" "a < b" "b < length args" "\<not> cant" for a b
    using not_copied_distinct [OF that(1-3)] I(5) [of a] I(5) [of b] that by auto
  consider "length args = 1 \<and> \<not> cant" | "length args = 2 \<and> \<not> cant" | "length args = 3 \<and> \<not> cant"
    | "\<not> (length args = 1 \<and> \<not> cant)" "\<not> (length args = 2 \<and> \<not> cant)"
      "\<not> (length args = 3 \<and> \<not> cant)" by blast
  then show ?thesis
  proof cases
    case 1
    then obtain a where a: "args = [a]" by (auto simp: length_Suc_conv)
    have i0: "Push (infos ! 0) = copied args 0" "Vreg a \<noteq> UnusedReg"
      "Stack_position s (Vreg a) = Some (?p 0)" "?p 0 < length s" "s ! ?p 0 = Vreg a"
      using I [of 0] 1 a by auto
    have b: "built s0 (fx, s)" by fact
    consider "copied args 0" | "\<not> copied args 0" "?p 0 = 0" | "\<not> copied args 0" "?p 0 \<noteq> 0" by blast
    then show ?thesis
    proof cases
      case 1
      then obtain st where st: "emit (pushI (?p 0)) (fx, s) = Some st" "built s0 st"
          "snd st = Vreg a # s"
        using emit_Some [OF _ b, of "pushI (?p 0)" "Vreg a # s"] i0 by auto
      have "mk_pushI (?p 0) = Some (pushI (?p 0))"
        using i0(4) lim by (simp add: mk_pushI_def limit_defs)
      then have "select_changes args infos cant (fx, s) = Some (fst st)"
        using \<open>length args = 1 \<and> \<not> cant\<close> a i0 1 st(1) by (simp add: select_changes_def)
      moreover have "apply_fixup (fst st) s0 = Some (Vreg a # s)"
        using st(2,3) by (cases st) (simp add: built_def)
      moreover have "args_on_top args s (Vreg a # s)"
        using 1 a by (simp add: args_on_top_def copied_regs_def)
      ultimately show ?thesis by blast
    next
      case 2
      then have "select_changes args infos cant (fx, s) = Some fx"
        using \<open>length args = 1 \<and> \<not> cant\<close> a i0 by (simp add: select_changes_def)
      moreover have "take 1 s = [Vreg a]" using i0(4,5) 2 by (cases s) auto
      then have "args_on_top args s s"
        using 2 a by (simp add: args_on_top_def copied_regs_def)
      ultimately show ?thesis using b by (auto simp: built_def)
    next
      case 3
      let ?t = "swap_at 0 (?p 0) s"
      obtain st where st: "emit (xchgTop (?p 0)) (fx, s) = Some st" "built s0 st" "snd st = ?t"
        using emit_Some [OF _ b, of "xchgTop (?p 0)" ?t] i0 by auto
      have "mk_xchgTop (?p 0) = Some (xchgTop (?p 0))"
        using i0(4) lim by (simp add: mk_xchgTop_def limit_defs)
      then have "select_changes args infos cant (fx, s) = Some (fst st)"
        using \<open>length args = 1 \<and> \<not> cant\<close> a i0 3 st(1) by (simp add: select_changes_def)
      moreover have "apply_fixup (fst st) s0 = Some ?t"
        using st(2,3) by (cases st) (simp add: built_def)
      moreover have "take 1 ?t = [Vreg a]"
        using i0(4,5) by (cases s) (auto simp: swap_at_def nth_list_update list_update_code
            split: nat.splits)
      then have "args_on_top args s ?t"
        using 3 a i0(4) by (simp add: args_on_top_def copied_regs_def)
      ultimately show ?thesis by blast
    qed
  next
    case 2
    then obtain a b where ab: "args = [a, b]" by (auto simp: length_Suc_conv numeral_2_eq_2)
    have "\<not> copied args 1 \<longrightarrow> ?p 0 \<noteq> ?p 1" using D [of 1 0] 2 by auto
    then have "brings (pattern2 (copied args 0) (copied args 1) (?p 0) (?p 1)) s [?p 0, ?p 1]
        ((if copied args 0 then [?p 0] else []) @ (if copied args 1 then [?p 1] else []))"
      using I(4,6) 2 by (intro pattern2_brings) auto
    moreover have "map ((!) s) [?p 0, ?p 1] = map Vreg args" using I(5) [of 0] I(5) [of 1] 2 ab by simp
    moreover have "map ((!) s) ((if copied args 0 then [?p 0] else []) @
        (if copied args 1 then [?p 1] else [])) = copied_regs args"
      using I(5) [of 0] I(5) [of 1] 2 ab by (simp add: copied_regs_2)
    ultimately obtain cs t where "pattern2 (copied args 0) (copied args 1) (?p 0) (?p 1) = Some cs"
        "apply_fixup (add_changes cs fx) s0 = Some t" "args_on_top args s t"
      using brings_args_on_top [OF _ _ _ ctx(4)] by blast
    then show ?thesis using I(1,2) [of 0] I(1,2) [of 1] 2 by (simp add: select_changes_def)
  next
    case 3
    then obtain a b c where abc: "args = [a, b, c]" by (auto simp: length_Suc_conv numeral_3_eq_3)
    have d: "\<not> copied args 1 \<longrightarrow> ?p 0 \<noteq> ?p 1" "\<not> copied args 2 \<longrightarrow> ?p 0 \<noteq> ?p 2 \<and> ?p 1 \<noteq> ?p 2"
      using D [of 1 0] D [of 2 0] D [of 2 1] 3 by auto
    have p: "Stack_position s (Vreg (args ! 1)) = Some (?p 1)"
        "Stack_position s (Vreg (args ! 2)) = Some (?p 2)"
      using I(3) [of 1] I(3) [of 2] 3 by auto
    have "copied args 0 \<and> \<not> copied args 1 \<and> copied args 2 \<and> ?p 1 = ?p 2 \<longrightarrow> ?p 1 = 0"
      "copied args 0 \<and> copied args 1 \<and> \<not> copied args 2 \<and> ?p 1 = 0 \<longrightarrow> ?p 2 < 2"
      using nodef p 3 unfolding pattern_defect_def Let_def by auto
    then have "brings (pattern3 (copied args 0) (copied args 1) (copied args 2) (?p 0) (?p 1) (?p 2)) s
        [?p 0, ?p 1, ?p 2] ((if copied args 0 then [?p 0] else []) @
          (if copied args 1 then [?p 1] else []) @ (if copied args 2 then [?p 2] else []))"
      using I(4,6) 3 d by (intro pattern3_brings) auto
    moreover have "map ((!) s) [?p 0, ?p 1, ?p 2] = map Vreg args"
      using I(5) [of 0] I(5) [of 1] I(5) [of 2] 3 abc by simp
    moreover have "map ((!) s) ((if copied args 0 then [?p 0] else []) @
        (if copied args 1 then [?p 1] else []) @ (if copied args 2 then [?p 2] else [])) =
        copied_regs args"
      using I(5) [of 0] I(5) [of 1] I(5) [of 2] 3 abc by (simp add: copied_regs_3)
    ultimately obtain cs t where
        "pattern3 (copied args 0) (copied args 1) (copied args 2) (?p 0) (?p 1) (?p 2) = Some cs"
        "apply_fixup (add_changes cs fx) s0 = Some t" "args_on_top args s t"
      using brings_args_on_top [OF _ _ _ ctx(4)] by blast
    then show ?thesis
      using I(1,2) [of 0] I(1,2) [of 1] I(1,2) [of 2] 3 by (simp add: select_changes_def)
  next
    case 4
    then have "select_changes args infos cant (fx, s) =
        map_option (\<lambda>(off, rv, cur). rv) (place_args args infos (fx, s))"
      unfolding select_changes_def by (simp only: if_False)
    with place_args_fixup [OF ctx lim] show ?thesis by simp
  qed
qed

section \<open>The correctness of DiffForArgs\<close>

text \<open>For a commutative instruction the two topmost values may come out exchanged.\<close>

definition args_placed :: "bool \<Rightarrow> MIArgs \<Rightarrow> Stack \<Rightarrow> Stack \<Rightarrow> bool" where
  "args_placed isCommutative args s t \<longleftrightarrow>
     args_on_top args s t \<or>
     (isCommutative \<and> (\<exists>u. args_on_top args s u \<and> 2 \<le> length u \<and> t = swap_at 0 1 u))"

lemma top_unused_drop:
  "top_unused From \<le> length From"
  "mset (drop (top_unused From) From) + replicate_mset (top_unused From) UnusedReg = mset From"
  "v \<noteq> UnusedReg \<Longrightarrow> v \<in> set (drop (top_unused From) From) \<longleftrightarrow> v \<in> set From"
  "unique_regs From \<Longrightarrow> unique_regs (drop (top_unused From) From)"
proof -
  let ?P = "\<lambda>v. v = UnusedReg"
  have d: "drop (top_unused From) From = dropWhile ?P From"
    by (simp add: top_unused_def dropWhile_eq_drop)
  have tw: "takeWhile ?P From = replicate (top_unused From) UnusedReg"
    unfolding top_unused_def by (rule all_equal_replicate) (auto dest: set_takeWhileD)
  have f: "From = replicate (top_unused From) UnusedReg @ dropWhile ?P From"
    using takeWhile_dropWhile_id [of ?P From] tw by simp
  show "top_unused From \<le> length From" by (simp add: top_unused_def length_takeWhile_le)
  have "mset From = mset (replicate (top_unused From) UnusedReg @ dropWhile ?P From)"
    using f by simp
  then show "mset (drop (top_unused From) From) + replicate_mset (top_unused From) UnusedReg = mset From"
    by (simp add: d add.commute)
  have "set From = set (replicate (top_unused From) UnusedReg @ dropWhile ?P From)" using f by simp
  then show "v \<in> set (drop (top_unused From) From) \<longleftrightarrow> v \<in> set From" if "v \<noteq> UnusedReg"
    using that by (auto simp: d)
  have "filter (\<lambda>v. v \<noteq> UnusedReg) From =
      filter (\<lambda>v. v \<noteq> UnusedReg) (replicate (top_unused From) UnusedReg @ dropWhile ?P From)"
    using f by simp
  then show "unique_regs (drop (top_unused From) From)" if "unique_regs From"
    using that by (simp add: unique_regs_def d)
qed

lemma already_good_on_top:
  assumes "info_ok args s infos" "already_good infos"
  shows "args_on_top args s s"
proof -
  let ?n = "length args"
  have len: "length infos = ?n" using assms(1) by (simp add: info_ok_def)
  have nc: "\<not> copied args i" "Vreg (args ! i) \<noteq> UnusedReg" "?n - i - 1 < length s"
      "s ! (?n - i - 1) = Vreg (args ! i)" if "i < ?n" for i
  proof -
    show "\<not> copied args i" using assms that len by (auto simp: info_ok_def already_good_def)
    then show "Vreg (args ! i) \<noteq> UnusedReg" by (auto simp: copied_def)
    with assms that len show "?n - i - 1 < length s" "s ! (?n - i - 1) = Vreg (args ! i)"
      by (auto simp: info_ok_def already_good_def)
  qed
  have "take ?n s = rev (map Vreg args)"
  proof (cases "?n = 0")
    case False
    then have "?n \<le> length s" using nc(3) [of 0] by simp
    moreover have "s ! k = rev (map Vreg args) ! k" if "k < ?n" for k
      using nc(4) [of "?n - k - 1"] that by (simp add: rev_nth)
    ultimately show ?thesis by (intro nth_equalityI) auto
  qed simp
  moreover have "copied_regs args = []" using nc(1) by (auto simp: copied_regs_def filter_empty_conv)
  ultimately show ?thesis by (simp add: args_on_top_def)
qed

lemma DiffForArgs_places:
  assumes "args \<noteq> []" "unique_regs From" "args_ok args From"
    and lim: "length From + length args \<le> 256"
    and nodef: "\<not> pattern_defect args (drop (top_unused From) From)"
  shows "\<exists>fx t. DiffForArgs From args comm = Some fx \<and> apply_fixup fx From = Some t \<and>
     commented fx From \<and> args_placed comm args (drop (top_unused From) From) t"
proof -
  let ?s = "drop (top_unused From) From"
  have uniq: "unique_regs ?s" using assms(2) by (rule top_unused_drop)
  have ok: "args_ok args ?s"
    using assms(3) top_unused_drop(3) [of _ From] unfolding args_ok_def by blast
  obtain fx where st: "drop_pops (top_unused From) ([], From) = Some (fx, ?s)" "built From (fx, ?s)"
    using drop_pops_correct [of From "([], From)" "top_unused From"] top_unused_drop(1) by auto
  obtain infos off cant where col: "collect_args args ?s = Some (infos, off, cant)"
      "info_ok args ?s infos"
      "\<not> cant \<longrightarrow> (\<forall>i < length args. SrcPos (infos ! i) \<le> XchgLimit \<and> Vreg (args ! i) \<noteq> UnusedReg)"
    using collect_args_ok [OF uniq ok] by blast
  have len: "length ?s + length args \<le> 256" using lim by simp
  obtain rv t where sel: "select_changes args infos cant (fx, ?s) = Some rv"
      "apply_fixup rv From = Some t" "args_on_top args ?s t"
    using select_changes_correct [OF uniq ok col(2) st(2) len col(3) nodef] by blast
  have annot: "\<exists>gx. annotate rv' From = Some gx \<and> apply_fixup gx From = Some u \<and> commented gx From"
    if "apply_fixup rv' From = Some u" for rv' u
    using annotate_total [OF that] annotate_commented that by (fastforce simp: apply_fixup_def)
  show ?thesis
  proof (cases "already_good infos")
    case True
    have "apply_fixup fx From = Some ?s" using st(2) by (simp add: built_def)
    from annot [OF this] True already_good_on_top [OF col(2) True] assms(1) st(1) col(1)
    show ?thesis by (auto simp: DiffForArgs_def args_placed_def)
  next
    case False
    have D: "DiffForArgs From args comm = annotate (optimize comm rv) From"
      using False assms(1) st(1) col(1) sel(1) by (simp add: DiffForArgs_def)
    have "apply_fixup (optimize comm rv) From = Some t \<or>
        (comm \<and> 2 \<le> length t \<and> apply_fixup (optimize comm rv) From = Some (swap_at 0 1 t))"
      using optimize_commutative_sound [of rv From t comm] sel(2)
      by (simp add: apply_fixup_def changes_def)
    then obtain u where u: "apply_fixup (optimize comm rv) From = Some u" "args_placed comm args ?s u"
      using sel(3) by (auto simp: args_placed_def)
    with annot [OF u(1)] D show ?thesis by auto
  qed
qed

end
