(* ===== verification/TVM_Machine.thy ===== *)
theory TVM_Machine
  imports TVM_Args
begin

text \<open>
  Machine instructions as the backend's last passes see them, and what is attached to them: the
  instruction list of a block, the operand predicates, the side tables of TVMFunctionInfo, the
  predicates of TVMUtilities.cpp, MachineInstrMatcher, and the members of class Stack that read
  instructions or live intervals. The instruction descriptions generated from the .td files and the
  live intervals are parameters (records of functions).
\<close>

section \<open>Instructions\<close>

text \<open>
  The opcodes, in groups, so that the facts that tell them apart stay few. An opcode is used by its own name,
  which abbreviates its place in its group.
\<close>

datatype (plugins only: code) EntryOpcode =
    op_ARGUMENT | op_ARGUMENT_SLICE | op_ARGUMENT_BUILDER | op_ARGUMENT_CELL | op_ARGUMENT_TUPLE |
    op_ARGUMENT_NUM | op_CONST_I257 | op_CONST_U257 | op_CONST_I257_S | op_CONST_U257_S

datatype (plugins only: code) ShuffleOpcode =
    op_POP | op_XCHG_TOP | op_XCHG_TOP_DEEP | op_XCHG | op_PUSH | op_PUSHX | op_BLKSWAP | op_BLKSWX
    | op_ROLL | op_ROLLREV | op_ROLLX | op_ROLLREVX | op_REVERSE | op_REVX | op_BLKDROP | op_DROPX

datatype (plugins only: code) CompoundOpcode =
    op_XCHG2 | op_XCPU | op_PUXC | op_PUSH2 | op_XCHG3 | op_XC2PU | op_XCPUXC | op_XCPU2 | op_PUXC2
    | op_PUXCPU | op_PU2XC | op_PUSH3 | op_BLKPUSH | op_DROP2 | op_DUP2 | op_OVER2 | op_ROT |
    op_ROTREV | op_TUCK

datatype (plugins only: code) ArithOpcode =
    op_SUB | op_SUBR | op_STI | op_STIR | op_STU | op_STUR | op_STIX | op_STIXR | op_STUX | op_STUXR
    | op_SGT | op_SLT | op_SGE | op_SLE

datatype (plugins only: code) BranchOpcode =
    op_JMPX | op_IFJMP | op_IFNOTJMP | op_IFELSE | op_IF | op_IFNOT | op_THROW | op_THROWIF |
    op_THROWIFNOT | op_PUSHCONT_MBB | op_PUSHCONT_MBB_S | op_PUSHCONT_LABEL | op_JMPX_S |
    op_IFELSE_S | op_IF_S | op_IFNOT_S | op_IFJMP_S | op_IFNOTJMP_S | op_FALLTHROUGH_RETURN

datatype (plugins only: code) GenericOpcode =
    op_HIDDENSTACK | op_IMPLICIT_DEF | op_DBG_VALUE | op_DBG_LABEL | op_EH_LABEL | op_GC_LABEL |
    op_ANNOTATION_LABEL | op_CFI_INSTRUCTION | op_KILL | op_INLINEASM | op_PHI | op_REG_TO_REG_COPY

datatype (plugins only: code) CopyOpcode =
    op_PUSH_GLOBAL_ADDRESS | op_PUSH_GLOBAL_ADDRESS_S | op_PUSHNULL_S | op_REG_TO_REG_COPY_S |
    op_TO_TUPLE_COPY_S | op_TO_SLICE_COPY_S | op_TO_BUILDER_COPY_S | op_TO_CELL_COPY_S |
    op_FROM_TUPLE_COPY_S | op_FROM_SLICE_COPY_S | op_FROM_BUILDER_COPY_S | op_FROM_CELL_COPY_S |
    op_LOGSTR_S | op_PRINTSTR_S

datatype (plugins only: code) Opcode =
    EntryOp EntryOpcode
  | ShuffleOp ShuffleOpcode
  | CompoundOp CompoundOpcode
  | ArithOp ArithOpcode
  | BranchOp BranchOpcode
  | GenericOp GenericOpcode
  | CopyOp CopyOpcode
  | OtherOpcode nat

abbreviation ARGUMENT :: Opcode where "ARGUMENT \<equiv> EntryOp op_ARGUMENT"
abbreviation ARGUMENT_SLICE :: Opcode where "ARGUMENT_SLICE \<equiv> EntryOp op_ARGUMENT_SLICE"
abbreviation ARGUMENT_BUILDER :: Opcode where "ARGUMENT_BUILDER \<equiv> EntryOp op_ARGUMENT_BUILDER"
abbreviation ARGUMENT_CELL :: Opcode where "ARGUMENT_CELL \<equiv> EntryOp op_ARGUMENT_CELL"
abbreviation ARGUMENT_TUPLE :: Opcode where "ARGUMENT_TUPLE \<equiv> EntryOp op_ARGUMENT_TUPLE"
abbreviation ARGUMENT_NUM :: Opcode where "ARGUMENT_NUM \<equiv> EntryOp op_ARGUMENT_NUM"
abbreviation CONST_I257 :: Opcode where "CONST_I257 \<equiv> EntryOp op_CONST_I257"
abbreviation CONST_U257 :: Opcode where "CONST_U257 \<equiv> EntryOp op_CONST_U257"
abbreviation CONST_I257_S :: Opcode where "CONST_I257_S \<equiv> EntryOp op_CONST_I257_S"
abbreviation CONST_U257_S :: Opcode where "CONST_U257_S \<equiv> EntryOp op_CONST_U257_S"

abbreviation POP :: Opcode where "POP \<equiv> ShuffleOp op_POP"
abbreviation XCHG_TOP :: Opcode where "XCHG_TOP \<equiv> ShuffleOp op_XCHG_TOP"
abbreviation XCHG_TOP_DEEP :: Opcode where "XCHG_TOP_DEEP \<equiv> ShuffleOp op_XCHG_TOP_DEEP"
abbreviation XCHG :: Opcode where "XCHG \<equiv> ShuffleOp op_XCHG"
abbreviation PUSH :: Opcode where "PUSH \<equiv> ShuffleOp op_PUSH"
abbreviation PUSHX :: Opcode where "PUSHX \<equiv> ShuffleOp op_PUSHX"
abbreviation BLKSWAP :: Opcode where "BLKSWAP \<equiv> ShuffleOp op_BLKSWAP"
abbreviation BLKSWX :: Opcode where "BLKSWX \<equiv> ShuffleOp op_BLKSWX"
abbreviation ROLL :: Opcode where "ROLL \<equiv> ShuffleOp op_ROLL"
abbreviation ROLLREV :: Opcode where "ROLLREV \<equiv> ShuffleOp op_ROLLREV"
abbreviation ROLLX :: Opcode where "ROLLX \<equiv> ShuffleOp op_ROLLX"
abbreviation ROLLREVX :: Opcode where "ROLLREVX \<equiv> ShuffleOp op_ROLLREVX"
abbreviation REVERSE :: Opcode where "REVERSE \<equiv> ShuffleOp op_REVERSE"
abbreviation REVX :: Opcode where "REVX \<equiv> ShuffleOp op_REVX"
abbreviation BLKDROP :: Opcode where "BLKDROP \<equiv> ShuffleOp op_BLKDROP"
abbreviation DROPX :: Opcode where "DROPX \<equiv> ShuffleOp op_DROPX"

abbreviation XCHG2 :: Opcode where "XCHG2 \<equiv> CompoundOp op_XCHG2"
abbreviation XCPU :: Opcode where "XCPU \<equiv> CompoundOp op_XCPU"
abbreviation PUXC :: Opcode where "PUXC \<equiv> CompoundOp op_PUXC"
abbreviation PUSH2 :: Opcode where "PUSH2 \<equiv> CompoundOp op_PUSH2"
abbreviation XCHG3 :: Opcode where "XCHG3 \<equiv> CompoundOp op_XCHG3"
abbreviation XC2PU :: Opcode where "XC2PU \<equiv> CompoundOp op_XC2PU"
abbreviation XCPUXC :: Opcode where "XCPUXC \<equiv> CompoundOp op_XCPUXC"
abbreviation XCPU2 :: Opcode where "XCPU2 \<equiv> CompoundOp op_XCPU2"
abbreviation PUXC2 :: Opcode where "PUXC2 \<equiv> CompoundOp op_PUXC2"
abbreviation PUXCPU :: Opcode where "PUXCPU \<equiv> CompoundOp op_PUXCPU"
abbreviation PU2XC :: Opcode where "PU2XC \<equiv> CompoundOp op_PU2XC"
abbreviation PUSH3 :: Opcode where "PUSH3 \<equiv> CompoundOp op_PUSH3"
abbreviation BLKPUSH :: Opcode where "BLKPUSH \<equiv> CompoundOp op_BLKPUSH"
abbreviation DROP2 :: Opcode where "DROP2 \<equiv> CompoundOp op_DROP2"
abbreviation DUP2 :: Opcode where "DUP2 \<equiv> CompoundOp op_DUP2"
abbreviation OVER2 :: Opcode where "OVER2 \<equiv> CompoundOp op_OVER2"
abbreviation ROT :: Opcode where "ROT \<equiv> CompoundOp op_ROT"
abbreviation ROTREV :: Opcode where "ROTREV \<equiv> CompoundOp op_ROTREV"
abbreviation TUCK :: Opcode where "TUCK \<equiv> CompoundOp op_TUCK"

abbreviation SUB :: Opcode where "SUB \<equiv> ArithOp op_SUB"
abbreviation SUBR :: Opcode where "SUBR \<equiv> ArithOp op_SUBR"
abbreviation STI :: Opcode where "STI \<equiv> ArithOp op_STI"
abbreviation STIR :: Opcode where "STIR \<equiv> ArithOp op_STIR"
abbreviation STU :: Opcode where "STU \<equiv> ArithOp op_STU"
abbreviation STUR :: Opcode where "STUR \<equiv> ArithOp op_STUR"
abbreviation STIX :: Opcode where "STIX \<equiv> ArithOp op_STIX"
abbreviation STIXR :: Opcode where "STIXR \<equiv> ArithOp op_STIXR"
abbreviation STUX :: Opcode where "STUX \<equiv> ArithOp op_STUX"
abbreviation STUXR :: Opcode where "STUXR \<equiv> ArithOp op_STUXR"
abbreviation SGT :: Opcode where "SGT \<equiv> ArithOp op_SGT"
abbreviation SLT :: Opcode where "SLT \<equiv> ArithOp op_SLT"
abbreviation SGE :: Opcode where "SGE \<equiv> ArithOp op_SGE"
abbreviation SLE :: Opcode where "SLE \<equiv> ArithOp op_SLE"

abbreviation JMPX :: Opcode where "JMPX \<equiv> BranchOp op_JMPX"
abbreviation IFJMP :: Opcode where "IFJMP \<equiv> BranchOp op_IFJMP"
abbreviation IFNOTJMP :: Opcode where "IFNOTJMP \<equiv> BranchOp op_IFNOTJMP"
abbreviation IFELSE :: Opcode where "IFELSE \<equiv> BranchOp op_IFELSE"
abbreviation IF :: Opcode where "IF \<equiv> BranchOp op_IF"
abbreviation IFNOT :: Opcode where "IFNOT \<equiv> BranchOp op_IFNOT"
abbreviation THROW :: Opcode where "THROW \<equiv> BranchOp op_THROW"
abbreviation THROWIF :: Opcode where "THROWIF \<equiv> BranchOp op_THROWIF"
abbreviation THROWIFNOT :: Opcode where "THROWIFNOT \<equiv> BranchOp op_THROWIFNOT"
abbreviation PUSHCONT_MBB :: Opcode where "PUSHCONT_MBB \<equiv> BranchOp op_PUSHCONT_MBB"
abbreviation PUSHCONT_MBB_S :: Opcode where "PUSHCONT_MBB_S \<equiv> BranchOp op_PUSHCONT_MBB_S"
abbreviation PUSHCONT_LABEL :: Opcode where "PUSHCONT_LABEL \<equiv> BranchOp op_PUSHCONT_LABEL"
abbreviation JMPX_S :: Opcode where "JMPX_S \<equiv> BranchOp op_JMPX_S"
abbreviation IFELSE_S :: Opcode where "IFELSE_S \<equiv> BranchOp op_IFELSE_S"
abbreviation IF_S :: Opcode where "IF_S \<equiv> BranchOp op_IF_S"
abbreviation IFNOT_S :: Opcode where "IFNOT_S \<equiv> BranchOp op_IFNOT_S"
abbreviation IFJMP_S :: Opcode where "IFJMP_S \<equiv> BranchOp op_IFJMP_S"
abbreviation IFNOTJMP_S :: Opcode where "IFNOTJMP_S \<equiv> BranchOp op_IFNOTJMP_S"
abbreviation FALLTHROUGH_RETURN :: Opcode where "FALLTHROUGH_RETURN \<equiv> BranchOp op_FALLTHROUGH_RETURN"

abbreviation HIDDENSTACK :: Opcode where "HIDDENSTACK \<equiv> GenericOp op_HIDDENSTACK"
abbreviation IMPLICIT_DEF :: Opcode where "IMPLICIT_DEF \<equiv> GenericOp op_IMPLICIT_DEF"
abbreviation DBG_VALUE :: Opcode where "DBG_VALUE \<equiv> GenericOp op_DBG_VALUE"
abbreviation DBG_LABEL :: Opcode where "DBG_LABEL \<equiv> GenericOp op_DBG_LABEL"
abbreviation EH_LABEL :: Opcode where "EH_LABEL \<equiv> GenericOp op_EH_LABEL"
abbreviation GC_LABEL :: Opcode where "GC_LABEL \<equiv> GenericOp op_GC_LABEL"
abbreviation ANNOTATION_LABEL :: Opcode where "ANNOTATION_LABEL \<equiv> GenericOp op_ANNOTATION_LABEL"
abbreviation CFI_INSTRUCTION :: Opcode where "CFI_INSTRUCTION \<equiv> GenericOp op_CFI_INSTRUCTION"
abbreviation KILL :: Opcode where "KILL \<equiv> GenericOp op_KILL"
abbreviation INLINEASM :: Opcode where "INLINEASM \<equiv> GenericOp op_INLINEASM"
abbreviation PHI :: Opcode where "PHI \<equiv> GenericOp op_PHI"
abbreviation REG_TO_REG_COPY :: Opcode where "REG_TO_REG_COPY \<equiv> GenericOp op_REG_TO_REG_COPY"

abbreviation PUSH_GLOBAL_ADDRESS :: Opcode where "PUSH_GLOBAL_ADDRESS \<equiv> CopyOp op_PUSH_GLOBAL_ADDRESS"
abbreviation PUSH_GLOBAL_ADDRESS_S :: Opcode where "PUSH_GLOBAL_ADDRESS_S \<equiv> CopyOp op_PUSH_GLOBAL_ADDRESS_S"
abbreviation PUSHNULL_S :: Opcode where "PUSHNULL_S \<equiv> CopyOp op_PUSHNULL_S"
abbreviation REG_TO_REG_COPY_S :: Opcode where "REG_TO_REG_COPY_S \<equiv> CopyOp op_REG_TO_REG_COPY_S"
abbreviation TO_TUPLE_COPY_S :: Opcode where "TO_TUPLE_COPY_S \<equiv> CopyOp op_TO_TUPLE_COPY_S"
abbreviation TO_SLICE_COPY_S :: Opcode where "TO_SLICE_COPY_S \<equiv> CopyOp op_TO_SLICE_COPY_S"
abbreviation TO_BUILDER_COPY_S :: Opcode where "TO_BUILDER_COPY_S \<equiv> CopyOp op_TO_BUILDER_COPY_S"
abbreviation TO_CELL_COPY_S :: Opcode where "TO_CELL_COPY_S \<equiv> CopyOp op_TO_CELL_COPY_S"
abbreviation FROM_TUPLE_COPY_S :: Opcode where "FROM_TUPLE_COPY_S \<equiv> CopyOp op_FROM_TUPLE_COPY_S"
abbreviation FROM_SLICE_COPY_S :: Opcode where "FROM_SLICE_COPY_S \<equiv> CopyOp op_FROM_SLICE_COPY_S"
abbreviation FROM_BUILDER_COPY_S :: Opcode where "FROM_BUILDER_COPY_S \<equiv> CopyOp op_FROM_BUILDER_COPY_S"
abbreviation FROM_CELL_COPY_S :: Opcode where "FROM_CELL_COPY_S \<equiv> CopyOp op_FROM_CELL_COPY_S"
abbreviation LOGSTR_S :: Opcode where "LOGSTR_S \<equiv> CopyOp op_LOGSTR_S"
abbreviation PRINTSTR_S :: Opcode where "PRINTSTR_S \<equiv> CopyOp op_PRINTSTR_S"

text \<open>A register operand carries its undef and dead flags; the rest are the other operand kinds.\<close>

datatype MachineOperand =
    MO_Register (getReg: nat) (isUndef: bool) (isDead: bool)
  | MO_Immediate int
  | MO_CImmediate int
  | MO_MachineBasicBlock nat
  | MO_GlobalAddress nat int
  | MO_ExternalSymbol string int

fun isReg :: "MachineOperand \<Rightarrow> bool" where
  "isReg (MO_Register r u d) = True" | "isReg _ = False"

fun getImm :: "MachineOperand \<Rightarrow> int option" where
  "getImm (MO_Immediate i) = Some i" | "getImm _ = None"

fun getCImm :: "MachineOperand \<Rightarrow> int option" where
  "getCImm (MO_CImmediate i) = Some i" | "getCImm _ = None"

fun getMBB :: "MachineOperand \<Rightarrow> nat option" where
  "getMBB (MO_MachineBasicBlock b) = Some b" | "getMBB _ = None"

fun isGlobalOrSymbol :: "MachineOperand \<Rightarrow> bool" where
  "isGlobalOrSymbol (MO_GlobalAddress g off) = True"
| "isGlobalOrSymbol (MO_ExternalSymbol s off) = True"
| "isGlobalOrSymbol _ = False"

text \<open>
  A comment of the stack model: a stack, the two stacks around a terminator, or the rendering of the
  register form of the instruction (its definitions, opcode and uses).
\<close>

datatype ModelComment =
    StackComment Comment
  | TermComment Comment Stack
  | InstrComment "MachineOperand list" Opcode "MachineOperand list"

text \<open>
  The operands of an instruction are its explicit ones; the implicit operands that its description
  adds are not listed. The pointer-keyed tables StackModelComments and StackModelSourceRegs are fields here; isReturn,
  isTerminator, isCommutable and the number of definitions come from the parameter MCInstrInfo.
\<close>

record MachineInstr =
  getOpcode :: Opcode
  operands :: "MachineOperand list"
  comments :: "ModelComment list"
  sourceRegs :: "nat list option"
  slotIndex :: nat

record MCInstrInfo =
  NumDefs :: "Opcode \<Rightarrow> nat"
  descReturn :: "Opcode \<Rightarrow> bool"
  descTerminator :: "Opcode \<Rightarrow> bool"
  descCommutable :: "Opcode \<Rightarrow> bool"
  RegForm2SForm :: "Opcode \<Rightarrow> Opcode option"

definition mk_instr :: "Opcode \<Rightarrow> MachineOperand list \<Rightarrow> MachineInstr" where
  "mk_instr opc ops = \<lparr> getOpcode = opc, operands = ops, comments = [], sourceRegs = None,
     slotIndex = 0 \<rparr>"

definition getOperand :: "MachineInstr \<Rightarrow> nat \<Rightarrow> MachineOperand option" where
  "getOperand MI i = (if i < length (operands MI) then Some (operands MI ! i) else None)"

text \<open>MI.defs() and MI.uses(): the explicit operands before and from the number of definitions.\<close>

definition defs :: "MCInstrInfo \<Rightarrow> MachineInstr \<Rightarrow> MachineOperand list" where
  "defs D MI = take (NumDefs D (getOpcode MI)) (operands MI)"

definition uses :: "MCInstrInfo \<Rightarrow> MachineInstr \<Rightarrow> MachineOperand list" where
  "uses D MI = drop (NumDefs D (getOpcode MI)) (operands MI)"

definition isDebugInstr :: "MachineInstr \<Rightarrow> bool" where
  "isDebugInstr MI \<longleftrightarrow> getOpcode MI = DBG_VALUE \<or> getOpcode MI = DBG_LABEL"

definition isLabel :: "MachineInstr \<Rightarrow> bool" where
  "isLabel MI \<longleftrightarrow> getOpcode MI = EH_LABEL \<or> getOpcode MI = GC_LABEL \<or> getOpcode MI = ANNOTATION_LABEL"

subsection \<open>TVMUtilities.cpp\<close>

definition isArgument :: "MachineInstr \<Rightarrow> bool" where
  "isArgument MI \<longleftrightarrow> getOpcode MI \<in> {ARGUMENT, ARGUMENT_SLICE, ARGUMENT_BUILDER, ARGUMENT_CELL,
     ARGUMENT_TUPLE}"

definition isArgumentNum :: "MachineInstr \<Rightarrow> bool" where
  "isArgumentNum MI \<longleftrightarrow> getOpcode MI = ARGUMENT_NUM"

definition isConstInt :: "MachineInstr \<Rightarrow> bool" where
  "isConstInt MI \<longleftrightarrow> getOpcode MI = CONST_I257 \<or> getOpcode MI = CONST_U257"

section \<open>The tables of TVMFunctionInfo\<close>

definition addStackModelComment :: "ModelComment \<Rightarrow> MachineInstr \<Rightarrow> MachineInstr" where
  "addStackModelComment val MI = MI \<lparr> comments := comments MI @ [val] \<rparr>"

definition resetStackModelComment :: "ModelComment \<Rightarrow> MachineInstr \<Rightarrow> MachineInstr" where
  "resetStackModelComment val MI = MI \<lparr> comments := [val] \<rparr>"

definition setStackModelSourceRegs :: "nat list \<Rightarrow> MachineInstr \<Rightarrow> MachineInstr" where
  "setStackModelSourceRegs regs MI = MI \<lparr> sourceRegs := Some regs \<rparr>"

definition cloneMachineInstrIntermediateData :: "MachineInstr \<Rightarrow> MachineInstr \<Rightarrow> MachineInstr" where
  "cloneMachineInstrIntermediateData Source Destination =
     (let dst = fold addStackModelComment (comments Source) (Destination \<lparr> comments := [] \<rparr>)
      in case sourceRegs Source of
           None \<Rightarrow> dst
         | Some regs \<Rightarrow> setStackModelSourceRegs regs dst)"

definition clearIntermediateData :: "MachineInstr \<Rightarrow> MachineInstr" where
  "clearIntermediateData MI = MI \<lparr> comments := [], sourceRegs := None \<rparr>"

lemma fold_addStackModelComment:
  "fold addStackModelComment cs MI = MI \<lparr> comments := comments MI @ cs \<rparr>"
  by (induction cs arbitrary: MI) (simp_all add: addStackModelComment_def)

lemma clone_keeps_data:
  "comments (cloneMachineInstrIntermediateData src dst) = comments src"
  "sourceRegs src \<noteq> None \<Longrightarrow> sourceRegs (cloneMachineInstrIntermediateData src dst) = sourceRegs src"
  "getOpcode (cloneMachineInstrIntermediateData src dst) = getOpcode dst"
  "operands (cloneMachineInstrIntermediateData src dst) = operands dst"
  by (auto simp: cloneMachineInstrIntermediateData_def fold_addStackModelComment
      setStackModelSourceRegs_def Let_def split: option.splits)

text \<open>The register tables: a register that was never set is not stackified.\<close>

type_synonym BitVector = "bool list"

definition stackifyVReg :: "nat \<Rightarrow> BitVector \<Rightarrow> BitVector" where
  "stackifyVReg I v =
     (let v' = (if I \<ge> length v then v @ replicate (I + 1 - length v) False else v) in v'[I := True])"

definition isVRegStackified :: "BitVector \<Rightarrow> nat \<Rightarrow> bool" where
  "isVRegStackified v I \<longleftrightarrow> (if I \<ge> length v then False else v ! I)"

definition setTVMReg :: "nat \<Rightarrow> nat \<Rightarrow> nat list \<Rightarrow> nat list option" where
  "setTVMReg I WAReg regs = do {
     check (WAReg \<noteq> UnusedReg); check (I < length regs); Some (regs[I := WAReg]) }"

definition getTVMReg :: "nat list \<Rightarrow> nat \<Rightarrow> nat option" where
  "getTVMReg regs I = do { check (I < length regs); Some (regs ! I) }"

lemma stackify_reads_back:
  "isVRegStackified (stackifyVReg I v) J \<longleftrightarrow> J = I \<or> isVRegStackified v J"
  by (auto simp: stackifyVReg_def isVRegStackified_def Let_def nth_list_update nth_append)

lemma setTVMReg_reads_back:
  "setTVMReg I r regs = Some regs' \<Longrightarrow>
   getTVMReg regs' J = (if J = I then Some r else getTVMReg regs J)"
  by (auto simp: setTVMReg_def getTVMReg_def split: if_splits)

section \<open>MachineInstrMatcher\<close>

text \<open>
  A matcher walks an instruction list from an iterator; a failed match has still moved it, except at
  the end. match returns the position of the matched instruction and the new iterator.
\<close>

definition checkOperand :: "MachineInstr \<Rightarrow> nat \<Rightarrow> int \<Rightarrow> bool" where
  "checkOperand MI Index ImmValue \<longleftrightarrow>
     (case getOperand MI Index of None \<Rightarrow> False | Some opd \<Rightarrow> getImm opd = Some ImmValue)"

fun matchImpl :: "MachineInstr \<Rightarrow> nat \<Rightarrow> int list \<Rightarrow> bool" where
  "matchImpl MI Index [] = True"
| "matchImpl MI Index (v # vs) \<longleftrightarrow> checkOperand MI Index v \<and> matchImpl MI (Index + 1) vs"

definition match :: "MachineInstr list \<Rightarrow> nat \<Rightarrow> Opcode \<Rightarrow> int list \<Rightarrow> nat option \<times> nat" where
  "match B It Opc Args =
     (if It \<ge> length B then (None, It)
      else if getOpcode (B ! It) = Opc \<and> matchImpl (B ! It) 0 Args then (Some It, It + 1)
      else (None, It + 1))"

text \<open>A chain of matches joined by the short-circuit conjunction.\<close>

fun match_all :: "MachineInstr list \<Rightarrow> nat \<Rightarrow> (Opcode \<times> int list) list \<Rightarrow> nat option" where
  "match_all B It [] = Some It"
| "match_all B It ((opc, args) # ps) =
     (case match B It opc args of (Some i, It') \<Rightarrow> match_all B It' ps | (None, It') \<Rightarrow> None)"

definition fits :: "MachineInstr \<Rightarrow> Opcode \<times> int list \<Rightarrow> bool" where
  "fits MI p \<longleftrightarrow> getOpcode MI = fst p \<and> matchImpl MI 0 (snd p)"

lemma match_all_Some:
  "match_all B It ps = Some It' \<longleftrightarrow>
   It' = It + length ps \<and> (ps \<noteq> [] \<longrightarrow> It' \<le> length B) \<and>
   (\<forall>i < length ps. fits (B ! (It + i)) (ps ! i))"
proof (induction ps arbitrary: It)
  case (Cons p ps)
  obtain opc args where p: "p = (opc, args)" by (cases p)
  show ?case
  proof (cases "It < length B \<and> fits (B ! It) p")
    case True
    then have "match_all B It (p # ps) = match_all B (It + 1) ps"
      using p by (simp add: match_def fits_def)
    moreover have "(\<forall>i < length (p # ps). fits (B ! (It + i)) ((p # ps) ! i)) \<longleftrightarrow>
        fits (B ! It) p \<and> (\<forall>i < length ps. fits (B ! (It + 1 + i)) (ps ! i))"
      by (simp add: All_less_Suc2)
    ultimately show ?thesis using True Cons.IH [of "It + 1"] by auto
  next
    case False
    then have "match_all B It (p # ps) = None"
      using p by (auto simp: match_def fits_def)
    moreover from False have "It + length (p # ps) \<le> length B \<longrightarrow>
        \<not> (\<forall>i < length (p # ps). fits (B ! (It + i)) ((p # ps) ! i))"
      by (force dest: spec [of _ 0])
    ultimately show ?thesis by auto
  qed
qed auto

section \<open>Live intervals\<close>

text \<open>The queries the backend makes; liveAt r i says that r has a value at slot i.\<close>

record LiveIntervals =
  hasInterval :: "nat \<Rightarrow> bool"
  isLiveInToMBB :: "nat \<Rightarrow> nat \<Rightarrow> bool"
  isLiveOutOfMBB :: "nat \<Rightarrow> nat \<Rightarrow> bool"
  liveAt :: "nat \<Rightarrow> nat \<Rightarrow> bool"

definition isKilled :: "MCInstrInfo \<Rightarrow> LiveIntervals \<Rightarrow> MachineInstr \<Rightarrow> nat \<Rightarrow> nat \<Rightarrow> bool" where
  "isKilled D LIS MI Register LIIndex \<longleftrightarrow>
     (if \<not> liveAt LIS Register LIIndex then True
      else (\<exists>opd \<in> set (defs D MI). isReg opd \<and> getReg opd = Register))"

definition MIArgs_of :: "MCInstrInfo \<Rightarrow> LiveIntervals \<Rightarrow> MachineInstr \<Rightarrow> nat \<Rightarrow> MIArgs" where
  "MIArgs_of D LIS MI LIIndex =
     map (\<lambda>Arg. if isUndef Arg then \<lparr> Vreg = UnusedReg, IsKilled = True \<rparr>
                else \<lparr> Vreg = getReg Arg, IsKilled = isKilled D LIS MI (getReg Arg) LIIndex \<rparr>)
       (filter isReg (uses D MI))"

definition withArgs :: "Stack \<Rightarrow> MIArgs \<Rightarrow> Stack" where
  "withArgs s args = fold (\<lambda>a rv. Vreg a # rv) args s"

definition filteredByLiveIns :: "LiveIntervals \<Rightarrow> nat \<Rightarrow> Stack \<Rightarrow> Stack" where
  "filteredByLiveIns LIS MBB s =
     map (\<lambda>v. if \<not> hasInterval LIS v \<or> \<not> isLiveInToMBB LIS v MBB then UnusedReg else v) s"

definition filteredByLiveOuts :: "LiveIntervals \<Rightarrow> nat \<Rightarrow> Stack \<Rightarrow> Stack" where
  "filteredByLiveOuts LIS MBB s =
     map (\<lambda>v. if \<not> hasInterval LIS v \<or> \<not> isLiveOutOfMBB LIS v MBB then UnusedReg else v) s"

text \<open>
  filteredByMIdefs skips the register operands and asks the others for their register, which
  getReg refuses.
\<close>

definition filteredByMIdefs :: "MCInstrInfo \<Rightarrow> MachineInstr \<Rightarrow> Stack \<Rightarrow> Stack option" where
  "filteredByMIdefs D MI s =
     foldM (\<lambda>opd rv. if isReg opd then Some rv else None) (defs D MI) s"

definition filterByDeadDefs :: "MCInstrInfo \<Rightarrow> MachineInstr \<Rightarrow> Stack \<Rightarrow> Stack" where
  "filterByDeadDefs D MI s =
     fold (\<lambda>MO rv. if isReg MO \<and> isDead MO
                   then map (\<lambda>v. if v = getReg MO then UnusedReg else v) rv else rv)
       (defs D MI) s"

lemma withArgs_eq: "withArgs s args = rev (map Vreg args) @ s"
  unfolding withArgs_def by (induction args arbitrary: s) auto

lemma filteredByMIdefs_eq:
  "filteredByMIdefs D MI s = (if \<forall>opd \<in> set (defs D MI). isReg opd then Some s else None)"
proof -
  have "foldM (\<lambda>opd rv. if isReg opd then Some rv else None) xs s =
      (if \<forall>opd \<in> set xs. isReg opd then Some s else None)" for xs
    by (induction xs) auto
  then show ?thesis by (simp add: filteredByMIdefs_def)
qed

lemma filterByDeadDefs_eq:
  "filterByDeadDefs D MI s =
   map (\<lambda>v. if \<exists>MO \<in> set (defs D MI). isReg MO \<and> isDead MO \<and> getReg MO = v then UnusedReg else v) s"
  if "\<forall>MO \<in> set (defs D MI). isReg MO \<longrightarrow> getReg MO \<noteq> UnusedReg"
proof -
  have "fold (\<lambda>MO rv. if isReg MO \<and> isDead MO
      then map (\<lambda>v. if v = getReg MO then UnusedReg else v) rv else rv) xs s =
    map (\<lambda>v. if \<exists>MO \<in> set xs. isReg MO \<and> isDead MO \<and> getReg MO = v then UnusedReg else v) s"
    if "\<forall>MO \<in> set xs. isReg MO \<longrightarrow> getReg MO \<noteq> UnusedReg" for xs s
    using that by (induction xs arbitrary: s) (auto simp: comp_def)
  then show ?thesis using that by (simp add: filterByDeadDefs_def)
qed

text \<open>The argument lists read from an instruction are consistent about kills.\<close>

lemma MIArgs_of_kill_consistent:
  assumes "\<forall>opd \<in> set (uses D MI). isReg opd \<and> \<not> isUndef opd \<longrightarrow> getReg opd \<noteq> UnusedReg"
    and "a \<in> set (MIArgs_of D LIS MI i)" "b \<in> set (MIArgs_of D LIS MI i)" "Vreg a = Vreg b"
  shows "IsKilled a = IsKilled b"
  using assms by (auto simp: MIArgs_of_def split: if_splits)

end
