(* ===== verification/TVM_InstrGen.thy ===== *)
theory TVM_InstrGen
  imports TVM_Machine
begin

text \<open>
  StackFixup::InstructionGenerator: the machine instructions inserted for a fixup, with the comment
  on the last instruction of each change; and the printing of changes.
\<close>

section \<open>The model\<close>

definition imm :: "nat \<Rightarrow> MachineOperand" where
  "imm i = MO_Immediate (int i)"

definition const :: "nat \<Rightarrow> MachineInstr" where
  "const i = mk_instr CONST_U257_S [MO_CImmediate (int i)]"

fun double_opcode :: "nat \<Rightarrow> Opcode option" where
  "double_opcode code = (let Opcodes = [XCHG2, XCPU, PUXC, PUSH2]
     in if code < length Opcodes then Some (Opcodes ! code) else None)"

fun triple_opcode :: "nat \<Rightarrow> Opcode option" where
  "triple_opcode code =
     (let Opcodes = [XCHG3, XC2PU, XCPUXC, XCPU2, PUXC2, PUXCPU, PU2XC, PUSH3]
      in if code < length Opcodes then Some (Opcodes ! code) else None)"

text \<open>
  The visitor: the instructions of a change. A pushHidden has no case of its own and is taken as the
  pushI it derives from; an exchange beyond the deep limit leaves MI null, which the assert refuses.
\<close>

fun generate_change :: "Change \<Rightarrow> MachineInstr list option" where
  "generate_change (pop i) = Some [mk_instr POP [imm i]]"
| "generate_change (xchgTop i) =
     (if i \<le> XchgLimit then Some [mk_instr XCHG_TOP [imm i]]
      else if i \<le> XchgDeepLimit then Some [mk_instr XCHG_TOP_DEEP [imm i]]
      else None)"
| "generate_change (xchg i j) = Some [mk_instr XCHG [imm i, imm j]]"
| "generate_change (pushI i) =
     (if pushI_isImm i then Some [mk_instr PUSH [imm i]] else Some [const i, mk_instr PUSHX []])"
| "generate_change (pushHidden i r) =
     (if pushI_isImm i then Some [mk_instr PUSH [imm i]] else Some [const i, mk_instr PUSHX []])"
| "generate_change pushUndef = Some [mk_instr CONST_I257_S [MO_CImmediate 0]]"
| "generate_change (blkswap d t) = do {
     g \<leftarrow> blkswap_goodFor d t;
     if g then Some [mk_instr BLKSWAP [imm d, imm t]]
     else Some [const d, const t, mk_instr BLKSWX []] }"
| "generate_change (roll i) =
     (if roll_isImmRoll i
      then Some [mk_instr (if i > 0 then ROLL else ROLLREV) [imm (nat \<bar>i\<bar>)]]
      else Some [const (nat \<bar>i\<bar>), mk_instr (if i > 0 then ROLLX else ROLLREVX) []])"
| "generate_change (reverse d t) =
     (if reverse_isImm d t then Some [mk_instr REVERSE [imm d, imm t]]
      else Some [const d, const t, mk_instr REVX []])"
| "generate_change (blkdrop n) =
     (if blkdrop_isImm n then Some [mk_instr BLKDROP [imm n]]
      else Some [const n, mk_instr DROPX []])"
| "generate_change (doubleChange p0 p1 i j) = do {
     opc \<leftarrow> double_opcode (double_code p0 p1); Some [mk_instr opc [imm i, imm j]] }"
| "generate_change (tripleChange p0 p1 p2 i j k) = do {
     opc \<leftarrow> triple_opcode (triple_code p0 p1 p2); Some [mk_instr opc [imm i, imm j, imm k]] }"

definition generate_pair :: "Change \<times> Comment \<Rightarrow> MachineInstr list option" where
  "generate_pair pair = do {
     code \<leftarrow> generate_change (fst pair);
     check (code \<noteq> []);
     Some (butlast code @ [addStackModelComment (StackComment (snd pair)) (last code)]) }"

definition generate :: "StackFixup \<Rightarrow> MachineInstr list option" where
  "generate fx = map_option concat (mapM generate_pair fx)"

subsection \<open>Printing\<close>

definition digit :: "nat \<Rightarrow> char" where
  "digit d = (''0123456789'' ! d)"

fun show_nat :: "nat \<Rightarrow> string" where
  "show_nat n = (if n < 10 then [digit n] else show_nat (n div 10) @ [digit (n mod 10)])"

declare show_nat.simps [simp del]

text \<open>
  printElem; the index of a pushHidden is read from the derived struct's own field, which nothing
  sets, so its text is an argument.
\<close>

fun printElem :: "string \<Rightarrow> Change \<Rightarrow> string" where
  "printElem h (pop i) = ''pop s('' @ show_nat i @ '')''"
| "printElem h (xchgTop i) = ''xchg s('' @ show_nat i @ '')''"
| "printElem h (xchg i j) = ''xchg s('' @ show_nat i @ ''), s('' @ show_nat j @ '')''"
| "printElem h (pushI i) = ''push s('' @ show_nat i @ '')''"
| "printElem h (pushHidden i r) = ''push s('' @ h @ '')''"
| "printElem h pushUndef = ''zero''"
| "printElem h (blkswap d t) = ''blkswap '' @ show_nat d @ '', '' @ show_nat t"
| "printElem h (roll i) =
     (if i > 0 then ''roll '' @ show_nat (nat i) else ''rollrev '' @ show_nat (nat (- i)))"
| "printElem h (reverse d t) = ''reverse '' @ show_nat d @ '', '' @ show_nat t"
| "printElem h (blkdrop n) = ''blkdrop '' @ show_nat n"
| "printElem h (doubleChange p0 p1 i j) =
     ''double_'' @ codeName [p0, p1] @ '' '' @ show_nat i @ '', '' @ show_nat j"
| "printElem h (tripleChange p0 p1 p2 i j k) =
     ''triple_'' @ codeName [p0, p1, p2] @ '' '' @ show_nat i @ '', '' @ show_nat j @ '', '' @ show_nat k"

definition StackFixup_print :: "string \<Rightarrow> (StackVreg \<Rightarrow> string) \<Rightarrow> StackFixup \<Rightarrow> string" where
  "StackFixup_print h pr fx = concat (map (\<lambda>(c, m).
     printElem h c @ ''; '' @ (case m of None \<Rightarrow> '''' | Some s \<Rightarrow> Stack_print pr s) @ [CHR 0x0A]) fx)"

section \<open>Reading the code back\<close>

text \<open>
  The reference reading of stack code: every instruction, with the constants pushed for its
  computed form, is one change. It shares nothing with the generator.
\<close>

definition nat_opd :: "MachineOperand \<Rightarrow> nat option" where
  "nat_opd opd = (case opd of MO_Immediate i \<Rightarrow> if i \<ge> 0 then Some (nat i) else None
                  | MO_CImmediate i \<Rightarrow> if i \<ge> 0 then Some (nat i) else None | _ \<Rightarrow> None)"

fun op1 :: "(nat \<Rightarrow> Change) \<Rightarrow> nat list \<Rightarrow> Change option" where
  "op1 f [i] = Some (f i)" | "op1 f _ = None"

fun op2 :: "(nat \<Rightarrow> nat \<Rightarrow> Change) \<Rightarrow> nat list \<Rightarrow> Change option" where
  "op2 f [i, j] = Some (f i j)" | "op2 f _ = None"

fun op3 :: "(nat \<Rightarrow> nat \<Rightarrow> nat \<Rightarrow> Change) \<Rightarrow> nat list \<Rightarrow> Change option" where
  "op3 f [i, j, k] = Some (f i j k)" | "op3 f _ = None"

definition reading_table :: "(Opcode \<times> (nat list \<Rightarrow> Change option)) list" where
  "reading_table =
     [(POP, op1 pop), (XCHG_TOP, op1 xchgTop), (XCHG_TOP_DEEP, op1 xchgTop), (XCHG, op2 xchg),
      (PUSH, op1 pushI), (PUSHX, op1 pushI),
      (CONST_I257_S, \<lambda>ns. if ns = [0] then Some pushUndef else None),
      (BLKSWAP, op2 blkswap), (BLKSWX, op2 blkswap),
      (ROLL, op1 (\<lambda>i. roll (int i))), (ROLLX, op1 (\<lambda>i. roll (int i))),
      (ROLLREV, op1 (\<lambda>i. roll (- int i))), (ROLLREVX, op1 (\<lambda>i. roll (- int i))),
      (REVERSE, op2 reverse), (REVX, op2 reverse), (BLKDROP, op1 blkdrop), (DROPX, op1 blkdrop),
      (XCHG2, op2 xchg2), (XCPU, op2 xcpu), (PUXC, op2 puxc), (PUSH2, op2 push2),
      (XCHG3, op3 xchg3), (XC2PU, op3 xc2pu), (XCPUXC, op3 xcpuxc), (XCPU2, op3 xcpu2),
      (PUXC2, op3 puxc2), (PUXCPU, op3 puxcpu), (PU2XC, op3 pu2xc), (PUSH3, op3 push3)]"

definition read1 :: "Opcode \<Rightarrow> nat list \<Rightarrow> Change option" where
  "read1 opc ns = (case map_of reading_table opc of None \<Rightarrow> None | Some f \<Rightarrow> f ns)"

lemma read1_simps [simp]:
  "read1 POP [i] = Some (pop i)" "read1 XCHG_TOP [i] = Some (xchgTop i)"
  "read1 XCHG_TOP_DEEP [i] = Some (xchgTop i)" "read1 XCHG [i, j] = Some (xchg i j)"
  "read1 PUSH [i] = Some (pushI i)" "read1 PUSHX [i] = Some (pushI i)"
  "read1 CONST_I257_S [0] = Some pushUndef"
  "read1 BLKSWAP [i, j] = Some (blkswap i j)" "read1 BLKSWX [i, j] = Some (blkswap i j)"
  "read1 ROLL [i] = Some (roll (int i))" "read1 ROLLX [i] = Some (roll (int i))"
  "read1 ROLLREV [i] = Some (roll (- int i))" "read1 ROLLREVX [i] = Some (roll (- int i))"
  "read1 REVERSE [i, j] = Some (reverse i j)" "read1 REVX [i, j] = Some (reverse i j)"
  "read1 BLKDROP [i] = Some (blkdrop i)" "read1 DROPX [i] = Some (blkdrop i)"
  "read1 XCHG2 [i, j] = Some (xchg2 i j)" "read1 XCPU [i, j] = Some (xcpu i j)"
  "read1 PUXC [i, j] = Some (puxc i j)" "read1 PUSH2 [i, j] = Some (push2 i j)"
  "read1 XCHG3 [i, j, k] = Some (xchg3 i j k)" "read1 XC2PU [i, j, k] = Some (xc2pu i j k)"
  "read1 XCPUXC [i, j, k] = Some (xcpuxc i j k)" "read1 XCPU2 [i, j, k] = Some (xcpu2 i j k)"
  "read1 PUXC2 [i, j, k] = Some (puxc2 i j k)" "read1 PUXCPU [i, j, k] = Some (puxcpu i j k)"
  "read1 PU2XC [i, j, k] = Some (pu2xc i j k)" "read1 PUSH3 [i, j, k] = Some (push3 i j k)"
  by (simp_all add: read1_def reading_table_def)

text \<open>consts collects the constants waiting for a computed form.\<close>

fun read_code :: "nat list \<Rightarrow> MachineInstr list \<Rightarrow> Change list option" where
  "read_code consts [] = (if consts = [] then Some [] else None)"
| "read_code consts (MI # code) = do {
     ns \<leftarrow> mapM nat_opd (operands MI);
     if getOpcode MI = CONST_U257_S then read_code (consts @ ns) code
     else do {
       c \<leftarrow> read1 (getOpcode MI) (consts @ ns);
       cs \<leftarrow> read_code [] code;
       Some (c # cs) } }"

text \<open>A hidden push is read back as the push it is derived from.\<close>

fun unhide :: "Change \<Rightarrow> Change" where
  "unhide (pushHidden i r) = pushI i"
| "unhide c = c"

lemma nat_opd_imm [simp]: "nat_opd (imm i) = Some i" "nat_opd (MO_CImmediate (int i)) = Some i"
  "nat_opd (MO_CImmediate 0) = Some 0"
  by (simp_all add: nat_opd_def imm_def)

lemma instr_fields [simp]:
  "getOpcode (mk_instr opc ops) = opc" "operands (mk_instr opc ops) = ops"
  "getOpcode (addStackModelComment m MI) = getOpcode MI"
  "operands (addStackModelComment m MI) = operands MI"
  "getOpcode (const i) = CONST_U257_S" "operands (const i) = [MO_CImmediate (int i)]"
  by (simp_all add: mk_instr_def addStackModelComment_def const_def)

lemma generate_pair_reads:
  assumes "generate_pair (c, m) = Some code" "made c"
  shows "read_code [] (code @ rest) = map_option ((#) (unhide c)) (read_code [] rest)"
proof (cases c)
  case (doubleChange p0 p1 i j)
  then show ?thesis using assms
    by (cases p0; cases p1; cases "read_code [] rest")
       (auto simp: generate_pair_def double_code_def compound_defs)
next
  case (tripleChange p0 p1 p2 i j k)
  then show ?thesis using assms
    by (cases p0; cases p1; cases p2; cases "read_code [] rest")
       (auto simp: generate_pair_def triple_code_def compound_defs)
next
  case (roll i)
  then show ?thesis using assms
    by (cases "read_code [] rest") (auto simp: generate_pair_def nat_opd_def imm_def split: if_splits)
next
  case (blkswap d t)
  then show ?thesis using assms
    by (cases "read_code [] rest") (auto simp: generate_pair_def bind_eq_Some_conv split: if_splits)
qed (use assms in \<open>cases "read_code [] rest"; auto simp: generate_pair_def split: if_splits\<close>)+

lemma generate_Cons: "generate (p # fx) = do { c \<leftarrow> generate_pair p; cs \<leftarrow> generate fx; Some (c @ cs) }"
  by (cases "generate_pair p"; cases "mapM generate_pair fx") (auto simp: generate_def)

lemma generate_reads:
  assumes "generate fx = Some code" "\<forall>c \<in> set (changes fx). made c"
  shows "read_code [] code = Some (map unhide (changes fx))"
  using assms
proof (induction fx arbitrary: code)
  case Nil
  then show ?case by (simp add: generate_def changes_def)
next
  case (Cons p fx)
  obtain c m where p: "p = (c, m)" by (cases p)
  obtain code1 code2 where code: "generate_pair (c, m) = Some code1" "generate fx = Some code2"
      "code = code1 @ code2"
    using Cons.prems(1) p by (auto simp: generate_Cons bind_eq_Some_conv)
  have "made c" "\<forall>c \<in> set (changes fx). made c"
    using Cons.prems(2) p by (simp_all add: changes_def)
  then show ?case
    using Cons.IH [OF code(2)] generate_pair_reads [OF code(1)] code(3) p by (simp add: changes_def)
qed

lemma double_opcode_total: "\<exists>opc. double_opcode (double_code p0 p1) = Some opc"
  using double_code_less [of p0 p1] by (simp add: Let_def)

lemma triple_opcode_total: "\<exists>opc. triple_opcode (triple_code p0 p1 p2) = Some opc"
  using triple_code_less [of p0 p1 p2] by (simp add: Let_def)

lemma generate_change_total: "made c \<Longrightarrow> \<exists>code. generate_change c = Some code \<and> code \<noteq> []"
proof (cases c)
  case (doubleChange p0 p1 i j)
  then show ?thesis using double_opcode_total [of p0 p1] by (auto simp del: double_opcode.simps)
next
  case (tripleChange p0 p1 p2 i j k)
  then show ?thesis using triple_opcode_total [of p0 p1 p2] by (auto simp del: triple_opcode.simps)
qed (simp_all add: blkswap_goodFor_def)

lemma generate_total:
  "\<forall>c \<in> set (changes fx). made c \<Longrightarrow> \<exists>code. generate fx = Some code"
proof (induction fx)
  case (Cons p fx)
  obtain code where "generate_change (fst p) = Some code" "code \<noteq> []"
    using generate_change_total [of "fst p"] Cons.prems by (auto simp: changes_def)
  with Cons show ?case by (auto simp: generate_Cons generate_pair_def changes_def)
qed (simp add: generate_def)

text \<open>Every change has one instruction that is not a constant, and it carries the comment of the change.\<close>

definition shown :: "MachineInstr list \<Rightarrow> ModelComment list list" where
  "shown code = map comments (filter (\<lambda>MI. getOpcode MI \<noteq> CONST_U257_S) code)"

lemma generate_change_shape:
  assumes "generate_change c = Some code"
  shows "\<exists>cs MI. code = cs @ [MI] \<and> (\<forall>N \<in> set cs. getOpcode N = CONST_U257_S) \<and>
    getOpcode MI \<noteq> CONST_U257_S \<and> comments MI = []"
proof (cases c)
  case (doubleChange p0 p1 i j)
  then show ?thesis using assms by (cases p0; cases p1) (auto simp: double_code_def mk_instr_def)
next
  case (tripleChange p0 p1 p2 i j k)
  then show ?thesis using assms by (cases p0; cases p1; cases p2) (auto simp: triple_code_def mk_instr_def)
next
  case (blkswap d t)
  then show ?thesis using assms
    by (auto simp: bind_eq_Some_conv mk_instr_def split: if_splits intro: exI [of _ "[const d, const t]"])
next
  case (reverse d t)
  then show ?thesis using assms
    by (auto simp: mk_instr_def split: if_splits intro: exI [of _ "[const d, const t]"])
qed (use assms in \<open>auto simp: mk_instr_def split: if_splits\<close>)

lemma generate_shows:
  "generate fx = Some code \<Longrightarrow> shown code = map (\<lambda>p. [StackComment (snd p)]) fx"
proof (induction fx arbitrary: code)
  case Nil
  then show ?case by (simp add: generate_def shown_def)
next
  case (Cons p fx)
  obtain code1 code2 where code: "generate_pair p = Some code1" "generate fx = Some code2" "code = code1 @ code2"
    using Cons.prems by (auto simp: generate_Cons bind_eq_Some_conv)
  obtain c0 where c0: "generate_change (fst p) = Some c0"
      "code1 = butlast c0 @ [addStackModelComment (StackComment (snd p)) (last c0)]"
    using code(1) by (auto simp: generate_pair_def bind_eq_Some_conv split: if_splits)
  obtain cs MI where "c0 = cs @ [MI]" "\<forall>N \<in> set cs. getOpcode N = CONST_U257_S"
      "getOpcode MI \<noteq> CONST_U257_S" "comments MI = []"
    using generate_change_shape [OF c0(1)] by blast
  then have "shown code1 = [[StackComment (snd p)]]"
    using c0(2) by (simp add: shown_def addStackModelComment_def)
  then show ?case using Cons.IH [OF code(2)] code(3) by (simp add: shown_def)
qed

section \<open>Operand ranges\<close>

text \<open>
  The ranges of the operands of the instructions, by the limits of TVMStackFixup.h: a byte for POP, PUSH and
  XCHG_TOP_DEEP, four bits for the others, shifted by one or two where a size cannot be less. The
  computed forms have no operand, and the constants before them are not limited here.
\<close>

definition in_range :: "Opcode \<Rightarrow> nat list \<Rightarrow> bool" where
  "in_range opc ns =
     (if opc = POP then length ns = 1 \<and> ns ! 0 \<le> 255
      else if opc = PUSH then length ns = 1 \<and> ns ! 0 \<le> PushLimit
      else if opc = XCHG_TOP then length ns = 1 \<and> ns ! 0 \<le> XchgLimit
      else if opc = XCHG_TOP_DEEP then length ns = 1 \<and> XchgLimit < ns ! 0 \<and> ns ! 0 \<le> XchgDeepLimit
      else if opc = XCHG then length ns = 2 \<and> ns ! 0 \<le> ns ! 1 \<and> ns ! 1 \<le> XchgLimit
      else if opc = BLKSWAP
           then length ns = 2 \<and> (\<forall>n \<in> set ns. 1 \<le> n \<and> n \<le> BlkswapImmLimit + 1)
      else if opc = ROLL \<or> opc = ROLLREV
           then length ns = 1 \<and> 1 \<le> ns ! 0 \<and> ns ! 0 \<le> RollImmLimit + 1
      else if opc = REVERSE
           then length ns = 2 \<and> 2 \<le> ns ! 0 \<and> ns ! 0 \<le> ReverseImmLimit + 2 \<and> ns ! 1 \<le> ReverseImmLimit
      else if opc = BLKDROP then length ns = 1 \<and> 1 \<le> ns ! 0 \<and> ns ! 0 \<le> BlkdropImmLimit
      else if opc \<in> {XCHG2, XCPU, PUXC, PUSH2} then length ns = 2 \<and> (\<forall>n \<in> set ns. n \<le> XchgLimit)
      else if opc \<in> {XCHG3, XC2PU, XCPUXC, XCPU2, PUXC2, PUXCPU, PU2XC, PUSH3}
           then length ns = 3 \<and> (\<forall>n \<in> set ns. n \<le> XchgLimit)
      else if opc = CONST_I257_S then ns = [0]
      else if opc = CONST_U257_S then length ns = 1
      else opc \<in> {PUSHX, BLKSWX, ROLLX, ROLLREVX, REVX, DROPX} \<and> ns = [])"

definition operands_fit :: "MachineInstr \<Rightarrow> bool" where
  "operands_fit MI \<longleftrightarrow> (\<exists>ns. mapM nat_opd (operands MI) = Some ns \<and> in_range (getOpcode MI) ns)"

text \<open>
  The constructors do not limit the operands of pops and compound exchanges. A change can be encoded when its
  constructor accepts it and these operands are limited, too.
\<close>

fun encodable :: "Change \<Rightarrow> bool" where
  "encodable (pop i) \<longleftrightarrow> i \<le> 255"
| "encodable (blkdrop n) \<longleftrightarrow> 1 \<le> n"
| "encodable (doubleChange p0 p1 i j) \<longleftrightarrow> i \<le> XchgLimit \<and> j \<le> XchgLimit"
| "encodable (tripleChange p0 p1 p2 i j k) \<longleftrightarrow> i \<le> XchgLimit \<and> j \<le> XchgLimit \<and> k \<le> XchgLimit"
| "encodable c \<longleftrightarrow> made c"

lemma encodable_made: "encodable c \<Longrightarrow> made c"
  by (cases c) simp_all

text \<open>The sizes of block exchanges and reversals are unsigned 32-bit numbers, and their tests wrap.\<close>

fun sized :: "Change \<Rightarrow> bool" where
  "sized (blkswap d t) \<longleftrightarrow> d < 2 ^ 32 \<and> t < 2 ^ 32"
| "sized (reverse d t) \<longleftrightarrow> d < 2 ^ 32 \<and> t < 2 ^ 32"
| "sized c \<longleftrightarrow> True"

lemma usub_small: "usub a b \<le> k \<Longrightarrow> b \<le> 2 ^ 16 \<Longrightarrow> a < 2 ^ 32 \<Longrightarrow> k \<le> 2 ^ 16 \<Longrightarrow> b \<le> a \<and> a \<le> k + b"
proof -
  assume a: "usub a b \<le> k" "b \<le> 2 ^ 16" "a < 2 ^ 32" "k \<le> 2 ^ 16"
  have "b \<le> a"
  proof (rule ccontr)
    assume "\<not> b \<le> a"
    then have "usub a b = a + 2 ^ 32 - b" using a(2) by (simp add: usub_def)
    with a show False by simp
  qed
  then show ?thesis using a usub_le [of b a] by simp
qed

lemma generate_change_fits:
  assumes "generate_change c = Some code" "encodable c" "sized c" "MI \<in> set code"
  shows "operands_fit MI"
proof (cases c)
  case (doubleChange p0 p1 i j)
  with assms show ?thesis
    by (cases p0; cases p1) (auto simp: operands_fit_def in_range_def double_code_def)
next
  case (tripleChange p0 p1 p2 i j k)
  with assms show ?thesis
    by (cases p0; cases p1; cases p2) (auto simp: operands_fit_def in_range_def triple_code_def)
next
  case (blkswap d t)
  show ?thesis
  proof (cases "usub d 1 \<le> BlkswapImmLimit \<and> usub t 1 \<le> BlkswapImmLimit")
    case True
    then have "1 \<le> d \<and> d \<le> BlkswapImmLimit + 1" "1 \<le> t \<and> t \<le> BlkswapImmLimit + 1"
      using usub_small [of d 1 BlkswapImmLimit] usub_small [of t 1 BlkswapImmLimit] assms(3) blkswap
      by (simp_all add: limit_defs)
    moreover have "code = [mk_instr BLKSWAP [imm d, imm t]]"
      using True assms(1) blkswap by (auto simp: blkswap_goodFor_def bind_eq_Some_conv split: if_splits)
    ultimately show ?thesis using assms(4) by (simp add: operands_fit_def in_range_def)
  next
    case False
    then have "code = [const d, const t, mk_instr BLKSWX []]"
      using assms(1) blkswap by (auto simp: blkswap_goodFor_def bind_eq_Some_conv split: if_splits)
    then show ?thesis using assms(4) by (auto simp: operands_fit_def in_range_def)
  qed
next
  case (reverse d t)
  show ?thesis
  proof (cases "reverse_isImm d t")
    case True
    then have "d \<le> ReverseImmLimit + 2" "t \<le> ReverseImmLimit" "2 \<le> d"
      using usub_small [of d 2 ReverseImmLimit] assms(2,3) reverse
      by (simp_all add: limit_defs reverse_isImm_def)
    with True assms reverse show ?thesis by (auto simp: operands_fit_def in_range_def)
  next
    case False
    then have "code = [const d, const t, mk_instr REVX []]" using assms(1) reverse by simp
    then show ?thesis using assms(4) by (auto simp: operands_fit_def in_range_def)
  qed
next
  case (roll i)
  show ?thesis
  proof (cases "roll_isImmRoll i")
    case True
    with assms roll show ?thesis by (auto simp: operands_fit_def in_range_def roll_isImmRoll_def)
  next
    case False
    then have "code = [const (nat \<bar>i\<bar>), mk_instr (if i > 0 then ROLLX else ROLLREVX) []]" using assms(1) roll by simp
    then show ?thesis using assms(4) by (auto simp: operands_fit_def in_range_def const_def mk_instr_def nat_opd_def)
  qed
qed (use assms in \<open>auto simp: operands_fit_def in_range_def pushI_isImm_def blkdrop_isImm_def split: if_splits\<close>)

lemma generate_fits:
  assumes "generate fx = Some code" "\<forall>c \<in> set (changes fx). encodable c \<and> sized c" "MI \<in> set code"
  shows "operands_fit MI"
  using assms
proof (induction fx arbitrary: code)
  case Nil
  then show ?case by (simp add: generate_def)
next
  case (Cons p fx)
  obtain code1 code2 where code: "generate_pair p = Some code1" "generate fx = Some code2" "code = code1 @ code2"
    using Cons.prems by (auto simp: generate_Cons bind_eq_Some_conv)
  obtain c0 where c0: "generate_change (fst p) = Some c0" "c0 \<noteq> []"
      "code1 = butlast c0 @ [addStackModelComment (StackComment (snd p)) (last c0)]"
    using code(1) by (auto simp: generate_pair_def bind_eq_Some_conv split: if_splits)
  have fit: "encodable (fst p)" "sized (fst p)" "\<forall>c \<in> set (changes fx). encodable c \<and> sized c"
    using Cons.prems(2) by (simp_all add: changes_def)
  have one: "operands_fit N" if "N \<in> set c0" for N by (rule generate_change_fits [OF c0(1) fit(1,2) that])
  consider "MI \<in> set code2" | "MI \<in> set (butlast c0)" | "MI = addStackModelComment (StackComment (snd p)) (last c0)"
    using Cons.prems(3) unfolding code(3) c0(3) set_append by fastforce
  then show ?case
  proof cases
    case 1
    show ?thesis by (rule Cons.IH [OF code(2) fit(3) 1])
  next
    case 2
    then show ?thesis by (rule one [OF in_set_butlastD])
  next
    case 3
    then show ?thesis using one [of "last c0"] c0(2) by (simp add: operands_fit_def)
  qed
qed

end
