(* ===== verification/TVM_Encoding.thy ===== *)
theory TVM_Encoding
  imports TVM_InstrGen
begin

text \<open>
  The fixups that the stack model asks for hold only changes that fit: their pops are of the top, their compound
  exchanges are of slots within the reach of four bits, and the other operands have passed the asserts of the
  constructors. So the instructions generated for them can be encoded (TVM_InstrGen).
\<close>

section \<open>Recording a change\<close>

lemma bind_eq_SomeE: "x \<bind> f = Some y \<Longrightarrow> (\<And>z. x = Some z \<Longrightarrow> f z = Some y \<Longrightarrow> thesis) \<Longrightarrow> thesis"
  by (cases x) simp_all

definition all_fit :: "StackFixup \<Rightarrow> bool" where
  "all_fit fx \<longleftrightarrow> (\<forall>c \<in> set (changes fx). encodable c)"

lemma all_fit_simps [simp]:
  "all_fit []" "all_fit ((c, m) # fx) \<longleftrightarrow> encodable c \<and> all_fit fx" "all_fit (fx @ fy) \<longleftrightarrow> all_fit fx \<and> all_fit fy"
  by (auto simp: all_fit_def changes_def)

lemma all_fit_subset: "set ds \<subseteq> set cs \<Longrightarrow> \<forall>c \<in> set cs. encodable (fst c) \<Longrightarrow> \<forall>c \<in> set ds. encodable (fst c)"
  by blast

lemma emit_fits:
  "emit c (fx, cur) = Some (fx', cur') \<Longrightarrow> encodable c \<Longrightarrow> all_fit fx \<Longrightarrow> all_fit fx'"
  by (auto simp: emit_def add_change_def set_last_comment_def bind_eq_Some_conv Let_def split: if_splits)

lemma annotate_fits: "annotate fx s = Some fx' \<Longrightarrow> all_fit fx' \<longleftrightarrow> all_fit fx"
  by (induction fx s arbitrary: fx' rule: annotate.induct) (auto simp: bind_eq_Some_conv)

text \<open>Factories and constructors.\<close>

lemma mk_fits:
  "mk_xchgTop i = Some c \<Longrightarrow> encodable c" "mk_xchg i j = Some c \<Longrightarrow> encodable c" "mk_pushI i = Some c \<Longrightarrow> encodable c"
  "mk_pushHidden i r = Some c \<Longrightarrow> encodable c" "mk_blkswap d t = Some c \<Longrightarrow> encodable c" "mk_roll z = Some c \<Longrightarrow> encodable c"
  "mk_reverse d t = Some c \<Longrightarrow> encodable c" "mk_swap = Some c \<Longrightarrow> encodable c" "mk_rot = Some c \<Longrightarrow> encodable c"
  by (auto simp: mk_xchgTop_def mk_xchg_def xchg_unchecked_def mk_pushI_def mk_pushHidden_def mk_blkswap_def
      mk_roll_def mk_reverse_def limit_defs split: if_splits)

lemma make_fits:
  "makeRoll d = Some c \<Longrightarrow> encodable c" "makeRollRev d = Some c \<Longrightarrow> encodable c" "makeBlkSwap d t = Some c \<Longrightarrow> encodable c"
  "makeReverse n = Some c \<Longrightarrow> encodable c" "makeBlkdrop n = Some c \<Longrightarrow> encodable c"
proof -
  show roll: "encodable c" if "makeRoll d = Some c" for d
    using that mk_fits by (auto simp: makeRoll_def bind_eq_Some_conv split: if_splits)
  show rev: "encodable c" if "makeRollRev d = Some c" for d
    using that mk_fits by (auto simp: makeRollRev_def bind_eq_Some_conv split: if_splits)
  show "encodable c" if "makeBlkSwap d t = Some c"
    using that roll rev mk_fits by (auto simp: makeBlkSwap_def split: if_splits)
  show "encodable c" if "makeReverse n = Some c"
    using that mk_fits by (auto simp: makeReverse_def bind_eq_Some_conv split: if_splits)
  show "encodable c" if "makeBlkdrop n = Some c"
    using that by (auto simp: makeBlkdrop_def bind_eq_Some_conv split: if_splits)
qed

section \<open>Diff\<close>

lemma foldM_fits:
  assumes "foldM f xs st = Some st'" "all_fit (fst st)"
    and "\<And>x s s'. f x s = Some s' \<Longrightarrow> all_fit (fst s) \<Longrightarrow> all_fit (fst s')"
  shows "all_fit (fst st')"
  using assms(1,2)
proof (induction xs arbitrary: st)
  case (Cons x xs)
  then obtain s where s: "f x st = Some s" "foldM f xs s = Some st'" by (auto simp: bind_eq_Some_conv)
  show ?case by (rule Cons.IH [OF s(2) assms(3) [OF s(1) Cons.prems(2)]])
qed simp

lemma addElem_fits: "addElem v st = Some st' \<Longrightarrow> all_fit (fst st) \<Longrightarrow> all_fit (fst st')"
  by (cases st; cases st') (auto simp: addElem_def bind_eq_Some_conv split: if_splits dest!: mk_fits dest: emit_fits)

lemma deleteBlocks_loop_fits: "deleteBlocks_loop idx st = Some st' \<Longrightarrow> all_fit (fst st) \<Longrightarrow> all_fit (fst st')"
proof (induction idx st arbitrary: st' rule: deleteBlocks_loop.induct)
  case (1 idx st)
  show ?case
  proof (cases "extractBlock idx")
    case None
    then show ?thesis using "1.prems" by (simp add: deleteBlocks_loop.simps [of idx st])
  next
    case (Some p)
    obtain b l rest where p: "p = ((b, l), rest)" by (cases p) auto
    obtain st1 where st1: "(if b \<noteq> 0 then do { c \<leftarrow> makeBlkSwap (Suc l - b) b; emit c st } else Some st) = Some st1"
        "deleteBlocks_loop rest st1 = Some st'"
      using "1.prems"(1) Some p by (auto simp: deleteBlocks_loop.simps [of idx st] bind_eq_Some_conv Let_def)
    have "all_fit (fst st1)"
      using st1(1) "1.prems"(2)
      by (cases st; cases st1) (auto simp: bind_eq_Some_conv split: if_splits dest!: make_fits dest: emit_fits)
    moreover have "(if b \<noteq> 0 then do { c \<leftarrow> makeBlkSwap (1 + l - b) b; emit c st } else Some st) = Some st1"
      unfolding plus_1_eq_Suc by (rule st1(1))
    ultimately show ?thesis by (intro "1.IH" [OF Some p [symmetric] refl refl _ st1(2)])
  qed
qed

lemma Deleter_run_fits:
  assumes "Deleter_run del st = Some st'" "all_fit (fst st)"
  shows "all_fit (fst st')"
proof -
  obtain idx st1 where st1: "deleteBlocks_loop idx st = Some st1"
      "st' = st1 \<or> (\<exists>c. makeBlkdrop (length idx) = Some c \<and> emit c st1 = Some st')"
    using assms(1) by (cases st') (auto simp: Deleter_run_def deleteBlocks_def bind_eq_Some_conv split: if_splits)
  have "all_fit (fst st1)" by (rule deleteBlocks_loop_fits [OF st1(1) assms(2)])
  then show ?thesis using st1(2) by (cases st1; cases st') (auto dest!: make_fits dest: emit_fits)
qed

lemma vagon_step_fits:
  assumes "vagon_step V rest st = Some (rest', st')" "all_fit (fst st)"
  shows "all_fit (fst st')"
proof -
  let ?sz = "DeepIdx V + 1 - TopIdx V"
  obtain st1 where st1: "st1 = st \<or> (\<exists>c. makeBlkSwap ?sz (TopIdx V) = Some c \<and> emit c st = Some st1)"
      "st' = st1 \<or> (\<exists>c. makeReverse ?sz = Some c \<and> emit c st1 = Some st')"
    using assms(1) by (auto simp: vagon_step_def Let_def bind_eq_Some_conv split: if_splits)
  have "all_fit (fst st1)"
    using st1(1) assms(2) by (cases st; cases st1) (auto dest!: make_fits dest: emit_fits)
  then show ?thesis using st1(2) by (cases st1; cases st') (auto dest!: make_fits dest: emit_fits)
qed

lemma vagon_loop_fits: "vagon_loop Vs st = Some st' \<Longrightarrow> all_fit (fst st) \<Longrightarrow> all_fit (fst st')"
  by (induction Vs st arbitrary: st' rule: vagon_loop.induct) (auto split: option.splits dest: vagon_step_fits)

lemma optimize_subset: "set (optimize comm cs) \<subseteq> set cs"
proof -
  have loop: "set (optimizeEqualXchgs_loop cs it) \<subseteq> set cs" for it and cs :: "(Change \<times> 'a) list"
  proof (induction "2 * length cs - it" arbitrary: cs it rule: less_induct)
    case less
    show ?case
    proof (cases rule: optimizeEqualXchgs_loop_cases [of cs it])
      case (erase n a)
      have "2 * length (take n cs @ drop (Suc (Suc n)) cs) - n < 2 * length cs - it"
        using erase(1,2) by simp
      from less.hyps [OF this] have "set (optimizeEqualXchgs_loop cs it) \<subseteq> set (take n cs @ drop (Suc (Suc n)) cs)"
        unfolding erase(5) .
      then show ?thesis by (auto dest: in_set_takeD in_set_dropD)
    qed (use less in simp_all)
  qed
  then have "set (optimizeEqualXchgs cs) \<subseteq> set cs" by (simp add: optimizeEqualXchgs_def)
  moreover have "set (butlast xs) \<subseteq> set xs" for xs :: "(Change \<times> 'a) list" by (auto dest: in_set_butlastD)
  ultimately show ?thesis by (auto simp: optimize_def Let_def split: if_splits)
qed

lemma optimize_fits: "all_fit fx \<Longrightarrow> all_fit (optimize comm fx)"
  using optimize_subset [of comm fx] by (auto simp: all_fit_def changes_def)

lemma Diff_fits:
  assumes "Diff to from = Some fx"
  shows "all_fit fx"
proof -
  obtain unm del0 where unm: "fillUnusedRegs to (set_difference (used_regs from) (used_regs to)) = (unm, del0)"
    by fastforce
  define del where "del = del0 @ set_difference (set_difference (sort from) del0) (sort unm)"
  define rest where "rest = (\<lambda>(rv, cur). do { check (length unm = length cur); rv' \<leftarrow> generateVagonXchgs rv cur unm;
           Some (optimize False rv') })"
  have "(if del \<noteq> [] then Deleter_run del ([], from) else Some ([], from)) \<bind>
      (\<lambda>st. foldM addElem (set_difference (sort unm) (sort (snd st))) st \<bind> rest) = Some fx"
    using assms by (simp only: Diff_def Let_def unm prod.case del_def [symmetric] rest_def)
  then obtain st where st: "(if del \<noteq> [] then Deleter_run del ([], from) else Some ([], from)) = Some st"
      "foldM addElem (set_difference (sort unm) (sort (snd st))) st \<bind> rest = Some fx"
    by (rule bind_eq_SomeE)
  from st(2) obtain q where q: "foldM addElem (set_difference (sort unm) (sort (snd st))) st = Some q" "rest q = Some fx"
    by (rule bind_eq_SomeE)
  obtain rv cur where rv: "q = (rv, cur)" by (cases q)
  obtain rv' where rv': "generateVagonXchgs rv cur unm = Some rv'" "fx = optimize False rv'"
    using q(2) rv by (auto simp: rest_def bind_eq_Some_conv split: if_splits)
  have "all_fit (fst st)" using st(1) Deleter_run_fits [of del "([], from)" st] by (auto split: if_splits)
  from foldM_fits [OF q(1) this addElem_fits] have "all_fit rv" using rv by simp
  moreover obtain Vs cur' where "vagon_loop Vs (rv, cur) = Some (rv', cur')"
    using rv'(1) by (auto simp: generateVagonXchgs_def Let_def bind_eq_Some_conv split: if_splits)
  ultimately have "all_fit rv'" using vagon_loop_fits [of Vs "(rv, cur)" "(rv', cur')"] by simp
  then show ?thesis using rv'(2) optimize_fits by simp
qed

section \<open>The fixups before a return and for hidden elements\<close>

lemma exchange_slots_fits:
  assumes "exchange_slots i j st = Some st'" "all_fit (fst st)"
  shows "all_fit (fst st')"
proof (cases "i = j \<or> i = 0 \<or> j = 0 \<or> i \<le> XchgLimit \<and> j \<le> XchgLimit")
  case True
  then show ?thesis using assms
    by (cases st; cases st') (auto simp: exchange_slots_def bind_eq_Some_conv split: if_splits dest!: mk_fits dest: emit_fits)
next
  case False
  then obtain ci cj s1 s2 where s: "mk_xchgTop i = Some ci" "emit ci st = Some s1" "mk_xchgTop j = Some cj"
      "emit cj s1 = Some s2" "emit ci s2 = Some st'"
    using assms(1) by (auto simp: exchange_slots_def bind_eq_Some_conv split: if_splits)
  have keep: "all_fit (fst t')" if "emit c t = Some t'" "encodable c" "all_fit (fst t)" for c t t'
    using that by (cases t; cases t') (auto dest: emit_fits)
  show ?thesis by (rule keep [OF s(5) mk_fits(1) [OF s(1)] keep [OF s(4) mk_fits(1) [OF s(3)]
    keep [OF s(2) mk_fits(1) [OF s(1)] assms(2)]]])
qed

lemma drop_pops_fits: "drop_pops n st = Some st' \<Longrightarrow> all_fit (fst st) \<Longrightarrow> all_fit (fst st')"
  by (cases st; cases st') (auto simp: drop_pops_def bind_eq_Some_conv split: if_splits dest!: make_fits dest: emit_fits)

lemma DiffForReturn_fits:
  assumes "DiffForReturn from Preserved = Some fx"
  shows "all_fit fx"
proof -
  define start where "start = (\<lambda>st. st = ([], from) \<or> (\<exists>i j st1. exchange_slots i j st1 = Some st \<and>
      (st1 = ([], from) \<or> emit pushUndef ([], from) = Some st1)))"
  have "\<exists>st n rv cur. start st \<and> drop_pops n st = Some (rv, cur) \<and> annotate (optimize False rv) from = Some fx"
  proof (cases Preserved)
    case None
    then obtain rv cur where "drop_pops (length from) ([], from) = Some (rv, cur)" "annotate (optimize False rv) from = Some fx"
      using assms by (auto simp: DiffForReturn_def Let_def bind_eq_Some_conv)
    then show ?thesis unfolding start_def by blast
  next
    case (Some r)
    then obtain st1 i j st rv cur where "st1 = ([], from) \<or> emit pushUndef ([], from) = Some st1"
        "exchange_slots i j st1 = Some st" "drop_pops (length from - 1) st = Some (rv, cur)"
        "annotate (optimize False rv) from = Some fx"
      using assms by (cases "r = UnusedReg"; cases "from = []")
        (auto simp: DiffForReturn_def Let_def bind_eq_Some_conv split: if_splits, blast+)
    then show ?thesis unfolding start_def by blast
  qed
  then obtain st n rv cur where st: "drop_pops n st = Some (rv, cur)" "annotate (optimize False rv) from = Some fx"
    and start: "start st" by blast
  have "all_fit (fst st1)" if "emit pushUndef ([], from) = Some st1" for st1
    using that by (cases st1) (auto dest: emit_fits)
  with start have "all_fit (fst st)" unfolding start_def by (auto intro: exchange_slots_fits)
  then show ?thesis using drop_pops_fits [OF st(1)] optimize_fits annotate_fits [OF st(2)] by simp
qed

lemma DiffForHiddenStack_fits: "DiffForHiddenStack Src e r = Some fx \<Longrightarrow> all_fit fx"
  by (auto simp: DiffForHiddenStack_def bind_eq_Some_conv dest!: mk_fits dest: emit_fits)

section \<open>DiffForArgs\<close>

text \<open>The exchange tables, for arguments in reach.\<close>

definition list_fits :: "Change list option \<Rightarrow> bool" where
  "list_fits r \<longleftrightarrow> (\<forall>cs. r = Some cs \<longrightarrow> (\<forall>c \<in> set cs. encodable c))"

lemma list_fitsI: "(\<And>cs c. r = Some cs \<Longrightarrow> c \<in> set cs \<Longrightarrow> encodable c) \<Longrightarrow> list_fits r"
  by (simp add: list_fits_def)

lemma list_fitsD: "list_fits r \<Longrightarrow> r = Some cs \<Longrightarrow> c \<in> set cs \<Longrightarrow> encodable c"
  by (simp add: list_fits_def)

lemma list_fits_Some [simp]: "list_fits (Some cs) \<longleftrightarrow> (\<forall>c \<in> set cs. encodable c)"
  and list_fits_None [simp]: "list_fits None"
  by (simp_all add: list_fits_def)

lemma list_fits_bind: "(\<And>c. r = Some c \<Longrightarrow> list_fits (f c)) \<Longrightarrow> list_fits (r \<bind> f)"
  by (cases r) simp_all

lemma list_fits_append: "list_fits r \<Longrightarrow> encodable c \<Longrightarrow> list_fits (r \<bind> (\<lambda>cs. Some (cs @ [c])))"
  by (cases r) auto

lemma correct_le: "d \<le> n \<Longrightarrow> t \<le> n \<Longrightarrow> i \<le> n \<Longrightarrow> correct d t i \<le> n"
  by (simp add: correct_def)

lemmas pattern_fits_simps = compound_defs Let_def correct_le mk_fits make_fits

lemma pattern2_fits:
  assumes "i \<le> XchgLimit" "j \<le> XchgLimit"
  shows "list_fits (pattern2_pp i j)" "list_fits (pattern2_xp i j)" "list_fits (pattern2_px i j)" "list_fits (pattern2_xx i j)"
  using assms
  by (auto simp: pattern2_pp_def pattern2_xp_def pattern2_px_def pattern2_xx_def pattern_x_def compound_defs
      correct_le limit_defs intro!: list_fits_bind dest!: mk_fits)

lemma pattern3_fits:
  assumes "i \<le> XchgLimit" "j \<le> XchgLimit" "k \<le> XchgLimit"
  shows "list_fits (pattern3 p0 p1 p2 i j k)"
proof -
  note two = pattern2_fits
  have c: "correct a 1 b \<le> XchgLimit" "correct a 2 b \<le> XchgLimit" "correct a 0 b \<le> XchgLimit"
    if "a \<le> XchgLimit" "b \<le> XchgLimit" for a b
    using that by (simp_all add: correct_le XchgLimit_def)
  have c2: "correct (correct i 2 j) 1 (correct i 2 k) \<le> XchgLimit" "correct (correct i 1 j) 0 (correct i 1 k) \<le> XchgLimit"
    using assms c by simp_all
  have xxx: "list_fits (pattern3_xxx i j k)"
    using assms two(4) [of j k] c c2
    by (auto simp: pattern3_xxx_def xchg3_def Let_def XchgDeepLimit_def intro!: list_fits_bind dest!: mk_fits)
  have xxp: "list_fits (pattern3_xxp i j k)"
    using assms two(2) [of j k] c c2
    by (auto simp: pattern3_xxp_def xc2pu_def Let_def XchgDeepLimit_def intro!: list_fits_bind dest!: mk_fits)
  have xpx: "list_fits (pattern3_xpx i j k)"
    using assms two(3) [of j k] c
    by (auto simp: pattern3_xpx_def xcpuxc_def Let_def XchgDeepLimit_def intro!: list_fits_bind dest!: mk_fits)
  have xpp: "list_fits (pattern3_xpp a b d)" if "a \<le> XchgLimit" "b \<le> XchgLimit" "d \<le> XchgLimit" for a b d
    using that two(1) [of b d] c by (auto simp: pattern3_xpp_def xcpu2_def)
  have pxx: "list_fits (pattern3_pxx i j k)"
    using assms
    by (auto simp: pattern3_pxx_def impl_pxx_def compound_defs XchgDeepLimit_def intro!: list_fits_bind dest!: mk_fits)
  have pxp: "list_fits (pattern3_pxp i j k)"
    using assms two(1) [of i k]
    by (auto simp: pattern3_pxp_def impl_pxp_def compound_defs pattern2_pp_def intro!: list_fits_bind dest!: mk_fits)
  have ppx: "list_fits (pattern3_ppx i j k)"
    using assms two(1) [of i j] list_fits_append [OF xpp, of k i k "roll 2"]
    by (auto simp: pattern3_ppx_def pu2xc_def pattern2_pp_def push2_def)
  show ?thesis
    using xxx xxp xpx xpp [OF assms] pxx pxp ppx assms
    by (simp add: pattern3_def pattern3_ppp_def push3_def)
qed

lemma collect_in_reach:
  "foldM (collect_step args s) [0..<m] ([], 0, False) = Some (infos, off, cant) \<Longrightarrow>
   length infos = m \<and> (\<not> cant \<longrightarrow> (\<forall>i < m. SrcPos (infos ! i) \<le> XchgLimit))"
proof (induction m arbitrary: infos off cant)
  case (Suc m)
  obtain infos1 off1 cant1 a where "foldM (collect_step args s) [0..<m] ([], 0, False) = Some (infos1, off1, cant1)"
      "infos = infos1 @ [a]" "cant \<longleftrightarrow> cant1 \<or> off1 + SrcPos a > XchgLimit \<or> Vreg (args ! m) = UnusedReg"
  proof -
    from Suc.prems have "foldM (collect_step args s) [0..<m] ([], 0, False) \<bind> collect_step args s m = Some (infos, off, cant)"
      by (cases "foldM (collect_step args s) [0..<m] ([], 0, False)") (auto simp: foldM_append bind_eq_Some_conv)
    then obtain t where t: "foldM (collect_step args s) [0..<m] ([], 0, False) = Some t"
        "collect_step args s m t = Some (infos, off, cant)"
      by (rule bind_eq_SomeE)
    obtain infos1 off1 cant1 where t1: "t = (infos1, off1, cant1)" by (cases t)
    from t(2) obtain a where "infos = infos1 @ [a]"
        "cant \<longleftrightarrow> cant1 \<or> off1 + SrcPos a > XchgLimit \<or> Vreg (args ! m) = UnusedReg"
      unfolding t1 by (auto simp: collect_step_def bind_eq_Some_conv)
    with t(1) show thesis unfolding t1 by (rule that)
  qed
  with Suc.IH show ?case by (auto simp: nth_append less_Suc_eq)
qed simp

lemma place_arg_fits:
  assumes "place_arg p st = Some st'" "all_fit (fst (snd st))"
  shows "all_fit (fst (snd st'))"
proof -
  obtain arg info where p: "p = (arg, info)" by (cases p)
  obtain off fx cur where st: "st = (off, fx, cur)" by (cases st)
  obtain off' fx' cur' where st': "st' = (off', fx', cur')" by (cases st')
  show ?thesis using assms unfolding p st st'
    by (auto simp: place_arg_def bind_eq_Some_conv split: if_splits dest!: mk_fits make_fits dest: emit_fits)
qed

lemma place_args_fits:
  assumes "place_args args infos st = Some (off, st')" "all_fit (fst st)"
  shows "all_fit (fst st')"
proof -
  have "all_fit (fst (snd t))" if "foldM place_arg ps s = Some t" "all_fit (fst (snd s))" for ps s t
    using that by (induction ps arbitrary: s) (auto simp: bind_eq_Some_conv dest!: place_arg_fits)
  from this [of "zip args infos" "(0, st)" "(off, st')"] assms show ?thesis by (simp add: place_args_def)
qed

lemma all_fit_add_changes [simp]: "all_fit (add_changes cs fx) \<longleftrightarrow> all_fit fx \<and> (\<forall>c \<in> set cs. encodable c)"
  by (auto simp: add_changes_def all_fit_def changes_def image_Un)

lemma select_changes_fits:
  assumes "select_changes args infos cant st = Some rv" "all_fit (fst st)"
    and "\<not> cant \<longrightarrow> (\<forall>i < length args. SrcPos (infos ! i) \<le> XchgLimit)"
  shows "all_fit rv"
proof -
  obtain fx cur where st: "st = (fx, cur)" by (cases st)
  consider "length args = 1 \<and> \<not> cant" | "length args = 2 \<and> \<not> cant" | "length args = 3 \<and> \<not> cant"
    | "\<not> (length args = 1 \<and> \<not> cant)" "\<not> (length args = 2 \<and> \<not> cant)" "\<not> (length args = 3 \<and> \<not> cant)" by blast
  then show ?thesis
  proof cases
    case 1
    then show ?thesis using assms(1,2) unfolding st
      by (auto simp: select_changes_def bind_eq_Some_conv split: if_splits dest!: mk_fits dest: emit_fits)
  next
    case 2
    then obtain cs where cs: "pattern2 (Push (infos ! 0)) (Push (infos ! 1)) (SrcPos (infos ! 0)) (SrcPos (infos ! 1)) = Some cs"
        "rv = add_changes cs fx"
      using assms(1) unfolding st by (auto simp: select_changes_def bind_eq_Some_conv split: if_splits)
    have "list_fits (pattern2 (Push (infos ! 0)) (Push (infos ! 1)) (SrcPos (infos ! 0)) (SrcPos (infos ! 1)))"
      using assms(3) 2 pattern2_fits by (auto simp: pattern2_def)
    then show ?thesis using cs assms(2) st by simp
  next
    case 3
    then obtain cs where cs: "pattern3 (Push (infos ! 0)) (Push (infos ! 1)) (Push (infos ! 2)) (SrcPos (infos ! 0))
          (SrcPos (infos ! 1)) (SrcPos (infos ! 2)) = Some cs" "rv = add_changes cs fx"
      using assms(1) unfolding st by (auto simp: select_changes_def bind_eq_Some_conv split: if_splits)
    have "list_fits (pattern3 (Push (infos ! 0)) (Push (infos ! 1)) (Push (infos ! 2)) (SrcPos (infos ! 0))
          (SrcPos (infos ! 1)) (SrcPos (infos ! 2)))"
      using assms(3) 3 by (intro pattern3_fits) auto
    then show ?thesis using cs assms(2) st by simp
  next
    case 4
    then obtain off cur' where "place_args args infos st = Some (off, rv, cur')"
      using assms(1) by (auto simp: select_changes_def)
    from place_args_fits [OF this assms(2)] show ?thesis by simp
  qed
qed

lemma DiffForArgs_fits:
  assumes "DiffForArgs From args comm = Some fx"
  shows "all_fit fx"
proof (cases "args = []")
  case False
  obtain st where st: "drop_pops (top_unused From) ([], From) = Some st"
    using assms False by (auto simp: DiffForArgs_def bind_eq_Some_conv)
  then have fit: "all_fit (fst st)" by (rule drop_pops_fits) simp
  obtain infos off cant where col: "collect_args args (snd st) = Some (infos, off, cant)"
    using assms False st by (auto simp: DiffForArgs_def bind_eq_Some_conv)
  have reach: "\<not> cant \<longrightarrow> (\<forall>i < length args. SrcPos (infos ! i) \<le> XchgLimit)"
    using collect_in_reach [OF col [unfolded collect_args_def]] by simp
  show ?thesis
  proof (cases "already_good infos")
    case True
    then have "annotate (fst st) From = Some fx" using assms False st col by (simp add: DiffForArgs_def)
    then show ?thesis using annotate_fits fit by blast
  next
    case no: False
    then obtain rv where rv: "select_changes args infos cant st = Some rv" "annotate (optimize comm rv) From = Some fx"
      using assms False st col by (auto simp: DiffForArgs_def bind_eq_Some_conv)
    show ?thesis using annotate_fits [OF rv(2)] optimize_fits [OF select_changes_fits [OF rv(1) fit reach]] by simp
  qed
qed (use assms in \<open>simp add: DiffForArgs_def\<close>)

end
