(* ===== verification/TVM_Branch.thy ===== *)
theory TVM_Branch
  imports TVM_Machine
begin

text \<open>
  Branches in register form: the hooks of TVMInstrInfo that LLVM's branch folding and if-conversion
  call (analyzeBranch, removeBranch, insertBranch, reverseBranchCondition, PredicateInstruction and
  the smaller ones), against a semantics of the four jumps.
\<close>

section \<open>Functions\<close>

text \<open>A function: its blocks, their successors, the layout, and the next virtual register.\<close>

record MachineFn =
  insts :: "nat \<Rightarrow> MachineInstr list"
  succs :: "nat \<Rightarrow> nat list"
  blockIds :: "nat list"
  nextVReg :: nat

definition set_code :: "nat \<Rightarrow> MachineInstr list \<Rightarrow> MachineFn \<Rightarrow> MachineFn" where
  "set_code b B F = F \<lparr> insts := (insts F)(b := B) \<rparr>"

definition sets_reg :: "MCInstrInfo \<Rightarrow> nat \<Rightarrow> MachineInstr \<Rightarrow> bool" where
  "sets_reg D Reg MI \<longleftrightarrow> (\<exists>opd \<in> set (defs D MI). isReg opd \<and> getReg opd = Reg)"

definition def_instrs :: "MCInstrInfo \<Rightarrow> MachineFn \<Rightarrow> nat \<Rightarrow> MachineInstr list" where
  "def_instrs D F Reg = filter (sets_reg D Reg) (concat (map (insts F) (blockIds F)))"

text \<open>The definition of a register: None inside is the null pointer, two definitions are refused.\<close>

definition getVRegDef :: "MCInstrInfo \<Rightarrow> MachineFn \<Rightarrow> nat \<Rightarrow> MachineInstr option option" where
  "getVRegDef D F Reg =
     (case def_instrs D F Reg of [] \<Rightarrow> Some None | [MI] \<Rightarrow> Some (Some MI) | _ \<Rightarrow> None)"

definition last_real :: "MachineInstr list \<Rightarrow> MachineInstr option" where
  "last_real B = (case dropWhile isDebugInstr (rev B) of [] \<Rightarrow> None | I # _ \<Rightarrow> Some I)"

text \<open>
  getFirstTerminator: back over terminators and debug instructions, then forward to a terminator.
  The result is its index, None the end of the block.
\<close>

definition getFirstTerminator :: "MCInstrInfo \<Rightarrow> MachineInstr list \<Rightarrow> nat option" where
  "getFirstTerminator D B =
     (let tail = takeWhile (\<lambda>I. descTerminator D (getOpcode I) \<or> isDebugInstr I) (rev B);
          start = length B - length tail
      in map_option (\<lambda>k. start + k)
           (find_index True (map (\<lambda>I. descTerminator D (getOpcode I)) (drop start B))))"

definition createVirtualRegister :: "MachineFn \<Rightarrow> nat \<times> MachineFn" where
  "createVirtualRegister F = (nextVReg F, F \<lparr> nextVReg := nextVReg F + 1 \<rparr>)"

section \<open>Simple hooks\<close>

text \<open>Kill flags are not part of an operand here, so copyPhysReg has no use for KillSrc.\<close>

definition getInstSizeInBytes :: "(string \<Rightarrow> nat) \<Rightarrow> MachineInstr \<Rightarrow> nat option" where
  "getInstSizeInBytes asmLength MI =
     (if getOpcode MI \<in> {CFI_INSTRUCTION, EH_LABEL, IMPLICIT_DEF, KILL, DBG_VALUE} then Some 0
      else if getOpcode MI = INLINEASM
      then (case getOperand MI 0 of
              Some (MO_ExternalSymbol s off) \<Rightarrow> Some (asmLength s) | _ \<Rightarrow> None)
      else Some 8)"

definition copyPhysReg :: "nat \<Rightarrow> nat \<Rightarrow> MachineInstr" where
  "copyPhysReg DestReg SrcReg =
     mk_instr REG_TO_REG_COPY [MO_Register DestReg False False, MO_Register SrcReg False False]"

definition isPredicated :: "MachineInstr \<Rightarrow> bool" where
  "isPredicated MI \<longleftrightarrow> getOpcode MI = THROWIF \<or> getOpcode MI = THROWIFNOT"

text \<open>The instruction becomes the second component when the first says so.\<close>

definition PredicateInstruction ::
  "(MachineInstr \<Rightarrow> bool) \<Rightarrow> MachineInstr \<Rightarrow> MachineOperand list \<Rightarrow> (bool \<times> MachineInstr) option" where
  "PredicateInstruction isPredicable MI Pred =
     (if getOpcode MI \<noteq> THROW \<or> length Pred \<noteq> 2 then Some (False, MI)
      else do {
        check (isPredicable MI);
        i \<leftarrow> getImm (Pred ! 0);
        check (isReg (Pred ! 1));
        ErrCode \<leftarrow> getOperand MI 0;
        Some (True, MI \<lparr> getOpcode := (if i \<noteq> 0 then THROWIFNOT else THROWIF),
                         operands := tl (operands MI) @ [Pred ! 1, ErrCode] \<rparr>) })"

definition SubsumesPredicate :: "MachineOperand list \<Rightarrow> MachineOperand list \<Rightarrow> bool option" where
  "SubsumesPredicate Pred1 Pred2 = do {
     check (length Pred1 = 2); check (length Pred2 = 2);
     i \<leftarrow> getImm (Pred1 ! 0); j \<leftarrow> getImm (Pred2 ! 0);
     if i \<noteq> j then Some False
     else do {
       check (isReg (Pred1 ! 1)); check (isReg (Pred2 ! 1));
       Some (getReg (Pred1 ! 1) = getReg (Pred2 ! 1)) } }"

definition getCondOpcode :: "Opcode \<Rightarrow> bool \<Rightarrow> Opcode option" where
  "getCondOpcode Opc IfTrue =
     (if Opc = THROW then Some (if IfTrue then THROWIF else THROWIFNOT) else None)"

definition reverseBranchCondition :: "MachineOperand list \<Rightarrow> MachineOperand list option" where
  "reverseBranchCondition Cond = do {
     check (length Cond = 2);
     i \<leftarrow> getImm (Cond ! 0);
     Some (Cond[0 := MO_Immediate (if i = 0 then 1 else 0)]) }"

definition canFallthrough :: "MachineFn \<Rightarrow> nat \<Rightarrow> bool" where
  "canFallthrough F To = (count_list (concat (map (succs F) (blockIds F))) To = 1)"

section \<open>Analysis\<close>

definition reg_operand :: "MachineInstr \<Rightarrow> nat \<Rightarrow> nat option" where
  "reg_operand MI i = do { opd \<leftarrow> getOperand MI i; check (isReg opd); Some (getReg opd) }"

text \<open>The PUSHCONT_MBB that defines a register, and its block.\<close>

definition push_of :: "MCInstrInfo \<Rightarrow> MachineFn \<Rightarrow> nat \<Rightarrow> MachineInstr option option" where
  "push_of D F Reg = do {
     PushMI \<leftarrow> getVRegDef D F Reg;
     case PushMI of
       None \<Rightarrow> Some None
     | Some MI \<Rightarrow> do { check (getOpcode MI = PUSHCONT_MBB); Some (Some MI) } }"

definition block_of :: "MachineInstr \<Rightarrow> nat option" where
  "block_of MI = do { opd \<leftarrow> getOperand MI 1; getMBB opd }"

text \<open>The result flag (True: not analyzable), TBB, FBB and Cond.\<close>

type_synonym Analysis = "bool \<times> nat option \<times> nat option \<times> MachineOperand list"

definition analyze_ifelse :: "MCInstrInfo \<Rightarrow> MachineFn \<Rightarrow> nat \<Rightarrow> MachineInstr \<Rightarrow> Analysis option" where
  "analyze_ifelse D F MBB I = do {
     c \<leftarrow> getOperand I 0;
     let Cond = [MO_Immediate 0, c];
     TrueReg \<leftarrow> reg_operand I 1; FalseReg \<leftarrow> reg_operand I 2;
     TruePushMI \<leftarrow> push_of D F TrueReg;
     case TruePushMI of
       None \<Rightarrow> Some (True, None, None, Cond)
     | Some TP \<Rightarrow> do {
         FalsePushMI \<leftarrow> push_of D F FalseReg;
         case FalsePushMI of
           None \<Rightarrow> Some (True, None, None, Cond)
         | Some FP \<Rightarrow> do {
             TBB \<leftarrow> block_of TP; FBB \<leftarrow> block_of FP;
             if FBB = MBB then Some (False, Some FBB, Some TBB, [MO_Immediate 1, c])
             else Some (False, Some TBB, Some FBB, Cond) } } }"

definition analyzeBranch :: "MCInstrInfo \<Rightarrow> MachineFn \<Rightarrow> nat \<Rightarrow> Analysis option" where
  "analyzeBranch D F MBB =
     (case last_real (insts F MBB) of
        None \<Rightarrow> Some (False, None, None, [])
      | Some I \<Rightarrow>
          if \<not> descTerminator D (getOpcode I) then Some (False, None, None, [])
          else if getOpcode I = JMPX
          then do {
            ContReg \<leftarrow> reg_operand I 0;
            PushMI \<leftarrow> push_of D F ContReg;
            case PushMI of
              None \<Rightarrow> Some (True, None, None, [])
            | Some P \<Rightarrow> do { TBB \<leftarrow> block_of P; Some (False, Some TBB, None, []) } }
          else if getOpcode I = IFELSE then analyze_ifelse D F MBB I
          else if getOpcode I = IFJMP \<or> getOpcode I = IFNOTJMP
          then do {
            c \<leftarrow> getOperand I 0;
            let Cond = [MO_Immediate (if getOpcode I = IFNOTJMP then 1 else 0), c];
            TrueReg \<leftarrow> reg_operand I 1;
            TruePushMI \<leftarrow> push_of D F TrueReg;
            case TruePushMI of
              None \<Rightarrow> Some (True, None, None, Cond)
            | Some P \<Rightarrow> do { TBB \<leftarrow> block_of P; Some (False, Some TBB, None, Cond) } }
          else Some (True, None, None, []))"

section \<open>Removal and insertion\<close>

definition is_jump :: "MachineInstr \<Rightarrow> bool" where
  "is_jump I \<longleftrightarrow> getOpcode I \<in> {JMPX, IFELSE, IFJMP, IFNOTJMP}"

text \<open>The block without its last instruction that is not a debug instruction.\<close>

definition erase_last_real :: "MachineInstr list \<Rightarrow> MachineInstr list" where
  "erase_last_real B =
     (let dbg = takeWhile isDebugInstr (rev B); real = dropWhile isDebugInstr (rev B)
      in rev (tl real) @ rev dbg)"

text \<open>The number of removed instructions, the removed bytes where they are set, the function.\<close>

definition removeBranch :: "MachineFn \<Rightarrow> nat \<Rightarrow> nat \<times> nat option \<times> MachineFn" where
  "removeBranch F MBB =
     (case last_real (insts F MBB) of
        None \<Rightarrow> (0, None, F)
      | Some I \<Rightarrow> if \<not> is_jump I then (0, None, F)
                  else (1, Some 8, set_code MBB (erase_last_real (insts F MBB)) F))"

definition reg :: "nat \<Rightarrow> MachineOperand" where
  "reg r = MO_Register r False False"

definition pushcont :: "nat \<Rightarrow> nat \<Rightarrow> MachineInstr" where
  "pushcont r b = mk_instr PUSHCONT_MBB [reg r, MO_MachineBasicBlock b, MO_Immediate 0]"

definition append_instr :: "nat \<Rightarrow> MachineInstr \<Rightarrow> MachineFn \<Rightarrow> MachineFn" where
  "append_instr MBB MI F = set_code MBB (insts F MBB @ [MI]) F"

definition add_cont :: "nat \<Rightarrow> nat \<Rightarrow> MachineFn \<Rightarrow> nat \<times> MachineFn" where
  "add_cont MBB Target F =
     (let (r, F1) = createVirtualRegister F in (r, append_instr MBB (pushcont r Target) F1))"

text \<open>The number of inserted instructions, the added bytes and the function.\<close>

definition insertBranch ::
  "MCInstrInfo \<Rightarrow> MachineFn \<Rightarrow> nat \<Rightarrow> nat option \<Rightarrow> nat option \<Rightarrow> MachineOperand list \<Rightarrow>
   (nat \<times> nat \<times> MachineFn) option" where
  "insertBranch D F MBB TBB FBB Cond =
     (case (TBB, FBB) of
        (None, _) \<Rightarrow> None
      | (Some T, Some Fb) \<Rightarrow> do {
          check (length Cond = 2);
          check (getFirstTerminator D (insts F MBB) = None);
          Inverted \<leftarrow> getImm (Cond ! 0);
          let (TrueReg, F1) = add_cont MBB T F;
          let (FalseReg, F2) = add_cont MBB Fb F1;
          let (t, f) = (if Inverted \<noteq> 0 then (FalseReg, TrueReg) else (TrueReg, FalseReg));
          Some (3, 8 * 3, append_instr MBB (mk_instr IFELSE [Cond ! 1, reg t, reg f]) F2) }
      | (Some T, None) \<Rightarrow>
          if Cond = []
          then (case getFirstTerminator D (insts F MBB) of
                  Some i \<Rightarrow> do {
                    let IfJmp = insts F MBB ! i;
                    check (getOpcode IfJmp = IFJMP \<or> getOpcode IfJmp = IFNOTJMP);
                    c \<leftarrow> getOperand IfJmp 0;
                    TrueReg \<leftarrow> reg_operand IfJmp 1;
                    let B = take i (insts F MBB) @ drop (i + 1) (insts F MBB);
                    let (FalseReg, F1) = add_cont MBB T (set_code MBB B F);
                    let (t, f) = (if getOpcode IfJmp = IFNOTJMP then (FalseReg, TrueReg)
                                  else (TrueReg, FalseReg));
                    Some (1, 8, append_instr MBB (mk_instr IFELSE [c, reg t, reg f]) F1) }
                | None \<Rightarrow>
                    (let (TrueReg, F1) = add_cont MBB T F
                     in Some (2, 8 * 2, append_instr MBB (mk_instr JMPX [reg TrueReg]) F1)))
          else do {
            check (length Cond = 2);
            check (getFirstTerminator D (insts F MBB) = None);
            Inverted \<leftarrow> getImm (Cond ! 0);
            let (TrueReg, F1) = add_cont MBB T F;
            Some (2, 8 * 2, append_instr MBB
              (mk_instr (if Inverted \<noteq> 0 then IFNOTJMP else IFJMP) [Cond ! 1, reg TrueReg]) F1) })"

section \<open>What a branch means\<close>

text \<open>
  The reference semantics: which block the last terminator enters when its condition is c. None
  inside is falling through; the outer None is a jump whose continuation is not known.
\<close>

definition cont_target :: "MCInstrInfo \<Rightarrow> MachineFn \<Rightarrow> nat \<Rightarrow> nat option" where
  "cont_target D F r = do { P \<leftarrow> push_of D F r; MI \<leftarrow> P; block_of MI }"

definition jump_of :: "MCInstrInfo \<Rightarrow> MachineFn \<Rightarrow> MachineInstr \<Rightarrow> bool \<Rightarrow> nat option option" where
  "jump_of D F I c =
     (if getOpcode I = JMPX
      then do { r \<leftarrow> reg_operand I 0; b \<leftarrow> cont_target D F r; Some (Some b) }
      else if getOpcode I = IFELSE
      then do { r \<leftarrow> reg_operand I (if c then 1 else 2); b \<leftarrow> cont_target D F r; Some (Some b) }
      else if getOpcode I = IFJMP \<or> getOpcode I = IFNOTJMP
      then if c = (getOpcode I = IFJMP)
           then do { r \<leftarrow> reg_operand I 1; b \<leftarrow> cont_target D F r; Some (Some b) } else Some None
      else None)"

definition block_jump :: "MCInstrInfo \<Rightarrow> MachineFn \<Rightarrow> nat \<Rightarrow> bool \<Rightarrow> nat option option" where
  "block_jump D F MBB c =
     (case last_real (insts F MBB) of
        None \<Rightarrow> Some None
      | Some I \<Rightarrow> if descTerminator D (getOpcode I) then jump_of D F I c else Some None)"

text \<open>The block that TBB, FBB and Cond stand for; the first part of Cond is the inversion.\<close>

definition branch_to :: "nat option \<Rightarrow> nat option \<Rightarrow> MachineOperand list \<Rightarrow> bool \<Rightarrow> nat option" where
  "branch_to TBB FBB Cond c =
     (if Cond = [] \<or> c = (getImm (Cond ! 0) = Some 0) then TBB else FBB)"

lemma analyze_ifelse_sound:
  assumes "analyze_ifelse D F MBB I = Some (False, TBB, FBB, Cond)" "getOpcode I = IFELSE"
  shows "jump_of D F I c = Some (branch_to TBB FBB Cond c)"
  using assms
  by (cases c) (auto simp: analyze_ifelse_def jump_of_def cont_target_def branch_to_def Let_def
      bind_eq_Some_conv split: option.splits if_splits)

lemma analyzeBranch_sound:
  assumes "analyzeBranch D F MBB = Some (False, TBB, FBB, Cond)"
  shows "block_jump D F MBB c = Some (branch_to TBB FBB Cond c)"
proof (cases "last_real (insts F MBB)")
  case None
  with assms show ?thesis by (simp add: analyzeBranch_def block_jump_def branch_to_def)
next
  case (Some I)
  show ?thesis
  proof (cases "descTerminator D (getOpcode I) \<and> getOpcode I = IFELSE")
    case True
    then have "descTerminator D (getOpcode I)" "getOpcode I = IFELSE" by blast+
    then show ?thesis
      using assms Some analyze_ifelse_sound [of D F MBB I TBB FBB Cond c]
      by (simp add: analyzeBranch_def block_jump_def)
  next
    case False
    with assms Some show ?thesis
      by (cases c) (auto simp: analyzeBranch_def block_jump_def jump_of_def cont_target_def
          branch_to_def Let_def bind_eq_Some_conv split: option.splits if_splits)
  qed
qed

lemma reverseBranchCondition_swaps:
  assumes "reverseBranchCondition Cond = Some Cond'"
  shows "branch_to TBB FBB Cond' c = branch_to FBB TBB Cond c"
  using assms
  by (cases Cond) (auto simp: reverseBranchCondition_def branch_to_def bind_eq_Some_conv split: if_splits)

section \<open>Insertion means what it is asked for\<close>

text \<open>What the .td files say of the four jumps and of PUSHCONT_MBB.\<close>

definition branch_desc :: "MCInstrInfo \<Rightarrow> bool" where
  "branch_desc D \<longleftrightarrow> NumDefs D PUSHCONT_MBB = 1 \<and> \<not> descTerminator D PUSHCONT_MBB \<and>
     (\<forall>opc \<in> {JMPX, IFELSE, IFJMP, IFNOTJMP}. NumDefs D opc = 0 \<and> descTerminator D opc)"

definition fresh_regs :: "MachineFn \<Rightarrow> bool" where
  "fresh_regs F \<longleftrightarrow> (\<forall>b \<in> set (blockIds F). \<forall>MI \<in> set (insts F b). \<forall>opd \<in> set (operands MI).
     isReg opd \<longrightarrow> getReg opd < nextVReg F)"

lemma filter_concat_map: "filter P (concat (map f bs)) = concat (map (\<lambda>b. filter P (f b)) bs)"
  by (simp add: filter_concat comp_def)

lemma def_instrs_set_code:
  assumes "filter (sets_reg D r) B = filter (sets_reg D r) (insts F b)"
  shows "def_instrs D (set_code b B F) r = def_instrs D F r"
  unfolding def_instrs_def filter_concat_map set_code_def using assms
  by (auto intro!: arg_cong [of _ _ concat])

lemma push_of_set_code:
  "filter (sets_reg D r) B = filter (sets_reg D r) (insts F b) \<Longrightarrow>
   push_of D (set_code b B F) r = push_of D F r"
  by (simp add: push_of_def getVRegDef_def def_instrs_set_code)

lemma push_of_append:
  "\<not> sets_reg D r MI \<Longrightarrow> push_of D (append_instr b MI F) r = push_of D F r"
  by (simp add: append_instr_def push_of_set_code)

lemma push_of_more [simp]:
  "push_of D (F \<lparr> nextVReg := n \<rparr>) r = push_of D F r"
  by (simp add: push_of_def getVRegDef_def def_instrs_def)

lemma sets_reg_pushcont:
  "branch_desc D \<Longrightarrow> sets_reg D r (pushcont r' b) \<longleftrightarrow> r = r'"
  by (auto simp: sets_reg_def defs_def branch_desc_def pushcont_def mk_instr_def reg_def)

lemma sets_reg_jump:
  "branch_desc D \<Longrightarrow> is_jump MI \<Longrightarrow> \<not> sets_reg D r MI"
  by (auto simp: sets_reg_def defs_def branch_desc_def is_jump_def)

lemma fresh_not_set:
  assumes "fresh_regs F" "b \<in> set (blockIds F)" "nextVReg F \<le> r"
  shows "filter (sets_reg D r) (insts F b) = []"
proof -
  have "\<not> sets_reg D r MI" if "MI \<in> set (insts F b)" for MI
  proof
    assume "sets_reg D r MI"
    then obtain opd where "opd \<in> set (operands MI)" "isReg opd" "getReg opd = r"
      by (auto simp: sets_reg_def defs_def dest: in_set_takeD)
    then show False using assms that unfolding fresh_regs_def by fastforce
  qed
  then show ?thesis by (simp add: filter_empty_conv)
qed

lemma concat_single:
  "distinct bs \<Longrightarrow> b \<in> set bs \<Longrightarrow> concat (map (\<lambda>x. if x = b then [y] else []) bs) = [y]"
proof (induction bs)
  case (Cons a bs)
  have "concat (map (\<lambda>x. if x = b then [y] else []) bs) = []" if "b \<notin> set bs"
    using that by (auto simp: concat_eq_Nil_conv)
  with Cons show ?case by auto
qed simp

text \<open>A continuation that was added is found, and the others are not disturbed.\<close>

lemma add_cont_target:
  assumes "branch_desc D" "fresh_regs F" "MBB \<in> set (blockIds F)" "distinct (blockIds F)"
    and "add_cont MBB T F = (r, F1)"
  shows "r = nextVReg F" "nextVReg F1 = nextVReg F + 1" "blockIds F1 = blockIds F"
    "insts F1 MBB = insts F MBB @ [pushcont r T]" "fresh_regs F1"
    "cont_target D F1 r = Some T" "r' \<noteq> r \<Longrightarrow> cont_target D F1 r' = cont_target D F r'"
proof -
  have F1: "r = nextVReg F" "F1 = append_instr MBB (pushcont r T) (F \<lparr> nextVReg := nextVReg F + 1 \<rparr>)"
    using assms(5) by (auto simp: add_cont_def createVirtualRegister_def)
  then show "r = nextVReg F" "nextVReg F1 = nextVReg F + 1" "blockIds F1 = blockIds F"
    "insts F1 MBB = insts F MBB @ [pushcont r T]"
    by (simp_all add: append_instr_def set_code_def)
  show "fresh_regs F1"
    using assms(2) unfolding F1
    by (auto simp: fresh_regs_def append_instr_def set_code_def pushcont_def mk_instr_def reg_def
        intro: less_SucI)
  have "def_instrs D F1 r = concat (map (\<lambda>b. if b = MBB then [pushcont r T] else []) (blockIds F))"
    unfolding def_instrs_def filter_concat_map F1(2) append_instr_def set_code_def
    using fresh_not_set [OF assms(2), of _ r D] F1(1) sets_reg_pushcont [OF assms(1), of r r T]
    by (auto intro!: arg_cong [of _ _ concat])
  also have "\<dots> = [pushcont r T]" by (rule concat_single [OF assms(4,3)])
  finally show "cont_target D F1 r = Some T"
    by (simp add: cont_target_def push_of_def getVRegDef_def block_of_def getOperand_def pushcont_def
        mk_instr_def)
  show "cont_target D F1 r' = cont_target D F r'" if "r' \<noteq> r"
    using that sets_reg_pushcont [OF assms(1), of r' r T]
    by (simp add: cont_target_def F1(2) push_of_append)
qed

lemma last_real_snoc: "\<not> isDebugInstr I \<Longrightarrow> last_real (B @ [I]) = Some I"
  by (simp add: last_real_def)

text \<open>Appending a jump gives the block the jump's meaning in the function before.\<close>

lemma block_jump_append:
  assumes "branch_desc D" "is_jump I"
  shows "block_jump D (append_instr MBB I F) MBB c = jump_of D F I c"
proof -
  have "\<not> isDebugInstr I" using assms(2) by (auto simp: is_jump_def isDebugInstr_def)
  then have "last_real (insts (append_instr MBB I F) MBB) = Some I"
    by (simp add: append_instr_def set_code_def last_real_snoc)
  moreover have "descTerminator D (getOpcode I)"
    using assms by (auto simp: is_jump_def branch_desc_def)
  moreover have "cont_target D (append_instr MBB I F) r = cont_target D F r" for r
    by (simp add: cont_target_def push_of_append sets_reg_jump [OF assms])
  ultimately show ?thesis by (simp add: block_jump_def jump_of_def)
qed

lemma mk_fields [simp]: "getOpcode (mk_instr opc ops) = opc" "operands (mk_instr opc ops) = ops"
  by (simp_all add: mk_instr_def)

lemma is_jump_mk [simp]: "is_jump (mk_instr opc ops) \<longleftrightarrow> opc \<in> {JMPX, IFELSE, IFJMP, IFNOTJMP}"
  by (simp add: is_jump_def mk_instr_def)

lemma reg_operand_mk [simp]:
  "reg_operand (mk_instr opc ops) i =
     (if i < length ops \<and> isReg (ops ! i) then Some (getReg (ops ! i)) else None)"
  by (simp add: reg_operand_def getOperand_def mk_instr_def)

lemma reg_simps [simp]: "isReg (reg r)" "getReg (reg r) = r"
  by (simp_all add: reg_def)

lemma jump_of_mk:
  "jump_of D F (mk_instr JMPX [reg t]) c = map_option Some (cont_target D F t)"
  "jump_of D F (mk_instr IFELSE [p, reg t, reg f]) c =
     map_option Some (cont_target D F (if c then t else f))"
  "jump_of D F (mk_instr IFJMP [p, reg t]) c =
     (if c then map_option Some (cont_target D F t) else Some None)"
  "jump_of D F (mk_instr IFNOTJMP [p, reg t]) c =
     (if c then Some None else map_option Some (cont_target D F t))"
  by (auto simp: jump_of_def mk_instr_def [of _ "[_]"] mk_instr_def [of _ "[_, _]"]
      mk_instr_def [of _ "[_, _, _]"] reg_operand_def getOperand_def map_option_case
      split: option.splits Option.bind_splits)

subsection \<open>The first terminator\<close>

abbreviation terminators :: "MCInstrInfo \<Rightarrow> MachineInstr list \<Rightarrow> MachineInstr list" where
  "terminators D B \<equiv> filter (\<lambda>I. descTerminator D (getOpcode I)) B"

text \<open>A block is its part before, and its trailing terminators and debug instructions.\<close>

lemma terminator_tail:
  fixes D B
  defines "P \<equiv> \<lambda>I. descTerminator D (getOpcode I) \<or> isDebugInstr I"
  obtains A tail where "B = A @ tail" "\<forall>I \<in> set tail. P I" "A \<noteq> [] \<Longrightarrow> \<not> P (last A)"
    "getFirstTerminator D B = map_option (\<lambda>k. length A + k)
       (find_index True (map (\<lambda>I. descTerminator D (getOpcode I)) tail))"
proof -
  define tail where "tail = rev (takeWhile P (rev B))"
  define A where "A = rev (dropWhile P (rev B))"
  have "rev B = takeWhile P (rev B) @ dropWhile P (rev B)" by simp
  then have B: "B = A @ tail" unfolding A_def tail_def by (metis rev_append rev_rev_ident)
  have "\<forall>I \<in> set tail. P I" by (auto simp: tail_def dest: set_takeWhileD)
  moreover have "A \<noteq> [] \<Longrightarrow> \<not> P (last A)"
    unfolding A_def using hd_dropWhile [of P "rev B"] by (auto simp: last_rev)
  moreover have "length B - length (takeWhile P (rev B)) = length A"
    using arg_cong [OF B, of length] by (simp add: tail_def)
  then have "getFirstTerminator D B = map_option (\<lambda>k. length A + k)
      (find_index True (map (\<lambda>I. descTerminator D (getOpcode I)) tail))"
    unfolding getFirstTerminator_def Let_def P_def [symmetric] using B by simp
  ultimately show thesis using that B by blast
qed

lemma last_real_debug:
  "\<forall>I \<in> set ds. isDebugInstr I \<Longrightarrow> last_real (B @ ds) = last_real B"
  using dropWhile_append2 [of "rev ds" isDebugInstr "rev B"] by (simp add: last_real_def)

lemma no_terminator:
  assumes "getFirstTerminator D B = None"
  shows "case last_real B of None \<Rightarrow> True | Some I \<Rightarrow> \<not> descTerminator D (getOpcode I)"
proof -
  obtain A tail where B: "B = A @ tail" "\<forall>I \<in> set tail. descTerminator D (getOpcode I) \<or> isDebugInstr I"
      "A \<noteq> [] \<Longrightarrow> \<not> (descTerminator D (getOpcode (last A)) \<or> isDebugInstr (last A))"
      "getFirstTerminator D B = map_option (\<lambda>k. length A + k)
       (find_index True (map (\<lambda>I. descTerminator D (getOpcode I)) tail))"
    by (rule terminator_tail [of B D]) (rule that)
  from assms B(4) have "\<forall>I \<in> set tail. \<not> descTerminator D (getOpcode I)"
    by auto
  then have "last_real B = last_real A" unfolding B(1) using B(2) by (intro last_real_debug) blast
  then show ?thesis using B(3) by (cases A rule: rev_cases) (auto simp: last_real_def)
qed

lemma one_terminator:
  assumes "getFirstTerminator D B = Some i" "length (terminators D B) \<le> 1"
    and "\<not> isDebugInstr (B ! i)"
  obtains A ds where "B = A @ B ! i # ds" "length A = i" "\<forall>I \<in> set ds. isDebugInstr I"
    "terminators D A = []" "descTerminator D (getOpcode (B ! i))"
proof -
  obtain A tail where B: "B = A @ tail" "\<forall>I \<in> set tail. descTerminator D (getOpcode I) \<or> isDebugInstr I"
      "getFirstTerminator D B = map_option (\<lambda>k. length A + k)
       (find_index True (map (\<lambda>I. descTerminator D (getOpcode I)) tail))"
    by (rule terminator_tail [of B D]) (rule that)
  then obtain k where k: "i = length A + k" "find_index True (map (\<lambda>I. descTerminator D (getOpcode I)) tail) = Some k"
    using assms(1) by auto
  then have kt: "k < length tail" "descTerminator D (getOpcode (tail ! k))"
    using find_index_Some [OF k(2)] by auto
  have "tail = take k tail @ tail ! k # drop (Suc k) tail" using kt(1) by (simp add: id_take_nth_drop)
  moreover have "B ! i = tail ! k" using B(1) k(1) by (simp add: nth_append)
  ultimately have split: "B = (A @ take k tail) @ B ! i # drop (Suc k) tail" using B(1) by simp
  have "length (terminators D B) = length (terminators D (A @ take k tail)) + 1 +
      length (terminators D (drop (Suc k) tail))"
    using arg_cong [OF split, of "\<lambda>b. length (terminators D b)"] kt(2) \<open>B ! i = tail ! k\<close>
    by simp
  then have "terminators D (A @ take k tail) = []" "terminators D (drop (Suc k) tail) = []"
    using assms(2) by auto
  moreover have "\<forall>I \<in> set (drop (Suc k) tail). isDebugInstr I"
    using B(2) calculation(2) by (auto simp: filter_empty_conv dest: in_set_dropD)
  ultimately show thesis using that [OF split] k(1) kt \<open>B ! i = tail ! k\<close> by auto
qed

subsection \<open>insertBranch\<close>

lemma filter_erase:
  "i < length B \<Longrightarrow> \<not> P (B ! i) \<Longrightarrow> filter P (take i B @ drop (i + 1) B) = filter P B"
  by (metis Suc_eq_plus1 append_take_drop_id Cons_nth_drop_Suc filter.simps(2) filter_append)

text \<open>
  After insertBranch the block still goes where it went before; where it fell through, it now goes
  where the arguments say.
\<close>

lemma insertBranch_meaning:
  assumes D: "branch_desc D" and F: "fresh_regs F" "MBB \<in> set (blockIds F)" "distinct (blockIds F)"
    and one: "length (terminators D (insts F MBB)) \<le> 1"
    and ins: "insertBranch D F MBB (Some T) FBB Cond = Some (n, bytes, F')"
    and old: "block_jump D F MBB c = Some old"
  shows "block_jump D F' MBB c =
     Some (case old of Some b \<Rightarrow> Some b | None \<Rightarrow> branch_to (Some T) FBB Cond c)"
proof (cases "getFirstTerminator D (insts F MBB)")
  case None
  have "old = None"
    using no_terminator [OF None] old by (auto simp: block_jump_def split: option.splits)
  obtain tr F1 where F1: "add_cont MBB T F = (tr, F1)" by fastforce
  note T = add_cont_target [OF D F F1]
  have F1': "MBB \<in> set (blockIds F1)" "distinct (blockIds F1)" using F T(3) by simp_all
  show ?thesis
  proof (cases FBB)
    case None
    then show ?thesis
      using ins \<open>getFirstTerminator D (insts F MBB) = None\<close> \<open>old = None\<close> T(6) F1
      by (cases "getImm (Cond ! 0)")
         (auto simp: insertBranch_def bind_eq_Some_conv block_jump_append [OF D] jump_of_mk branch_to_def split: if_splits)
  next
    case (Some Fb)
    obtain fr F2 where F2: "add_cont MBB Fb F1 = (fr, F2)" by fastforce
    note Fb = add_cont_target [OF D T(5) F1' F2]
    have "cont_target D F2 tr = Some T" using Fb(1,7) T(1,2,6) by simp
    then show ?thesis
      using ins \<open>getFirstTerminator D (insts F MBB) = None\<close> \<open>old = None\<close> Fb(6) F1 F2 Some
      by (cases "getImm (Cond ! 0)")
         (auto simp: insertBranch_def bind_eq_Some_conv block_jump_append [OF D] jump_of_mk branch_to_def split: if_splits)
  qed
next
  case (Some i)
  let ?I = "insts F MBB ! i" and ?B = "take i (insts F MBB) @ drop (i + 1) (insts F MBB)"
  let ?G = "set_code MBB ?B F"
  obtain fr F1 where F1: "add_cont MBB T ?G = (fr, F1)" by fastforce
  from ins Some obtain c0 tr where cond: "FBB = None" "Cond = []"
      "getOpcode ?I = IFJMP \<or> getOpcode ?I = IFNOTJMP" "reg_operand ?I 1 = Some tr"
      "F' = append_instr MBB (mk_instr IFELSE
         (if getOpcode ?I = IFNOTJMP then [c0, reg fr, reg tr] else [c0, reg tr, reg fr])) F1"
    using F1
    by (auto simp: insertBranch_def Let_def bind_eq_Some_conv split: option.splits if_splits)
  have dbg: "\<not> isDebugInstr ?I" and jump: "is_jump ?I"
    using cond(3) by (auto simp: isDebugInstr_def is_jump_def)
  obtain A ds where B: "insts F MBB = A @ ?I # ds" "length A = i" "\<forall>I \<in> set ds. isDebugInstr I"
      "descTerminator D (getOpcode ?I)"
    using one_terminator [OF Some one dbg] by metis
  have "last_real (insts F MBB) = Some ?I"
    using last_real_debug [OF B(3), of "A @ [?I]"] B(1) last_real_snoc [OF dbg, of A] by simp
  with old B(4) have old: "jump_of D F ?I c = Some old" by (simp add: block_jump_def)
  have i: "i < length (insts F MBB)" using arg_cong [OF B(1), of length] B(2) by simp
  have G: "fresh_regs ?G" "MBB \<in> set (blockIds ?G)" "distinct (blockIds ?G)"
    using F by (auto simp: fresh_regs_def set_code_def dest: in_set_takeD in_set_dropD)
  have keep: "cont_target D ?G r = cont_target D F r" for r
    using filter_erase [of i "insts F MBB" "sets_reg D r"] i sets_reg_jump [OF D jump, of r]
    by (simp add: cont_target_def push_of_set_code)
  note T = add_cont_target [OF D G F1]
  have "\<exists>opd \<in> set (operands ?I). isReg opd \<and> getReg opd = tr"
    using cond(4) by (auto simp: reg_operand_def getOperand_def bind_eq_Some_conv split: if_splits)
  then have "tr < nextVReg F" using F(1,2) nth_mem [OF i] unfolding fresh_regs_def by blast
  then have "cont_target D F1 tr = cont_target D F tr"
    using T(1,7) keep by (simp add: set_code_def)
  then show ?thesis
    using old cond T(6) F1
    by (auto simp: block_jump_append [OF D] jump_of_mk jump_of_def branch_to_def
        bind_eq_Some_conv split: if_splits)
qed

text \<open>A jump whose continuations are known can be analysed.\<close>

lemma analyzeBranch_complete:
  assumes "block_jump D F MBB True = Some x" "block_jump D F MBB False = Some y"
  shows "\<exists>TBB FBB Cond. analyzeBranch D F MBB = Some (False, TBB, FBB, Cond)"
proof (cases "last_real (insts F MBB)")
  case None
  then show ?thesis by (simp add: analyzeBranch_def)
next
  case (Some I)
  show ?thesis
  proof (cases "descTerminator D (getOpcode I)")
    case False
    with Some show ?thesis by (simp add: analyzeBranch_def)
  next
    case True
    with assms Some have "jump_of D F I True = Some x" "jump_of D F I False = Some y"
      by (simp_all add: block_jump_def)
    then consider (jmpx) "getOpcode I = JMPX" | (ifelse) "getOpcode I = IFELSE"
      | (cond) "getOpcode I = IFJMP \<or> getOpcode I = IFNOTJMP"
      by (auto simp: jump_of_def split: if_splits)
    then show ?thesis
    proof cases
      case ifelse
      obtain rt rf TP FP tb fb where op: "reg_operand I 1 = Some rt" "reg_operand I 2 = Some rf"
          "push_of D F rt = Some (Some TP)" "block_of TP = Some tb"
          "push_of D F rf = Some (Some FP)" "block_of FP = Some fb"
        using \<open>jump_of D F I True = Some x\<close> \<open>jump_of D F I False = Some y\<close> ifelse
        by (fastforce simp: jump_of_def cont_target_def bind_eq_Some_conv)
      moreover obtain c where "getOperand I 0 = Some c"
        using op(1) by (cases "operands I") (auto simp: reg_operand_def getOperand_def bind_eq_Some_conv)
      ultimately
      show ?thesis
        using Some True ifelse by (cases "fb = MBB") (simp_all add: analyzeBranch_def analyze_ifelse_def)
    next
      case jmpx
      with \<open>jump_of D F I True = Some x\<close> Some True show ?thesis
        by (auto simp: analyzeBranch_def jump_of_def cont_target_def bind_eq_Some_conv)
    next
      case cond
      obtain rt TP tb where op: "reg_operand I 1 = Some rt" "push_of D F rt = Some (Some TP)"
          "block_of TP = Some tb"
        using \<open>jump_of D F I True = Some x\<close> \<open>jump_of D F I False = Some y\<close> cond
        by (fastforce simp: jump_of_def cont_target_def bind_eq_Some_conv split: if_splits)
      moreover obtain c where "getOperand I 0 = Some c"
        using op(1) by (cases "operands I") (auto simp: reg_operand_def getOperand_def bind_eq_Some_conv)
      ultimately show ?thesis
        using Some True cond by (auto simp: analyzeBranch_def)
    qed
  qed
qed

subsection \<open>removeBranch\<close>

lemma last_real_split:
  assumes "last_real B = Some I"
  obtains A ds where "B = A @ I # ds" "\<forall>x \<in> set ds. isDebugInstr x" "\<not> isDebugInstr I"
    "erase_last_real B = A @ ds"
proof -
  from assms obtain xs where xs: "dropWhile isDebugInstr (rev B) = I # xs"
    by (auto simp: last_real_def split: list.splits)
  let ?ds = "takeWhile isDebugInstr (rev B)"
  have "rev B = ?ds @ I # xs" using xs by (metis takeWhile_dropWhile_id)
  then have "B = rev xs @ I # rev ?ds" by (metis rev_rev_ident rev_append rev.simps(2) append_assoc append_Cons append_Nil)
  moreover have "\<forall>x \<in> set (rev ?ds). isDebugInstr x" by (auto dest: set_takeWhileD)
  moreover have "\<not> isDebugInstr I" using hd_dropWhile [of isDebugInstr "rev B"] xs by auto
  moreover have "erase_last_real B = rev xs @ rev ?ds" by (simp add: erase_last_real_def xs)
  ultimately show thesis using that by blast
qed

text \<open>Removing the branch of a block with one terminator leaves a block that falls through.\<close>

lemma removeBranch_falls_through:
  assumes D: "branch_desc D" and one: "length (terminators D (insts F MBB)) \<le> 1"
    and F: "fresh_regs F"
    and rm: "removeBranch F MBB = (n, bytes, F')" "n \<noteq> 0"
  shows "terminators D (insts F' MBB) = []" "block_jump D F' MBB c = Some None" "fresh_regs F'"
    "blockIds F' = blockIds F"
proof -
  from rm obtain I where I: "last_real (insts F MBB) = Some I" "is_jump I"
      "F' = set_code MBB (erase_last_real (insts F MBB)) F"
    by (auto simp: removeBranch_def split: option.splits if_splits)
  obtain A ds where B: "insts F MBB = A @ I # ds" "\<forall>x \<in> set ds. isDebugInstr x"
      "erase_last_real (insts F MBB) = A @ ds"
    by (rule last_real_split [OF I(1)])
  have "descTerminator D (getOpcode I)" using D I(2) by (auto simp: branch_desc_def is_jump_def)
  then have "terminators D (A @ ds) = []" using one unfolding B(1) by simp
  then show none: "terminators D (insts F' MBB) = []" unfolding I(3) B(3) by (simp add: set_code_def)
  have "\<not> descTerminator D (getOpcode J)" if "last_real (insts F' MBB) = Some J" for J
    by (rule last_real_split [OF that]) (use none in \<open>auto simp: filter_empty_conv\<close>)
  then show "block_jump D F' MBB c = Some None"
    by (auto simp: block_jump_def split: option.splits)
  show "fresh_regs F'" "blockIds F' = blockIds F"
    using F unfolding I(3) B(3) by (fastforce simp: fresh_regs_def set_code_def B(1))+
qed

text \<open>
  What branch folding does with a block: analyse its branch, remove it, insert it again, possibly
  with the targets exchanged and the condition reversed.
\<close>

lemma reinsert_branch:
  assumes D: "branch_desc D" and F: "fresh_regs F" "MBB \<in> set (blockIds F)" "distinct (blockIds F)"
    and one: "length (terminators D (insts F MBB)) \<le> 1"
    and an: "analyzeBranch D F MBB = Some (False, Some TBB, FBB, Cond)"
    and rm: "removeBranch F MBB = (n, bytes, F1)" "n \<noteq> 0"
    and ins: "insertBranch D F1 MBB (Some TBB) FBB Cond = Some (m, added, F2)"
  shows "block_jump D F2 MBB c = block_jump D F MBB c"
proof -
  note R = removeBranch_falls_through [OF D one F(1) rm]
  have "block_jump D F2 MBB c = Some (branch_to (Some TBB) FBB Cond c)"
    using insertBranch_meaning [OF D R(3) _ _ _ ins R(2)] F R(1,4) by simp
  then show ?thesis using analyzeBranch_sound [OF an] by simp
qed

lemma reinsert_reversed:
  assumes D: "branch_desc D" and F: "fresh_regs F" "MBB \<in> set (blockIds F)" "distinct (blockIds F)"
    and one: "length (terminators D (insts F MBB)) \<le> 1"
    and an: "analyzeBranch D F MBB = Some (False, TBB, Some FBB, Cond)"
    and rm: "removeBranch F MBB = (n, bytes, F1)" "n \<noteq> 0"
    and rv: "reverseBranchCondition Cond = Some Cond'"
    and ins: "insertBranch D F1 MBB (Some FBB) TBB Cond' = Some (m, added, F2)"
  shows "block_jump D F2 MBB c = block_jump D F MBB c"
proof -
  note R = removeBranch_falls_through [OF D one F(1) rm]
  have "block_jump D F2 MBB c = Some (branch_to (Some FBB) TBB Cond' c)"
    using insertBranch_meaning [OF D R(3) _ _ _ ins R(2)] F R(1,4) by simp
  then show ?thesis using analyzeBranch_sound [OF an] reverseBranchCondition_swaps [OF rv] by simp
qed

end
