(* ===== verification/TVM_Printing.thy ===== *)
theory TVM_Printing
  imports TVM_Branch "HOL-Library.Word"
begin

text \<open>
  From machine instructions to assembly: getFallThrough of MachineBasicBlock.cpp, the lowering of
  TVMMCInstLower.cpp, which puts the code of a continuation into the operands of its push, the nested
  printing of TVMAsmPrinter.cpp, and APInt::toString for the constants beyond 64 bits. The text of a
  single instruction is generated from the .td files and is a parameter.
\<close>

section \<open>Constants\<close>

definition Digits :: string where
  "Digits = ''0123456789ABCDEF''"

text \<open>The digits of the shifting loop, the lowest first.\<close>

fun hex_digits :: "nat \<Rightarrow> string" where
  "hex_digits n = (if n = 0 then [] else Digits ! (n mod 16) # hex_digits (n div 16))"

declare hex_digits.simps [simp del]

definition toString16 :: "bool \<Rightarrow> 257 word \<Rightarrow> string" where
  "toString16 Signed v =
     (if v = 0 then ''0x0''
      else if Signed \<and> sint v < 0 then ''-0x'' @ rev (hex_digits (unat (- v)))
      else ''0x'' @ rev (hex_digits (unat v)))"

section \<open>Lowered instructions\<close>

text \<open>
  An instruction carries the block it was lowered from, which is what the printer reads of MCInstrsMap.
  A symbol is the address of a global with an offset.
\<close>

datatype MCInst = MCInst (mcOpcode: Opcode) (mcParent: nat) (mcOperands: "MCOperand list")
  and MCOperand =
    MCReg nat
  | MCImm int
  | MCString string
  | MCSymbol nat int
  | MCExternal string
  | MCNested MCInst

text \<open>What LOGSTR and PRINTSTR read of a global: the elements of its initializer, if that is an array.\<close>

datatype GlobalValue =
    GlobalVariable "int list option"
  | GlobalFunction string
  | GlobalOther

record LowerCtx =
  LDesc :: MCInstrInfo
  Fn :: MachineFn
  isBarrier :: "Opcode \<Rightarrow> bool"
  globals :: "nat \<Rightarrow> GlobalValue"

definition MaxStringLength :: nat where
  "MaxStringLength = 15"

text \<open>The size of the array minus one is unsigned; an empty array would be read outside.\<close>

definition data_string :: "GlobalValue \<Rightarrow> string option" where
  "data_string g =
     (case g of
        GlobalVariable None \<Rightarrow> None
      | GlobalVariable (Some es) \<Rightarrow> do {
          let len = min MaxStringLength (usub (length es) 1);
          check (len \<le> length es);
          mapM (\<lambda>e. do { check (0 \<le> e \<and> e < 256); Some (char_of (nat e)) }) (take len es) }
      | GlobalFunction name \<Rightarrow> Some (take MaxStringLength name)
      | GlobalOther \<Rightarrow> Some [])"

text \<open>Every operand but a block; the string of LOGSTR and PRINTSTR is read from operand 0.\<close>

definition lower_leaf :: "LowerCtx \<Rightarrow> MachineInstr \<Rightarrow> MachineOperand \<Rightarrow> MCOperand list option" where
  "lower_leaf C MI MO =
     (case MO of
        MO_Register r u d \<Rightarrow> Some [MCReg r]
      | MO_Immediate i \<Rightarrow> Some [MCImm i]
      | MO_CImmediate i \<Rightarrow>
          (let v = word_of_int i :: 257 word
           in if - (2 ^ 63) \<le> sint v \<and> sint v < 2 ^ 63 then Some [MCImm (sint v)]
              else Some [MCString (toString16 (getOpcode MI \<noteq> CONST_U257_S) v)])
      | MO_MachineBasicBlock b \<Rightarrow> None
      | MO_GlobalAddress g Offset \<Rightarrow>
          if getOpcode MI = PRINTSTR_S \<or> getOpcode MI = LOGSTR_S
          then do {
            Op \<leftarrow> getOperand MI 0;
            case Op of
              MO_GlobalAddress GV _ \<Rightarrow> do { s \<leftarrow> data_string (globals C GV); Some [MCString s] }
            | _ \<Rightarrow> None }
          else Some [MCSymbol g Offset]
      | MO_ExternalSymbol s f \<Rightarrow> Some [MCExternal s])"

section \<open>Falling through\<close>

text \<open>next is the block after b in the layout; the inner None says that control cannot fall through.\<close>

definition getFallThrough :: "LowerCtx \<Rightarrow> nat \<Rightarrow> nat option \<Rightarrow> nat option option" where
  "getFallThrough C b following =
     (case following of
        None \<Rightarrow> Some None
      | Some Fallthrough \<Rightarrow>
          if Fallthrough \<notin> set (succs (Fn C) b) then Some None
          else if \<not> canFallthrough (Fn C) Fallthrough then Some None
          else do {
            (Unknown, TBB, FBB, Cond) \<leftarrow> analyzeBranch (LDesc C) (Fn C) b;
            if Unknown
            then (let B = insts (Fn C) b
                  in Some (if B = [] \<or> \<not> isBarrier C (getOpcode (last B)) \<or> isPredicated (last B)
                           then Some Fallthrough else None))
            else if TBB = None \<or> TBB = Some Fallthrough \<or> FBB = Some Fallthrough then Some (Some Fallthrough)
            else if Cond = [] then Some None
            else Some (if FBB = None then Some Fallthrough else None) })"

text \<open>The blocks of a continuation: the do-while loop over getFallThrough, along the layout.\<close>

fun fallthrough_chain :: "LowerCtx \<Rightarrow> nat list \<Rightarrow> nat list option" where
  "fallthrough_chain C [] = None"
| "fallthrough_chain C (b # rest) = do {
     f \<leftarrow> getFallThrough C b (case rest of [] \<Rightarrow> None | b' # _ \<Rightarrow> Some b');
     if f = None then Some [b] else do { bs \<leftarrow> fallthrough_chain C rest; Some (b # bs) } }"

text \<open>The instructions of a continuation with their blocks.\<close>

definition cont_code :: "LowerCtx \<Rightarrow> nat \<Rightarrow> (nat \<times> MachineInstr) list option" where
  "cont_code C b = do {
     bs \<leftarrow> fallthrough_chain C (dropWhile (\<lambda>p. p \<noteq> b) (blockIds (Fn C)));
     Some (concat (map (\<lambda>p. map (Pair p) (insts (Fn C) p)) bs)) }"

section \<open>Lowering\<close>

lemma mapM_mono [partial_function_mono]:
  assumes "\<And>x. mono_option (\<lambda>f. B f x)"
  shows "mono_option (\<lambda>f. mapM (B f) xs)"
  by (induction xs) (simp_all add: assms partial_function_mono)

partial_function (option) lower :: "LowerCtx \<Rightarrow> nat \<Rightarrow> MachineInstr \<Rightarrow> MCInst option" where
  "lower C p MI = do {
     opss \<leftarrow> mapM (\<lambda>MO. case getMBB MO of
         None \<Rightarrow> lower_leaf C MI MO
       | Some b \<Rightarrow> do {
           code \<leftarrow> cont_code C b;
           Is \<leftarrow> mapM (\<lambda>qI. lower C (fst qI) (snd qI)) code;
           Some (map MCNested Is) }) (operands MI);
     Some (MCInst (getOpcode MI) p (concat opss)) }"

declare lower.simps [code]

section \<open>Printing\<close>

text \<open>
  Lines of the assembly without the comments of the verbose mode: an instruction with its column, the
  braces of a continuation with their depth, and the entry of a block.
\<close>

datatype Line =
    Text nat string
  | OpenBrace nat
  | CloseBrace nat
  | BBEntry nat

text \<open>Instructions that TVMInstPrinter prints as nothing.\<close>

definition printed_empty :: "Opcode \<Rightarrow> bool" where
  "printed_empty opc \<longleftrightarrow> opc \<in> {TO_TUPLE_COPY_S, TO_SLICE_COPY_S, TO_BUILDER_COPY_S, TO_CELL_COPY_S,
     FROM_TUPLE_COPY_S, FROM_SLICE_COPY_S, FROM_BUILDER_COPY_S, FROM_CELL_COPY_S, REG_TO_REG_COPY_S,
     PUSH_GLOBAL_ADDRESS_S, FALLTHROUGH_RETURN}"

definition printInst :: "(MCInst \<Rightarrow> string) \<Rightarrow> MCInst \<Rightarrow> string" where
  "printInst gen I = (if printed_empty (mcOpcode I) then [] else gen I)"

fun first_parent :: "MCOperand list \<Rightarrow> nat option" where
  "first_parent [] = None"
| "first_parent (MCNested I # ops) = Some (mcParent I)"
| "first_parent (_ # ops) = first_parent ops"

fun EmitSubBlockForPushcont :: "(MCInst \<Rightarrow> string) \<Rightarrow> nat \<Rightarrow> MCInst \<Rightarrow> Line list"
  and emit_operands :: "(MCInst \<Rightarrow> string) \<Rightarrow> nat \<Rightarrow> MCOperand list \<Rightarrow> Line list" where
  "EmitSubBlockForPushcont gen depth (MCInst opc p ops) =
     OpenBrace depth # (case first_parent ops of None \<Rightarrow> [] | Some b \<Rightarrow> [BBEntry b]) @
     emit_operands gen depth ops @ [CloseBrace depth]"
| "emit_operands gen depth [] = []"
| "emit_operands gen depth (MCNested I # ops) =
     Text (10 + depth) (printInst gen I) #
     (if mcOpcode I = PUSHCONT_MBB_S then EmitSubBlockForPushcont gen (depth + 2) I else []) @
     emit_operands gen depth ops"
| "emit_operands gen depth (_ # ops) = emit_operands gen depth ops"

definition is_copy :: "Opcode \<Rightarrow> bool" where
  "is_copy opc \<longleftrightarrow> opc \<in> {REG_TO_REG_COPY_S, TO_TUPLE_COPY_S, TO_SLICE_COPY_S, TO_BUILDER_COPY_S,
     TO_CELL_COPY_S, FROM_TUPLE_COPY_S, FROM_SLICE_COPY_S, FROM_BUILDER_COPY_S, FROM_CELL_COPY_S}"

text \<open>An argument is an llvm_unreachable; copies and FALLTHROUGH_RETURN print nothing.\<close>

definition EmitInstruction :: "LowerCtx \<Rightarrow> (MCInst \<Rightarrow> string) \<Rightarrow> nat \<Rightarrow> MachineInstr \<Rightarrow> Line list option" where
  "EmitInstruction C gen p MI =
     (if isArgument MI then None
      else if is_copy (getOpcode MI) \<or> getOpcode MI = FALLTHROUGH_RETURN then Some []
      else do {
        I \<leftarrow> lower C p MI;
        Some (Text 8 (printInst gen I) #
          (if mcOpcode I = PUSHCONT_MBB_S then EmitSubBlockForPushcont gen 0 I else [])) })"

definition ShouldPrintNextBlock :: "LowerCtx \<Rightarrow> nat \<Rightarrow> bool" where
  "ShouldPrintNextBlock C b =
     (case getFirstTerminator (LDesc C) (insts (Fn C) b) of
        None \<Rightarrow> True
      | Some t \<Rightarrow> getOpcode (insts (Fn C) b ! t) = IFJMP_S \<or> getOpcode (insts (Fn C) b ! t) = IFNOTJMP_S)"

text \<open>
  The blocks of the function body in layout order until one says that the next is not printed. Debug
  instructions, IMPLICIT_DEF and KILL print at most comments; asm is what LLVM prints for inline
  assembly, call frame instructions and labels.
\<close>

definition emit_instr ::
  "LowerCtx \<Rightarrow> (MCInst \<Rightarrow> string) \<Rightarrow> (MachineInstr \<Rightarrow> Line list) \<Rightarrow> nat \<Rightarrow> MachineInstr \<Rightarrow> Line list option" where
  "emit_instr C gen asm p MI =
     (if getOpcode MI \<in> {INLINEASM, CFI_INSTRUCTION, EH_LABEL, GC_LABEL} then Some (asm MI)
      else if isDebugInstr MI \<or> getOpcode MI = IMPLICIT_DEF \<or> getOpcode MI = KILL then Some []
      else EmitInstruction C gen p MI)"

fun EmitFunctionBody ::
  "LowerCtx \<Rightarrow> (MCInst \<Rightarrow> string) \<Rightarrow> (MachineInstr \<Rightarrow> Line list) \<Rightarrow> nat list \<Rightarrow> Line list option" where
  "EmitFunctionBody C gen asm [] = Some []"
| "EmitFunctionBody C gen asm (b # bs) = do {
     lss \<leftarrow> mapM (emit_instr C gen asm b) (insts (Fn C) b);
     rest \<leftarrow> (if ShouldPrintNextBlock C b then EmitFunctionBody C gen asm bs else Some []);
     Some (BBEntry b # concat lss @ rest) }"

section \<open>Reading back\<close>

text \<open>
  What a reader of the assembly makes of it: statements, and under a statement the continuation in
  braces with the block it starts with.
\<close>

datatype Statement = Statement string "(nat option \<times> Statement list) option"

text \<open>An open brace on the reader's stack: its depth, the entry, the statements so far in reverse.\<close>

type_synonym Frame = "nat \<times> nat option \<times> Statement list"

fun read_lines :: "Line list \<Rightarrow> Frame list \<Rightarrow> Statement list option" where
  "read_lines [] [(d, e, ts)] = Some (rev ts)"
| "read_lines (Text col s # ls) ((d, e, ts) # fs) = read_lines ls ((d, e, Statement s None # ts) # fs)"
| "read_lines (OpenBrace d # ls) fs = read_lines ls ((d, None, []) # fs)"
| "read_lines (BBEntry b # ls) ((d, e, ts) # fs) = read_lines ls ((d, Some b, ts) # fs)"
| "read_lines (CloseBrace d # ls) ((d', e', ts') # (d'', e, Statement s None # ts) # fs) =
     (if d = d' then read_lines ls ((d'', e, Statement s (Some (e', rev ts')) # ts) # fs) else None)"
| "read_lines _ _ = None"

fun statement_of :: "(MCInst \<Rightarrow> string) \<Rightarrow> MCInst \<Rightarrow> Statement"
  and statements_of :: "(MCInst \<Rightarrow> string) \<Rightarrow> MCOperand list \<Rightarrow> Statement list" where
  "statement_of gen (MCInst opc p ops) = Statement (printInst gen (MCInst opc p ops))
     (if opc = PUSHCONT_MBB_S then Some (first_parent ops, statements_of gen ops) else None)"
| "statements_of gen [] = []"
| "statements_of gen (MCNested I # ops) = statement_of gen I # statements_of gen ops"
| "statements_of gen (_ # ops) = statements_of gen ops"

lemma statement_of_eq:
  "statement_of gen I = Statement (printInst gen I)
     (if mcOpcode I = PUSHCONT_MBB_S then Some (first_parent (mcOperands I), statements_of gen (mcOperands I)) else None)"
  by (cases I) simp

lemma read_emitted:
  "read_lines (EmitSubBlockForPushcont gen d I @ ls) ((d', e, Statement s None # ts) # fs) =
     read_lines ls ((d', e, Statement s (Some (first_parent (mcOperands I), statements_of gen (mcOperands I))) # ts) # fs)"
  "read_lines (emit_operands gen d ops @ ls) ((d'', e'', us) # gs) =
     read_lines ls ((d'', e'', rev (statements_of gen ops) @ us) # gs)"
proof (induction gen d I and gen d ops arbitrary: ls d' e s ts fs and ls d'' e'' us gs
    rule: EmitSubBlockForPushcont_emit_operands.induct)
  case (1 gen depth opc p ops)
  then show ?case by (cases "first_parent ops") simp_all
next
  case (3 gen depth I ops)
  then show ?case by (simp add: statement_of_eq)
qed simp_all

text \<open>The assembly of an instruction reads back as the nesting of its continuations.\<close>

lemma EmitInstruction_reads:
  assumes "EmitInstruction C gen p MI = Some ls" "ls \<noteq> []"
  shows "\<exists>I. lower C p MI = Some I \<and> read_lines ls [(d, e, [])] = Some [statement_of gen I]"
proof -
  obtain I where I: "lower C p MI = Some I" "ls = Text 8 (printInst gen I) #
      (if mcOpcode I = PUSHCONT_MBB_S then EmitSubBlockForPushcont gen 0 I else [])"
    using assms by (auto simp: EmitInstruction_def bind_eq_Some_conv split: if_splits)
  then show ?thesis
    using read_emitted(1) [of gen 0 I "[]"] by (simp add: statement_of_eq)
qed

section \<open>Constants read back\<close>

definition digit_value :: "char \<Rightarrow> nat option" where
  "digit_value c = find_index c Digits"

fun read_digits :: "nat \<Rightarrow> string \<Rightarrow> nat option" where
  "read_digits acc [] = Some acc"
| "read_digits acc (c # cs) = do { v \<leftarrow> digit_value c; read_digits (16 * acc + v) cs }"

definition read16 :: "string \<Rightarrow> int option" where
  "read16 s =
     (if take 3 s = ''-0x'' then map_option (\<lambda>n. - int n) (read_digits 0 (drop 3 s))
      else if take 2 s = ''0x'' then map_option int (read_digits 0 (drop 2 s)) else None)"

lemma read_digits_append: "read_digits acc (xs @ ys) = do { a \<leftarrow> read_digits acc xs; read_digits a ys }"
  by (induction xs arbitrary: acc) (simp_all split: Option.bind_splits)

lemma digit_value_Digits: "d < 16 \<Longrightarrow> digit_value (Digits ! d) = Some d"
proof -
  assume "d < 16"
  then have "d < length Digits" by (simp add: Digits_def)
  moreover have "distinct Digits" by (simp add: Digits_def)
  ultimately show ?thesis unfolding digit_value_def by (intro find_index_distinct)
qed

lemma read_hex: "read_digits 0 (rev (hex_digits n)) = Some n"
proof (induction n rule: hex_digits.induct)
  case (1 n)
  show ?case
  proof (cases "n = 0")
    case True
    then show ?thesis by (simp add: hex_digits.simps)
  next
    case False
    have "read_digits 0 (rev (hex_digits n)) = read_digits 0 (rev (hex_digits (n div 16)) @ [Digits ! (n mod 16)])"
      using False by (subst hex_digits.simps) simp
    also have "\<dots> = Some (16 * (n div 16) + n mod 16)"
      using 1 [OF False] by (simp add: read_digits_append digit_value_Digits)
    finally show ?thesis by simp
  qed
qed

lemma sint_cases:
  fixes v :: "257 word"
  shows "0 \<le> sint v \<Longrightarrow> sint v = uint v" "sint v < 0 \<Longrightarrow> uint (- v) = - sint v"
proof -
  have sint: "sint v = signed_take_bit 256 (uint v)" by (simp add: sint_uint)
  have "take_bit 257 (uint v) = uint v" using uint_lt2p [of v] by (simp add: take_bit_int_eq_self_iff)
  then have s: "sint v = uint v - (if sint v < 0 then 2 ^ 257 else 0)"
    unfolding sint signed_take_bit_negative_iff by (simp add: signed_take_bit_eq_take_bit_minus)
  then show "0 \<le> sint v \<Longrightarrow> sint v = uint v" by simp
  assume neg: "sint v < 0"
  have "uint (- v) = (- uint v) mod 2 ^ 257" by (simp add: uint_word_ariths)
  moreover have "uint v \<noteq> 0" using neg sint by auto
  then have "0 < uint v" "uint v < 2 ^ 257"
    using uint_lt2p [of v] uint_ge_0 [of v] by (simp_all add: less_le)
  then have "(- uint v) mod 2 ^ 257 = 2 ^ 257 - uint v"
    by (simp add: zmod_zminus1_eq_if)
  ultimately show "uint (- v) = - sint v" using s neg by simp
qed

lemma toString16_reads:
  "read16 (toString16 Signed v) = Some (if Signed then sint v else uint v)"
proof (cases "v = 0")
  case True
  then show ?thesis by (simp add: toString16_def read16_def digit_value_def Digits_def)
next
  case False
  show ?thesis
  proof (cases "Signed \<and> sint v < 0")
    case True
    have "int (unat (- v)) = - sint v" using True sint_cases(2) [of v] by simp
    then show ?thesis using True False by (simp add: toString16_def read16_def read_hex)
  next
    case nonneg: False
    have "Signed \<longrightarrow> sint v = uint v"
      using nonneg sint_cases(1) [of v] by (meson linorder_not_le)
    then show ?thesis using nonneg False by (auto simp: toString16_def read16_def read_hex)
  qed
qed

section \<open>When lowering ends\<close>

text \<open>
  The continuations below a block end: the code of each is found, and so on for what that code pushes.
  A continuation that pushes itself, directly or not, has no such derivation.
\<close>

inductive nest_ends :: "LowerCtx \<Rightarrow> nat \<Rightarrow> bool" for C where
  nest: "cont_code C b = Some code \<Longrightarrow>
    (\<And>q I t. (q, I) \<in> set code \<Longrightarrow> MO_MachineBasicBlock t \<in> set (operands I) \<Longrightarrow> nest_ends C t) \<Longrightarrow>
    nest_ends C b"

inductive_cases nest_endsE: "nest_ends C b"

text \<open>Every other operand of the function's instructions can be lowered.\<close>

definition leaves_ok :: "LowerCtx \<Rightarrow> MachineInstr \<Rightarrow> bool" where
  "leaves_ok C MI \<longleftrightarrow> (\<forall>MO \<in> set (operands MI). getMBB MO = None \<longrightarrow> lower_leaf C MI MO \<noteq> None)"

lemma getMBB_iff: "getMBB MO = Some b \<longleftrightarrow> MO = MO_MachineBasicBlock b"
  by (cases MO) auto

lemma mapM_Some_iff: "(\<exists>ys. mapM f xs = Some ys) \<longleftrightarrow> (\<forall>x \<in> set xs. \<exists>y. f x = Some y)"
  by (induction xs) (auto simp: bind_eq_Some_conv)

lemma fallthrough_chain_subset: "fallthrough_chain C bs = Some cs \<Longrightarrow> set cs \<subseteq> set bs"
proof (induction bs arbitrary: cs)
  case (Cons b bs)
  then consider "cs = [b]" | ds where "fallthrough_chain C bs = Some ds" "cs = b # ds"
    by (auto simp: bind_eq_Some_conv split: if_splits)
  then show ?case
  proof cases
    case 2
    then show ?thesis using Cons.IH [OF 2(1)] by auto
  qed simp
qed simp

lemma cont_code_member:
  assumes "cont_code C b = Some code" "(q, I) \<in> set code"
  shows "q \<in> set (blockIds (Fn C))" "I \<in> set (insts (Fn C) q)"
proof -
  obtain bs where bs: "fallthrough_chain C (dropWhile (\<lambda>p. p \<noteq> b) (blockIds (Fn C))) = Some bs"
      "code = concat (map (\<lambda>p. map (Pair p) (insts (Fn C) p)) bs)"
    using assms(1) by (auto simp: cont_code_def bind_eq_Some_conv)
  then show "q \<in> set (blockIds (Fn C))" "I \<in> set (insts (Fn C) q)"
    using assms(2) fallthrough_chain_subset [OF bs(1)] by (auto dest: set_dropWhileD)
qed

lemma lower_returns_iff:
  "(\<exists>I. lower C p MI = Some I) \<longleftrightarrow> leaves_ok C MI \<and>
     (\<forall>t. MO_MachineBasicBlock t \<in> set (operands MI) \<longrightarrow>
       (\<exists>code. cont_code C t = Some code \<and> (\<forall>(q, I) \<in> set code. \<exists>J. lower C q I = Some J)))"
  (is "?L \<longleftrightarrow> ?R")
proof -
  let ?f = "\<lambda>MO. case getMBB MO of
         None \<Rightarrow> lower_leaf C MI MO
       | Some b \<Rightarrow> do {
           code \<leftarrow> cont_code C b;
           Is \<leftarrow> mapM (\<lambda>qI. lower C (fst qI) (snd qI)) code;
           Some (map MCNested Is) }"
  have "?L \<longleftrightarrow> (\<exists>ys. mapM ?f (operands MI) = Some ys)"
    by (subst lower.simps) (auto simp: bind_eq_Some_conv)
  also have "\<dots> \<longleftrightarrow> (\<forall>MO \<in> set (operands MI). \<exists>y. ?f MO = Some y)" by (rule mapM_Some_iff)
  also have "\<dots> \<longleftrightarrow> ?R"
  proof -
    have nested: "(\<exists>y. ?f MO = Some y) \<longleftrightarrow>
        (\<exists>code. cont_code C t = Some code \<and> (\<forall>(q, I) \<in> set code. \<exists>J. lower C q I = Some J))"
      if "getMBB MO = Some t" for MO t
    proof -
      have "(\<exists>y. ?f MO = Some y) \<longleftrightarrow> (\<exists>code. cont_code C t = Some code \<and>
          (\<exists>Is. mapM (\<lambda>qI. lower C (fst qI) (snd qI)) code = Some Is))"
        using that by (auto simp: bind_eq_Some_conv)
      then show ?thesis by (simp add: mapM_Some_iff case_prod_unfold)
    qed
    show ?thesis
    proof
      assume all: "\<forall>MO \<in> set (operands MI). \<exists>y. ?f MO = Some y"
      have "leaves_ok C MI" unfolding leaves_ok_def using all by fastforce
      moreover have "\<exists>code. cont_code C t = Some code \<and> (\<forall>(q, I) \<in> set code. \<exists>J. lower C q I = Some J)"
        if t: "MO_MachineBasicBlock t \<in> set (operands MI)" for t
        using nested [of "MO_MachineBasicBlock t" t, simplified getMBB.simps, OF refl] bspec [OF all t]
        unfolding getMBB.simps by (simp only: option.case)
      ultimately show ?R by blast
    next
      assume R: ?R
      show "\<forall>MO \<in> set (operands MI). \<exists>y. ?f MO = Some y"
      proof
        fix MO assume MO: "MO \<in> set (operands MI)"
        show "\<exists>y. ?f MO = Some y"
        proof (cases "getMBB MO")
          case None
          then show ?thesis using R MO by (auto simp: leaves_ok_def)
        next
          case (Some t)
          then have "MO_MachineBasicBlock t \<in> set (operands MI)" using MO by (simp add: getMBB_iff)
          then show ?thesis using R by (subst nested [OF Some]) blast
        qed
      qed
    qed
  qed
  finally show ?thesis .
qed

lemma lower_only_ends:
  assumes "lower C p MI = Some I"
  shows "\<forall>t. MO_MachineBasicBlock t \<in> set (operands MI) \<longrightarrow> nest_ends C t"
proof (rule lower.raw_induct [where P = "\<lambda>C p MI I. \<forall>t. MO_MachineBasicBlock t \<in> set (operands MI) \<longrightarrow>
    nest_ends C t", OF _ assms])
  fix lower C p MI I
  assume IH: "\<And>C p MI I. lower C p MI = Some I \<Longrightarrow>
      \<forall>t. MO_MachineBasicBlock t \<in> set (operands MI) \<longrightarrow> nest_ends C t"
    and body: "do {
     opss \<leftarrow> mapM (\<lambda>MO. case getMBB MO of
         None \<Rightarrow> lower_leaf C MI MO
       | Some b \<Rightarrow> do {
           code \<leftarrow> cont_code C b;
           Is \<leftarrow> mapM (\<lambda>qI. lower C (fst qI) (snd qI)) code;
           Some (map MCNested Is) }) (operands MI);
     Some (MCInst (getOpcode MI) p (concat opss)) } = Some I"
  show "\<forall>t. MO_MachineBasicBlock t \<in> set (operands MI) \<longrightarrow> nest_ends C t"
  proof (intro allI impI)
    fix t assume t: "MO_MachineBasicBlock t \<in> set (operands MI)"
    define f where "f = (\<lambda>MO. case getMBB MO of
         None \<Rightarrow> lower_leaf C MI MO
       | Some b \<Rightarrow> do {
           code \<leftarrow> cont_code C b;
           Is \<leftarrow> mapM (\<lambda>qI. lower C (fst qI) (snd qI)) code;
           Some (map MCNested Is) })"
    obtain opss where "mapM f (operands MI) = Some opss"
      using body unfolding f_def [symmetric] by (cases "mapM f (operands MI)") simp_all
    then obtain y where "f (MO_MachineBasicBlock t) = Some y"
      using t mapM_Some_iff [of f "operands MI"] by blast
    then have "do {
           code \<leftarrow> cont_code C t;
           Is \<leftarrow> mapM (\<lambda>qI. lower C (fst qI) (snd qI)) code;
           Some (map MCNested Is) } = Some y" by (simp add: f_def)
    then obtain code Is where code: "cont_code C t = Some code"
        "mapM (\<lambda>qI. lower C (fst qI) (snd qI)) code = Some Is"
      by (auto simp: bind_eq_Some_conv)
    show "nest_ends C t"
    proof (rule nest_ends.nest [OF code(1)])
      fix q I u assume I: "(q, I) \<in> set code" "MO_MachineBasicBlock u \<in> set (operands I)"
      then obtain J where "lower C q I = Some J"
        using code(2) mapM_Some_iff [of "\<lambda>qI. lower C (fst qI) (snd qI)" code] by fastforce
      then show "nest_ends C u" using IH I(2) by blast
    qed
  qed
qed

lemma nest_lowers:
  assumes "nest_ends C t" "\<forall>b \<in> set (blockIds (Fn C)). \<forall>I \<in> set (insts (Fn C) b). leaves_ok C I"
  shows "\<exists>code. cont_code C t = Some code \<and> (\<forall>(q, I) \<in> set code. \<exists>J. lower C q I = Some J)"
  using assms(1)
proof induction
  case (nest b code)
  have "\<exists>J. lower C q I = Some J" if "(q, I) \<in> set code" for q I
  proof -
    have "leaves_ok C I" using cont_code_member [OF nest(1) that] assms(2) by blast
    moreover have "\<exists>code. cont_code C t = Some code \<and> (\<forall>(q, I) \<in> set code. \<exists>J. lower C q I = Some J)"
      if "MO_MachineBasicBlock t \<in> set (operands I)" for t
      using nest(3) \<open>(q, I) \<in> set code\<close> that by blast
    ultimately show ?thesis using lower_returns_iff [of C q I] by blast
  qed
  then show ?case using nest(1) by blast
qed

lemma lower_ends:
  assumes "\<forall>b \<in> set (blockIds (Fn C)). \<forall>I \<in> set (insts (Fn C) b). leaves_ok C I" "leaves_ok C MI"
  shows "(\<exists>I. lower C p MI = Some I) \<longleftrightarrow>
    (\<forall>t. MO_MachineBasicBlock t \<in> set (operands MI) \<longrightarrow> nest_ends C t)"
proof
  show "\<forall>t. MO_MachineBasicBlock t \<in> set (operands MI) \<longrightarrow> nest_ends C t" if "\<exists>I. lower C p MI = Some I"
    using that lower_only_ends by blast
  show "\<exists>I. lower C p MI = Some I" if "\<forall>t. MO_MachineBasicBlock t \<in> set (operands MI) \<longrightarrow> nest_ends C t"
    using that nest_lowers [OF _ assms(1)] assms(2) lower_returns_iff [of C p MI] by blast
qed

text \<open>A continuation that pushes itself does not end.\<close>

lemma nest_irrefl:
  assumes "nest_ends C b" "cont_code C b = Some code" "(q, I) \<in> set code"
  shows "MO_MachineBasicBlock b \<notin> set (operands I)"
  using assms
proof (induction arbitrary: code q I)
  case (nest b code')
  have "code = code'" using nest.prems(1) nest.hyps(1) by simp
  then have I: "(q, I) \<in> set code'" using nest.prems(2) by simp
  show ?case
  proof
    assume "MO_MachineBasicBlock b \<in> set (operands I)"
    then have "MO_MachineBasicBlock b \<notin> set (operands I)"
      by (rule nest.IH [OF I _ nest.hyps(1) I])
    then show False using \<open>MO_MachineBasicBlock b \<in> set (operands I)\<close> by contradiction
  qed
qed

end
