(* ===== verification/TVM_Lowering.thy ===== *)
theory TVM_Lowering
  imports TVM_Prelude
begin

text \<open>
  Lowering to the TVM's DAG nodes (TVMISelLowering.cpp) and the nodes that TVMISelDAGToDAG.cpp selects
  itself. A DAG is the tree of its nodes: a node has its kind, the id LLVM gives it, the types of its
  results, and the results of other nodes as operands. DAG.getNode builds the node as given (LLVM may
  fold the target-independent ones) and fresh nodes have the id -1.
\<close>

unbundle bit_operations_syntax

section \<open>Nodes\<close>

datatype VT = I257 | I256 | IntTy nat | TVMSlice | TVMBuilder | TVMCell | TVMTuple | OtherVT

datatype CondCode = SETEQ | SETNE | OtherCC nat

datatype Intrin =
    tvm_getreg | tvm_setreg | tvm_retrieve_signed | tvm_retrieve_unsigned | tvm_retrieve_ref
  | tvm_tuple | tvm_untuple nat | tvm_unpackfirst nat | OtherIntrin nat

text \<open>The memory nodes carry the type in memory and whether they extend or truncate.\<close>

datatype (plugins only: code size) NodeKind =
    EntryToken | BasicBlock nat | Constant int | TargetConstant int | IntrinsicId Intrin
  | CONDCODE CondCode | RegisterNode nat | FrameIndex int | TargetFrameIndex int | UNDEF
  | GlobalAddress nat int | TargetGlobalAddress nat int
  | ExternalSymbol string | TargetExternalSymbol string nat
  | CopyToReg | CopyFromReg | SETCC | BR | BRCOND | TRUNCATE | ANY_EXTEND
  | LOAD VT bool | STORE VT bool
  | INTRINSIC_WO_CHAIN | INTRINSIC_W_CHAIN | INTRINSIC_VOID | MERGE_VALUES | OtherISD nat
  | T_IFELSE | T_IFJMP | T_JUMPX | BBWrapper | T_AND | T_ARGUMENT | T_RETURN
  | CALL0 | CALL1 | CALLN | CALLDICT0 | CALLDICT1 | CALLDICTN
  | T_LDSLICEX | T_LDIX | T_LDUX | T_LDREF | GLOBAL_ADDRESS_WRAPPER | T_TUPLE | T_TUPLEVAR
  | M_NIL | M_TUPLE | M_TUPLEVAR | M_CALL_N | M_CALLDICT_N | M_CONST_I257
  | M_UNTUPLE1 | M_UNTUPLE | M_UNTUPLEVAR | M_UNPACKFIRST1 | M_UNPACKFIRST | M_UNPACKFIRSTVAR
  | M_REG_TO_REG_COPY

datatype SDNode = SDNode (kind: NodeKind) (nodeId: int) (valueTypes: "VT list") (ops: "(SDNode \<times> nat) list")

type_synonym SDValue = "SDNode \<times> nat"

definition getNode :: "NodeKind \<Rightarrow> VT list \<Rightarrow> SDValue list \<Rightarrow> SDValue" where
  "getNode k vts operands = (SDNode k (-1) vts operands, 0)"

definition nodeOperand :: "SDNode \<Rightarrow> nat \<Rightarrow> SDValue option" where
  "nodeOperand N i = (if i < length (ops N) then Some (ops N ! i) else None)"

definition getValueType :: "SDValue \<Rightarrow> VT option" where
  "getValueType v = (if snd v < length (valueTypes (fst v)) then Some (valueTypes (fst v) ! snd v) else None)"

definition isNullConstant :: "SDValue \<Rightarrow> bool" where
  "isNullConstant v \<longleftrightarrow> kind (fst v) = Constant 0 \<or> kind (fst v) = TargetConstant 0"

definition leaf :: "NodeKind \<Rightarrow> VT \<Rightarrow> SDValue" where
  "leaf k ty = getNode k [ty] []"

section \<open>Branches\<close>

definition wrapBlock :: "SDValue \<Rightarrow> SDValue" where
  "wrapBlock Dest = getNode BBWrapper [I257] [Dest, leaf (TargetConstant 0) I257]"

definition LowerBR :: "SDNode \<Rightarrow> SDNode option" where
  "LowerBR Op = do {
     Chain \<leftarrow> nodeOperand Op 0;
     Dest \<leftarrow> nodeOperand Op 1;
     if kind (fst Chain) = BRCOND
     then do {
       PrevChain \<leftarrow> nodeOperand (fst Chain) 0;
       Cond \<leftarrow> nodeOperand (fst Chain) 1;
       ThenBr \<leftarrow> nodeOperand (fst Chain) 2;
       Some (fst (getNode T_IFELSE [OtherVT] [PrevChain, Cond, wrapBlock ThenBr, wrapBlock Dest])) }
     else Some (fst (getNode T_JUMPX [OtherVT] [Chain, wrapBlock Dest])) }"

definition LowerBRCOND :: "SDNode \<Rightarrow> SDNode option" where
  "LowerBRCOND Op = do {
     Chain \<leftarrow> nodeOperand Op 0;
     Cond \<leftarrow> nodeOperand Op 1;
     Dest \<leftarrow> nodeOperand Op 2;
     Some (fst (getNode T_IFJMP [OtherVT] [Chain, wrapBlock Dest, Cond])) }"

text \<open>
  The combines return the node that replaces N: the outer None is an operand that is not there, the
  inner None is "no change".
\<close>

definition compared_with_zero :: "SDValue \<Rightarrow> (SDValue \<times> CondCode) option option" where
  "compared_with_zero N1 =
     (if kind (fst N1) \<noteq> SETCC then Some None
      else do {
        LHS \<leftarrow> nodeOperand (fst N1) 0;
        RHS \<leftarrow> nodeOperand (fst N1) 1;
        c \<leftarrow> nodeOperand (fst N1) 2;
        case kind (fst c) of
          CONDCODE CC \<Rightarrow>
            if CC \<noteq> SETNE \<and> CC \<noteq> SETEQ then Some None
            else do {
              ty \<leftarrow> getValueType LHS;
              if ty \<noteq> I257 then Some None
              else (let (LHS', RHS') = (if isNullConstant LHS then (RHS, LHS) else (LHS, RHS))
                    in Some (if \<not> isNullConstant RHS' then None else Some (LHS', CC))) }
        | _ \<Rightarrow> None })"

definition performIFELSECombine :: "SDNode \<Rightarrow> SDNode option option" where
  "performIFELSECombine N = do {
     Chain \<leftarrow> nodeOperand N 0;
     N1 \<leftarrow> nodeOperand N 1;
     ThenDest \<leftarrow> nodeOperand N 2;
     ElseDest \<leftarrow> nodeOperand N 3;
     z \<leftarrow> compared_with_zero N1;
     case z of
       None \<Rightarrow> Some None
     | Some (LHS, CC) \<Rightarrow>
         let (T, E) = (if CC = SETEQ then (ElseDest, ThenDest) else (ThenDest, ElseDest))
         in Some (Some (fst (getNode T_IFELSE [OtherVT] [Chain, LHS, T, E]))) }"

definition performIFJMPCombine :: "SDNode \<Rightarrow> SDNode option option" where
  "performIFJMPCombine N = do {
     Chain \<leftarrow> nodeOperand N 0;
     N1 \<leftarrow> nodeOperand N 1;
     Dest \<leftarrow> nodeOperand N 2;
     z \<leftarrow> compared_with_zero N1;
     case z of
       None \<Rightarrow> Some None
     | Some (LHS, CC) \<Rightarrow>
         if CC \<noteq> SETNE then Some None
         else Some (Some (fst (getNode T_IFJMP [OtherVT] [Chain, LHS, Dest]))) }"

section \<open>Truncation\<close>

fun vt_bits :: "VT \<Rightarrow> nat option" where
  "vt_bits I257 = Some 257"
| "vt_bits I256 = Some 256"
| "vt_bits (IntTy n) = Some n"
| "vt_bits _ = None"

definition truncateMask :: "bool \<Rightarrow> bool \<Rightarrow> SDNode \<Rightarrow> SDNode option option" where
  "truncateMask UseTruncMasks isBeforeLegalizeOps N =
     (if \<not> UseTruncMasks \<or> \<not> isBeforeLegalizeOps then Some None
      else do {
        ResultType \<leftarrow> getValueType (N, 0);
        Op0 \<leftarrow> nodeOperand N 0;
        OperandType \<leftarrow> getValueType Op0;
        case (vt_bits ResultType, vt_bits OperandType) of
          (Some r, Some n) \<Rightarrow>
            if n = r then Some None
            else if r > n then None
            else (let AndNode = getNode T_AND [OperandType] [Op0, leaf (Constant (2 ^ r - 1)) OperandType]
                  in Some (Some (fst (getNode TRUNCATE [ResultType] [AndNode]))))
        | _ \<Rightarrow> Some None })"

text \<open>The result that replaces the node, or none.\<close>

definition PerformDAGCombine :: "bool \<Rightarrow> bool \<Rightarrow> SDNode \<Rightarrow> SDValue option option" where
  "PerformDAGCombine UseTruncMasks isBeforeLegalizeOps N =
     (case kind N of
        ANY_EXTEND \<Rightarrow> do {
          Op0 \<leftarrow> nodeOperand N 0;
          ty0 \<leftarrow> getValueType (fst Op0, 0);
          ty \<leftarrow> getValueType (N, 0);
          Some (if ty0 = ty then Some Op0 else None) }
      | T_IFELSE \<Rightarrow> map_option (map_option (\<lambda>M. (M, 0))) (performIFELSECombine N)
      | T_IFJMP \<Rightarrow> map_option (map_option (\<lambda>M. (M, 0))) (performIFJMPCombine N)
      | TRUNCATE \<Rightarrow> map_option (map_option (\<lambda>M. (M, 0))) (truncateMask UseTruncMasks isBeforeLegalizeOps N)
      | _ \<Rightarrow> Some None)"

section \<open>Calls, returns and arguments\<close>

text \<open>What is asked of a function; a global without an entry is not a function.\<close>

record FunctionAttr =
  fnName :: string
  internalLinkage :: bool
  doesNotRecurse :: bool
  rawFunc :: bool

definition find_substring :: "string \<Rightarrow> string \<Rightarrow> bool" where
  "find_substring s pat = list_ex (\<lambda>i. take (length pat) (drop i s) = pat) [0..<length s + 1]"

definition isDictCall :: "(nat \<Rightarrow> FunctionAttr option) \<Rightarrow> SDNode \<Rightarrow> bool" where
  "isDictCall fns Callee =
     (case kind Callee of
        GlobalAddress g off \<Rightarrow>
          (case fns g of
             Some F \<Rightarrow> \<not> (internalLinkage F \<and> doesNotRecurse F \<and>
                        \<not> find_substring (fnName F) ''onCodeUpgrade'')
           | None \<Rightarrow> True)
      | _ \<Rightarrow> True)"

definition supportedVT :: "VT \<Rightarrow> bool" where
  "supportedVT ty \<longleftrightarrow> ty \<in> {I257, TVMSlice, TVMBuilder, TVMCell, TVMTuple}"

definition callCmd :: "bool \<Rightarrow> nat \<Rightarrow> NodeKind" where
  "callCmd DictCall results =
     (if results = 0 then if DictCall then CALLDICT0 else CALL0
      else if results = 1 then if DictCall then CALLDICT1 else CALL1
      else if DictCall then CALLDICTN else CALLN)"

text \<open>The results of the call and its chain. The diagnostics of fail only report and are left out.\<close>

definition LowerCall ::
  "(nat \<Rightarrow> FunctionAttr option) \<Rightarrow> SDValue \<Rightarrow> SDValue \<Rightarrow> SDValue list \<Rightarrow> VT list \<Rightarrow> (SDValue list \<times> SDValue) option" where
  "LowerCall fns Chain Callee OutVals Ins = do {
     check (list_all (\<lambda>v. case getValueType v of None \<Rightarrow> False | Some ty \<Rightarrow> supportedVT ty) OutVals);
     check (list_all supportedVT Ins);
     let cmd = callCmd (isDictCall fns (fst Callee)) (length Ins);
     let Ops = Chain # Callee # OutVals @
       (if cmd = CALLN \<or> cmd = CALLDICTN then [leaf (TargetConstant (int (length Ins))) I257] else []);
     let Res = fst (getNode cmd (Ins @ [OtherVT]) Ops);
     Some (map (Pair Res) [0..<length Ins], (Res, length Ins)) }"

text \<open>How the assembly printer begins a function.\<close>

datatype Header = InternalHeader | MacroHeader | DefaultHeader

definition EmitFunctionHeader :: "FunctionAttr \<Rightarrow> Header" where
  "EmitFunctionHeader F =
     (if rawFunc F then InternalHeader
      else if internalLinkage F \<and> doesNotRecurse F \<and> \<not> find_substring (fnName F) ''onCodeUpgrade''
      then MacroHeader else DefaultHeader)"

text \<open>The part of TVMFunctionInfo that lowering keeps, and the cache of hasPushC0Predecessor.\<close>

record LoweringState =
  Params :: "VT list"
  C0VirtReg :: "nat option"
  nextReg :: nat
  noPushC0 :: "int set"

definition PUSH_C0_FUNCTION_UNIQUE_ID :: int where
  "PUSH_C0_FUNCTION_UNIQUE_ID = -2"

definition SaveC0 :: "SDValue \<Rightarrow> LoweringState \<Rightarrow> SDValue \<times> LoweringState" where
  "SaveC0 Chain st =
     (let GetC0 = getNode INTRINSIC_WO_CHAIN [I257] [leaf (IntrinsicId tvm_getreg) I257, leaf (Constant 0) I257];
          r = nextReg st
      in ((SDNode CopyToReg PUSH_C0_FUNCTION_UNIQUE_ID [OtherVT] [Chain, leaf (RegisterNode r) I257, GetC0], 0),
          st \<lparr> C0VirtReg := Some r, nextReg := r + 1, noPushC0 := {} \<rparr>))"

fun hasPushC0Predecessor :: "SDNode \<Rightarrow> int set \<Rightarrow> bool \<times> int set"
  and hasPushC0_ops :: "SDValue list \<Rightarrow> int set \<Rightarrow> bool \<times> int set" where
  "hasPushC0Predecessor (SDNode k NodeId vts operands) cache =
     (if NodeId = PUSH_C0_FUNCTION_UNIQUE_ID then (True, cache)
      else if NodeId \<in> cache then (False, cache)
      else (case hasPushC0_ops operands cache of
              (True, c) \<Rightarrow> (True, c)
            | (False, c) \<Rightarrow> (False, insert NodeId c)))"
| "hasPushC0_ops [] cache = (False, cache)"
| "hasPushC0_ops (v # vs) cache =
     (case hasPushC0Predecessor (fst v) cache of
        (True, c) \<Rightarrow> (True, c)
      | (False, c) \<Rightarrow> hasPushC0_ops vs c)"

definition RestoreC0 :: "SDValue \<Rightarrow> LoweringState \<Rightarrow> (SDValue \<times> LoweringState) option" where
  "RestoreC0 Chain st = do {
     r \<leftarrow> C0VirtReg st;
     let (found, c) = hasPushC0Predecessor (fst Chain) (noPushC0 st);
     let st1 = st \<lparr> noPushC0 := c \<rparr>;
     if found then Some (Chain, st1)
     else (let GetC0VirtReg = getNode CopyFromReg [I257, OtherVT] [Chain, leaf (RegisterNode r) I257]
           in Some (getNode INTRINSIC_VOID [OtherVT]
                [Chain, leaf (IntrinsicId tvm_setreg) I257, leaf (Constant 0) I257, GetC0VirtReg], st1)) }"

definition LowerReturn :: "SDValue \<Rightarrow> SDValue list \<Rightarrow> LoweringState \<Rightarrow> (SDValue \<times> LoweringState) option" where
  "LowerReturn Chain OutVals st = do {
     (SetC0, st1) \<leftarrow> RestoreC0 Chain st;
     Some (getNode T_RETURN [OtherVT] (SetC0 # OutVals), st1) }"

text \<open>Ins: the types of the arguments, and whether they are used.\<close>

definition LowerFormalArguments ::
  "SDValue \<Rightarrow> (VT \<times> bool) list \<Rightarrow> LoweringState \<Rightarrow> SDValue list \<times> SDValue \<times> LoweringState" where
  "LowerFormalArguments Chain Ins st =
     (let InVals = map (\<lambda>(i, ty, used). if used
            then getNode T_ARGUMENT [ty] [leaf (TargetConstant (int i)) I257] else leaf UNDEF ty)
            (zip [0..<length Ins] Ins)
      in (InVals, SaveC0 Chain (st \<lparr> Params := Params st @ map fst Ins \<rparr>)))"

section \<open>Memory, addresses and copies\<close>

text \<open>A pointer of another type than i257 is extended; one that was truncated is taken as it was.\<close>

definition lowerPtr :: "SDValue \<Rightarrow> SDValue option" where
  "lowerPtr Ptr = do {
     P \<leftarrow> (if kind (fst Ptr) = TRUNCATE then nodeOperand (fst Ptr) 0 else Some Ptr);
     ty \<leftarrow> getValueType P;
     Some (if ty \<noteq> I257 then getNode ANY_EXTEND [I257] [P] else P) }"

text \<open>LOAD has the operands chain and pointer; its results are the value and the chain.\<close>

definition LowerLoad :: "SDNode \<Rightarrow> SDNode option" where
  "LowerLoad Op = do {
     Chain \<leftarrow> nodeOperand Op 0;
     Ptr \<leftarrow> nodeOperand Op 1;
     P \<leftarrow> lowerPtr Ptr;
     ty \<leftarrow> getValueType (Op, 0);
     case kind Op of
       LOAD mem ext \<Rightarrow>
         if mem = I256 then Some (fst (getNode (LOAD I256 True) [I257, OtherVT] [Chain, P]))
         else if mem = I257 \<and> \<not> ext then Some (fst (getNode (LOAD I257 False) [ty, OtherVT] [Chain, P]))
         else None
     | _ \<Rightarrow> None }"

text \<open>STORE has the operands chain, value and pointer.\<close>

definition LowerStore :: "SDNode \<Rightarrow> SDNode option" where
  "LowerStore Op = do {
     Chain \<leftarrow> nodeOperand Op 0;
     Val \<leftarrow> nodeOperand Op 1;
     Ptr \<leftarrow> nodeOperand Op 2;
     PtrVT \<leftarrow> getValueType Ptr;
     check (PtrVT = I256 \<or> PtrVT = I257);
     P \<leftarrow> lowerPtr Ptr;
     vty \<leftarrow> getValueType Val;
     let V = (if vty \<noteq> I257 then getNode ANY_EXTEND [I257] [Val] else Val);
     case kind Op of
       STORE mem trunc \<Rightarrow>
         if mem = I256 then Some (fst (getNode (STORE I256 True) [OtherVT] [Chain, V, P]))
         else if mem = I257 \<and> \<not> trunc then Some (fst (getNode (STORE I257 False) [OtherVT] [Chain, V, P]))
         else None
     | _ \<Rightarrow> None }"

definition LowerGlobalAddress :: "SDNode \<Rightarrow> SDNode option" where
  "LowerGlobalAddress Op =
     (case kind Op of
        GlobalAddress g off \<Rightarrow> Some (fst (getNode GLOBAL_ADDRESS_WRAPPER [I257] [leaf (TargetGlobalAddress g off) I257]))
      | _ \<Rightarrow> None)"

definition LowerExternalSymbol :: "SDNode \<Rightarrow> SDNode option" where
  "LowerExternalSymbol Op =
     (case kind Op of
        ExternalSymbol name \<Rightarrow> Some (fst (getNode GLOBAL_ADDRESS_WRAPPER [I257] [leaf (TargetExternalSymbol name 1) I257]))
      | _ \<Rightarrow> None)"

definition LowerFrameIndex :: "SDNode \<Rightarrow> SDNode option" where
  "LowerFrameIndex Op =
     (case kind Op of
        FrameIndex i \<Rightarrow> Some (fst (leaf (TargetFrameIndex i) I257))
      | TargetFrameIndex i \<Rightarrow> Some (fst (leaf (TargetFrameIndex i) I257))
      | _ \<Rightarrow> None)"

text \<open>A frame index is copied by an instruction first; the inner None is "not custom lowered".\<close>

definition LowerCopyToReg :: "SDNode \<Rightarrow> SDNode option option" where
  "LowerCopyToReg Op = do {
     Src \<leftarrow> nodeOperand Op 2;
     case kind (fst Src) of
       FrameIndex i \<Rightarrow> do {
         Chain \<leftarrow> nodeOperand Op 0;
         r \<leftarrow> nodeOperand Op 1;
         ty \<leftarrow> getValueType Src;
         let Copy = getNode M_REG_TO_REG_COPY [ty] [Src];
         Some (Some (fst (getNode CopyToReg (valueTypes Op)
           ([Chain, r, Copy] @ (if length (valueTypes Op) \<noteq> 1 \<and> length (ops Op) = 4 then [ops Op ! 3] else []))))) }
     | _ \<Rightarrow> Some None }"

section \<open>Intrinsics\<close>

definition LowerINTRINSIC_W_CHAIN :: "SDNode \<Rightarrow> SDNode option option" where
  "LowerINTRINSIC_W_CHAIN Op = do {
     Chain \<leftarrow> nodeOperand Op 0;
     IntNo \<leftarrow> nodeOperand Op 1;
     case kind (fst IntNo) of
       IntrinsicId i \<Rightarrow>
         if i = tvm_retrieve_signed \<or> i = tvm_retrieve_unsigned
         then do {
           slice \<leftarrow> nodeOperand Op 2;
           from' \<leftarrow> nodeOperand Op 3;
           len \<leftarrow> nodeOperand Op 4;
           let Skip1 = fst (getNode T_LDSLICEX [TVMSlice, TVMSlice] [slice, from']);
           let Result = fst (getNode (if i = tvm_retrieve_signed then T_LDIX else T_LDUX) [I257, TVMSlice]
                              [(Skip1, 0), len]);
           Some (Some (fst (getNode MERGE_VALUES [I257, OtherVT] [(Result, 0), Chain]))) }
         else if i = tvm_retrieve_ref
         then do {
           slice \<leftarrow> nodeOperand Op 2;
           let Result = fst (getNode T_LDREF [TVMCell, TVMSlice] [slice]);
           Some (Some (fst (getNode MERGE_VALUES [TVMSlice, OtherVT] [(Result, 1), Chain]))) }
         else Some None
     | _ \<Rightarrow> None }"

definition SmallTupleLimit :: nat where
  "SmallTupleLimit = 15"

definition LowerINTRINSIC_WO_CHAIN :: "SDNode \<Rightarrow> SDNode option option" where
  "LowerINTRINSIC_WO_CHAIN Op = do {
     IntNo \<leftarrow> nodeOperand Op 0;
     case kind (fst IntNo) of
       IntrinsicId i \<Rightarrow>
         if i = tvm_tuple
         then (let Ops = tl (ops Op); n = length Ops; SmallTuple = (n \<le> SmallTupleLimit);
                   c = leaf ((if SmallTuple then TargetConstant else Constant) (int n)) I257
               in Some (Some (fst (getNode (if SmallTuple then T_TUPLE else T_TUPLEVAR) [TVMTuple] (Ops @ [c])))))
         else Some None
     | _ \<Rightarrow> None }"

section \<open>The dispatcher\<close>

text \<open>The inner None is a node that is left as it is; another kind is an llvm_unreachable.\<close>

definition LowerOperation :: "SDNode \<Rightarrow> SDNode option option" where
  "LowerOperation Op =
     (case kind Op of
        GlobalAddress g off \<Rightarrow> map_option Some (LowerGlobalAddress Op)
      | LOAD mem ext \<Rightarrow> map_option Some (LowerLoad Op)
      | STORE mem trunc \<Rightarrow> map_option Some (LowerStore Op)
      | ExternalSymbol name \<Rightarrow> map_option Some (LowerExternalSymbol Op)
      | BR \<Rightarrow> map_option Some (LowerBR Op)
      | BRCOND \<Rightarrow> map_option Some (LowerBRCOND Op)
      | TargetFrameIndex i \<Rightarrow> map_option Some (LowerFrameIndex Op)
      | FrameIndex i \<Rightarrow> map_option Some (LowerFrameIndex Op)
      | CopyToReg \<Rightarrow> LowerCopyToReg Op
      | INTRINSIC_W_CHAIN \<Rightarrow> LowerINTRINSIC_W_CHAIN Op
      | INTRINSIC_WO_CHAIN \<Rightarrow> LowerINTRINSIC_WO_CHAIN Op
      | _ \<Rightarrow> None)"

text \<open>The values that replace the results of a node, as many as it has; none when it is not lowered.\<close>

definition LowerOperationWrapper :: "SDNode \<Rightarrow> SDValue list option" where
  "LowerOperationWrapper N = do {
     Res \<leftarrow> LowerOperation N;
     case Res of
       None \<Rightarrow> Some []
     | Some R \<Rightarrow> do {
         check (length (valueTypes N) \<le> length (valueTypes R));
         Some (map (Pair R) [0..<length (valueTypes N)]) } }"

definition ReplaceNodeResults :: "SDNode \<Rightarrow> SDValue list option" where
  "ReplaceNodeResults N =
     (case kind N of
        GlobalAddress g off \<Rightarrow> map_option (\<lambda>R. [(R, 0)]) (LowerGlobalAddress N)
      | ExternalSymbol name \<Rightarrow> map_option (\<lambda>R. [(R, 0)]) (LowerExternalSymbol N)
      | TargetFrameIndex i \<Rightarrow> map_option (\<lambda>R. [(R, 0)]) (LowerFrameIndex N)
      | FrameIndex i \<Rightarrow> map_option (\<lambda>R. [(R, 0)]) (LowerFrameIndex N)
      | LOAD mem ext \<Rightarrow> LowerOperationWrapper N
      | _ \<Rightarrow> None)"

section \<open>Selection\<close>

text \<open>
  The nodes that Select replaces itself; the inner None leaves the node to the generated matcher. The
  two tables list the intrinsics untuple1 to untuple255 and unpackfirst1 to unpackfirst255.
\<close>

definition processUntuple :: "NodeKind \<Rightarrow> NodeKind \<Rightarrow> NodeKind \<Rightarrow> SDValue \<Rightarrow> nat \<Rightarrow> SDNode" where
  "processUntuple Single Small Big Tp Sz =
     (if Sz = 1 then fst (getNode Single [I257] [Tp])
      else (let SzVal = leaf (TargetConstant (int Sz)) I257;
                SzOp = (if Sz \<le> SmallTupleLimit then SzVal else getNode M_CONST_I257 [I257] [SzVal])
            in fst (getNode (if Sz \<le> SmallTupleLimit then Small else Big) (replicate Sz I257) [Tp, SzOp])))"

definition Select :: "SDNode \<Rightarrow> SDNode option option" where
  "Select N =
     (case kind N of
        T_TUPLE \<Rightarrow>
          Some (Some (if length (ops N) \<le> 1 then fst (leaf M_NIL TVMTuple)
                      else fst (getNode M_TUPLE [TVMTuple] (ops N))))
      | T_TUPLEVAR \<Rightarrow> Some (Some (fst (getNode M_TUPLEVAR [TVMTuple] (ops N))))
      | k \<Rightarrow>
          if k = CALLN \<or> k = CALLDICTN
          then do {
            Callee \<leftarrow> nodeOperand N 1;
            check (kind (fst Callee) = GLOBAL_ADDRESS_WRAPPER);
            address \<leftarrow> nodeOperand (fst Callee) 0;
            let Ops = address # butlast (drop 2 (ops N));
            Chain \<leftarrow> nodeOperand N 0;
            Some (Some (fst (getNode (if k = CALLDICTN then M_CALLDICT_N else M_CALL_N) (valueTypes N) (Ops @ [Chain])))) }
          else if k = INTRINSIC_WO_CHAIN
          then do {
            IntNo \<leftarrow> nodeOperand N 0;
            case kind (fst IntNo) of
              IntrinsicId (tvm_untuple Sz) \<Rightarrow>
                if Sz < 1 \<or> 255 < Sz then Some None
                else map_option (\<lambda>Tp. Some (processUntuple M_UNTUPLE1 M_UNTUPLE M_UNTUPLEVAR Tp Sz)) (nodeOperand N 1)
            | IntrinsicId (tvm_unpackfirst Sz) \<Rightarrow>
                if Sz < 1 \<or> 255 < Sz then Some None
                else map_option (\<lambda>Tp. Some (processUntuple M_UNPACKFIRST1 M_UNPACKFIRST M_UNPACKFIRSTVAR Tp Sz)) (nodeOperand N 1)
            | _ \<Rightarrow> Some None }
          else Some None)"

end
