(* ===== verification/TVM_LoweringSem.thy ===== *)
theory TVM_LoweringSem
  imports TVM_Lowering
begin

text \<open>
  What the nodes of lowering mean, and that lowering keeps it: values of DAG nodes over integers and
  slices, the block a branch goes to, and the nodes where the lowering goes wrong.
\<close>

section \<open>Values\<close>

text \<open>A slice is its bits and its references.\<close>

datatype SVal = VInt int | VSlice "bool list" "nat list" | VCell nat | VErr

definition bits_unsigned :: "bool list \<Rightarrow> int" where
  "bits_unsigned bs = foldl (\<lambda>a b. 2 * a + of_bool b) 0 bs"

definition bits_signed :: "bool list \<Rightarrow> int" where
  "bits_signed bs = bits_unsigned bs - (if bs \<noteq> [] \<and> hd bs then 2 ^ length bs else 0)"

definition cut :: "int \<Rightarrow> SVal \<Rightarrow> SVal \<Rightarrow> (bool list \<times> SVal) option" where
  "cut limit s l =
     (case (s, l) of
        (VSlice bs refs, VInt n) \<Rightarrow>
          if 0 \<le> n \<and> n \<le> limit \<and> nat n \<le> length bs
          then Some (take (nat n) bs, VSlice (drop (nat n) bs) refs) else None
      | _ \<Rightarrow> None)"

text \<open>
  The value of result n of a node, from the kinds and the values of its operands; None where the node is
  not interpreted. The TVM instructions are those of the instruction set: LDSLICEX gives the first l bits
  and the rest, LDIX and LDUX an integer and the rest, LDREF a reference and the rest.
\<close>

definition node_value :: "NodeKind \<Rightarrow> VT list \<Rightarrow> NodeKind list \<Rightarrow> SVal list \<Rightarrow> nat \<Rightarrow> SVal option" where
  "node_value k vts kinds vals n =
     (case (k, vals) of
        (Constant c, _) \<Rightarrow> Some (VInt c)
      | (TargetConstant c, _) \<Rightarrow> Some (VInt c)
      | (SETCC, a # b # _) \<Rightarrow>
          (case kinds of
             _ # _ # CONDCODE CC # _ \<Rightarrow>
               (case CC of
                  OtherCC _ \<Rightarrow> None
                | _ \<Rightarrow> (case (a, b) of
                      (VInt x, VInt y) \<Rightarrow> Some (VInt (if (x = y) = (CC = SETEQ) then -1 else 0))
                    | _ \<Rightarrow> Some VErr))
           | _ \<Rightarrow> None)
      | (ANY_EXTEND, a # _) \<Rightarrow> Some a
      | (T_AND, a # b # _) \<Rightarrow> (case (a, b) of (VInt x, VInt y) \<Rightarrow> Some (VInt (x AND y)) | _ \<Rightarrow> Some VErr)
      | (TRUNCATE, a # _) \<Rightarrow>
          (case (vts, a) of
             (ty # _, VInt x) \<Rightarrow> map_option (\<lambda>r. VInt (x mod 2 ^ r)) (vt_bits ty)
           | (ty # _, _) \<Rightarrow> Some VErr
           | _ \<Rightarrow> None)
      | (T_LDSLICEX, s # l # _) \<Rightarrow>
          Some (case cut 1023 s l of None \<Rightarrow> VErr | Some (bs, rest) \<Rightarrow> if n = 0 then VSlice bs [] else rest)
      | (T_LDIX, s # l # _) \<Rightarrow>
          Some (case cut 257 s l of None \<Rightarrow> VErr | Some (bs, rest) \<Rightarrow> if n = 0 then VInt (bits_signed bs) else rest)
      | (T_LDUX, s # l # _) \<Rightarrow>
          Some (case cut 256 s l of None \<Rightarrow> VErr | Some (bs, rest) \<Rightarrow> if n = 0 then VInt (bits_unsigned bs) else rest)
      | (T_LDREF, s # _) \<Rightarrow>
          Some (case s of VSlice bs (r # refs) \<Rightarrow> if n = 0 then VCell r else VSlice bs refs | _ \<Rightarrow> VErr)
      | (MERGE_VALUES, _) \<Rightarrow> if n < length vals then Some (vals ! n) else None
      | _ \<Rightarrow> None)"

text \<open>What is not interpreted has the value that env gives it.\<close>

fun dag_eval :: "(SDValue \<Rightarrow> SVal) \<Rightarrow> SDNode \<Rightarrow> nat \<Rightarrow> SVal" where
  "dag_eval env (SDNode k i vts os) n =
     (case node_value k vts (map (\<lambda>v. kind (fst v)) os) (map (\<lambda>v. dag_eval env (fst v) (snd v)) os) n of
        Some x \<Rightarrow> x
      | None \<Rightarrow> env (SDNode k i vts os, n))"

definition cond_holds :: "SVal \<Rightarrow> bool option" where
  "cond_holds v = (case v of VInt x \<Rightarrow> Some (x \<noteq> 0) | _ \<Rightarrow> None)"

section \<open>Targets\<close>

definition block_number :: "SDValue \<Rightarrow> nat option" where
  "block_number v = (case kind (fst v) of BasicBlock b \<Rightarrow> Some b | _ \<Rightarrow> None)"

definition wrapped_number :: "SDValue \<Rightarrow> nat option" where
  "wrapped_number v = (if kind (fst v) = BBWrapper then do { w \<leftarrow> nodeOperand (fst v) 0; block_number w } else None)"

definition branch_on :: "(SDValue \<Rightarrow> SVal) \<Rightarrow> SDValue \<Rightarrow> 'a \<Rightarrow> 'a \<Rightarrow> 'a option" where
  "branch_on env cond t e = do {
     c \<leftarrow> cond_holds (dag_eval env (fst cond) (snd cond));
     Some (if c then t else e) }"

text \<open>
  Where a branch node goes: Some None falls through, None is a node whose operands are not what its
  instruction takes (the patterns of TVMControlFlowInstrInfo.td).
\<close>

definition dag_target :: "(SDValue \<Rightarrow> SVal) \<Rightarrow> SDNode \<Rightarrow> nat option option" where
  "dag_target env N =
     (case kind N of
        BR \<Rightarrow> do {
          Chain \<leftarrow> nodeOperand N 0;
          d \<leftarrow> nodeOperand N 1;
          b \<leftarrow> block_number d;
          if kind (fst Chain) = BRCOND
          then do {
            cond \<leftarrow> nodeOperand (fst Chain) 1;
            d' \<leftarrow> nodeOperand (fst Chain) 2;
            t \<leftarrow> block_number d';
            branch_on env cond (Some t) (Some b) }
          else Some (Some b) }
      | BRCOND \<Rightarrow> do {
          cond \<leftarrow> nodeOperand N 1;
          d \<leftarrow> nodeOperand N 2;
          t \<leftarrow> block_number d;
          branch_on env cond (Some t) None }
      | T_IFELSE \<Rightarrow> do {
          cond \<leftarrow> nodeOperand N 1;
          d \<leftarrow> nodeOperand N 2;
          t \<leftarrow> wrapped_number d;
          d' \<leftarrow> nodeOperand N 3;
          e \<leftarrow> wrapped_number d';
          branch_on env cond (Some t) (Some e) }
      | T_IFJMP \<Rightarrow> do {
          cond \<leftarrow> nodeOperand N 1;
          d \<leftarrow> nodeOperand N 2;
          t \<leftarrow> wrapped_number d;
          branch_on env cond (Some t) None }
      | T_JUMPX \<Rightarrow> do { d \<leftarrow> nodeOperand N 1; t \<leftarrow> wrapped_number d; Some (Some t) }
      | _ \<Rightarrow> None)"

lemma getNode_simps [simp]:
  "kind (fst (getNode k vts os)) = k" "valueTypes (fst (getNode k vts os)) = vts"
  "ops (fst (getNode k vts os)) = os" "snd (getNode k vts os) = 0"
  by (simp_all add: getNode_def)

lemma nodeOperand_getNode [simp]: "nodeOperand (fst (getNode k vts os)) i = (if i < length os then Some (os ! i) else None)"
  by (simp add: nodeOperand_def)

lemma wrapped_wrap [simp]: "wrapped_number (wrapBlock v) = block_number v"
  by (simp add: wrapped_number_def wrapBlock_def)

lemma LowerBR_target:
  assumes "kind N = BR" "LowerBR N = Some M"
  shows "dag_target env M = dag_target env N"
proof -
  obtain Chain Dest where o: "nodeOperand N 0 = Some Chain" "nodeOperand N 1 = Some Dest"
    using assms(2) by (auto simp: LowerBR_def bind_eq_Some_conv)
  show ?thesis
  proof (cases "kind (fst Chain) = BRCOND")
    case True
    then obtain PrevChain Cond ThenBr where "nodeOperand (fst Chain) 1 = Some Cond" "nodeOperand (fst Chain) 2 = Some ThenBr"
        "M = fst (getNode T_IFELSE [OtherVT] [PrevChain, Cond, wrapBlock ThenBr, wrapBlock Dest])"
      using assms(2) o by (auto simp: LowerBR_def bind_eq_Some_conv)
    then show ?thesis using assms(1) o True
      by (cases "block_number Dest"; cases "block_number ThenBr") (simp_all add: dag_target_def)
  next
    case False
    then show ?thesis using assms o by (auto simp: LowerBR_def dag_target_def)
  qed
qed

text \<open>The operands of the IFJMP that LowerBRCOND builds are the wrong way round.\<close>

lemma LowerBRCOND_target:
  assumes "LowerBRCOND N = Some M" "nodeOperand N 1 = Some Cond" "kind (fst Cond) \<noteq> BBWrapper"
  shows "kind M = T_IFJMP" "dag_target env M = None"
proof -
  obtain Chain Dest where M: "M = fst (getNode T_IFJMP [OtherVT] [Chain, wrapBlock Dest, Cond])"
    using assms(1,2) by (auto simp: LowerBRCOND_def bind_eq_Some_conv)
  then show "kind M = T_IFJMP" "dag_target env M = None"
    using assms(3) by (simp_all add: dag_target_def wrapped_number_def)
qed

section \<open>Combines\<close>

lemma null_value: "isNullConstant v \<Longrightarrow> dag_eval env (fst v) (snd v) = VInt 0"
  by (cases "fst v") (auto simp: isNullConstant_def node_value_def)

lemma setcc_value:
  assumes "kind N = SETCC" "nodeOperand N 0 = Some L" "nodeOperand N 1 = Some R" "nodeOperand N 2 = Some c"
    "kind (fst c) = CONDCODE CC" "CC = SETEQ \<or> CC = SETNE"
  shows "dag_eval env N n = (case (dag_eval env (fst L) (snd L), dag_eval env (fst R) (snd R)) of
     (VInt x, VInt y) \<Rightarrow> VInt (if (x = y) = (CC = SETEQ) then -1 else 0) | _ \<Rightarrow> VErr)"
proof -
  obtain k i vts os where N: "N = SDNode k i vts os" by (cases N)
  have "2 < length os" "os ! 0 = L" "os ! 1 = R" "os ! 2 = c"
    using assms(2-4) N by (auto simp: nodeOperand_def split: if_splits)
  then obtain rest where os: "os = L # R # c # rest"
    by (cases os; cases "tl os"; cases "tl (tl os)") (auto simp: numeral_2_eq_2)
  have k: "k = SETCC" using assms(1) N by simp
  show ?thesis
    unfolding N os k dag_eval.simps
    using assms(5,6) by (auto simp: node_value_def split: SVal.split)
qed

lemma compared_with_zeroE:
  assumes "compared_with_zero N1 = Some (Some (LHS, CC))"
  obtains L R c where "kind (fst N1) = SETCC" "nodeOperand (fst N1) 0 = Some L" "nodeOperand (fst N1) 1 = Some R"
    "nodeOperand (fst N1) 2 = Some c" "kind (fst c) = CONDCODE CC"
    "LHS = (if isNullConstant L then R else L)" "isNullConstant (if isNullConstant L then L else R)"
    "CC = SETEQ \<or> CC = SETNE"
proof -
  have k: "kind (fst N1) = SETCC" using assms by (cases "kind (fst N1) = SETCC") (simp_all add: compared_with_zero_def)
  obtain L R c where o: "nodeOperand (fst N1) 0 = Some L" "nodeOperand (fst N1) 1 = Some R" "nodeOperand (fst N1) 2 = Some c"
    using assms k by (auto simp: compared_with_zero_def bind_eq_Some_conv)
  obtain C where C: "kind (fst c) = CONDCODE C"
    using assms k o by (cases "kind (fst c)") (simp_all add: compared_with_zero_def)
  have cc: "C = SETEQ \<or> C = SETNE"
    using assms k o C by (cases C) (simp_all add: compared_with_zero_def)
  obtain ty where ty: "getValueType L = Some ty"
    using assms k o C cc by (cases "getValueType L") (auto simp: compared_with_zero_def)
  have I: "ty = I257" using assms k o C cc ty by (cases "ty = I257") (auto simp: compared_with_zero_def)
  have "C = CC \<and> LHS = (if isNullConstant L then R else L) \<and> isNullConstant (if isNullConstant L then L else R)"
    using assms k o C cc ty I by (cases "isNullConstant L"; cases "isNullConstant R") (auto simp: compared_with_zero_def)
  then show thesis using that k o C cc by blast
qed

lemma compared_with_zero_value:
  assumes "compared_with_zero N1 = Some (Some (LHS, CC))"
  shows "cond_holds (dag_eval env (fst N1) (snd N1)) =
     map_option (\<lambda>c. c = (CC = SETNE)) (cond_holds (dag_eval env (fst LHS) (snd LHS)))" "CC = SETEQ \<or> CC = SETNE"
proof -
  obtain L R c where N1: "kind (fst N1) = SETCC" "nodeOperand (fst N1) 0 = Some L" "nodeOperand (fst N1) 1 = Some R"
      "nodeOperand (fst N1) 2 = Some c" "kind (fst c) = CONDCODE CC"
      "LHS = (if isNullConstant L then R else L)" "isNullConstant (if isNullConstant L then L else R)"
      and CC: "CC = SETEQ \<or> CC = SETNE"
    by (rule compared_with_zeroE [OF assms])
  show "CC = SETEQ \<or> CC = SETNE" by (rule CC)
  show "cond_holds (dag_eval env (fst N1) (snd N1)) =
     map_option (\<lambda>c. c = (CC = SETNE)) (cond_holds (dag_eval env (fst LHS) (snd LHS)))"
  proof (cases "isNullConstant L")
    case True
    then show ?thesis
      using setcc_value [OF N1(1-5) CC, of env "snd N1"] null_value [OF True, of env] N1(6) CC
      by (auto simp: cond_holds_def split: SVal.split)
  next
    case False
    then have "isNullConstant R" using N1(7) by simp
    then show ?thesis
      using setcc_value [OF N1(1-5) CC, of env "snd N1"] null_value [of R env] N1(6) False CC
      by (auto simp: cond_holds_def split: SVal.split)
  qed
qed

lemma branch_on_compared:
  assumes "compared_with_zero N1 = Some (Some (LHS, CC))"
  shows "branch_on env N1 t e = (if CC = SETEQ then branch_on env LHS e t else branch_on env LHS t e)"
proof -
  note v = compared_with_zero_value(1) [OF assms, of env] compared_with_zero_value(2) [OF assms]
  show ?thesis
    using v by (cases "cond_holds (dag_eval env (fst LHS) (snd LHS))") (auto simp: branch_on_def)
qed

lemma performIFELSECombine_target:
  assumes "kind N = T_IFELSE" "performIFELSECombine N = Some (Some M)"
  shows "dag_target env M = dag_target env N"
proof -
  obtain Chain N1 T E where o: "nodeOperand N 0 = Some Chain" "nodeOperand N 1 = Some N1" "nodeOperand N 2 = Some T"
      "nodeOperand N 3 = Some E"
    using assms(2) by (auto simp: performIFELSECombine_def bind_eq_Some_conv)
  obtain LHS CC where z: "compared_with_zero N1 = Some (Some (LHS, CC))"
    using assms(2) o by (cases "compared_with_zero N1") (auto simp: performIFELSECombine_def split: option.splits)
  have "M = fst (getNode T_IFELSE [OtherVT] [Chain, LHS, if CC = SETEQ then E else T, if CC = SETEQ then T else E])"
    using assms(2) o z by (auto simp: performIFELSECombine_def)
  then show ?thesis
    using assms(1) o
    by (cases "wrapped_number T"; cases "wrapped_number E") (auto simp: dag_target_def branch_on_compared [OF z])
qed

lemma performIFJMPCombine_target:
  assumes "kind N = T_IFJMP" "performIFJMPCombine N = Some (Some M)"
  shows "dag_target env M = dag_target env N"
proof -
  obtain Chain N1 T where o: "nodeOperand N 0 = Some Chain" "nodeOperand N 1 = Some N1" "nodeOperand N 2 = Some T"
    using assms(2) by (auto simp: performIFJMPCombine_def bind_eq_Some_conv)
  obtain LHS CC where z: "compared_with_zero N1 = Some (Some (LHS, CC))"
    using assms(2) o by (cases "compared_with_zero N1") (auto simp: performIFJMPCombine_def split: option.splits)
  have "CC = SETNE" "M = fst (getNode T_IFJMP [OtherVT] [Chain, LHS, T])"
    using assms(2) o z by (auto simp: performIFJMPCombine_def split: if_splits)
  then show ?thesis
    using assms(1) o by (auto simp: dag_target_def branch_on_compared [OF z])
qed

lemma truncateMask_value:
  assumes "kind N = TRUNCATE" "truncateMask u l N = Some (Some M)"
  shows "dag_eval env M 0 = dag_eval env N n"
    and "\<exists>a r. nodeOperand M 0 = Some a \<and> kind (fst a) = T_AND \<and>
      (\<exists>ty. getValueType (N, 0) = Some ty \<and> vt_bits ty = Some r) \<and>
      (\<forall>x. dag_eval env (fst a) (snd a) = VInt x \<longrightarrow> 0 \<le> x \<and> x < 2 ^ r \<and> dag_eval env N n = VInt x)"
proof -
  obtain ty v ty' where o: "getValueType (N, 0) = Some ty" "nodeOperand N 0 = Some v" "getValueType v = Some ty'"
    using assms(2) by (auto simp: truncateMask_def bind_eq_Some_conv split: if_splits)
  obtain r n' where r: "vt_bits ty = Some r" "vt_bits ty' = Some n'"
    using assms(2) o by (cases "vt_bits ty"; cases "vt_bits ty'") (auto simp: truncateMask_def split: if_splits)
  define a where "a = getNode T_AND [ty'] [v, leaf (Constant (2 ^ r - 1)) ty']"
  have M: "M = fst (getNode TRUNCATE [ty] [a])"
    using assms(2) o r by (auto simp: truncateMask_def a_def split: if_splits)
  obtain k i vts os where N: "N = SDNode k i vts os" by (cases N)
  have vts: "vts = ty # tl vts" using o(1) N by (cases vts) (auto simp: getValueType_def)
  have os: "os = v # tl os" using o(2) N by (cases os) (auto simp: nodeOperand_def)
  have evN: "dag_eval env N n = (case dag_eval env (fst v) (snd v) of VInt x \<Rightarrow> VInt (x mod 2 ^ r) | _ \<Rightarrow> VErr)"
    unfolding N by (subst vts, subst os) (use assms(1) N r in \<open>auto simp: node_value_def split: SVal.split\<close>)
  have eva: "dag_eval env (fst a) (snd a) = (case dag_eval env (fst v) (snd v) of VInt x \<Rightarrow> VInt (x mod 2 ^ r) | _ \<Rightarrow> VErr)"
    by (auto simp: a_def getNode_def leaf_def node_value_def mask_eq_exp_minus_1 [symmetric] take_bit_eq_mask [symmetric]
        take_bit_eq_mod split: SVal.split)
  have evM: "dag_eval env M 0 = (case dag_eval env (fst a) (snd a) of VInt x \<Rightarrow> VInt (x mod 2 ^ r) | _ \<Rightarrow> VErr)"
    using r by (auto simp: M getNode_def node_value_def split: SVal.split)
  show "dag_eval env M 0 = dag_eval env N n" by (auto simp: evM evN eva split: SVal.split)
  show "\<exists>a r. nodeOperand M 0 = Some a \<and> kind (fst a) = T_AND \<and>
      (\<exists>ty. getValueType (N, 0) = Some ty \<and> vt_bits ty = Some r) \<and>
      (\<forall>x. dag_eval env (fst a) (snd a) = VInt x \<longrightarrow> 0 \<le> x \<and> x < 2 ^ r \<and> dag_eval env N n = VInt x)"
  proof (intro exI conjI)
    show "nodeOperand M 0 = Some a" by (simp add: M)
    show "kind (fst a) = T_AND" by (simp add: a_def)
    show "getValueType (N, 0) = Some ty" "vt_bits ty = Some r" by (fact o r)+
    show "\<forall>x. dag_eval env (fst a) (snd a) = VInt x \<longrightarrow> 0 \<le> x \<and> x < 2 ^ r \<and> dag_eval env N n = VInt x"
      by (auto simp: eva evN split: SVal.splits)
  qed
qed

text \<open>Every combine keeps what the node means.\<close>

lemma PerformDAGCombine_keeps:
  assumes "PerformDAGCombine u l N = Some (Some v)"
  shows "kind N \<in> {T_IFELSE, T_IFJMP} \<Longrightarrow> dag_target env (fst v) = dag_target env N"
    and "kind N \<in> {TRUNCATE, ANY_EXTEND} \<Longrightarrow> dag_eval env (fst v) (snd v) = dag_eval env N n"
proof -
  show "dag_target env (fst v) = dag_target env N" if "kind N \<in> {T_IFELSE, T_IFJMP}"
    using that assms performIFELSECombine_target performIFJMPCombine_target
    by (auto simp: PerformDAGCombine_def)
  assume "kind N \<in> {TRUNCATE, ANY_EXTEND}"
  then consider "kind N = TRUNCATE" | "kind N = ANY_EXTEND" by blast
  then show "dag_eval env (fst v) (snd v) = dag_eval env N n"
  proof cases
    case 1
    then show ?thesis using assms truncateMask_value(1) by (auto simp: PerformDAGCombine_def)
  next
    case 2
    then have op0: "nodeOperand N 0 = Some v"
      using assms by (auto simp: PerformDAGCombine_def bind_eq_Some_conv split: if_splits)
    obtain k i vts os where N: "N = SDNode k i vts os" by (cases N)
    then obtain os' where "os = v # os'" using op0 by (cases os) (auto simp: nodeOperand_def)
    then show ?thesis using 2 N by (simp add: node_value_def)
  qed
qed

lemma PerformDAGCombine_kinds:
  assumes "PerformDAGCombine u l N = Some (Some v)"
  shows "kind N \<in> {T_IFELSE, T_IFJMP, TRUNCATE, ANY_EXTEND}"
  using assms by (cases "kind N") (simp_all add: PerformDAGCombine_def)

section \<open>Retrieving from a slice\<close>

text \<open>
  The lowering loads from the bits that LDSLICEX cut off, not from the rest behind them, and gives the
  rest of the slice instead of the reference.
\<close>

lemma retrieve_bits:
  assumes "ops Op = [Chain, (SDNode (IntrinsicId i) x ts [], 0), s, f, l]"
    and "i = tvm_retrieve_signed \<or> i = tvm_retrieve_unsigned"
    and "dag_eval env (fst s) (snd s) = VSlice bs refs"
    and "dag_eval env (fst f) (snd f) = VInt (int n)" "dag_eval env (fst l) (snd l) = VInt (int m)"
    and "n \<le> length bs" "n \<le> 1023" "m \<le> 256"
  shows "\<exists>M. LowerINTRINSIC_W_CHAIN Op = Some (Some M) \<and> dag_eval env M 0 =
     (if m \<le> n then VInt ((if i = tvm_retrieve_signed then bits_signed else bits_unsigned) (take m bs)) else VErr)"
  using assms
  by (auto simp: LowerINTRINSIC_W_CHAIN_def nodeOperand_def getNode_def node_value_def cut_def numeral_eq_Suc)

lemma retrieve_ref:
  assumes "ops Op = [Chain, (SDNode (IntrinsicId tvm_retrieve_ref) x ts [], 0), s]"
    and "dag_eval env (fst s) (snd s) = VSlice bs (r # refs)"
  shows "\<exists>M. LowerINTRINSIC_W_CHAIN Op = Some (Some M) \<and> dag_eval env M 0 = VSlice bs refs"
  using assms
  by (auto simp: LowerINTRINSIC_W_CHAIN_def nodeOperand_def getNode_def node_value_def numeral_eq_Suc)

section \<open>Calls\<close>

text \<open>A function is called as a macro exactly when it is printed as one, raw functions apart.\<close>

lemma call_header:
  assumes "kind Callee = GlobalAddress g off" "fns g = Some F"
  shows "\<not> rawFunc F \<Longrightarrow> isDictCall fns Callee \<longleftrightarrow> EmitFunctionHeader F \<noteq> MacroHeader"
    and "rawFunc F \<Longrightarrow> EmitFunctionHeader F \<noteq> MacroHeader"
  using assms by (simp_all add: isDictCall_def EmitFunctionHeader_def)

lemma LowerCall_kind:
  assumes "LowerCall fns Chain Callee OutVals Ins = Some (InVals, C')"
  shows "length InVals = length Ins"
    "kind (fst C') \<in> (if isDictCall fns (fst Callee) then {CALLDICT0, CALLDICT1, CALLDICTN} else {CALL0, CALL1, CALLN})"
    "getValueType C' = Some OtherVT" "list_all2 (\<lambda>v ty. getValueType v = Some ty) InVals Ins"
proof -
  define cmd where "cmd = callCmd (isDictCall fns (fst Callee)) (length Ins)"
  obtain os where "InVals = map (Pair (fst (getNode cmd (Ins @ [OtherVT]) os))) [0..<length Ins]"
      "C' = (fst (getNode cmd (Ins @ [OtherVT]) os), length Ins)"
    using assms by (auto simp: LowerCall_def Let_def cmd_def split: if_splits)
  then show "length InVals = length Ins"
    "kind (fst C') \<in> (if isDictCall fns (fst Callee) then {CALLDICT0, CALLDICT1, CALLDICTN} else {CALL0, CALL1, CALLN})"
    "getValueType C' = Some OtherVT" "list_all2 (\<lambda>v ty. getValueType v = Some ty) InVals Ins"
    by (auto simp: cmd_def callCmd_def getValueType_def list_all2_conv_all_nth nth_append)
qed

section \<open>Tuples\<close>

text \<open>From the intrinsic to the instruction.\<close>

lemma tuple_selected:
  assumes "ops Op = (SDNode (IntrinsicId tvm_tuple) x ts [], 0) # vs"
  shows "\<exists>M S. LowerINTRINSIC_WO_CHAIN Op = Some (Some M) \<and> Select M = Some (Some S) \<and>
     (kind S, ops S) =
       (if vs = [] then (M_NIL, [])
        else if length vs \<le> 15 then (M_TUPLE, vs @ [leaf (TargetConstant (int (length vs))) I257])
        else (M_TUPLEVAR, vs @ [leaf (Constant (int (length vs))) I257]))"
  using assms
  by (auto simp: LowerINTRINSIC_WO_CHAIN_def nodeOperand_def Select_def SmallTupleLimit_def leaf_def Let_def)

section \<open>The search for the saved c0\<close>

text \<open>The node that SaveC0 marks is among the nodes below.\<close>

fun reaches_push :: "SDNode \<Rightarrow> bool" where
  "reaches_push (SDNode k i vts os) \<longleftrightarrow>
     i = PUSH_C0_FUNCTION_UNIQUE_ID \<or> list_ex (\<lambda>v. reaches_push (fst v)) os"

fun below :: "SDNode \<Rightarrow> SDNode set" where
  "below (SDNode k i vts os) = insert (SDNode k i vts os) (\<Union>v \<in> set os. below (fst v))"

text \<open>Ids that tell the nodes of U apart as far as the search goes, and a cache without the marked node's users.\<close>

definition ids_ok :: "SDNode set \<Rightarrow> bool" where
  "ids_ok U \<longleftrightarrow> (\<forall>A \<in> U. \<forall>B \<in> U. nodeId A = nodeId B \<longrightarrow> A = B)"

definition cache_ok :: "SDNode set \<Rightarrow> int set \<Rightarrow> bool" where
  "cache_ok U cache \<longleftrightarrow> (\<forall>A \<in> U. nodeId A \<in> cache \<longrightarrow> \<not> reaches_push A)"

lemma below_self: "N \<in> below N"
  by (cases N) simp

lemma hasPushC0_search:
  assumes "ids_ok U"
  shows "below N \<subseteq> U \<Longrightarrow> cache_ok U cache \<Longrightarrow>
      fst (hasPushC0Predecessor N cache) = reaches_push N \<and> cache_ok U (snd (hasPushC0Predecessor N cache))"
    and "(\<Union>v \<in> set vs. below (fst v)) \<subseteq> U \<Longrightarrow> cache_ok U cache \<Longrightarrow>
      fst (hasPushC0_ops vs cache) = list_ex (\<lambda>v. reaches_push (fst v)) vs \<and> cache_ok U (snd (hasPushC0_ops vs cache))"
proof (induction N cache and vs cache rule: hasPushC0Predecessor_hasPushC0_ops.induct)
  case (1 k i vts os cache)
  let ?N = "SDNode k i vts os"
  have N: "?N \<in> U" using 1(2) below_self by blast
  show ?case
  proof (cases "i = PUSH_C0_FUNCTION_UNIQUE_ID \<or> i \<in> cache")
    case True
    then show ?thesis using N 1(3) by (fastforce simp: cache_ok_def)
  next
    case False
    have sub: "(\<Union>v \<in> set os. below (fst v)) \<subseteq> U" using 1(2) by simp
    have IH: "fst (hasPushC0_ops os cache) = list_ex (\<lambda>v. reaches_push (fst v)) os"
        "cache_ok U (snd (hasPushC0_ops os cache))"
      using 1(1) False sub 1(3) by blast+
    obtain r c where rc: "hasPushC0_ops os cache = (r, c)" by fastforce
    show ?thesis
    proof (cases r)
      case True
      then show ?thesis using IH rc False by simp
    next
      case r: False
      have not: "\<not> reaches_push ?N" using IH(1) rc r False by simp
      have "cache_ok U (insert i c)"
        unfolding cache_ok_def
      proof (intro ballI impI)
        fix A assume A: "A \<in> U" "nodeId A \<in> insert i c"
        show "\<not> reaches_push A"
        proof (cases "nodeId A = i")
          case True
          then have "A = ?N" using assms A(1) N unfolding ids_ok_def by (metis SDNode.sel(2))
          then show ?thesis using not by simp
        next
          case False
          then show ?thesis using A IH(2) rc by (auto simp: cache_ok_def)
        qed
      qed
      then show ?thesis using rc r False IH(1) by simp
    qed
  qed
next
  case (3 v vs cache)
  obtain r c where rc: "hasPushC0Predecessor (fst v) cache = (r, c)" by fastforce
  have head: "r = reaches_push (fst v)" "cache_ok U c" using 3(1,3,4) rc by auto
  show ?case
  proof (cases r)
    case True
    then show ?thesis using rc head by simp
  next
    case False
    have "fst (hasPushC0_ops vs c) = list_ex (\<lambda>v. reaches_push (fst v)) vs \<and> cache_ok U (snd (hasPushC0_ops vs c))"
      using 3(2) [OF rc [symmetric]] False 3(3) head(2) by simp
    then show ?thesis using rc head False by simp
  qed
qed simp

text \<open>A shared id hides the marked node: fresh nodes all have the id -1.\<close>

lemma hasPushC0_shared_id:
  assumes "\<not> fst (hasPushC0Predecessor A cache)" "nodeId B = nodeId A"
  shows "\<not> fst (hasPushC0Predecessor B (snd (hasPushC0Predecessor A cache)))"
  using assms by (cases A; cases B) (auto split: prod.splits bool.splits if_splits)

end
