(* ===== verification/TVM_BlockUses.thy ===== *)
theory TVM_BlockUses
  imports TVM_Branch
begin

text \<open>
  ReplaceUsesOfBlockWith: the jumps of a block are sent from one block to another, by changing the
  PUSHCONT_MBB a terminator uses or by giving the terminator a new one. With enumMBBoperands,
  replaceSuccessor, and the theorem that exactly the jumps of this block are redirected.
\<close>

section \<open>The hook\<close>

text \<open>The operands of a terminator that hold a continuation.\<close>

definition enumMBBoperands :: "MachineInstr \<Rightarrow> nat list option" where
  "enumMBBoperands Term =
     (if getOpcode Term \<in> {IF, IFNOT, IFJMP, IFNOTJMP} then Some [1]
      else if getOpcode Term = IFELSE then Some [1, 2]
      else if getOpcode Term = JMPX then Some [0]
      else None)"

text \<open>The uses of a register: block, instruction and operand.\<close>

definition use_sites :: "MCInstrInfo \<Rightarrow> MachineFn \<Rightarrow> nat \<Rightarrow> (nat \<times> nat \<times> nat) list" where
  "use_sites D F r =
     concat (map (\<lambda>b. concat (map (\<lambda>i. map (\<lambda>k. (b, i, k))
       (filter (\<lambda>k. isReg (operands (insts F b ! i) ! k) \<and> getReg (operands (insts F b ! i) ! k) = r)
         [NumDefs D (getOpcode (insts F b ! i))..<length (operands (insts F b ! i))]))
       (filter (\<lambda>i. \<not> isDebugInstr (insts F b ! i)) [0..<length (insts F b)]))) (blockIds F))"

definition hasOneNonDBGUse :: "MCInstrInfo \<Rightarrow> MachineFn \<Rightarrow> nat \<Rightarrow> bool" where
  "hasOneNonDBGUse D F r \<longleftrightarrow> length (use_sites D F r) = 1"

definition set_operand :: "nat \<Rightarrow> MachineOperand \<Rightarrow> MachineInstr \<Rightarrow> MachineInstr" where
  "set_operand k opd MI = MI \<lparr> operands := (operands MI)[k := opd] \<rparr>"

definition setReg :: "nat \<Rightarrow> MachineOperand \<Rightarrow> MachineOperand" where
  "setReg r opd = MO_Register r (isUndef opd) (isDead opd)"

text \<open>setMBB on operand 1 of the instruction that defines r.\<close>

definition set_def_block :: "MCInstrInfo \<Rightarrow> nat \<Rightarrow> nat \<Rightarrow> MachineFn \<Rightarrow> MachineFn" where
  "set_def_block D r New F = F \<lparr> insts := \<lambda>b. map (\<lambda>MI.
     if sets_reg D r MI then set_operand 1 (MO_MachineBasicBlock New) MI else MI) (insts F b) \<rparr>"

definition insert_instr :: "nat \<Rightarrow> 'a \<Rightarrow> 'a list \<Rightarrow> 'a list" where
  "insert_instr i x xs = take i xs @ x # drop i xs"

text \<open>
  Operand k of the j-th terminator. The terminators stay the j-th from the first one, since a new
  PUSHCONT_MBB is inserted before them.
\<close>

definition replaceUse ::
  "MCInstrInfo \<Rightarrow> nat \<Rightarrow> nat \<Rightarrow> nat \<Rightarrow> nat \<Rightarrow> nat \<Rightarrow> MachineFn \<Rightarrow> MachineFn option" where
  "replaceUse D Pred Old New j k F = do {
     p \<leftarrow> getFirstTerminator D (insts F Pred);
     let Term = insts F Pred ! (p + j);
     Op \<leftarrow> getOperand Term k;
     if \<not> isReg Op then Some F
     else do {
       def \<leftarrow> getVRegDef D F (getReg Op);
       PushMI \<leftarrow> def;
       if getOpcode PushMI \<noteq> PUSHCONT_MBB then Some F
       else do {
         b \<leftarrow> block_of PushMI;
         if b \<noteq> Old then Some F
         else if hasOneNonDBGUse D F (getReg Op) then Some (set_def_block D (getReg Op) New F)
         else do {
           let (r, F1) = createVirtualRegister F;
           let B = (insts F Pred)[p + j := set_operand k (setReg r Op) Term];
           Some (set_code Pred (insert_instr p (pushcont r New) B) F1) } } } }"

definition replaceTerm ::
  "MCInstrInfo \<Rightarrow> nat \<Rightarrow> nat \<Rightarrow> nat \<Rightarrow> nat \<Rightarrow> MachineFn \<Rightarrow> MachineFn option" where
  "replaceTerm D Pred Old New j F = do {
     p \<leftarrow> getFirstTerminator D (insts F Pred);
     ks \<leftarrow> enumMBBoperands (insts F Pred ! (p + j));
     foldM (replaceUse D Pred Old New j) ks F }"

text \<open>The scan of replaceSuccessor: the places of New and of Old, until both are known.\<close>

fun scan_succs :: "nat \<Rightarrow> nat \<Rightarrow> nat \<Rightarrow> nat option \<Rightarrow> nat option \<Rightarrow> nat list \<Rightarrow> nat option \<times> nat option" where
  "scan_succs Old New i NewI OldI [] = (NewI, OldI)"
| "scan_succs Old New i NewI OldI (s # ss) =
     (if s = Old then if NewI \<noteq> None then (NewI, Some i) else scan_succs Old New (i + 1) NewI (Some i) ss
      else if s = New then if OldI \<noteq> None then (Some i, OldI) else scan_succs Old New (i + 1) (Some i) OldI ss
      else scan_succs Old New (i + 1) NewI OldI ss)"

definition replaceSuccessor :: "nat \<Rightarrow> nat \<Rightarrow> nat list \<Rightarrow> nat list option" where
  "replaceSuccessor Old New ss =
     (if Old = New then Some ss
      else case scan_succs Old New 0 None None ss of
        (_, None) \<Rightarrow> None
      | (None, Some o') \<Rightarrow> Some (ss[o' := New])
      | (Some n, Some o') \<Rightarrow> Some (take o' ss @ drop (o' + 1) ss))"

definition ReplaceUsesOfBlockWith ::
  "MCInstrInfo \<Rightarrow> nat \<Rightarrow> nat \<Rightarrow> nat \<Rightarrow> MachineFn \<Rightarrow> MachineFn option" where
  "ReplaceUsesOfBlockWith D Pred Old New F = do {
     F1 \<leftarrow> (case getFirstTerminator D (insts F Pred) of
             None \<Rightarrow> Some F
           | Some p \<Rightarrow> foldM (replaceTerm D Pred Old New) [0..<length (insts F Pred) - p] F);
     ss \<leftarrow> replaceSuccessor Old New (succs F1 Pred);
     Some (F1 \<lparr> succs := (succs F1)(Pred := ss) \<rparr>) }"

section \<open>Where a continuation operand leads\<close>

text \<open>The instructions that take a continuation, and the block an operand of theirs enters.\<close>

definition takes_cont :: "MachineInstr \<Rightarrow> bool" where
  "takes_cont I \<longleftrightarrow> getOpcode I \<in> {IF, IFNOT, IFJMP, IFNOTJMP, IFELSE, JMPX}"

definition cont_desc :: "MCInstrInfo \<Rightarrow> bool" where
  "cont_desc D \<longleftrightarrow> branch_desc D \<and> NumDefs D IF = 0 \<and> NumDefs D IFNOT = 0"

definition leads_to :: "MCInstrInfo \<Rightarrow> MachineFn \<Rightarrow> MachineInstr \<Rightarrow> nat \<Rightarrow> nat option" where
  "leads_to D F I k = do { r \<leftarrow> reg_operand I k; cont_target D F r }"

definition redirect :: "nat \<Rightarrow> nat \<Rightarrow> nat \<Rightarrow> nat" where
  "redirect Old New b = (if b = Old then New else b)"

lemma takes_cont_desc:
  assumes "cont_desc D" "takes_cont I"
  shows "NumDefs D (getOpcode I) = 0" "\<not> sets_reg D r I" "\<not> isDebugInstr I"
  using assms
  by (auto simp: cont_desc_def takes_cont_def branch_desc_def sets_reg_def defs_def isDebugInstr_def)

lemma jump_of_leads:
  "jump_of D F I c =
     (if getOpcode I = JMPX then map_option Some (leads_to D F I 0)
      else if getOpcode I = IFELSE then map_option Some (leads_to D F I (if c then 1 else 2))
      else if getOpcode I = IFJMP \<or> getOpcode I = IFNOTJMP
      then if c = (getOpcode I = IFJMP) then map_option Some (leads_to D F I 1) else Some None
      else None)"
  by (simp add: jump_of_def leads_to_def map_conv_bind_option comp_def)

lemma jump_of_redirect:
  assumes "getOpcode I' = getOpcode I" "enumMBBoperands I = Some ks"
    and "\<And>k. k \<in> set ks \<Longrightarrow> leads_to D F' I' k = map_option g (leads_to D F I k)"
  shows "jump_of D F' I' c = map_option (map_option g) (jump_of D F I c)"
  using assms
  by (auto simp: jump_of_leads enumMBBoperands_def option.map_comp comp_def split: if_splits)

lemma jump_of_same:
  assumes "getOpcode I' = getOpcode I"
    and "takes_cont I \<Longrightarrow> \<forall>k. leads_to D F' I' k = leads_to D F I k"
  shows "jump_of D F' I' c = jump_of D F I c"
  using assms by (auto simp: jump_of_leads takes_cont_def)

text \<open>A use that is counted once is the only one.\<close>

lemma set_use_sites:
  "(b, i, k) \<in> set (use_sites D F r) \<longleftrightarrow>
     b \<in> set (blockIds F) \<and> i < length (insts F b) \<and> \<not> isDebugInstr (insts F b ! i) \<and>
     NumDefs D (getOpcode (insts F b ! i)) \<le> k \<and> reg_operand (insts F b ! i) k = Some r"
  by (auto simp: use_sites_def image_iff reg_operand_def getOperand_def bind_eq_Some_conv)

lemma one_use:
  assumes "hasOneNonDBGUse D F r" "x \<in> set (use_sites D F r)" "y \<in> set (use_sites D F r)"
  shows "x = y"
proof -
  obtain z where "use_sites D F r = [z]"
    using assms(1) by (cases "use_sites D F r") (auto simp: hasOneNonDBGUse_def)
  with assms show ?thesis by simp
qed

section \<open>The two edits\<close>

lemma sets_reg_set_operand:
  "NumDefs D (getOpcode MI) \<le> k \<Longrightarrow> sets_reg D r (set_operand k opd MI) \<longleftrightarrow> sets_reg D r MI"
  by (simp add: sets_reg_def defs_def set_operand_def)

lemma filter_map_keep:
  assumes "\<And>x. x \<in> set xs \<Longrightarrow> P (f x) = P x"
  shows "filter P (map f xs) = map f (filter P xs)"
  using assms by (induction xs) auto

lemma def_instrs_map:
  assumes "\<And>b MI. b \<in> set (blockIds F) \<Longrightarrow> MI \<in> set (insts F b) \<Longrightarrow> sets_reg D r' (f MI) = sets_reg D r' MI"
  shows "def_instrs D (F \<lparr> insts := \<lambda>b. map f (insts F b) \<rparr>) r' = map f (def_instrs D F r')"
  unfolding def_instrs_def
  using assms by (subst filter_map_keep [symmetric]) (auto simp: map_concat comp_def)

text \<open>The block of the one definition of r is changed: only r leads elsewhere.\<close>

lemma set_def_block_target:
  assumes D: "NumDefs D PUSHCONT_MBB = 1" and P: "def_instrs D F r = [P]" "getOpcode P = PUSHCONT_MBB"
    and b: "block_of P = Some b"
  shows "cont_target D (set_def_block D r New F) r' =
    (if r' = r then Some New else cont_target D F r')"
proof -
  let ?f = "\<lambda>MI. if sets_reg D r MI then set_operand 1 (MO_MachineBasicBlock New) MI else MI"
  have only: "MI = P" if "B \<in> set (blockIds F)" "MI \<in> set (insts F B)" "sets_reg D r MI" for B MI
  proof -
    have "MI \<in> set (def_instrs D F r)" using that by (auto simp: def_instrs_def)
    then show ?thesis using P(1) by simp
  qed
  have defs: "def_instrs D (set_def_block D r New F) q = map ?f (def_instrs D F q)" for q
    unfolding set_def_block_def
    by (rule def_instrs_map) (use only D P(2) in \<open>auto simp: sets_reg_set_operand\<close>)
  have "P \<in> set (def_instrs D F r)" using P(1) by simp
  then have Pr: "sets_reg D r P" by (auto simp: def_instrs_def)
  have len: "1 < length (operands P)" using b by (auto simp: block_of_def getOperand_def bind_eq_Some_conv split: if_splits)
  show ?thesis
  proof (cases "r' = r")
    case True
    then show ?thesis
      using P Pr len
      by (simp add: cont_target_def push_of_def getVRegDef_def defs block_of_def getOperand_def set_operand_def)
  next
    case False
    have "\<not> sets_reg D r MI" if "MI \<in> set (def_instrs D F r')" for MI
    proof
      assume r: "sets_reg D r MI"
      have "sets_reg D r' MI" using that by (auto simp: def_instrs_def)
      moreover have "MI = P" using that r only by (auto simp: def_instrs_def)
      ultimately show False
        using Pr D P(2) False by (cases "operands P") (auto simp: sets_reg_def defs_def)
    qed
    then have "map ?f (def_instrs D F r') = def_instrs D F r'" by (simp add: map_idI)
    then show ?thesis using False by (simp add: cont_target_def push_of_def getVRegDef_def defs)
  qed
qed

text \<open>A new continuation before the first terminator, whose operand is set to it.\<close>

definition new_cont_code ::
  "nat \<Rightarrow> nat \<Rightarrow> nat \<Rightarrow> nat \<Rightarrow> nat \<Rightarrow> MachineOperand \<Rightarrow> MachineInstr list \<Rightarrow> MachineInstr list" where
  "new_cont_code p j k New r Op B =
     insert_instr p (pushcont r New) (B[p + j := set_operand k (setReg r Op) (B ! (p + j))])"

lemma nth_new_cont_code:
  assumes "p + j < length B"
  shows "i < p \<Longrightarrow> new_cont_code p j k New r Op B ! i = B ! i"
    and "p + m < length B \<Longrightarrow> new_cont_code p j k New r Op B ! (p + 1 + m) =
      (if m = j then set_operand k (setReg r Op) (B ! (p + j)) else B ! (p + m))"
    and "length (new_cont_code p j k New r Op B) = length B + 1"
  using assms by (auto simp: new_cont_code_def insert_instr_def nth_append nth_Cons min_def)

lemma filter_new_cont_code:
  assumes "p + j < length B" "\<not> P (B ! (p + j))" "\<not> P (set_operand k (setReg r Op) (B ! (p + j)))"
  shows "filter P (new_cont_code p j k New r Op B) =
    filter P (take p B) @ (if P (pushcont r New) then [pushcont r New] else []) @ filter P (drop p B)"
proof -
  let ?T = "set_operand k (setReg r Op) (B ! (p + j))"
  have "take p (B[p + j := ?T]) = take p B" by simp
  moreover have "drop p (B[p + j := ?T]) = (drop p B)[j := ?T]"
    using assms(1) by (simp add: drop_update_swap)
  moreover have "filter P ((drop p B)[j := ?T]) = filter P (drop p B)"
  proof -
    have j: "j < length (drop p B)" "drop p B ! j = B ! (p + j)" using assms(1) by auto
    then have "drop p B = take j (drop p B) @ B ! (p + j) # drop (Suc j) (drop p B)"
      by (metis id_take_nth_drop)
    then have "filter P (drop p B) = filter P (take j (drop p B)) @ filter P (drop (Suc j) (drop p B))"
      using assms(2) by (metis filter.simps(2) filter_append)
    moreover have "(drop p B)[j := ?T] = take j (drop p B) @ ?T # drop (Suc j) (drop p B)"
      using j(1) by (rule upd_conv_take_nth_drop)
    ultimately show ?thesis using assms(3) by simp
  qed
  ultimately show ?thesis by (simp add: new_cont_code_def insert_instr_def)
qed

lemma set_operand_opcode [simp]: "getOpcode (set_operand k opd MI) = getOpcode MI"
  by (simp add: set_operand_def)

lemma new_cont_target:
  assumes D: "cont_desc D" and F: "fresh_regs F" "Pred \<in> set (blockIds F)" "distinct (blockIds F)"
    and T: "p + j < length (insts F Pred)" "takes_cont (insts F Pred ! (p + j))"
    and F1: "F1 = set_code Pred (new_cont_code p j k New (nextVReg F) Op (insts F Pred))
      (F \<lparr> nextVReg := nextVReg F + 1 \<rparr>)"
  shows "cont_target D F1 r = (if r = nextVReg F then Some New else cont_target D F r)" "fresh_regs F1"
proof -
  let ?B = "insts F Pred" and ?n = "nextVReg F"
  have br: "branch_desc D" using D by (simp add: cont_desc_def)
  have none: "\<not> sets_reg D q (?B ! (p + j))" "\<not> sets_reg D q (set_operand k (setReg ?n Op) (?B ! (p + j)))" for q
    using takes_cont_desc [OF D T(2)] by (simp_all add: sets_reg_set_operand)
  note fl = filter_new_cont_code [OF T(1), of "sets_reg D q" k ?n Op New for q, OF none]
  have old: "filter (sets_reg D q) (take p ?B) @ filter (sets_reg D q) (drop p ?B) = filter (sets_reg D q) ?B" for q
    by (metis append_take_drop_id filter_append)
  show "cont_target D F1 r = (if r = nextVReg F then Some New else cont_target D F r)"
  proof (cases "r = ?n")
    case False
    then have "filter (sets_reg D r) (new_cont_code p j k New ?n Op ?B) = filter (sets_reg D r) ?B"
      using old fl by (simp add: sets_reg_pushcont [OF br])
    then have "push_of D F1 r = push_of D (F \<lparr> nextVReg := ?n + 1 \<rparr>) r"
      unfolding F1 by (intro push_of_set_code) simp
    with False show ?thesis by (simp add: cont_target_def)
  next
    case True
    have "filter (sets_reg D ?n) (insts F b) = []" if "b \<in> set (blockIds F)" for b
      using F(1) that order_refl by (rule fresh_not_set)
    then have "filter (sets_reg D ?n) (insts F1 b) = (if b = Pred then [pushcont ?n New] else [])"
      if "b \<in> set (blockIds F)" for b
      using that fl [of ?n] old [of ?n] by (auto simp: F1 set_code_def sets_reg_pushcont [OF br])
    then have "def_instrs D F1 ?n =
        concat (map (\<lambda>b. if b = Pred then [pushcont ?n New] else []) (blockIds F))"
      unfolding def_instrs_def filter_concat_map
      by (auto simp: F1 set_code_def intro!: arg_cong [of _ _ concat])
    also have "\<dots> = [pushcont ?n New]" by (rule concat_single [OF F(3,2)])
    finally show ?thesis using True
      by (simp add: cont_target_def push_of_def getVRegDef_def block_of_def getOperand_def
          pushcont_def mk_instr_def)
  qed
  have "\<forall>opd \<in> set (operands MI). isReg opd \<longrightarrow> getReg opd < ?n + 1"
    if "MI \<in> set (new_cont_code p j k New ?n Op ?B)" for MI
  proof -
    have old: "\<forall>opd \<in> set (operands I). isReg opd \<longrightarrow> getReg opd < ?n" if "I \<in> set ?B" for I
      using F that by (simp add: fresh_regs_def)
    have "MI \<in> set ?B \<or> MI = pushcont ?n New \<or> MI = set_operand k (setReg ?n Op) (?B ! (p + j))"
      using that set_update_subset_insert [of ?B "p + j" "set_operand k (setReg ?n Op) (?B ! (p + j))"]
      by (auto simp: new_cont_code_def insert_instr_def dest: in_set_takeD in_set_dropD)
    then show ?thesis
    proof (elim disjE)
      assume "MI = set_operand k (setReg ?n Op) (?B ! (p + j))"
      then have "set (operands MI) \<subseteq> insert (setReg ?n Op) (set (operands (?B ! (p + j))))"
        by (simp add: set_operand_def set_update_subset_insert)
      then show ?thesis using old [OF nth_mem [OF T(1)]] by (force simp: setReg_def)
    qed (use old in \<open>auto simp: pushcont_def less_SucI\<close>)
  qed
  then show "fresh_regs F1" using F unfolding F1 fresh_regs_def set_code_def
    by (auto simp: less_SucI)
qed

section \<open>The first terminator under the edits\<close>

lemma first_terminator_facts:
  assumes "getFirstTerminator D B = Some p"
  shows "p < length B" "descTerminator D (getOpcode (B ! p))"
    "\<forall>I \<in> set (drop p B). descTerminator D (getOpcode I) \<or> isDebugInstr I"
proof -
  obtain A tail where B: "B = A @ tail" "\<forall>I \<in> set tail. descTerminator D (getOpcode I) \<or> isDebugInstr I"
      "getFirstTerminator D B = map_option (\<lambda>k. length A + k)
       (find_index True (map (\<lambda>I. descTerminator D (getOpcode I)) tail))"
    by (rule terminator_tail [of B D]) (rule that)
  then obtain k where k: "p = length A + k" "find_index True (map (\<lambda>I. descTerminator D (getOpcode I)) tail) = Some k"
    using assms by auto
  show "p < length B" "descTerminator D (getOpcode (B ! p))"
    using find_index_Some [OF k(2)] k(1) B(1) by auto
  show "\<forall>I \<in> set (drop p B). descTerminator D (getOpcode I) \<or> isDebugInstr I"
    using B(1,2) k(1) by (auto dest: in_set_dropD)
qed

lemma first_terminator_at:
  assumes "\<not> (descTerminator D (getOpcode x) \<or> isDebugInstr x)"
    and "\<forall>I \<in> set ts. descTerminator D (getOpcode I) \<or> isDebugInstr I"
    and "ts \<noteq> []" "descTerminator D (getOpcode (hd ts))"
  shows "getFirstTerminator D (A @ x # ts) = Some (length A + 1)"
proof -
  let ?P = "\<lambda>I. descTerminator D (getOpcode I) \<or> isDebugInstr I"
  have "takeWhile ?P (rev ts @ x # rev A) = rev ts"
    using assms(1,2) by (simp add: takeWhile_append)
  then have "takeWhile ?P (rev (A @ x # ts)) = rev ts" by simp
  then show ?thesis
    using assms(3,4) unfolding getFirstTerminator_def Let_def by (cases ts) auto
qed

lemma first_terminator_opcodes:
  assumes "map getOpcode B = map getOpcode B'"
  shows "getFirstTerminator D B = getFirstTerminator D B'"
proof -
  let ?t = "\<lambda>opc. descTerminator D opc" and ?d = "\<lambda>opc. opc = DBG_VALUE \<or> opc = DBG_LABEL"
  have "getFirstTerminator D C = (let opcs = map getOpcode C;
      start = length opcs - length (takeWhile (\<lambda>opc. ?t opc \<or> ?d opc) (rev opcs))
      in map_option (\<lambda>k. start + k) (find_index True (map ?t (drop start opcs))))" for C
    by (simp add: getFirstTerminator_def Let_def rev_map takeWhile_map drop_map comp_def isDebugInstr_def)
  with assms show ?thesis by (simp only:)
qed

lemma first_terminator_new_cont:
  assumes "cont_desc D" "getFirstTerminator D B = Some p" "p + j < length B"
  shows "getFirstTerminator D (new_cont_code p j k New r Op B) = Some (p + 1)"
proof -
  let ?B = "B[p + j := set_operand k (setReg r Op) (B ! (p + j))]"
  have ops: "map getOpcode ?B = map getOpcode B"
    by (simp add: map_update list_update_same_conv assms(3))
  then have "getFirstTerminator D ?B = Some p" using assms(2) first_terminator_opcodes by metis
  note f = first_terminator_facts [OF this]
  have "hd (drop p ?B) = ?B ! p" using f(1) by (simp add: hd_drop_conv_nth)
  then have "getFirstTerminator D (take p ?B @ pushcont r New # drop p ?B) = Some (length (take p ?B) + 1)"
    using f assms(1)
    by (intro first_terminator_at) (auto simp: pushcont_def isDebugInstr_def cont_desc_def branch_desc_def)
  then show ?thesis using assms(3) by (simp add: new_cont_code_def insert_instr_def min_def)
qed

section \<open>Exactly the jumps of the block are redirected\<close>

text \<open>
  What has changed after the operands S of Pred's terminators are handled: those that led to Old
  lead to New, every other continuation operand of the function leads where it led.
\<close>

definition same_lead :: "MCInstrInfo \<Rightarrow> MachineFn \<Rightarrow> MachineFn \<Rightarrow> MachineInstr \<Rightarrow> MachineInstr \<Rightarrow> bool" where
  "same_lead D F F' I I' \<longleftrightarrow> getOpcode I' = getOpcode I \<and>
     (takes_cont I \<longrightarrow> (\<forall>k. leads_to D F' I' k = leads_to D F I k))"

definition redirected ::
  "MCInstrInfo \<Rightarrow> nat \<Rightarrow> nat \<Rightarrow> nat \<Rightarrow> (nat \<times> nat) set \<Rightarrow> MachineFn \<Rightarrow> MachineFn \<Rightarrow> bool" where
  "redirected D Pred Old New S F F' \<longleftrightarrow>
     blockIds F' = blockIds F \<and> succs F' = succs F \<and> fresh_regs F' \<and>
     (\<forall>b \<in> set (blockIds F) - {Pred}. length (insts F' b) = length (insts F b) \<and>
        (\<forall>i < length (insts F b). same_lead D F F' (insts F b ! i) (insts F' b ! i))) \<and>
     (\<exists>p p'. getFirstTerminator D (insts F Pred) = Some p \<and> getFirstTerminator D (insts F' Pred) = Some p' \<and>
        length (insts F' Pred) + p = length (insts F Pred) + p' \<and>
        (\<forall>m. p + m < length (insts F Pred) \<longrightarrow>
           getOpcode (insts F' Pred ! (p' + m)) = getOpcode (insts F Pred ! (p + m)) \<and>
           (takes_cont (insts F Pred ! (p + m)) \<longrightarrow>
             (\<forall>k. leads_to D F' (insts F' Pred ! (p' + m)) k =
                (if (m, k) \<in> S then map_option (redirect Old New) (leads_to D F (insts F Pred ! (p + m)) k)
                 else leads_to D F (insts F Pred ! (p + m)) k)))))"

lemma redirected_start:
  "fresh_regs F \<Longrightarrow> getFirstTerminator D (insts F Pred) = Some p \<Longrightarrow> redirected D Pred Old New {} F F"
  by (simp add: redirected_def same_lead_def)

lemma takes_cont_opcode: "getOpcode I' = getOpcode I \<Longrightarrow> takes_cont I' = takes_cont I"
  by (simp add: takes_cont_def)

lemma redirected_trans:
  assumes "redirected D Pred Old New S F G" "redirected D Pred Old New S' G H" "S \<inter> S' = {}"
  shows "redirected D Pred Old New (S \<union> S') F H"
proof -
  obtain p q where pq: "getFirstTerminator D (insts F Pred) = Some p" "getFirstTerminator D (insts G Pred) = Some q"
      "length (insts G Pred) + p = length (insts F Pred) + q"
      "\<And>m. p + m < length (insts F Pred) \<Longrightarrow>
         getOpcode (insts G Pred ! (q + m)) = getOpcode (insts F Pred ! (p + m))"
      "\<And>m k. p + m < length (insts F Pred) \<Longrightarrow> takes_cont (insts F Pred ! (p + m)) \<Longrightarrow>
         leads_to D G (insts G Pred ! (q + m)) k =
           (if (m, k) \<in> S then map_option (redirect Old New) (leads_to D F (insts F Pred ! (p + m)) k)
            else leads_to D F (insts F Pred ! (p + m)) k)"
    using assms(1) unfolding redirected_def by blast
  obtain q' r where qr: "getFirstTerminator D (insts G Pred) = Some q'" "getFirstTerminator D (insts H Pred) = Some r"
      "length (insts H Pred) + q' = length (insts G Pred) + r"
      "\<And>m. q' + m < length (insts G Pred) \<Longrightarrow>
         getOpcode (insts H Pred ! (r + m)) = getOpcode (insts G Pred ! (q' + m))"
      "\<And>m k. q' + m < length (insts G Pred) \<Longrightarrow> takes_cont (insts G Pred ! (q' + m)) \<Longrightarrow>
         leads_to D H (insts H Pred ! (r + m)) k =
           (if (m, k) \<in> S' then map_option (redirect Old New) (leads_to D G (insts G Pred ! (q' + m)) k)
            else leads_to D G (insts G Pred ! (q' + m)) k)"
    using assms(2) unfolding redirected_def by blast
  have q': "q' = q" using pq(2) qr(1) by simp
  have m: "q + m < length (insts G Pred)" if "p + m < length (insts F Pred)" for m
    using that pq(3) by linarith
  have "\<forall>m. p + m < length (insts F Pred) \<longrightarrow>
      getOpcode (insts H Pred ! (r + m)) = getOpcode (insts F Pred ! (p + m)) \<and>
      (takes_cont (insts F Pred ! (p + m)) \<longrightarrow>
        (\<forall>k. leads_to D H (insts H Pred ! (r + m)) k =
          (if (m, k) \<in> S \<union> S' then map_option (redirect Old New) (leads_to D F (insts F Pred ! (p + m)) k)
           else leads_to D F (insts F Pred ! (p + m)) k)))"
    using pq(4,5) qr(4,5) m assms(3) unfolding q' by (auto simp: takes_cont_def)
  moreover have "length (insts H Pred) + p = length (insts F Pred) + r"
    using pq(3) qr(3) q' by linarith
  moreover have "length (insts H b) = length (insts F b) \<and>
      (\<forall>i < length (insts F b). same_lead D F H (insts F b ! i) (insts H b ! i))"
    if "b \<in> set (blockIds F) - {Pred}" for b
    using assms(1,2) that unfolding redirected_def same_lead_def by (auto simp: takes_cont_def)
  ultimately show ?thesis
    using assms(1,2) pq(1) qr(2) unfolding redirected_def by auto
qed

lemma redirected_unchanged:
  assumes "fresh_regs F" "getFirstTerminator D (insts F Pred) = Some p"
    and "map_option (redirect Old New) (leads_to D F (insts F Pred ! (p + j)) k) =
      leads_to D F (insts F Pred ! (p + j)) k"
  shows "redirected D Pred Old New {(j, k)} F F"
  using assms by (auto simp: redirected_def same_lead_def)

lemma leads_to_push:
  assumes "reg_operand I k = Some r" "def_instrs D F r = [P]"
  shows "leads_to D F I k = (if getOpcode P = PUSHCONT_MBB then block_of P else None)"
  using assms by (simp add: leads_to_def cont_target_def push_of_def getVRegDef_def)

lemma redirected_def_block:
  assumes D: "cont_desc D" and F: "fresh_regs F" "Pred \<in> set (blockIds F)"
    and p: "getFirstTerminator D (insts F Pred) = Some p" "p + j < length (insts F Pred)"
    and T: "takes_cont (insts F Pred ! (p + j))" "reg_operand (insts F Pred ! (p + j)) k = Some r"
    and P: "def_instrs D F r = [P]" "getOpcode P = PUSHCONT_MBB" "block_of P = Some Old"
    and one: "hasOneNonDBGUse D F r"
  shows "redirected D Pred Old New {(j, k)} F (set_def_block D r New F)"
proof -
  let ?F = "set_def_block D r New F"
  have nd: "NumDefs D PUSHCONT_MBB = 1" using D by (simp add: cont_desc_def branch_desc_def)
  note tgt = set_def_block_target [OF nd P]
  have site: "(Pred, p + j, k) \<in> set (use_sites D F r)"
    using takes_cont_desc [OF D T(1)] F(2) p(2) T(2) by (simp add: set_use_sites)
  have at: "getOpcode (insts ?F b ! i) = getOpcode (insts F b ! i)"
      "takes_cont (insts F b ! i) \<Longrightarrow> insts ?F b ! i = insts F b ! i"
    if "i < length (insts F b)" for b i
    using that takes_cont_desc(2) [OF D, of _ r] by (auto simp: set_def_block_def)
  have lead: "leads_to D ?F (insts F b ! i) k' =
      (if (b, i, k') = (Pred, p + j, k) then Some New else leads_to D F (insts F b ! i) k')"
    if "b \<in> set (blockIds F)" "i < length (insts F b)" "takes_cont (insts F b ! i)" for b i k'
  proof (cases "reg_operand (insts F b ! i) k'")
    case None
    then show ?thesis using T(2) by (auto simp: leads_to_def)
  next
    case (Some r')
    have "(b, i, k') = (Pred, p + j, k)" if "r' = r"
    proof (rule one_use [OF one _ site])
      show "(b, i, k') \<in> set (use_sites D F r)"
        using takes_cont_desc [OF D \<open>takes_cont (insts F b ! i)\<close>] Some that
          \<open>b \<in> set (blockIds F)\<close> \<open>i < length (insts F b)\<close> by (simp add: set_use_sites)
    qed
    then show ?thesis using Some T(2) by (auto simp: leads_to_def tgt)
  qed
  have len: "length (insts ?F b) = length (insts F b)" for b by (simp add: set_def_block_def)
  have "map getOpcode (insts ?F Pred) = map getOpcode (insts F Pred)"
    by (simp add: set_def_block_def)
  then have p': "getFirstTerminator D (insts ?F Pred) = Some p"
    using p(1) first_terminator_opcodes by metis
  have "fresh_regs ?F"
    unfolding fresh_regs_def
  proof (intro ballI impI)
    fix b MI opd assume b: "b \<in> set (blockIds ?F)" "MI \<in> set (insts ?F b)" "opd \<in> set (operands MI)" "isReg opd"
    then obtain I where I: "I \<in> set (insts F b)"
        "MI = (if sets_reg D r I then set_operand 1 (MO_MachineBasicBlock New) I else I)"
      by (auto simp: set_def_block_def)
    have "opd \<in> set (operands I)"
      using b(3,4) I(2) set_update_subset_insert [of "operands I" 1 "MO_MachineBasicBlock New"]
      by (auto simp: set_operand_def split: if_splits)
    then show "getReg opd < nextVReg ?F"
      using F(1) I(1) b(1,4) by (auto simp: fresh_regs_def set_def_block_def)
  qed
  moreover have "leads_to D F (insts F Pred ! (p + j)) k = Some Old"
    using leads_to_push [OF T(2) P(1)] P by simp
  ultimately show ?thesis
    unfolding redirected_def same_lead_def
    using p p' at lead len F(2) by (auto simp: set_def_block_def [of D r New F, THEN arg_cong [of _ _ blockIds]]
        set_def_block_def [of D r New F, THEN arg_cong [of _ _ succs]] redirect_def)
qed

lemma redirected_new_cont:
  assumes D: "cont_desc D" and F: "fresh_regs F" "Pred \<in> set (blockIds F)" "distinct (blockIds F)"
    and p: "getFirstTerminator D (insts F Pred) = Some p" "p + j < length (insts F Pred)"
    and T: "takes_cont (insts F Pred ! (p + j))" "getOperand (insts F Pred ! (p + j)) k = Some Op"
      "leads_to D F (insts F Pred ! (p + j)) k = Some Old"
    and F1: "F1 = set_code Pred (new_cont_code p j k New (nextVReg F) Op (insts F Pred))
      (F \<lparr> nextVReg := nextVReg F + 1 \<rparr>)"
  shows "redirected D Pred Old New {(j, k)} F F1"
proof -
  let ?B = "insts F Pred" and ?n = "nextVReg F"
  note tgt = new_cont_target [OF D F p(2) T(1) F1]
  have keep: "leads_to D F1 I k' = leads_to D F I k'"
    if "b \<in> set (blockIds F)" "I \<in> set (insts F b)" for b I k'
  proof (cases "reg_operand I k'")
    case (Some r)
    then have "r < ?n"
      using F(1) that by (auto simp: fresh_regs_def reg_operand_def getOperand_def bind_eq_Some_conv split: if_splits)
    then show ?thesis using Some tgt(1) by (simp add: leads_to_def)
  qed (simp add: leads_to_def)
  have len: "k < length (operands (?B ! (p + j)))" using T(2) by (auto simp: getOperand_def split: if_splits)
  have Pc: "insts F1 Pred = new_cont_code p j k New ?n Op ?B" and oth: "b \<noteq> Pred \<Longrightarrow> insts F1 b = insts F b" for b
    by (simp_all add: F1 set_code_def)
  note nth = nth_new_cont_code [OF p(2), where k = k and New = New and r = ?n and Op = Op]
  have changed: "leads_to D F1 (set_operand k (setReg ?n Op) (?B ! (p + j))) k' =
      (if k' = k then Some New else leads_to D F (?B ! (p + j)) k')" for k'
    using len keep [OF F(2) nth_mem [OF p(2)], of k'] tgt(1)
    by (auto simp: leads_to_def reg_operand_def getOperand_def set_operand_def setReg_def nth_list_update)
  have "getFirstTerminator D (insts F1 Pred) = Some (p + 1)"
    using first_terminator_new_cont [OF D p] Pc by metis
  moreover have "getOpcode (insts F1 Pred ! (p + 1 + m)) = getOpcode (?B ! (p + m)) \<and>
      (takes_cont (?B ! (p + m)) \<longrightarrow> (\<forall>k'. leads_to D F1 (insts F1 Pred ! (p + 1 + m)) k' =
        (if (m, k') \<in> {(j, k)} then map_option (redirect Old New) (leads_to D F (?B ! (p + m)) k')
         else leads_to D F (?B ! (p + m)) k')))"
    if "p + m < length ?B" for m
    using that T(3) changed keep [OF F(2) nth_mem [OF that]] nth(2) [OF that]
    unfolding Pc by (auto simp: redirect_def)
  moreover have "blockIds F1 = blockIds F" "succs F1 = succs F" by (simp_all add: F1 set_code_def)
  moreover have "length (insts F1 Pred) + p = length ?B + (p + 1)" using nth(3) Pc by simp
  moreover have "\<forall>b \<in> set (blockIds F) - {Pred}. length (insts F1 b) = length (insts F b) \<and>
      (\<forall>i < length (insts F b). same_lead D F F1 (insts F b ! i) (insts F1 b ! i))"
    using oth keep by (auto simp: same_lead_def)
  ultimately show ?thesis
    unfolding redirected_def using p(1) tgt(2) by blast
qed

text \<open>One operand.\<close>

lemma replaceUse_redirected:
  assumes D: "cont_desc D" and F: "fresh_regs F" "Pred \<in> set (blockIds F)" "distinct (blockIds F)"
    and p: "getFirstTerminator D (insts F Pred) = Some p" "p + j < length (insts F Pred)"
    and T: "takes_cont (insts F Pred ! (p + j))"
    and res: "replaceUse D Pred Old New j k F = Some F1"
  shows "redirected D Pred Old New {(j, k)} F F1"
proof -
  let ?T = "insts F Pred ! (p + j)"
  obtain Op where Op: "getOperand ?T k = Some Op"
    using res p(1) by (auto simp: replaceUse_def Let_def bind_eq_Some_conv)
  note same = redirected_unchanged [OF F(1) p(1), of Old New j k]
  show ?thesis
  proof (cases "isReg Op")
    case False
    then have "leads_to D F ?T k = None" using Op by (simp add: leads_to_def reg_operand_def)
    with same False res p(1) Op show ?thesis by (simp add: replaceUse_def)
  next
    case True
    define r where "r = getReg Op"
    have r: "reg_operand ?T k = Some r" using Op True by (simp add: reg_operand_def r_def)
    obtain P where P: "def_instrs D F r = [P]"
      using res p(1) Op True unfolding r_def
      by (auto simp: replaceUse_def Let_def bind_eq_Some_conv getVRegDef_def split: list.splits)
    note lead = leads_to_push [OF r P]
    have def: "getVRegDef D F (getReg Op) = Some (Some P)" using P by (simp add: getVRegDef_def r_def)
    show ?thesis
    proof (cases "getOpcode P = PUSHCONT_MBB")
      case False
      with same lead def res p(1) Op True show ?thesis by (simp add: replaceUse_def)
    next
      case push: True
      obtain b where b: "block_of P = Some b"
        using res p(1) Op True def push by (auto simp: replaceUse_def bind_eq_Some_conv)
      consider "b \<noteq> Old" | "b = Old" "hasOneNonDBGUse D F r" | "b = Old" "\<not> hasOneNonDBGUse D F r"
        by blast
      then show ?thesis
      proof cases
        case 1
        with same lead def res p(1) Op True push b show ?thesis by (simp add: replaceUse_def redirect_def)
      next
        case 2
        then have "F1 = set_def_block D r New F"
          using def res p(1) Op True push b by (simp add: replaceUse_def r_def)
        then show ?thesis
          using redirected_def_block [OF D F(1,2) p T r P push _ 2(2)] b 2(1) by simp
      next
        case 3
        then have "F1 = set_code Pred (new_cont_code p j k New (nextVReg F) Op (insts F Pred))
            (F \<lparr> nextVReg := nextVReg F + 1 \<rparr>)"
          using def res p(1) Op True push b
          by (simp add: replaceUse_def r_def new_cont_code_def createVirtualRegister_def)
        then show ?thesis
          using redirected_new_cont [OF D F p T Op] lead push b 3(1) by simp
      qed
    qed
  qed
qed

lemma redirected_next:
  assumes "redirected D Pred Old New S F G" "getFirstTerminator D (insts F Pred) = Some p"
  obtains q where "getFirstTerminator D (insts G Pred) = Some q" "fresh_regs G" "blockIds G = blockIds F"
    "length (insts G Pred) + p = length (insts F Pred) + q"
    "\<And>m. p + m < length (insts F Pred) \<Longrightarrow>
       getOpcode (insts G Pred ! (q + m)) = getOpcode (insts F Pred ! (p + m))"
  using assms unfolding redirected_def by auto

lemma replaceUses_redirected:
  assumes D: "cont_desc D" and F: "fresh_regs F" "Pred \<in> set (blockIds F)" "distinct (blockIds F)"
    and p: "getFirstTerminator D (insts F Pred) = Some p" "p + j < length (insts F Pred)"
    and T: "takes_cont (insts F Pred ! (p + j))" and ks: "distinct ks"
    and res: "foldM (replaceUse D Pred Old New j) ks F = Some F1"
  shows "redirected D Pred Old New (Pair j ` set ks) F F1"
  using F p T ks res
proof (induction ks arbitrary: F p)
  case Nil
  then show ?case using redirected_start by simp
next
  case (Cons k ks)
  obtain G where G: "replaceUse D Pred Old New j k F = Some G" "foldM (replaceUse D Pred Old New j) ks G = Some F1"
    using Cons.prems(8) by (auto simp: bind_eq_Some_conv)
  have one: "redirected D Pred Old New {(j, k)} F G"
    by (rule replaceUse_redirected [OF D Cons.prems(1-6) G(1)])
  obtain q where q: "getFirstTerminator D (insts G Pred) = Some q" "fresh_regs G" "blockIds G = blockIds F"
      "length (insts G Pred) + p = length (insts F Pred) + q"
      "\<And>m. p + m < length (insts F Pred) \<Longrightarrow>
         getOpcode (insts G Pred ! (q + m)) = getOpcode (insts F Pred ! (p + m))"
    by (rule redirected_next [OF one Cons.prems(4)]) (rule that)
  have "q + j < length (insts G Pred)" using q(4) Cons.prems(5) by linarith
  moreover have "takes_cont (insts G Pred ! (q + j))"
    using q(5) Cons.prems(5,6) takes_cont_opcode by metis
  ultimately have "redirected D Pred Old New (Pair j ` set ks) G F1"
    using Cons.IH [OF q(2) _ _ q(1) _ _ _ G(2)] Cons.prems(2,3,7) q(3) by simp
  moreover have "{(j, k)} \<inter> Pair j ` set ks = {}" using Cons.prems(7) by auto
  ultimately have "redirected D Pred Old New ({(j, k)} \<union> Pair j ` set ks) F F1"
    by (rule redirected_trans [OF one])
  then show ?case by simp
qed

definition operand_sites :: "nat \<Rightarrow> MachineInstr list \<Rightarrow> nat set \<Rightarrow> (nat \<times> nat) set" where
  "operand_sites p B js = {(j, k). j \<in> js \<and> (\<exists>ks. enumMBBoperands (B ! (p + j)) = Some ks \<and> k \<in> set ks)}"

lemma enumMBBoperands_takes: "enumMBBoperands I = Some ks \<Longrightarrow> takes_cont I \<and> distinct ks"
  by (auto simp: enumMBBoperands_def takes_cont_def split: if_splits)

lemma enumMBBoperands_opcode: "getOpcode I' = getOpcode I \<Longrightarrow> enumMBBoperands I' = enumMBBoperands I"
  by (simp add: enumMBBoperands_def)

lemma replaceTerms_redirected:
  assumes D: "cont_desc D" and F: "fresh_regs F" "Pred \<in> set (blockIds F)" "distinct (blockIds F)"
    and p: "getFirstTerminator D (insts F Pred) = Some p" "\<And>j. j \<in> set js \<Longrightarrow> p + j < length (insts F Pred)"
    and js: "distinct js"
    and res: "foldM (replaceTerm D Pred Old New) js F = Some F1"
  shows "redirected D Pred Old New (operand_sites p (insts F Pred) (set js)) F F1 \<and>
    (\<forall>j \<in> set js. enumMBBoperands (insts F Pred ! (p + j)) \<noteq> None)"
  using F p js res
proof (induction js arbitrary: F p)
  case Nil
  then show ?case using redirected_start by (simp add: operand_sites_def)
next
  case (Cons j js)
  obtain G where G: "replaceTerm D Pred Old New j F = Some G" "foldM (replaceTerm D Pred Old New) js G = Some F1"
    using Cons.prems(7) by (auto simp: bind_eq_Some_conv)
  obtain ks where ks: "enumMBBoperands (insts F Pred ! (p + j)) = Some ks"
      "foldM (replaceUse D Pred Old New j) ks F = Some G"
    using G(1) Cons.prems(4) by (auto simp: replaceTerm_def bind_eq_Some_conv)
  have pj: "p + j < length (insts F Pred)" by (rule Cons.prems(5)) simp
  have one: "redirected D Pred Old New (Pair j ` set ks) F G"
    using replaceUses_redirected [OF D Cons.prems(1-4) pj _ _ ks(2)] enumMBBoperands_takes [OF ks(1)] by blast
  obtain q where q: "getFirstTerminator D (insts G Pred) = Some q" "fresh_regs G" "blockIds G = blockIds F"
      "length (insts G Pred) + p = length (insts F Pred) + q"
      "\<And>m. p + m < length (insts F Pred) \<Longrightarrow>
         getOpcode (insts G Pred ! (q + m)) = getOpcode (insts F Pred ! (p + m))"
    by (rule redirected_next [OF one Cons.prems(4)]) (rule that)
  have bound: "q + i < length (insts G Pred)" if "i \<in> set js" for i
  proof -
    have "p + i < length (insts F Pred)" by (rule Cons.prems(5)) (use that in simp)
    then show ?thesis using q(4) by linarith
  qed
  have enum: "enumMBBoperands (insts G Pred ! (q + i)) = enumMBBoperands (insts F Pred ! (p + i))"
    if "i \<in> set js" for i
  proof -
    have "p + i < length (insts F Pred)" by (rule Cons.prems(5)) (use that in simp)
    then show ?thesis using q(5) enumMBBoperands_opcode by blast
  qed
  have rest: "redirected D Pred Old New (operand_sites q (insts G Pred) (set js)) G F1 \<and>
      (\<forall>j \<in> set js. enumMBBoperands (insts G Pred ! (q + j)) \<noteq> None)"
    using Cons.IH [OF q(2) _ _ q(1) bound _ G(2)] Cons.prems(2,3,6) q(3) by simp
  have sites: "operand_sites q (insts G Pred) (set js) = operand_sites p (insts F Pred) (set js)"
    using enum by (auto simp: operand_sites_def)
  have "Pair j ` set ks \<inter> operand_sites p (insts F Pred) (set js) = {}"
    using Cons.prems(6) by (auto simp: operand_sites_def)
  then have "redirected D Pred Old New (Pair j ` set ks \<union> operand_sites p (insts F Pred) (set js)) F F1"
    using redirected_trans [OF one] rest sites by metis
  moreover have "Pair j ` set ks \<union> operand_sites p (insts F Pred) (set js) =
      operand_sites p (insts F Pred) (set (j # js))"
    using ks(1) by (auto simp: operand_sites_def)
  ultimately show ?case using rest enum ks(1) by auto
qed

section \<open>The hook sends the block's jumps elsewhere\<close>

lemma last_real_index:
  assumes "map getOpcode B' = map getOpcode B" "last_real B = Some I"
  obtains i where "i < length B" "I = B ! i" "last_real B' = Some (B' ! i)"
  using assms
proof (induction B arbitrary: B' thesis rule: rev_induct)
  case Nil
  then show ?case by (simp add: last_real_def)
next
  case (snoc x B)
  from snoc.prems(2) obtain C y where B': "B' = C @ [y]" "map getOpcode C = map getOpcode B" "getOpcode y = getOpcode x"
    by (cases B' rule: rev_cases) auto
  have dbg: "isDebugInstr y = isDebugInstr x" using B'(3) by (simp add: isDebugInstr_def)
  have len: "length C = length B" using map_eq_imp_length_eq [OF B'(2)] .
  show ?case
  proof (cases "isDebugInstr x")
    case True
    then have "last_real B = Some I" "last_real B' = last_real C"
      using snoc.prems(3) dbg B'(1) by (simp_all add: last_real_def)
    then obtain i where "i < length B" "I = B ! i" "last_real C = Some (C ! i)"
      using snoc.IH [OF _ B'(2)] by blast
    then show ?thesis
      using snoc.prems(1) [of i] B'(1) len \<open>last_real B' = last_real C\<close> by (simp add: nth_append)
  next
    case False
    then have "I = x" using snoc.prems(3) by (simp add: last_real_def)
    moreover have "last_real B' = Some y" using B'(1) False dbg by (simp add: last_real_def)
    ultimately show ?thesis using snoc.prems(1) [of "length B"] B'(1) len by (simp add: nth_append)
  qed
qed

lemma last_real_None: "map getOpcode B' = map getOpcode B \<Longrightarrow> last_real B' = None \<longleftrightarrow> last_real B = None"
  by (metis last_real_index not_None_eq)

lemma block_jump_same:
  assumes "length (insts F' b) = length (insts F b)"
    and "\<forall>i < length (insts F b). same_lead D F F' (insts F b ! i) (insts F' b ! i)"
  shows "block_jump D F' b c = block_jump D F b c"
proof -
  have ops: "map getOpcode (insts F' b) = map getOpcode (insts F b)"
    using assms by (auto simp: same_lead_def intro: nth_equalityI)
  show ?thesis
  proof (cases "last_real (insts F b)")
    case None
    then show ?thesis using last_real_None [OF ops] by (simp add: block_jump_def)
  next
    case (Some I)
    then obtain i where i: "i < length (insts F b)" "I = insts F b ! i"
        "last_real (insts F' b) = Some (insts F' b ! i)"
      by (rule last_real_index [OF ops])
    then have same: "same_lead D F F' I (insts F' b ! i)" using assms(2) by simp
    then have "getOpcode (insts F' b ! i) = getOpcode I" by (simp add: same_lead_def)
    moreover have "jump_of D F' (insts F' b ! i) c = jump_of D F I c"
      using same by (intro jump_of_same) (auto simp: same_lead_def)
    ultimately show ?thesis using Some i(3) by (simp add: block_jump_def)
  qed
qed

lemma last_real_last:
  "B \<noteq> [] \<Longrightarrow> \<not> isDebugInstr (last B) \<Longrightarrow> last_real B = Some (last B)"
  by (cases B rule: rev_cases) (simp_all add: last_real_def)

lemma block_jump_redirected:
  assumes D: "cont_desc D" and p: "getFirstTerminator D (insts F Pred) = Some p"
    and red: "redirected D Pred Old New (operand_sites p (insts F Pred) {..<length (insts F Pred) - p}) F F'"
    and enum: "\<forall>j < length (insts F Pred) - p. enumMBBoperands (insts F Pred ! (p + j)) \<noteq> None"
  shows "block_jump D F' Pred c = map_option (map_option (redirect Old New)) (block_jump D F Pred c)"
proof -
  let ?B = "insts F Pred" and ?B' = "insts F' Pred"
  define m where "m = length ?B - p - 1"
  have pl: "p < length ?B" by (rule first_terminator_facts [OF p])
  then have m: "p + m < length ?B" "m < length ?B - p" "p + m = length ?B - 1" by (auto simp: m_def)
  then obtain ks where ks: "enumMBBoperands (?B ! (p + m)) = Some ks" using enum by blast
  then have T: "takes_cont (?B ! (p + m))" by (simp add: enumMBBoperands_takes)
  from red p obtain q where q: "length ?B' + p = length ?B + q"
      "getOpcode (?B' ! (q + m)) = getOpcode (?B ! (p + m))"
      "\<And>k. leads_to D F' (?B' ! (q + m)) k =
         (if (m, k) \<in> operand_sites p ?B {..<length ?B - p}
          then map_option (redirect Old New) (leads_to D F (?B ! (p + m)) k)
          else leads_to D F (?B ! (p + m)) k)"
    unfolding redirected_def using m(1) T by auto
  have "q + m = length ?B' - 1" using q(1) m(3) pl by linarith
  moreover have "?B' \<noteq> []" using q(1) pl by auto
  ultimately have last': "last ?B' = ?B' ! (q + m)" by (simp add: last_conv_nth)
  have "?B \<noteq> []" using pl by auto
  then have last: "last ?B = ?B ! (p + m)" using m(3) by (simp add: last_conv_nth)
  have dbg: "\<not> isDebugInstr (?B ! (p + m))" by (rule takes_cont_desc(3) [OF D T])
  then have "last_real ?B = Some (?B ! (p + m))"
    using last_real_last [OF \<open>?B \<noteq> []\<close>] last by simp
  moreover have "last_real ?B' = Some (?B' ! (q + m))"
    using last_real_last [OF \<open>?B' \<noteq> []\<close>] last' dbg q(2) by (simp add: isDebugInstr_def)
  moreover have "jump_of D F' (?B' ! (q + m)) c =
      map_option (map_option (redirect Old New)) (jump_of D F (?B ! (p + m)) c)"
    using q(2) ks
  proof (rule jump_of_redirect)
    fix k assume "k \<in> set ks"
    then have "(m, k) \<in> operand_sites p ?B {..<length ?B - p}"
      using ks m(2) by (auto simp: operand_sites_def)
    then show "leads_to D F' (?B' ! (q + m)) k = map_option (redirect Old New) (leads_to D F (?B ! (p + m)) k)"
      using q(3) by simp
  qed
  ultimately show ?thesis using q(2) by (simp add: block_jump_def)
qed

lemma block_jump_succs [simp]: "block_jump D (F \<lparr> succs := ss \<rparr>) b c = block_jump D F b c"
proof -
  have "cont_target D (F \<lparr> succs := ss \<rparr>) r = cont_target D F r" for r
    by (simp add: cont_target_def push_of_def getVRegDef_def def_instrs_def)
  then have "jump_of D (F \<lparr> succs := ss \<rparr>) I c = jump_of D F I c" for I
    by (simp add: jump_of_def)
  then show ?thesis by (simp add: block_jump_def split: option.split)
qed

lemma ReplaceUsesOfBlockWith_jumps:
  assumes D: "cont_desc D" and F: "fresh_regs F" "Pred \<in> set (blockIds F)" "distinct (blockIds F)"
    and res: "ReplaceUsesOfBlockWith D Pred Old New F = Some F'"
  shows "block_jump D F' Pred c = map_option (map_option (redirect Old New)) (block_jump D F Pred c)"
    and "b \<in> set (blockIds F) \<Longrightarrow> b \<noteq> Pred \<Longrightarrow> block_jump D F' b c = block_jump D F b c"
    and "replaceSuccessor Old New (succs F Pred) = Some (succs F' Pred)"
    and "b \<noteq> Pred \<Longrightarrow> succs F' b = succs F b"
proof -
  let ?B = "insts F Pred"
  obtain F1 ss where F1: "(case getFirstTerminator D ?B of None \<Rightarrow> Some F
      | Some p \<Rightarrow> foldM (replaceTerm D Pred Old New) [0..<length ?B - p] F) = Some F1"
      "replaceSuccessor Old New (succs F1 Pred) = Some ss" "F' = F1 \<lparr> succs := (succs F1)(Pred := ss) \<rparr>"
    using res by (auto simp: ReplaceUsesOfBlockWith_def bind_eq_Some_conv)
  have "block_jump D F1 Pred c = map_option (map_option (redirect Old New)) (block_jump D F Pred c) \<and>
    (b \<in> set (blockIds F) \<longrightarrow> b \<noteq> Pred \<longrightarrow> block_jump D F1 b c = block_jump D F b c) \<and> succs F1 = succs F"
  proof (cases "getFirstTerminator D ?B")
    case None
    have "block_jump D F Pred c = Some None"
      using no_terminator [OF None] by (auto simp: block_jump_def split: option.splits)
    then show ?thesis using F1(1) None by simp
  next
    case (Some p)
    have f: "foldM (replaceTerm D Pred Old New) [0..<length ?B - p] F = Some F1"
      using F1(1) Some by simp
    have red: "redirected D Pred Old New (operand_sites p ?B {..<length ?B - p}) F F1"
        "\<forall>j < length ?B - p. enumMBBoperands (?B ! (p + j)) \<noteq> None"
      using replaceTerms_redirected [OF D F Some _ _ f]
      by (auto simp: atLeast0LessThan)
    then have "succs F1 = succs F" by (simp add: redirected_def)
    moreover have "block_jump D F1 b c = block_jump D F b c" if "b \<in> set (blockIds F)" "b \<noteq> Pred"
      using red(1) that by (intro block_jump_same) (auto simp: redirected_def)
    ultimately show ?thesis using block_jump_redirected [OF D Some red] by blast
  qed
  then show "block_jump D F' Pred c = map_option (map_option (redirect Old New)) (block_jump D F Pred c)"
    and "b \<in> set (blockIds F) \<Longrightarrow> b \<noteq> Pred \<Longrightarrow> block_jump D F' b c = block_jump D F b c"
    and "replaceSuccessor Old New (succs F Pred) = Some (succs F' Pred)"
    and "b \<noteq> Pred \<Longrightarrow> succs F' b = succs F b"
    using F1(2,3) by simp_all
qed

text \<open>The successors follow.\<close>

lemma scan_succs_distinct:
  assumes "Old \<noteq> New" "distinct ss"
  shows "New \<notin> set ss \<Longrightarrow> scan_succs Old New i (Some n) None ss =
      (Some n, map_option ((+) i) (find_index Old ss))"
    and "Old \<notin> set ss \<Longrightarrow> scan_succs Old New i None (Some o') ss =
      (map_option ((+) i) (find_index New ss), Some o')"
    and "scan_succs Old New i None None ss =
      (map_option ((+) i) (find_index New ss), map_option ((+) i) (find_index Old ss))"
proof -
  have S: "(+) (Suc i) = (\<lambda>x. Suc (i + x))" for i by (rule ext) simp
  have N: "New \<notin> set ss \<Longrightarrow> scan_succs Old New i (Some n) None ss =
      (Some n, map_option ((+) i) (find_index Old ss))" for i n ss
    by (induction ss arbitrary: i) (auto simp: S option.map_comp comp_def)
  have O: "Old \<notin> set ss \<Longrightarrow> scan_succs Old New i None (Some o') ss =
      (map_option ((+) i) (find_index New ss), Some o')" for i ss o'
    by (induction ss arbitrary: i) (auto simp: S option.map_comp comp_def)
  show "New \<notin> set ss \<Longrightarrow> scan_succs Old New i (Some n) None ss =
      (Some n, map_option ((+) i) (find_index Old ss))" by (rule N)
  show "Old \<notin> set ss \<Longrightarrow> scan_succs Old New i None (Some o') ss =
      (map_option ((+) i) (find_index New ss), Some o')" by (rule O)
  show "scan_succs Old New i None None ss =
      (map_option ((+) i) (find_index New ss), map_option ((+) i) (find_index Old ss))"
    using assms
  proof (induction ss arbitrary: i)
    case (Cons s ss)
    then show ?case using N [of ss "Suc i" i for i] O [of ss "Suc i" i for i]
      by (auto simp: S option.map_comp comp_def)
  qed simp
qed

lemma replaceSuccessor_set:
  assumes "distinct ss" "replaceSuccessor Old New ss = Some ss'"
  shows "set ss' = redirect Old New ` set ss" "distinct ss'"
proof -
  have "set ss' = redirect Old New ` set ss \<and> distinct ss'"
  proof (cases "Old = New")
    case True
    then show ?thesis using assms by (simp add: replaceSuccessor_def redirect_def)
  next
    case False
    then obtain o' where o': "find_index Old ss = Some o'"
      using assms by (auto simp: replaceSuccessor_def scan_succs_distinct simp del: find_index_eq_None
          split: option.splits)
    have at: "o' < length ss" "ss ! o' = Old" using find_index_Some [OF o'] by auto
    then have split: "ss = take o' ss @ Old # drop (Suc o') ss" by (metis id_take_nth_drop)
    have ne: "Old \<notin> set (take o' ss)" "Old \<notin> set (drop (Suc o') ss)"
        "distinct (take o' ss @ drop (Suc o') ss)"
      using assms(1) split by (metis distinct_append distinct.simps(2) disjoint_iff list.set_intros(1)
          not_distinct_conv_prefix, metis distinct_append distinct.simps(2),
          metis distinct_append distinct.simps(2) disjoint_iff list.set_intros(2))
    have img: "redirect Old New ` set ss = insert New (set (take o' ss) \<union> set (drop (Suc o') ss))"
      using ne(1,2) by (subst split) (auto simp: redirect_def)
    show ?thesis
    proof (cases "find_index New ss")
      case None
      then have "ss' = take o' ss @ New # drop (Suc o') ss"
        using assms False o' at
        by (simp add: replaceSuccessor_def scan_succs_distinct upd_conv_take_nth_drop del: find_index_eq_None)
      moreover have "New \<notin> set ss" using None by simp
      ultimately show ?thesis using img ne(3) by (auto dest: in_set_takeD in_set_dropD)
    next
      case (Some n)
      then have "ss' = take o' ss @ drop (Suc o') ss"
        using assms False o' by (simp add: replaceSuccessor_def scan_succs_distinct del: find_index_eq_None)
      moreover have "New \<in> set ss" using Some find_index_Some nth_mem by metis
      then have "New \<in> set (take o' ss) \<union> set (drop (Suc o') ss)"
        using False split by (metis Un_iff list.set(2) insert_iff set_append)
      ultimately show ?thesis using img ne(3) by auto
    qed
  qed
  then show "set ss' = redirect Old New ` set ss" "distinct ss'" by auto
qed

end
