(* ===== verification/TVM_ContHoist.thy ===== *)
theory TVM_ContHoist
  imports TVM_BlockUses "HOL-Library.AList"
begin

text \<open>
  TVMContinuationsHoist: one PUSHCONT_MBB for every jump target, in the nearest common dominator of
  the pushes it replaces. The function is in SSA form, so a push is named by its block and by the
  register it defines. The dominator tree is a parameter (nearest common dominator), and so are the
  addresses of the blocks, by which the std::map of targets is ordered.
\<close>

section \<open>The pass\<close>

type_synonym Site = "nat \<times> nat"
type_synonym HoistInfo = "(nat \<times> Site list) list"

text \<open>collect: the used pushes of each target and the unused pushes.\<close>

definition collectInstr ::
  "MCInstrInfo \<Rightarrow> MachineFn \<Rightarrow> nat \<Rightarrow> MachineInstr \<Rightarrow> HoistInfo \<times> Site list \<Rightarrow> (HoistInfo \<times> Site list) option" where
  "collectInstr D F b MI s =
     (if getOpcode MI \<noteq> PUSHCONT_MBB then Some s
      else do {
        r \<leftarrow> reg_operand MI 0;
        if use_sites D F r = [] then Some (fst s, snd s @ [(b, r)])
        else do {
          T \<leftarrow> block_of MI;
          let Instructions = (case map_of (fst s) T of None \<Rightarrow> [] | Some ss \<Rightarrow> ss);
          Some (AList.update T (Instructions @ [(b, r)]) (fst s), snd s) } })"

definition collectHoist :: "MCInstrInfo \<Rightarrow> MachineFn \<Rightarrow> (HoistInfo \<times> Site list) option" where
  "collectHoist D F = foldM (\<lambda>b. foldM (collectInstr D F b) (insts F b)) (blockIds F) ([], [])"

definition is_push_of :: "nat \<Rightarrow> MachineInstr \<Rightarrow> bool" where
  "is_push_of r MI \<longleftrightarrow> getOpcode MI = PUSHCONT_MBB \<and> reg_operand MI 0 = Some r"

definition erase_push :: "Site \<Rightarrow> MachineFn \<Rightarrow> MachineFn" where
  "erase_push s F = set_code (fst s) (filter (\<lambda>MI. \<not> is_push_of (snd s) MI) (insts F (fst s))) F"

definition rename_reg :: "nat \<Rightarrow> nat \<Rightarrow> MachineInstr \<Rightarrow> MachineInstr" where
  "rename_reg r m MI = MI \<lparr> operands :=
     map (\<lambda>opd. if isReg opd \<and> getReg opd = r then setReg m opd else opd) (operands MI) \<rparr>"

definition replaceRegWith :: "nat \<Rightarrow> nat \<Rightarrow> MachineFn \<Rightarrow> MachineFn" where
  "replaceRegWith r m F = F \<lparr> insts := \<lambda>b. map (rename_reg r m) (insts F b) \<rparr>"

definition clearRegisterDeads :: "nat \<Rightarrow> MachineInstr \<Rightarrow> MachineInstr" where
  "clearRegisterDeads r MI = MI \<lparr> operands :=
     map (\<lambda>opd. if isReg opd \<and> getReg opd = r then MO_Register r (isUndef opd) False else opd) (operands MI) \<rparr>"

definition pushes_to :: "nat \<Rightarrow> MachineInstr \<Rightarrow> bool" where
  "pushes_to T MI \<longleftrightarrow> getOpcode MI = PUSHCONT_MBB \<and> block_of MI = Some T"

text \<open>
  Where a new push goes: before the first terminator, or before the definition of the terminator's
  first operand when that is in the same block and not a PHI. A first operand that is no register
  is a failed assert.
\<close>

definition insert_point :: "MCInstrInfo \<Rightarrow> (nat \<Rightarrow> bool) \<Rightarrow> MachineFn \<Rightarrow> nat \<Rightarrow> nat option" where
  "insert_point D isVirtual F d = do {
     p \<leftarrow> getFirstTerminator D (insts F d);
     FirstOpReg \<leftarrow> reg_operand (insts F d ! p) 0;
     if isVirtual FirstOpReg \<and> length (def_instrs D F FirstOpReg) = 1
     then case find_index True (map (sets_reg D FirstOpReg) (insts F d)) of
            Some i \<Rightarrow> Some (if getOpcode (insts F d ! i) \<noteq> PHI then i else p)
          | None \<Rightarrow> Some p
     else Some p }"

definition mergePush :: "nat \<Rightarrow> Site option \<Rightarrow> Site \<Rightarrow> MachineFn \<Rightarrow> MachineFn" where
  "mergePush m FoundMI s F =
     (if FoundMI = Some s then F else replaceRegWith (snd s) m (erase_push s F))"

definition hoistTarget ::
  "MCInstrInfo \<Rightarrow> (nat \<Rightarrow> nat \<Rightarrow> nat option) \<Rightarrow> (nat \<Rightarrow> bool) \<Rightarrow> nat \<times> Site list \<Rightarrow> MachineFn \<Rightarrow>
   MachineFn option" where
  "hoistTarget D ncd isVirtual e F =
     (if length (snd e) < 2 then Some F
      else do {
        d \<leftarrow> foldM (\<lambda>s CommonDom. ncd CommonDom (fst s)) (tl (snd e)) (fst (hd (snd e)));
        case find (pushes_to (fst e)) (rev (insts F d)) of
          Some FoundMI \<Rightarrow> do {
            MBBReg \<leftarrow> reg_operand FoundMI 0;
            let F1 = set_code d (map (\<lambda>MI. if is_push_of MBBReg MI then clearRegisterDeads MBBReg MI else MI)
                       (insts F d)) F;
            Some (fold (mergePush MBBReg (Some (d, MBBReg))) (snd e) F1) }
        | None \<Rightarrow> do {
            i \<leftarrow> insert_point D isVirtual F d;
            let (MBBReg, F1) = createVirtualRegister F;
            let F2 = set_code d (insert_instr i (pushcont MBBReg (fst e)) (insts F d)) F1;
            Some (fold (mergePush MBBReg None) (snd e) F2) } })"

text \<open>The flag says that some target had two pushes; the erased unused ones do not count.\<close>

definition optimizeHoist ::
  "MCInstrInfo \<Rightarrow> (nat \<Rightarrow> nat \<Rightarrow> nat option) \<Rightarrow> (nat \<Rightarrow> bool) \<Rightarrow> (nat \<Rightarrow> nat) \<Rightarrow> HoistInfo \<times> Site list \<Rightarrow>
   MachineFn \<Rightarrow> (bool \<times> MachineFn) option" where
  "optimizeHoist D ncd isVirtual addr info F = do {
     let F1 = fold erase_push (snd info) F;
     let Pairs = sort_key (\<lambda>e. addr (fst e)) (fst info);
     F2 \<leftarrow> foldM (hoistTarget D ncd isVirtual) Pairs F1;
     Some (list_ex (\<lambda>e. 2 \<le> length (snd e)) Pairs, F2) }"

definition ContinuationsHoist ::
  "MCInstrInfo \<Rightarrow> (nat \<Rightarrow> nat \<Rightarrow> nat option) \<Rightarrow> (nat \<Rightarrow> bool) \<Rightarrow> (nat \<Rightarrow> nat) \<Rightarrow> MachineFn \<Rightarrow>
   (bool \<times> MachineFn) option" where
  "ContinuationsHoist D ncd isVirtual addr F = do {
     info \<leftarrow> collectHoist D F;
     optimizeHoist D ncd isVirtual addr info F }"

section \<open>Well-formed functions\<close>

text \<open>
  What the .td files say of terminators, and what LLVM's verifier says of SSA functions: one
  definition for a register, nothing but terminators after a terminator, PUSHCONT_MBB with a
  register and a block.
\<close>

definition hoist_desc :: "MCInstrInfo \<Rightarrow> bool" where
  "hoist_desc D \<longleftrightarrow> cont_desc D \<and>
     (\<forall>opc. descTerminator D opc \<or> opc = DBG_VALUE \<or> opc = DBG_LABEL \<longrightarrow> NumDefs D opc = 0) \<and>
     \<not> descTerminator D DBG_VALUE \<and> \<not> descTerminator D DBG_LABEL"

definition wf_block :: "MCInstrInfo \<Rightarrow> MachineInstr list \<Rightarrow> bool" where
  "wf_block D B \<longleftrightarrow> sorted_wrt (\<lambda>I J. descTerminator D (getOpcode I) \<longrightarrow>
     descTerminator D (getOpcode J) \<or> isDebugInstr J) B"

definition wf_push :: "MachineInstr \<Rightarrow> bool" where
  "wf_push MI \<longleftrightarrow> (getOpcode MI = PUSHCONT_MBB \<longrightarrow> (\<exists>r T. reg_operand MI 0 = Some r \<and> block_of MI = Some T))"

definition ssa :: "MCInstrInfo \<Rightarrow> MachineFn \<Rightarrow> bool" where
  "ssa D F \<longleftrightarrow> (\<forall>r. length (def_instrs D F r) \<le> 1)"

definition wf_fn :: "MCInstrInfo \<Rightarrow> MachineFn \<Rightarrow> bool" where
  "wf_fn D F \<longleftrightarrow> ssa D F \<and> fresh_regs F \<and> distinct (blockIds F) \<and>
     (\<forall>b \<in> set (blockIds F). wf_block D (insts F b) \<and> (\<forall>MI \<in> set (insts F b). wf_push MI))"

lemma reg_operand_fresh:
  assumes "fresh_regs F" "b \<in> set (blockIds F)" "MI \<in> set (insts F b)" "reg_operand MI k = Some r"
  shows "r < nextVReg F"
proof -
  have "operands MI ! k \<in> set (operands MI)" "isReg (operands MI ! k)" "r = getReg (operands MI ! k)"
    using assms(4) by (auto simp: reg_operand_def getOperand_def bind_eq_Some_conv split: if_splits)
  then show ?thesis using assms(1-3) unfolding fresh_regs_def by blast
qed

text \<open>The sites of the pushes to a target.\<close>

definition block_sites :: "nat \<Rightarrow> nat \<Rightarrow> MachineInstr list \<Rightarrow> Site list" where
  "block_sites T b B = map (\<lambda>MI. (b, getReg (operands MI ! 0))) (filter (pushes_to T) B)"

definition sites_of :: "MachineFn \<Rightarrow> nat \<Rightarrow> Site list" where
  "sites_of F T = concat (map (\<lambda>b. block_sites T b (insts F b)) (blockIds F))"

text \<open>The terminators take the same continuations.\<close>

definition same_jumps :: "MCInstrInfo \<Rightarrow> MachineFn \<Rightarrow> MachineFn \<Rightarrow> bool" where
  "same_jumps D F F' \<longleftrightarrow> blockIds F' = blockIds F \<and> succs F' = succs F \<and>
     (\<forall>b \<in> set (blockIds F). list_all2 (same_lead D F F') (terminators D (insts F b)) (terminators D (insts F' b)))"

lemma same_jumps_refl: "same_jumps D F F"
  by (auto simp: same_jumps_def same_lead_def intro: list.rel_refl)

lemma same_lead_trans:
  "same_lead D F G I J \<Longrightarrow> same_lead D G H J K \<Longrightarrow> same_lead D F H I K"
  by (simp add: same_lead_def takes_cont_def)

lemma same_jumps_trans:
  assumes "same_jumps D F G" "same_jumps D G H"
  shows "same_jumps D F H"
proof -
  have "list_all2 (same_lead D F H) (terminators D (insts F b)) (terminators D (insts H b))"
    if "b \<in> set (blockIds F)" for b
  proof (rule list_all2_trans [OF same_lead_trans])
    show "list_all2 (same_lead D F G) (terminators D (insts F b)) (terminators D (insts G b))"
        "list_all2 (same_lead D G H) (terminators D (insts G b)) (terminators D (insts H b))"
      using assms that by (auto simp: same_jumps_def)
  qed
  then show ?thesis using assms by (simp add: same_jumps_def)
qed

lemma last_real_wf:
  assumes "hoist_desc D" "wf_block D B"
  shows "(case last_real B of None \<Rightarrow> terminators D B = []
    | Some I \<Rightarrow> if descTerminator D (getOpcode I) then terminators D B \<noteq> [] \<and> last (terminators D B) = I
      else terminators D B = [])"
  using assms(2)
proof (induction B rule: rev_induct)
  case Nil
  then show ?case by (simp add: last_real_def)
next
  case (snoc x B)
  have dbg: "isDebugInstr x \<Longrightarrow> \<not> descTerminator D (getOpcode x)"
    using assms(1) by (auto simp: isDebugInstr_def hoist_desc_def)
  have "wf_block D B" "\<forall>I \<in> set B. descTerminator D (getOpcode I) \<longrightarrow>
      descTerminator D (getOpcode x) \<or> isDebugInstr x"
    using snoc.prems by (auto simp: wf_block_def sorted_wrt_append)
  moreover have "last_real (B @ [x]) = (if isDebugInstr x then last_real B else Some x)"
    by (simp add: last_real_def)
  ultimately show ?case using snoc.IH dbg
    by (auto simp: filter_empty_conv split: option.splits)
qed

lemma block_jump_wf:
  assumes "hoist_desc D" "wf_block D (insts F b)"
  shows "block_jump D F b c = (if terminators D (insts F b) = [] then Some None
    else jump_of D F (last (terminators D (insts F b))) c)"
  using last_real_wf [OF assms] by (auto simp: block_jump_def split: option.splits if_splits)

lemma same_jumps_block_jump:
  assumes "hoist_desc D" "wf_fn D F" "wf_fn D F'" "same_jumps D F F'" "b \<in> set (blockIds F)"
  shows "block_jump D F' b c = block_jump D F b c"
proof -
  let ?ts = "terminators D (insts F b)" and ?ts' = "terminators D (insts F' b)"
  have all: "list_all2 (same_lead D F F') ?ts ?ts'" and ids: "blockIds F' = blockIds F"
    using assms(4,5) by (auto simp: same_jumps_def)
  have "block_jump D F b c = (if ?ts = [] then Some None else jump_of D F (last ?ts) c)"
    using assms(1,2,5) by (intro block_jump_wf) (auto simp: wf_fn_def)
  moreover have "block_jump D F' b c = (if ?ts' = [] then Some None else jump_of D F' (last ?ts') c)"
    using assms(1,3,5) ids by (intro block_jump_wf) (auto simp: wf_fn_def)
  moreover have "?ts = [] \<longleftrightarrow> ?ts' = []" using list_all2_lengthD [OF all] by auto
  moreover have "jump_of D F' (last ?ts') c = jump_of D F (last ?ts) c" if "?ts \<noteq> []"
  proof -
    have len: "length ?ts' = length ?ts" using list_all2_lengthD [OF all] by simp
    then have ne: "?ts' \<noteq> []" using that by auto
    have "same_lead D F F' (?ts ! (length ?ts - 1)) (?ts' ! (length ?ts - 1))"
      using list_all2_nthD [OF all] that by simp
    then have "same_lead D F F' (last ?ts) (last ?ts')"
      using last_conv_nth [OF that] last_conv_nth [OF ne] len by simp
    then show ?thesis by (intro jump_of_same) (auto simp: same_lead_def)
  qed
  ultimately show ?thesis by presburger
qed

section \<open>Erasing a push\<close>

lemma hoist_desc_facts:
  assumes "hoist_desc D"
  shows "cont_desc D" "branch_desc D" "NumDefs D PUSHCONT_MBB = 1"
    "\<not> descTerminator D PUSHCONT_MBB"
    "descTerminator D (getOpcode MI) \<or> isDebugInstr MI \<Longrightarrow> \<not> sets_reg D r MI"
  using assms
  by (auto simp: hoist_desc_def cont_desc_def branch_desc_def sets_reg_def defs_def isDebugInstr_def)

text \<open>A push defines the register of its first operand and no other.\<close>

lemma sets_reg_push:
  assumes "hoist_desc D" "getOpcode MI = PUSHCONT_MBB"
  shows "sets_reg D r MI \<longleftrightarrow> reg_operand MI 0 = Some r"
proof -
  have "defs D MI = take 1 (operands MI)"
    using assms hoist_desc_facts(3) by (simp add: defs_def)
  then show ?thesis
    by (cases "operands MI") (auto simp: sets_reg_def reg_operand_def getOperand_def bind_eq_Some_conv)
qed

lemma is_push_of_sets: "hoist_desc D \<Longrightarrow> is_push_of r MI \<Longrightarrow> sets_reg D r MI"
  by (simp add: is_push_of_def sets_reg_push)

lemma ssa_unique:
  assumes "ssa D F" "b \<in> set (blockIds F)" "I \<in> set (insts F b)" "sets_reg D r I"
  shows "def_instrs D F r = [I]"
proof -
  have "I \<in> set (def_instrs D F r)" using assms by (auto simp: def_instrs_def)
  moreover have "length (def_instrs D F r) \<le> 1" using assms(1) by (simp add: ssa_def)
  ultimately show ?thesis by (cases "def_instrs D F r") auto
qed

lemma ssa_block:
  assumes "ssa D F" "distinct (blockIds F)" "b \<in> set (blockIds F)" "b' \<in> set (blockIds F)" "b' \<noteq> b"
    and "I \<in> set (insts F b)" "sets_reg D r I" "J \<in> set (insts F b')"
  shows "\<not> sets_reg D r J"
proof
  assume J: "sets_reg D r J"
  define g where "g = (\<lambda>b. filter (sets_reg D r) (insts F b))"
  have "length (g b) + length (g b') \<le> length (concat (map g (blockIds F)))"
  proof -
    have "sum_list (map (\<lambda>b. length (g b)) (blockIds F)) = (\<Sum>b \<in> set (blockIds F). length (g b))"
      using assms(2) by (simp add: sum_list_distinct_conv_sum_set)
    moreover have "(\<Sum>b \<in> {b, b'}. length (g b)) \<le> (\<Sum>b \<in> set (blockIds F). length (g b))"
      using assms(3,4) by (intro sum_mono2) auto
    ultimately show ?thesis using assms(5) by (simp add: length_concat comp_def)
  qed
  also have "\<dots> \<le> 1"
    using assms(1) unfolding ssa_def def_instrs_def filter_concat_map g_def by blast
  finally have "length (g b) + length (g b') \<le> 1" .
  moreover have "I \<in> set (g b)" "J \<in> set (g b')" using assms(6-8) J by (auto simp: g_def)
  ultimately show False by (cases "g b"; cases "g b'") auto
qed

lemma erase_push_insts:
  assumes D: "hoist_desc D" and F: "wf_fn D F" and b: "b \<in> set (blockIds F)"
    and P: "P \<in> set (insts F b)" "is_push_of r P" and b': "b' \<in> set (blockIds F)"
  shows "insts (erase_push (b, r) F) b' = filter (\<lambda>MI. \<not> sets_reg D r MI) (insts F b')"
proof -
  have ssa: "ssa D F" "distinct (blockIds F)" using F by (auto simp: wf_fn_def)
  have Pr: "sets_reg D r P" by (rule is_push_of_sets [OF D P(2)])
  show ?thesis
  proof (cases "b' = b")
    case True
    have "is_push_of r MI \<longleftrightarrow> sets_reg D r MI" if "MI \<in> set (insts F b)" for MI
      using ssa_unique [OF ssa(1) b that] ssa_unique [OF ssa(1) b P(1) Pr] P(2) is_push_of_sets [OF D] by auto
    then show ?thesis using True by (auto simp: erase_push_def set_code_def intro: filter_cong)
  next
    case False
    have "\<not> sets_reg D r MI" if "MI \<in> set (insts F b')" for MI
      by (rule ssa_block [OF ssa b b' False P(1) Pr that])
    then have "filter (\<lambda>MI. \<not> sets_reg D r MI) (insts F b') = insts F b'" by simp
    then show ?thesis using False by (simp add: erase_push_def set_code_def)
  qed
qed

lemma erase_push_fields [simp]:
  "blockIds (erase_push s F) = blockIds F" "succs (erase_push s F) = succs F"
  "nextVReg (erase_push s F) = nextVReg F"
  by (simp_all add: erase_push_def set_code_def)

text \<open>A function whose blocks are filtered.\<close>

lemma def_instrs_filter:
  assumes "blockIds G = blockIds F" "\<And>b. b \<in> set (blockIds F) \<Longrightarrow> insts G b = filter Q (insts F b)"
  shows "def_instrs D G q = filter Q (def_instrs D F q)"
  unfolding def_instrs_def filter_concat_map assms(1) filter_concat map_map
  using assms(2) by (auto simp: comp_def conj_commute intro!: arg_cong [of _ _ concat])

lemma wf_fn_filter:
  assumes "wf_fn D F" "blockIds G = blockIds F" "nextVReg G = nextVReg F"
    and "\<And>b. b \<in> set (blockIds F) \<Longrightarrow> insts G b = filter Q (insts F b)"
  shows "wf_fn D G"
proof -
  have "length (def_instrs D G q) \<le> 1" for q
    using assms(1) def_instrs_filter [OF assms(2,4), of D q] length_filter_le [of Q "def_instrs D F q"]
    unfolding wf_fn_def ssa_def by (metis le_trans)
  then show ?thesis
    using assms unfolding wf_fn_def ssa_def fresh_regs_def wf_block_def
    by (auto simp: sorted_wrt_filter)
qed

lemma block_sites_filter:
  assumes "hoist_desc D" "\<forall>MI \<in> set B. wf_push MI"
  shows "block_sites T b (filter (\<lambda>MI. \<not> sets_reg D r MI) B) = filter (\<lambda>s. snd s \<noteq> r) (block_sites T b B)"
proof -
  have "sets_reg D r MI \<longleftrightarrow> getReg (operands MI ! 0) = r" if "MI \<in> set B" "pushes_to T MI" for MI
    using assms that sets_reg_push [OF assms(1), of MI r]
    by (auto simp: wf_push_def pushes_to_def reg_operand_def getOperand_def bind_eq_Some_conv split: if_splits)
  then show ?thesis
    unfolding block_sites_def filter_map
    by (auto simp: comp_def conj_commute intro!: arg_cong [of _ _ "map _"] filter_cong)
qed

lemma erase_push_correct:
  assumes D: "hoist_desc D" and F: "wf_fn D F" and b: "b \<in> set (blockIds F)"
    and P: "P \<in> set (insts F b)" "is_push_of r P"
  shows "wf_fn D (erase_push (b, r) F)"
    and "def_instrs D (erase_push (b, r) F) q = (if q = r then [] else def_instrs D F q)"
    and "sites_of (erase_push (b, r) F) T = filter (\<lambda>s. snd s \<noteq> r) (sites_of F T)"
    and "b' \<in> set (blockIds F) \<Longrightarrow> terminators D (insts (erase_push (b, r) F) b') = terminators D (insts F b')"
proof -
  let ?G = "erase_push (b, r) F"
  note ins = erase_push_insts [OF D F b P]
  show "wf_fn D ?G" by (rule wf_fn_filter [OF F _ _ ins]) simp_all
  have Pr: "sets_reg D r P" by (rule is_push_of_sets [OF D P(2)])
  have one: "def_instrs D F r = [P]" using F b P(1) Pr by (intro ssa_unique) (auto simp: wf_fn_def)
  have "def_instrs D ?G q = filter (\<lambda>MI. \<not> sets_reg D r MI) (def_instrs D F q)"
    by (rule def_instrs_filter) (use ins in simp_all)
  also have "\<dots> = (if q = r then [] else def_instrs D F q)"
  proof (cases "q = r")
    case True
    then show ?thesis using one Pr by simp
  next
    case False
    have "\<not> sets_reg D r MI" if "MI \<in> set (def_instrs D F q)" for MI
    proof
      assume r: "sets_reg D r MI"
      have MI: "sets_reg D q MI" "\<exists>b \<in> set (blockIds F). MI \<in> set (insts F b)"
        using that by (auto simp: def_instrs_def)
      then have "MI = P" using F r one ssa_unique [of D F _ MI r] by (auto simp: wf_fn_def)
      then show False using MI(1) Pr P(2) False sets_reg_push [OF D, of P] by (simp add: is_push_of_def)
    qed
    then show ?thesis using False by simp
  qed
  finally show "def_instrs D ?G q = (if q = r then [] else def_instrs D F q)" .
  show "sites_of ?G T = filter (\<lambda>s. snd s \<noteq> r) (sites_of F T)"
    using F ins block_sites_filter [OF D]
    by (auto simp: sites_of_def filter_concat comp_def wf_fn_def intro!: arg_cong [of _ _ concat])
  show "terminators D (insts ?G b') = terminators D (insts F b')" if "b' \<in> set (blockIds F)"
    unfolding ins [OF that] using hoist_desc_facts(5) [OF D] by (auto intro: filter_cong)
qed

section \<open>Renaming a register that is not defined any more\<close>

lemma rename_reg_fields [simp]:
  "getOpcode (rename_reg r m MI) = getOpcode MI"
  "isDebugInstr (rename_reg r m MI) = isDebugInstr MI"
  "takes_cont (rename_reg r m MI) = takes_cont MI"
  "reg_operand (rename_reg r m MI) k = map_option (\<lambda>q. if q = r then m else q) (reg_operand MI k)"
  "block_of (rename_reg r m MI) = block_of MI"
proof -
  have "getMBB (if isReg opd \<and> getReg opd = r then setReg m opd else opd) = getMBB opd" for opd
    by (cases opd) (auto simp: setReg_def)
  then show "block_of (rename_reg r m MI) = block_of MI"
    by (auto simp: block_of_def rename_reg_def getOperand_def)
qed (auto simp: rename_reg_def isDebugInstr_def takes_cont_def reg_operand_def getOperand_def setReg_def)

lemma sets_reg_rename:
  assumes "\<not> sets_reg D r MI"
  shows "sets_reg D q (rename_reg r m MI) \<longleftrightarrow> sets_reg D q MI"
  using assms by (auto simp: sets_reg_def defs_def rename_reg_def take_map setReg_def split: if_splits)

lemma block_of_clear [simp]: "block_of (clearRegisterDeads r MI) = block_of MI"
proof -
  have "getMBB (if isReg opd \<and> getReg opd = r then MO_Register r (isUndef opd) False else opd) = getMBB opd" for opd
    by (cases opd) auto
  then show ?thesis by (auto simp: block_of_def clearRegisterDeads_def getOperand_def)
qed

text \<open>
  A function whose instructions are changed one by one, keeping opcodes, blocks and definitions:
  the facts that both the renaming and the clearing of dead flags need.
\<close>

definition keeps_shape :: "MCInstrInfo \<Rightarrow> MachineFn \<Rightarrow> (MachineInstr \<Rightarrow> MachineInstr) \<Rightarrow> bool" where
  "keeps_shape D F f \<longleftrightarrow> (\<forall>b \<in> set (blockIds F). \<forall>MI \<in> set (insts F b).
     getOpcode (f MI) = getOpcode MI \<and> block_of (f MI) = block_of MI \<and>
     (\<forall>q. sets_reg D q (f MI) = sets_reg D q MI) \<and>
     (\<forall>opd \<in> set (operands (f MI)). isReg opd \<longrightarrow> getReg opd < nextVReg F))"

lemma keeps_shape_def_instrs:
  assumes "keeps_shape D F f" "blockIds G = blockIds F"
    and "\<And>b. b \<in> set (blockIds F) \<Longrightarrow> insts G b = map f (insts F b)"
  shows "def_instrs D G q = map f (def_instrs D F q)"
proof -
  have "filter (sets_reg D q) (insts G b) = map f (filter (sets_reg D q) (insts F b))"
    if "b \<in> set (blockIds F)" for b
    using assms(1) that unfolding assms(3) [OF that] keeps_shape_def
    by (intro filter_map_keep) blast
  then show ?thesis
    unfolding def_instrs_def filter_concat_map assms(2) map_concat map_map
    by (auto simp: comp_def intro!: arg_cong [of _ _ concat])
qed

lemma keeps_shape_target:
  assumes D: "hoist_desc D" and F: "keeps_shape D F f" "blockIds G = blockIds F"
    "\<And>b. b \<in> set (blockIds F) \<Longrightarrow> insts G b = map f (insts F b)"
  shows "cont_target D G q = cont_target D F q"
proof -
  have "getOpcode (f MI) = getOpcode MI \<and> block_of (f MI) = block_of MI"
    if "MI \<in> set (def_instrs D F q)" for MI
    using that F(1) by (auto simp: def_instrs_def keeps_shape_def)
  moreover have "def_instrs D G q = map f (def_instrs D F q)"
    using F by (rule keeps_shape_def_instrs)
  ultimately show ?thesis
    unfolding cont_target_def push_of_def getVRegDef_def
    by (cases "def_instrs D F q"; cases "tl (def_instrs D F q)") auto
qed

lemma keeps_shape_wf:
  assumes D: "hoist_desc D" and F: "wf_fn D F" "keeps_shape D F f" "blockIds G = blockIds F"
    "\<And>b. b \<in> set (blockIds F) \<Longrightarrow> insts G b = map f (insts F b)" "nextVReg G = nextVReg F"
  shows "wf_fn D G" "sites_of G T = sites_of F T"
proof -
  have push: "reg_operand (f MI) 0 = reg_operand MI 0"
    if "b \<in> set (blockIds F)" "MI \<in> set (insts F b)" "getOpcode MI = PUSHCONT_MBB" for b MI
  proof -
    have "getOpcode (f MI) = PUSHCONT_MBB" "\<And>q. sets_reg D q (f MI) = sets_reg D q MI"
      using F(2) that by (auto simp: keeps_shape_def)
    then have "(reg_operand (f MI) 0 = Some q) = (reg_operand MI 0 = Some q)" for q
      using sets_reg_push [OF D] that(3) by simp
    then show ?thesis by (metis not_Some_eq)
  qed
  have dbg: "isDebugInstr (f MI) = isDebugInstr MI" if "getOpcode (f MI) = getOpcode MI" for MI
    using that by (simp add: isDebugInstr_def)
  have "ssa D G" using F(1) keeps_shape_def_instrs [OF F(2,3,4)] by (simp add: wf_fn_def ssa_def)
  moreover have "fresh_regs G"
    using F(2,3,4,5) by (auto simp: fresh_regs_def keeps_shape_def)
  moreover have "wf_block D (insts G b)" if "b \<in> set (blockIds F)" for b
    unfolding F(4) [OF that] wf_block_def sorted_wrt_map
  proof (rule sorted_wrt_mono_rel)
    show "sorted_wrt (\<lambda>I J. descTerminator D (getOpcode I) \<longrightarrow>
        descTerminator D (getOpcode J) \<or> isDebugInstr J) (insts F b)"
      using F(1) that by (simp add: wf_fn_def wf_block_def)
    show "\<And>I J. I \<in> set (insts F b) \<Longrightarrow> J \<in> set (insts F b) \<Longrightarrow>
        (descTerminator D (getOpcode I) \<longrightarrow> descTerminator D (getOpcode J) \<or> isDebugInstr J) \<Longrightarrow>
        (descTerminator D (getOpcode (f I)) \<longrightarrow> descTerminator D (getOpcode (f J)) \<or> isDebugInstr (f J))"
      using F(2) that dbg by (simp add: keeps_shape_def)
  qed
  moreover have "\<forall>MI \<in> set (insts G b). wf_push MI" if "b \<in> set (blockIds F)" for b
  proof -
    have "wf_push (f MI)" if "MI \<in> set (insts F b)" for MI
      using F(1,2) that push [OF \<open>b \<in> set (blockIds F)\<close> that] \<open>b \<in> set (blockIds F)\<close>
      by (auto simp: wf_push_def wf_fn_def keeps_shape_def)
    then show ?thesis unfolding F(4) [OF that] by auto
  qed
  ultimately show "wf_fn D G" using F(1,3) by (simp add: wf_fn_def)
  have "block_sites T b (insts G b) = block_sites T b (insts F b)" if "b \<in> set (blockIds F)" for b
  proof -
    have same: "pushes_to T (f MI) = pushes_to T MI" if "MI \<in> set (insts F b)" for MI
      using F(2) that \<open>b \<in> set (blockIds F)\<close> by (simp add: pushes_to_def keeps_shape_def)
    have reg: "getReg (operands (f MI) ! 0) = getReg (operands MI ! 0)"
      if r: "MI \<in> set (insts F b)" "pushes_to T MI" for MI
    proof -
      have "getOpcode MI = PUSHCONT_MBB" using r(2) by (simp add: pushes_to_def)
      moreover obtain r where "reg_operand MI 0 = Some r"
        using F(1) r \<open>b \<in> set (blockIds F)\<close> unfolding wf_fn_def wf_push_def pushes_to_def by blast
      ultimately have "reg_operand (f MI) 0 = Some r" "reg_operand MI 0 = Some r"
        using push [OF \<open>b \<in> set (blockIds F)\<close> r(1)] by auto
      then show ?thesis by (auto simp: reg_operand_def getOperand_def bind_eq_Some_conv split: if_splits)
    qed
    have "filter (pushes_to T) (map f (insts F b)) = map f (filter (pushes_to T) (insts F b))"
      using same by (rule filter_map_keep)
    then show ?thesis using reg unfolding block_sites_def F(4) [OF that] by auto
  qed
  then show "sites_of G T = sites_of F T"
    unfolding sites_of_def F(3) by (auto intro!: arg_cong [of _ _ concat])
qed

section \<open>Merging the pushes to a target\<close>

definition def_blocks :: "MCInstrInfo \<Rightarrow> MachineFn \<Rightarrow> nat \<Rightarrow> nat set" where
  "def_blocks D F r = {b \<in> set (blockIds F). \<exists>MI \<in> set (insts F b). sets_reg D r MI}"

lemma def_blocks_alt:
  "def_blocks D F r = {b \<in> set (blockIds F). filter (sets_reg D r) (insts F b) \<noteq> []}"
  by (auto simp: def_blocks_def filter_empty_conv)

text \<open>The definitions of what the terminators use dominate them.\<close>

definition dominated :: "(nat \<Rightarrow> nat \<Rightarrow> bool) \<Rightarrow> MCInstrInfo \<Rightarrow> MachineFn \<Rightarrow> bool" where
  "dominated dms D F \<longleftrightarrow> (\<forall>b \<in> set (blockIds F). \<forall>I \<in> set (terminators D (insts F b)). takes_cont I \<longrightarrow>
     (\<forall>k r d. reg_operand I k = Some r \<longrightarrow> d \<in> def_blocks D F r \<longrightarrow> dms d b))"

text \<open>What every step of the pass keeps.\<close>

definition hoisted :: "(nat \<Rightarrow> nat \<Rightarrow> bool) \<Rightarrow> MCInstrInfo \<Rightarrow> MachineFn \<Rightarrow> MachineFn \<Rightarrow> bool" where
  "hoisted dms D F F' \<longleftrightarrow> wf_fn D F' \<and> same_jumps D F F' \<and> (dominated dms D F \<longrightarrow> dominated dms D F')"

lemma hoisted_refl: "wf_fn D F \<Longrightarrow> hoisted dms D F F"
  by (simp add: hoisted_def same_jumps_refl)

lemma hoisted_trans: "hoisted dms D F G \<Longrightarrow> hoisted dms D G H \<Longrightarrow> hoisted dms D F H"
  by (auto simp: hoisted_def intro: same_jumps_trans)

lemma hoisted_ids: "hoisted dms D F G \<Longrightarrow> blockIds G = blockIds F"
  by (simp add: hoisted_def same_jumps_def)

lemma sites_of_member:
  assumes "wf_fn D F" "(b, r) \<in> set (sites_of F T)"
  obtains P where "b \<in> set (blockIds F)" "P \<in> set (insts F b)" "is_push_of r P" "block_of P = Some T"
proof -
  from assms(2) obtain P where P: "b \<in> set (blockIds F)" "P \<in> set (insts F b)" "pushes_to T P"
      "r = getReg (operands P ! 0)"
    by (auto simp: sites_of_def block_sites_def)
  moreover obtain q where "reg_operand P 0 = Some q"
    using assms(1) P unfolding wf_fn_def wf_push_def pushes_to_def by blast
  ultimately have "reg_operand P 0 = Some r"
    by (auto simp: reg_operand_def getOperand_def bind_eq_Some_conv split: if_splits)
  then show thesis using that P by (auto simp: is_push_of_def pushes_to_def)
qed

lemma cont_target_cong:
  "def_instrs D G q = def_instrs D F q \<Longrightarrow> cont_target D G q = cont_target D F q"
  by (simp add: cont_target_def push_of_def getVRegDef_def)

lemma cont_target_site:
  assumes "hoist_desc D" "wf_fn D F" "(b, r) \<in> set (sites_of F T)"
  shows "cont_target D F r = Some T" "b \<in> def_blocks D F r"
proof -
  obtain P where P: "b \<in> set (blockIds F)" "P \<in> set (insts F b)" "is_push_of r P" "block_of P = Some T"
    using assms(2,3) by (rule sites_of_member)
  have s: "sets_reg D r P" by (rule is_push_of_sets [OF assms(1) P(3)])
  have "def_instrs D F r = [P]"
    by (rule ssa_unique [OF _ P(1,2) s]) (use assms(2) in \<open>simp add: wf_fn_def\<close>)
  then show "cont_target D F r = Some T"
    using P(3,4) by (simp add: cont_target_def push_of_def getVRegDef_def is_push_of_def)
  show "b \<in> def_blocks D F r" using P(1,2) s by (auto simp: def_blocks_def)
qed

lemma merge_step:
  assumes D: "hoist_desc D" and F: "wf_fn D F" and s: "(b, r) \<in> set (sites_of F T)"
    and m: "cont_target D F m = Some T" "m \<noteq> r"
    and dms: "transp dms" "\<forall>d \<in> def_blocks D F m. dms d b"
    and F': "F' = replaceRegWith r m (erase_push (b, r) F)"
  shows "hoisted dms D F F'" "sites_of F' T' = filter (\<lambda>s. snd s \<noteq> r) (sites_of F T')"
    "cont_target D F' m = Some T" "def_blocks D F' q \<subseteq> def_blocks D F q"
proof -
  obtain P where P: "b \<in> set (blockIds F)" "P \<in> set (insts F b)" "is_push_of r P" "block_of P = Some T"
    using F s by (rule sites_of_member)
  define G where "G = erase_push (b, r) F"
  note G = erase_push_correct [OF D F P(1-3), folded G_def]
  note insG = erase_push_insts [OF D F P(1-3), folded G_def]
  have ids: "blockIds G = blockIds F" "succs G = succs F" "nextVReg G = nextVReg F" by (simp_all add: G_def)
  have noset: "\<not> sets_reg D r MI" if "B \<in> set (blockIds F)" "MI \<in> set (insts G B)" for B MI
    using that insG by auto
  have "m < nextVReg F"
  proof -
    obtain Q where Q: "Q \<in> set (def_instrs D F m)"
      using m(1) by (cases "def_instrs D F m") (auto simp: cont_target_def push_of_def getVRegDef_def)
    then obtain B where B: "B \<in> set (blockIds F)" "Q \<in> set (insts F B)" "sets_reg D m Q"
      by (auto simp: def_instrs_def)
    then obtain opd where "opd \<in> set (operands Q)" "isReg opd" "getReg opd = m"
      by (auto simp: sets_reg_def defs_def dest: in_set_takeD)
    then show ?thesis using F B unfolding wf_fn_def fresh_regs_def by blast
  qed
  moreover have "\<forall>opd \<in> set (operands MI). isReg opd \<longrightarrow> getReg opd < nextVReg F"
    if "B \<in> set (blockIds F)" "MI \<in> set (insts G B)" for B MI
    using G(1) that ids unfolding wf_fn_def fresh_regs_def by metis
  ultimately have fr: "\<forall>opd \<in> set (operands (rename_reg r m MI)). isReg opd \<longrightarrow> getReg opd < nextVReg F"
    if "B \<in> set (blockIds F)" "MI \<in> set (insts G B)" for B MI
    using that by (auto simp: rename_reg_def setReg_def)
  have shape: "keeps_shape D G (rename_reg r m)"
    using noset fr ids by (simp add: keeps_shape_def sets_reg_rename)
  have F'G: "blockIds F' = blockIds G" "nextVReg F' = nextVReg G"
      "insts F' B = map (rename_reg r m) (insts G B)" "succs F' = succs G" for B
    by (simp_all add: F' replaceRegWith_def G_def)
  note keep = keeps_shape_wf [OF D G(1) shape F'G(1) F'G(3) F'G(2)]
  have tgt: "cont_target D F' q = cont_target D F q" if "q \<noteq> r" for q
    using keeps_shape_target [OF D shape F'G(1,3)] cont_target_cong [of D G q F] G(2) that by simp
  show "cont_target D F' m = Some T" using tgt m by simp
  show "sites_of F' T' = filter (\<lambda>s. snd s \<noteq> r) (sites_of F T')"
    using keep(2) G(3) by simp
  show defs: "def_blocks D F' q \<subseteq> def_blocks D F q" for q
    using F'G insG ids noset by (fastforce simp: def_blocks_def sets_reg_rename)
  have terms: "terminators D (insts F' B) = map (rename_reg r m) (terminators D (insts F B))"
    if "B \<in> set (blockIds F)" for B
    unfolding F'G(3) using G(4) [OF that] by (subst filter_map_keep) simp_all
  have lead: "leads_to D F' (rename_reg r m I) k = leads_to D F I k" for I k
    using tgt m cont_target_site(1) [OF D F s] by (auto simp: leads_to_def split: Option.bind_splits)
  have "same_jumps D F F'"
    using F'G ids terms lead by (simp add: same_jumps_def same_lead_def list_all2_map2 list.rel_refl_strong)
  moreover have "dominated dms D F'" if "dominated dms D F"
    unfolding dominated_def
  proof (intro ballI allI impI)
    fix B I' k q' d
    assume B: "B \<in> set (blockIds F')" "I' \<in> set (terminators D (insts F' B))" "takes_cont I'"
      "reg_operand I' k = Some q'" "d \<in> def_blocks D F' q'"
    then have B': "B \<in> set (blockIds F)" using F'G ids by simp
    then obtain I where I: "I \<in> set (terminators D (insts F B))" "I' = rename_reg r m I"
      using B(2) terms by auto
    then obtain q where q: "reg_operand I k = Some q" "q' = (if q = r then m else q)"
      using B(4) by auto
    have use: "dms e B" if "e \<in> def_blocks D F q" for e
      using \<open>dominated dms D F\<close> B' I B(3) q(1) that unfolding dominated_def by auto
    have d: "d \<in> def_blocks D F q'" using B(5) defs by blast
    show "dms d B"
    proof (cases "q = r")
      case True
      then have "dms b B" using use cont_target_site(2) [OF D F s] by simp
      then show ?thesis using dms d q(2) True by (auto dest: transpD)
    next
      case False
      then show ?thesis using use d q(2) by simp
    qed
  qed
  ultimately show "hoisted dms D F F'" using keep(1) by (simp add: hoisted_def)
qed

definition push_sites :: "(MachineInstr \<Rightarrow> bool) \<Rightarrow> nat \<Rightarrow> MachineInstr list \<Rightarrow> Site list" where
  "push_sites P b B = map (\<lambda>MI. (b, getReg (operands MI ! 0))) (filter P B)"

lemma push_sites_once:
  assumes "hoist_desc D" "wf_fn D F" "\<And>MI. P MI \<Longrightarrow> getOpcode MI = PUSHCONT_MBB"
  shows "length (filter (\<lambda>s. snd s = m) (concat (map (\<lambda>b. push_sites P b (insts F b)) (blockIds F)))) \<le> 1"
proof -
  have "length (filter (\<lambda>s. snd s = m) (push_sites P b (insts F b))) \<le>
      length (filter (sets_reg D m) (insts F b))" if "b \<in> set (blockIds F)" for b
  proof -
    have "sets_reg D m MI" if MI: "MI \<in> set (insts F b)" "P MI" "getReg (operands MI ! 0) = m" for MI
    proof -
      obtain q where "reg_operand MI 0 = Some q" "getOpcode MI = PUSHCONT_MBB"
        using assms(2) assms(3) [OF MI(2)] MI(1) \<open>b \<in> set (blockIds F)\<close> unfolding wf_fn_def wf_push_def by blast
      then show ?thesis using MI(3) sets_reg_push [OF assms(1)]
        by (auto simp: reg_operand_def getOperand_def bind_eq_Some_conv split: if_splits)
    qed
    then have sub: "filter (\<lambda>MI. getReg (operands MI ! 0) = m \<and> P MI) (insts F b) =
        filter (\<lambda>MI. getReg (operands MI ! 0) = m \<and> P MI) (filter (sets_reg D m) (insts F b))"
      unfolding filter_filter by (intro filter_cong) auto
    have "length (filter (\<lambda>s. snd s = m) (push_sites P b (insts F b))) =
        length (filter (\<lambda>MI. getReg (operands MI ! 0) = m \<and> P MI) (insts F b))"
      by (simp add: push_sites_def filter_map comp_def conj_commute)
    also have "\<dots> \<le> length (filter (sets_reg D m) (insts F b))"
      by (subst sub) (rule length_filter_le)
    finally show ?thesis .
  qed
  then have "length (filter (\<lambda>s. snd s = m) (concat (map (\<lambda>b. push_sites P b (insts F b)) (blockIds F)))) \<le>
      length (def_instrs D F m)"
    unfolding def_instrs_def filter_concat_map filter_concat map_map comp_def length_concat
    by (auto intro!: sum_list_mono)
  also have "\<dots> \<le> 1" using assms(2) unfolding wf_fn_def ssa_def by blast
  finally show ?thesis .
qed

lemma sites_once:
  assumes "hoist_desc D" "wf_fn D F"
  shows "length (filter (\<lambda>s. snd s = m) (sites_of F T)) \<le> 1"
  using push_sites_once [OF assms, of "pushes_to T" m]
  by (simp add: sites_of_def block_sites_def push_sites_def pushes_to_def)

lemma distinct_once: "(\<And>m. length (filter (\<lambda>s. f s = m) xs) \<le> 1) \<Longrightarrow> distinct (map f xs)"
proof (induction xs)
  case (Cons x xs)
  have "length (filter (\<lambda>s. f s = m) xs) \<le> 1" for m
    using Cons.prems [of m] by (simp split: if_splits)
  moreover have "f x \<notin> f ` set xs"
    using Cons.prems [of "f x"] by (auto simp: filter_empty_conv)
  ultimately show ?case using Cons.IH by simp
qed simp

lemma merge_all:
  assumes D: "hoist_desc D" and F: "wf_fn D F" and ss: "set ss \<subseteq> set (sites_of F T)" "distinct (map snd ss)"
    and m: "cont_target D F m = Some T" "\<And>s. s \<in> set ss \<Longrightarrow> Found = Some s \<longleftrightarrow> snd s = m"
    and dms: "transp dms" "\<And>d s. d \<in> def_blocks D F m \<Longrightarrow> s \<in> set ss \<Longrightarrow> dms d (fst s)"
  shows "hoisted dms D F (fold (mergePush m Found) ss F)"
    "sites_of (fold (mergePush m Found) ss F) T' =
      filter (\<lambda>s. snd s = m \<or> snd s \<notin> snd ` set ss) (sites_of F T')"
  using F ss m dms(2)
proof (induction ss arbitrary: F)
  case Nil
  { case 1 then show ?case by (simp add: hoisted_refl) }
  { case 2 then show ?case by simp }
next
  case (Cons s ss)
  have both: "hoisted dms D F (fold (mergePush m Found) (s # ss) F) \<and>
    sites_of (fold (mergePush m Found) (s # ss) F) T' =
      filter (\<lambda>x. snd x = m \<or> snd x \<notin> snd ` set (s # ss)) (sites_of F T')"
    if F: "wf_fn D F" "set (s # ss) \<subseteq> set (sites_of F T)" "distinct (map snd (s # ss))"
      "cont_target D F m = Some T" "\<And>x. x \<in> set (s # ss) \<Longrightarrow> (Found = Some x) = (snd x = m)"
      "\<And>d x. d \<in> def_blocks D F m \<Longrightarrow> x \<in> set (s # ss) \<Longrightarrow> dms d (fst x)" for F
  proof (cases "snd s = m")
    case True
    then have "mergePush m Found s F = F" using F(5) by (simp add: mergePush_def)
    moreover have "hoisted dms D F (fold (mergePush m Found) ss F)"
      by (rule Cons.IH(1) [OF F(1)]) (use F in auto)
    moreover have "sites_of (fold (mergePush m Found) ss F) T' =
        filter (\<lambda>x. snd x = m \<or> snd x \<notin> snd ` set ss) (sites_of F T')"
      by (rule Cons.IH(2) [OF F(1)]) (use F in auto)
    ultimately show ?thesis using True by (auto intro: filter_cong)
  next
    case False
    obtain b r where s: "s = (b, r)" by (cases s)
    define G where "G = replaceRegWith r m (erase_push (b, r) F)"
    have mem: "(b, r) \<in> set (sites_of F T)" "m \<noteq> r" using F(2) False s by auto
    have db: "\<forall>d \<in> def_blocks D F m. dms d b" using F(6) [of _ s] s by simp
    note G = merge_step [OF D F(1) mem(1) F(4) mem(2) dms(1) db G_def]
    have "mergePush m Found s F = G"
      using False F(5) s by (simp add: mergePush_def G_def)
    moreover have wf: "wf_fn D G" using G(1) by (simp add: hoisted_def)
    moreover have "set ss \<subseteq> set (sites_of G T)"
    proof
      fix x assume x: "x \<in> set ss"
      then have "snd x \<noteq> r" using F(3) s by force
      then show "x \<in> set (sites_of G T)" using x F(2) G(2) [of T] by auto
    qed
    moreover have "dms d (fst x)" if "d \<in> def_blocks D G m" "x \<in> set ss" for d x
    proof -
      have "d \<in> def_blocks D F m" using that(1) G(4) by blast
      moreover have "x \<in> set (s # ss)" using that(2) by simp
      ultimately show ?thesis by (rule F(6))
    qed
    ultimately have rest: "hoisted dms D G (fold (mergePush m Found) ss G)"
        "sites_of (fold (mergePush m Found) ss G) T' =
          filter (\<lambda>x. snd x = m \<or> snd x \<notin> snd ` set ss) (sites_of G T')"
      using Cons.IH [OF wf _ _ G(3)] F(3,5) by auto
    have "fold (mergePush m Found) (s # ss) F = fold (mergePush m Found) ss G"
      using \<open>mergePush m Found s F = G\<close> by simp
    moreover have "filter (\<lambda>x. snd x = m \<or> snd x \<notin> snd ` set ss) (filter (\<lambda>x. snd x \<noteq> r) (sites_of F T')) =
        filter (\<lambda>x. snd x = m \<or> snd x \<notin> snd ` set (s # ss)) (sites_of F T')"
      using mem(2) s by (auto intro: filter_cong)
    ultimately show ?thesis using rest G(2) [of T'] hoisted_trans [OF G(1) rest(1)] by simp
  qed
  { case 1 then show ?case using both by blast }
  { case 2 then show ?case using both by blast }
qed

section \<open>A new push\<close>

lemma insert_point_before:
  assumes D: "hoist_desc D" and F: "wf_fn D F" "d \<in> set (blockIds F)"
    and i: "insert_point D isVirtual F d = Some i"
  shows "i < length (insts F d)" "\<forall>I \<in> set (take i (insts F d)). \<not> descTerminator D (getOpcode I)"
proof -
  let ?B = "insts F d"
  obtain p where p: "getFirstTerminator D ?B = Some p"
    using i by (auto simp: insert_point_def bind_eq_Some_conv)
  note pf = first_terminator_facts [OF p]
  have sorted: "wf_block D ?B" using F by (simp add: wf_fn_def)
  have before: "\<not> descTerminator D (getOpcode (?B ! k))"
    if j: "j < length ?B" "k < j" "\<not> (descTerminator D (getOpcode (?B ! j)) \<or> isDebugInstr (?B ! j))" for j k
    using sorted j unfolding wf_block_def sorted_wrt_iff_nth_less by blast
  have first: "\<not> descTerminator D (getOpcode (?B ! k))" if "k < p" for k
  proof -
    obtain A tail where B: "?B = A @ tail" "\<forall>I \<in> set tail. descTerminator D (getOpcode I) \<or> isDebugInstr I"
        "A \<noteq> [] \<Longrightarrow> \<not> (descTerminator D (getOpcode (last A)) \<or> isDebugInstr (last A))"
        "getFirstTerminator D ?B = map_option (\<lambda>k. length A + k)
         (find_index True (map (\<lambda>I. descTerminator D (getOpcode I)) tail))"
      by (rule terminator_tail [of ?B D]) (rule that)
    obtain n where n: "p = length A + n" "find_index True (map (\<lambda>I. descTerminator D (getOpcode I)) tail) = Some n"
      using p B(4) by auto
    show ?thesis
    proof (cases "k < length A")
      case True
      then have ne: "A \<noteq> []" by auto
      then have A: "A \<noteq> []" "?B ! (length A - 1) = last A"
        using B(1) by (simp_all add: nth_append last_conv_nth)
      show ?thesis
      proof (cases "k = length A - 1")
        case True
        then show ?thesis using A B(3) by simp
      next
        case False
        then show ?thesis using before [of "length A - 1" k] True A B(1,3) by simp
      qed
    next
      case False
      then have "k - length A < n" using \<open>k < p\<close> n(1) by linarith
      moreover have "n < length tail" using find_index_Some [OF n(2)] by simp
      ultimately have "\<not> descTerminator D (getOpcode (tail ! (k - length A)))"
        using find_index_Some [OF n(2)] by auto
      then show ?thesis using False B(1) by (simp add: nth_append)
    qed
  qed
  have "i = p \<or> (i < length ?B \<and> (\<exists>r. sets_reg D r (?B ! i)))"
    using i p
    by (auto simp: insert_point_def bind_eq_Some_conv dest!: find_index_Some split: if_splits option.splits)
  then have "i < length ?B \<and> (\<forall>k < i. \<not> descTerminator D (getOpcode (?B ! k)))"
    using first before pf(1) hoist_desc_facts(5) [OF D] by blast
  then show "i < length ?B" "\<forall>I \<in> set (take i ?B). \<not> descTerminator D (getOpcode I)"
    by (auto simp: in_set_conv_nth)
qed

lemma insert_push_correct:
  assumes D: "hoist_desc D" and F: "wf_fn D F" "d \<in> set (blockIds F)"
    and i: "i < length (insts F d)" "\<forall>I \<in> set (take i (insts F d)). \<not> descTerminator D (getOpcode I)"
    and G: "G = set_code d (insert_instr i (pushcont (nextVReg F) T) (insts F d)) (F \<lparr> nextVReg := nextVReg F + 1 \<rparr>)"
  shows "hoisted dms D F G" "cont_target D G (nextVReg F) = Some T" "def_blocks D G (nextVReg F) = {d}"
    "T' \<noteq> T \<Longrightarrow> sites_of G T' = sites_of F T'" "set (sites_of F T) \<subseteq> set (sites_of G T)"
    "set (sites_of G T) \<subseteq> insert (d, nextVReg F) (set (sites_of F T))"
proof -
  let ?n = "nextVReg F" and ?B = "insts F d"
  let ?P = "pushcont ?n T"
  have fresh: "fresh_regs F" "distinct (blockIds F)" "ssa D F" using F by (simp_all add: wf_fn_def)
  have split: "?B = take i ?B @ drop i ?B" by simp
  have ins: "insts G d = take i ?B @ ?P # drop i ?B" "insts G b = insts F b" if "b \<noteq> d" for b
    using that by (simp_all add: G set_code_def insert_instr_def)
  have insd: "insts G d = take i ?B @ ?P # drop i ?B" by (simp add: G set_code_def insert_instr_def)
  have ids: "blockIds G = blockIds F" "succs G = succs F" "nextVReg G = ?n + 1"
    by (simp_all add: G set_code_def)
  have filt: "filter Q (insts G b) = filter Q (insts F b)" if "\<not> Q ?P" for Q b
  proof (cases "b = d")
    case True
    have "filter Q ?B = filter Q (take i ?B) @ filter Q (drop i ?B)"
      by (subst split) (simp only: filter_append)
    then show ?thesis using True that insd by simp
  qed (simp add: G set_code_def)
  have sp: "sets_reg D q ?P \<longleftrightarrow> q = ?n" for q
    using sets_reg_pushcont [OF hoist_desc_facts(2) [OF D]] by simp
  have none: "filter (sets_reg D ?n) (insts F b) = []" if "b \<in> set (blockIds F)" for b
    by (rule fresh_not_set [OF fresh(1) that order_refl])
  have defs: "def_instrs D G q = (if q = ?n then [?P] else def_instrs D F q)" for q
  proof (cases "q = ?n")
    case True
    have "filter (sets_reg D ?n) (insts G b) = (if b = d then [?P] else [])" if "b \<in> set (blockIds F)" for b
    proof (cases "b = d")
      case True
      have "filter (sets_reg D ?n) (take i ?B) = []" "filter (sets_reg D ?n) (drop i ?B) = []"
        using none [OF F(2)] by (auto simp: filter_empty_conv dest: in_set_takeD in_set_dropD)
      then show ?thesis using True insd sp by simp
    next
      case False
      then show ?thesis using none [OF that] ins(2) by simp
    qed
    then have "def_instrs D G ?n = concat (map (\<lambda>b. if b = d then [?P] else []) (blockIds F))"
      unfolding def_instrs_def filter_concat_map ids by (auto intro!: arg_cong [of _ _ concat])
    then show ?thesis using True concat_single [OF fresh(2) F(2)] by simp
  next
    case False
    then have "filter (sets_reg D q) (insts G b) = filter (sets_reg D q) (insts F b)" for b
      by (intro filt) (simp add: sp)
    then show ?thesis using False by (simp add: def_instrs_def filter_concat_map ids)
  qed
  then show tn: "cont_target D G ?n = Some T"
    by (simp add: cont_target_def push_of_def getVRegDef_def block_of_def getOperand_def pushcont_def mk_instr_def)
  have blocks: "def_blocks D G q = (if q = ?n then {d} else def_blocks D F q)" for q
  proof -
    have "filter (sets_reg D q) (insts G b) \<noteq> [] \<longleftrightarrow>
        (if q = ?n then b = d else filter (sets_reg D q) (insts F b) \<noteq> [])" if "b \<in> set (blockIds F)" for b
    proof (cases "q = ?n")
      case True
      have "?P \<in> set (filter (sets_reg D ?n) (insts G d))" using insd sp by simp
      then have "filter (sets_reg D ?n) (insts G d) \<noteq> []" by (metis empty_iff list.set(1))
      then show ?thesis using True none [OF that] ins(2) by (cases "b = d") simp_all
    next
      case False
      then have "\<not> sets_reg D q ?P" using sp by simp
      then show ?thesis using False filt [of "sets_reg D q" b] by simp
    qed
    then have "def_blocks D G q = {b \<in> set (blockIds F).
        if q = ?n then b = d else filter (sets_reg D q) (insts F b) \<noteq> []}"
      unfolding def_blocks_alt ids by (intro Collect_cong conj_cong refl)
    then show ?thesis using F(2) by (cases "q = ?n") (auto simp: def_blocks_alt)
  qed
  then show "def_blocks D G ?n = {d}" by simp
  have terms: "terminators D (insts G b) = terminators D (insts F b)" for b
    using hoist_desc_facts(4) [OF D] by (intro filt) (simp add: pushcont_def)
  note regs = reg_operand_fresh [OF fresh(1)]
  have lead: "leads_to D G I k = leads_to D F I k" if "b \<in> set (blockIds F)" "I \<in> set (insts F b)" for b I k
  proof (cases "reg_operand I k")
    case (Some r)
    then have "r \<noteq> ?n" using regs [OF that Some] by simp
    then show ?thesis using Some defs cont_target_cong [of D G r F] by (simp add: leads_to_def)
  qed (simp add: leads_to_def)
  have jumps: "same_jumps D F G"
    unfolding same_jumps_def terms ids same_lead_def by (auto intro!: list.rel_refl_strong simp: lead)
  have sub: "set (insts F b) \<subseteq> set (insts G b)" "set (insts G b) \<subseteq> insert ?P (set (insts F b))" for b
  proof -
    have "set (take i ?B) \<union> set (drop i ?B) = set ?B" by (metis append_take_drop_id set_append)
    then show "set (insts F b) \<subseteq> set (insts G b)" "set (insts G b) \<subseteq> insert ?P (set (insts F b))"
      using insd ins(2) by (cases "b = d"; auto)+
  qed
  have "wf_block D (insts G b)" if "b \<in> set (blockIds F)" for b
  proof (cases "b = d")
    case True
    have "wf_block D (take i ?B @ drop i ?B)" using F by (simp add: wf_fn_def)
    moreover have "\<not> descTerminator D (getOpcode ?P)"
      using hoist_desc_facts(4) [OF D] by (simp add: pushcont_def)
    ultimately have "wf_block D (take i ?B @ ?P # drop i ?B)"
      using i(2) by (auto simp: wf_block_def sorted_wrt_append)
    then show ?thesis using True insd by simp
  next
    case False
    then show ?thesis using F(1) that ins(2) by (simp add: wf_fn_def)
  qed
  moreover have "fresh_regs G"
    unfolding fresh_regs_def ids
  proof (intro ballI impI)
    fix b MI opd assume b: "b \<in> set (blockIds F)" "MI \<in> set (insts G b)" "opd \<in> set (operands MI)" "isReg opd"
    show "getReg opd < ?n + 1"
    proof (cases "MI = ?P")
      case True
      then show ?thesis using b(3,4) by (auto simp: pushcont_def)
    next
      case False
      then have "MI \<in> set (insts F b)" using b(2) sub(2) by blast
      then have "getReg opd < ?n" using fresh(1) b unfolding fresh_regs_def by blast
      then show ?thesis by simp
    qed
  qed
  moreover have "ssa D G" using fresh(3) defs by (simp add: ssa_def)
  moreover have "wf_push MI" if "b \<in> set (blockIds F)" "MI \<in> set (insts G b)" for b MI
  proof -
    have "MI = ?P \<or> MI \<in> set (insts F b)"
      using that sub(2) by blast
    then show ?thesis
    proof
      assume "MI = ?P"
      then show ?thesis by (simp add: wf_push_def pushcont_def block_of_def getOperand_def)
    next
      assume "MI \<in> set (insts F b)"
      then show ?thesis using F(1) that(1) by (simp add: wf_fn_def)
    qed
  qed
  ultimately have wf: "wf_fn D G" using fresh(2) by (simp add: wf_fn_def ids)
  have "dominated dms D G" if "dominated dms D F"
    unfolding dominated_def ids terms
  proof (intro ballI allI impI)
    fix b I k r e
    assume b: "b \<in> set (blockIds F)" "I \<in> set (terminators D (insts F b))" "takes_cont I"
      "reg_operand I k = Some r" "e \<in> def_blocks D G r"
    then have "r \<noteq> ?n" using regs [OF b(1) _ b(4)] by auto
    then have "e \<in> def_blocks D F r" using b(5) blocks by simp
    then show "dms e b" using that b(1-4) unfolding dominated_def by blast
  qed
  then show "hoisted dms D F G" using wf jumps by (simp add: hoisted_def)
  show "sites_of G T' = sites_of F T'" if "T' \<noteq> T"
  proof -
    have "\<not> pushes_to T' ?P" using that by (simp add: pushes_to_def block_of_def getOperand_def pushcont_def)
    then show ?thesis by (simp add: sites_of_def block_sites_def filt ids)
  qed
  show "set (sites_of F T) \<subseteq> set (sites_of G T)"
    using sub(1) by (force simp: sites_of_def block_sites_def ids)
  show "set (sites_of G T) \<subseteq> insert (d, ?n) (set (sites_of F T))"
  proof
    fix x assume "x \<in> set (sites_of G T)"
    then obtain b MI where b: "b \<in> set (blockIds F)" "MI \<in> set (insts G b)" "pushes_to T MI"
        "x = (b, getReg (operands MI ! 0))"
      by (auto simp: sites_of_def block_sites_def ids)
    show "x \<in> insert (d, ?n) (set (sites_of F T))"
    proof (cases "MI \<in> set (insts F b)")
      case True
      then show ?thesis using b by (auto simp: sites_of_def block_sites_def)
    next
      case False
      then have "MI = ?P" using b(2) sub(2) by blast
      moreover have "b = d" using False b(2) ins(2) by metis
      ultimately show ?thesis using b(4) by (simp add: pushcont_def)
    qed
  qed
qed

section \<open>One target\<close>

text \<open>What LLVM documents of its dominator tree.\<close>

definition dominator_tree :: "nat set \<Rightarrow> (nat \<Rightarrow> nat \<Rightarrow> bool) \<Rightarrow> (nat \<Rightarrow> nat \<Rightarrow> nat option) \<Rightarrow> bool" where
  "dominator_tree blocks dms ncd \<longleftrightarrow> reflp dms \<and> transp dms \<and>
     (\<forall>a \<in> blocks. \<forall>b \<in> blocks. \<forall>c. ncd a b = Some c \<longrightarrow> c \<in> blocks \<and> dms c a \<and> dms c b)"

lemma dominator_treeD:
  assumes "dominator_tree blocks dms ncd"
  shows "transp dms" "dms a a"
    "\<lbrakk>a \<in> blocks; b \<in> blocks; ncd a b = Some c\<rbrakk> \<Longrightarrow> c \<in> blocks \<and> dms c a \<and> dms c b"
  using assms unfolding dominator_tree_def reflp_def by blast+

lemma common_dominator:
  assumes "dominator_tree blocks dms ncd" "foldM (\<lambda>s d. ncd d (fst s)) ss a = Some d"
    and "a \<in> blocks" "fst ` set ss \<subseteq> blocks"
  shows "d \<in> blocks \<and> dms d a \<and> (\<forall>s \<in> set ss. dms d (fst s))"
  using assms(2-)
proof (induction ss arbitrary: a)
  case Nil
  moreover have "dms a a" by (rule dominator_treeD [OF assms(1)])
  ultimately show ?case by simp
next
  case (Cons s ss)
  obtain c where c: "ncd a (fst s) = Some c" "foldM (\<lambda>s d. ncd d (fst s)) ss c = Some d"
    using Cons.prems(1) by (cases "ncd a (fst s)") simp_all
  then have "c \<in> blocks" "dms c a" "dms c (fst s)"
    using dominator_treeD(3) [OF assms(1), of a "fst s" c] Cons.prems(2,3) by auto
  moreover have "d \<in> blocks \<and> dms d c \<and> (\<forall>s \<in> set ss. dms d (fst s))"
    using Cons.IH [OF c(2)] Cons.prems(3) \<open>c \<in> blocks\<close> by simp
  moreover have "transp dms" by (rule dominator_treeD [OF assms(1)])
  ultimately show ?case by (auto dest: transpD)
qed

lemma common_dominator_all:
  assumes "dominator_tree blocks dms ncd" "2 \<le> length ss"
    "foldM (\<lambda>s d. ncd d (fst s)) (tl ss) (fst (hd ss)) = Some d" "fst ` set ss \<subseteq> blocks"
  shows "d \<in> blocks" "s \<in> set ss \<Longrightarrow> dms d (fst s)"
proof -
  obtain x xs where ss: "ss = x # xs" using assms(2) by (cases ss) auto
  then show "d \<in> blocks" "s \<in> set ss \<Longrightarrow> dms d (fst s)"
    using common_dominator [OF assms(1), of xs "fst x" d] assms(3,4) by auto
qed

lemma clear_operands:
  obtains g where "operands (clearRegisterDeads r MI) = map g (operands MI)"
    "\<And>opd. isReg (g opd) = isReg opd" "\<And>opd. isReg opd \<Longrightarrow> getReg (g opd) = getReg opd"
proof -
  define g where "g = (\<lambda>opd. if isReg opd \<and> getReg opd = r then MO_Register r (isUndef opd) False else opd)"
  have "operands (clearRegisterDeads r MI) = map g (operands MI)"
    by (simp add: clearRegisterDeads_def g_def)
  then show thesis by (rule that) (auto simp: g_def)
qed

lemma sets_reg_clear [simp]: "sets_reg D q (clearRegisterDeads r MI) = sets_reg D q MI"
proof -
  obtain g where "operands (clearRegisterDeads r MI) = map g (operands MI)"
      "\<And>opd. isReg (g opd) = isReg opd" "\<And>opd. isReg opd \<Longrightarrow> getReg (g opd) = getReg opd"
    by (rule clear_operands [of r MI]) (rule that)
  moreover have "getOpcode (clearRegisterDeads r MI) = getOpcode MI" by (simp add: clearRegisterDeads_def)
  ultimately show ?thesis by (auto simp: sets_reg_def defs_def take_map)
qed

lemma clear_opcode [simp]: "getOpcode (clearRegisterDeads r MI) = getOpcode MI"
  by (simp add: clearRegisterDeads_def)

lemma clear_deads_correct:
  assumes D: "hoist_desc D" and F: "wf_fn D F" and s: "(d, r) \<in> set (sites_of F T)"
    and G: "G = set_code d (map (\<lambda>MI. if is_push_of r MI then clearRegisterDeads r MI else MI) (insts F d)) F"
  shows "hoisted dms D F G" "cont_target D G q = cont_target D F q" "sites_of G T' = sites_of F T'"
    "def_blocks D G r = {d}"
proof -
  let ?f = "\<lambda>MI. if is_push_of r MI then clearRegisterDeads r MI else MI"
  obtain P where P: "d \<in> set (blockIds F)" "P \<in> set (insts F d)" "is_push_of r P" "block_of P = Some T"
    using F s by (rule sites_of_member)
  have ssa: "ssa D F" "distinct (blockIds F)" using F by (simp_all add: wf_fn_def)
  note Pr = is_push_of_sets [OF D P(3)]
  have other: "\<not> sets_reg D r MI" if "b \<in> set (blockIds F)" "b \<noteq> d" "MI \<in> set (insts F b)" for b MI
    by (rule ssa_block [OF ssa P(1) that(1,2) P(2) Pr that(3)])
  have ids: "blockIds G = blockIds F" "succs G = succs F" "nextVReg G = nextVReg F"
    by (simp_all add: G set_code_def)
  have ins: "insts G b = map ?f (insts F b)" if "b \<in> set (blockIds F)" for b
  proof (cases "b = d")
    case False
    then have "\<forall>MI \<in> set (insts F b). \<not> is_push_of r MI"
      using other [OF that] is_push_of_sets [OF D] by blast
    then have "map ?f (insts F b) = insts F b" by (simp add: map_idI)
    then show ?thesis using False by (simp add: G set_code_def)
  qed (simp add: G set_code_def)
  have "\<forall>opd \<in> set (operands (?f MI)). isReg opd \<longrightarrow> getReg opd < nextVReg F"
    if MI: "b \<in> set (blockIds F)" "MI \<in> set (insts F b)" for b MI
  proof -
    obtain g where "operands (clearRegisterDeads r MI) = map g (operands MI)"
        "\<And>opd. isReg (g opd) = isReg opd" "\<And>opd. isReg opd \<Longrightarrow> getReg (g opd) = getReg opd"
      by (rule clear_operands [of r MI]) (rule that)
    moreover have "\<forall>opd \<in> set (operands MI). isReg opd \<longrightarrow> getReg opd < nextVReg F"
      using F MI by (simp add: wf_fn_def fresh_regs_def)
    ultimately show ?thesis by auto
  qed
  then have shape: "keeps_shape D F ?f" by (simp add: keeps_shape_def)
  note wf = keeps_shape_wf [OF D F shape ids(1) ins ids(3)]
  show tgt: "cont_target D G q = cont_target D F q" for q by (rule keeps_shape_target [OF D shape ids(1) ins])
  show "sites_of G T' = sites_of F T'" by (rule wf(2))
  have "?f MI = MI" if "descTerminator D (getOpcode MI)" for MI
    using that hoist_desc_facts(4) [OF D] by (auto simp: is_push_of_def)
  then have "map ?f (terminators D (insts F b)) = terminators D (insts F b)" for b
    by (intro map_idI) simp
  moreover have "terminators D (map ?f (insts F b)) = map ?f (terminators D (insts F b))" for b
    by (rule filter_map_keep) simp
  ultimately have terms: "terminators D (insts G b) = terminators D (insts F b)" if "b \<in> set (blockIds F)" for b
    using ins [OF that] by simp
  have jumps: "same_jumps D F G"
    unfolding same_jumps_def ids by (auto intro!: list.rel_refl_strong simp: terms same_lead_def leads_to_def tgt)
  have blocks: "def_blocks D G q = def_blocks D F q" for q
  proof -
    have "sets_reg D q (?f MI) = sets_reg D q MI" for MI by simp
    then have "(\<exists>MI \<in> set (insts G b). sets_reg D q MI) = (\<exists>MI \<in> set (insts F b). sets_reg D q MI)"
      if "b \<in> set (blockIds F)" for b
      unfolding ins [OF that] set_map bex_simps by (simp only:)
    then show ?thesis unfolding def_blocks_def ids by (intro Collect_cong conj_cong refl)
  qed
  have "dominated dms D G" if "dominated dms D F"
    using that unfolding dominated_def ids blocks by (metis terms)
  then show "hoisted dms D F G" using wf(1) jumps by (simp add: hoisted_def)
  show "def_blocks D G r = {d}"
    unfolding blocks using P(1,2) Pr other by (auto simp: def_blocks_def)
qed

lemma sites_blocks: "fst ` set (sites_of F T) \<subseteq> set (blockIds F)"
  by (auto simp: sites_of_def block_sites_def)

text \<open>After the pushes ss to T are merged into m, the sites of T are those of m.\<close>

lemma merged_sites:
  assumes D: "hoist_desc D" and F: "wf_fn D F" and ss: "set ss \<subseteq> set (sites_of F T)" "distinct (map snd ss)"
    and m: "cont_target D F m = Some T" "\<And>s. s \<in> set ss \<Longrightarrow> Found = Some s \<longleftrightarrow> snd s = m"
    and dms: "transp dms" "\<And>d s. d \<in> def_blocks D F m \<Longrightarrow> s \<in> set ss \<Longrightarrow> dms d (fst s)"
    and all: "set (sites_of F T) \<subseteq> {s. snd s = m} \<union> set ss"
  defines "F' \<equiv> fold (mergePush m Found) ss F"
  shows "hoisted dms D F F'" "length (sites_of F' T) \<le> 1"
    "T' \<noteq> T \<Longrightarrow> sites_of F' T' = sites_of F T'"
proof -
  show "hoisted dms D F F'" unfolding F'_def by (rule merge_all(1) [OF D F ss m dms])
  have M: "sites_of F' U = filter (\<lambda>s. snd s = m \<or> snd s \<notin> snd ` set ss) (sites_of F U)" for U
    unfolding F'_def by (rule merge_all(2) [OF D F ss m dms])
  have "sites_of F' T = filter (\<lambda>s. snd s = m) (sites_of F T)"
    unfolding M using all by (intro filter_cong) auto
  then show "length (sites_of F' T) \<le> 1" using sites_once [OF D F] by simp
  show "sites_of F' T' = sites_of F T'" if "T' \<noteq> T"
  proof -
    have "snd s \<notin> snd ` set ss" if s: "s \<in> set (sites_of F T')" for s
    proof
      assume "snd s \<in> snd ` set ss"
      then obtain x where x: "x \<in> set (sites_of F T)" "snd x = snd s" using ss(1) by auto
      have "cont_target D F (snd s) = Some T'"
        using cont_target_site(1) [OF D F] s by (metis prod.collapse)
      moreover have "cont_target D F (snd s) = Some T"
        using cont_target_site(1) [OF D F] x by (metis prod.collapse)
      ultimately show False using \<open>T' \<noteq> T\<close> by simp
    qed
    then show ?thesis unfolding M by simp
  qed
qed

lemma hoistTarget_correct:
  assumes D: "hoist_desc D" and F: "wf_fn D F" and tree: "dominator_tree (set (blockIds F)) dms ncd"
    and res: "hoistTarget D ncd isVirtual (T, sites_of F T) F = Some F'"
  shows "hoisted dms D F F'" "length (sites_of F' T) \<le> 1" "T' \<noteq> T \<Longrightarrow> sites_of F' T' = sites_of F T'"
proof -
  let ?ss = "sites_of F T"
  have dist: "distinct (map snd ?ss)" using sites_once [OF D F] by (rule distinct_once)
  have tr: "transp dms" by (rule dominator_treeD [OF tree])
  have "hoisted dms D F F' \<and> length (sites_of F' T) \<le> 1 \<and> (T' \<noteq> T \<longrightarrow> sites_of F' T' = sites_of F T')"
  proof (cases "length ?ss < 2")
    case True
    then show ?thesis using res hoisted_refl [OF F] by (auto simp: hoistTarget_def)
  next
    case False
    obtain d where d: "foldM (\<lambda>s d. ncd d (fst s)) (tl ?ss) (fst (hd ?ss)) = Some d"
      using res False by (auto simp: hoistTarget_def bind_eq_Some_conv)
    have dom: "d \<in> set (blockIds F)" "s \<in> set ?ss \<Longrightarrow> dms d (fst s)" for s
      using common_dominator_all [OF tree _ d sites_blocks] False by auto
    show ?thesis
    proof (cases "find (pushes_to T) (rev (insts F d))")
      case (Some P)
      then have P: "P \<in> set (insts F d)" "pushes_to T P"
        by (auto simp: find_Some_iff in_set_conv_nth rev_nth)
          (metis Suc_diff_Suc diff_less length_greater_0_conv list.size(3) not_less_zero zero_less_Suc)
      obtain r where r: "reg_operand P 0 = Some r"
        using F P dom(1) unfolding wf_fn_def wf_push_def pushes_to_def by blast
      have mem: "(d, r) \<in> set ?ss"
        using P dom(1) r
        by (force simp: sites_of_def block_sites_def reg_operand_def getOperand_def bind_eq_Some_conv split: if_splits)
      define G where "G = set_code d (map (\<lambda>MI. if is_push_of r MI then clearRegisterDeads r MI else MI) (insts F d)) F"
      note G = clear_deads_correct [OF D F mem G_def]
      have F': "F' = fold (mergePush r (Some (d, r))) ?ss G"
        using res False d Some r by (simp add: hoistTarget_def G_def)
      have wfG: "wf_fn D G" using G(1) [of dms] by (simp add: hoisted_def)
      have found: "Some (d, r) = Some s \<longleftrightarrow> snd s = r" if "s \<in> set ?ss" for s
        using that mem dist unfolding distinct_map inj_on_def by force
      have cg: "cont_target D G r = Some T" using G(2) cont_target_site(1) [OF D F mem] by simp
      have sub: "set ?ss \<subseteq> set (sites_of G T)" and all: "set (sites_of G T) \<subseteq> {s. snd s = r} \<union> set ?ss"
        using G(3) by auto
      have domG: "dms e (fst s)" if "e \<in> def_blocks D G r" "s \<in> set ?ss" for e s
        using that G(4) dom(2) by simp
      note M = merged_sites [OF D wfG sub dist cg found tr domG all]
      show ?thesis using hoisted_trans [OF G(1) M(1)] M(2) M(3) [of T'] G(3) unfolding F' by auto
    next
      case None
      let ?n = "nextVReg F"
      obtain i where i: "insert_point D isVirtual F d = Some i"
        using res False d None by (auto simp: hoistTarget_def bind_eq_Some_conv)
      define G where "G = set_code d (insert_instr i (pushcont ?n T) (insts F d)) (F \<lparr> nextVReg := ?n + 1 \<rparr>)"
      note G = insert_push_correct [OF D F dom(1) insert_point_before [OF D F dom(1) i] G_def]
      have F': "F' = fold (mergePush ?n None) ?ss G"
        using res False d None i by (simp add: hoistTarget_def G_def createVirtualRegister_def set_code_def)
      have wfG: "wf_fn D G" using G(1) [of dms] by (simp add: hoisted_def)
      have found: "(None :: Site option) = Some s \<longleftrightarrow> snd s = ?n" if "s \<in> set ?ss" for s
      proof -
        obtain P where "fst s \<in> set (blockIds F)" "P \<in> set (insts F (fst s))" "is_push_of (snd s) P"
          using sites_of_member [OF F, of "fst s" "snd s" T] \<open>s \<in> set ?ss\<close> by auto
        then have "snd s < ?n"
          using F reg_operand_fresh [of F "fst s" P 0 "snd s"] by (simp add: wf_fn_def is_push_of_def)
        then show ?thesis by simp
      qed
      have all: "set (sites_of G T) \<subseteq> {s. snd s = ?n} \<union> set ?ss" using G(6) by auto
      have domG: "dms e (fst s)" if "e \<in> def_blocks D G ?n" "s \<in> set ?ss" for e s
        using that G(3) dom(2) by simp
      note M = merged_sites [OF D wfG G(5) dist G(2) found tr domG all]
      show ?thesis using hoisted_trans [OF G(1) M(1)] M(2) M(3) [of T'] G(4) [of T'] unfolding F' by auto
    qed
  qed
  then show "hoisted dms D F F'" "length (sites_of F' T) \<le> 1" "T' \<noteq> T \<Longrightarrow> sites_of F' T' = sites_of F T'"
    by auto
qed

section \<open>The collected pushes\<close>

definition lookup_sites :: "HoistInfo \<Rightarrow> nat \<Rightarrow> Site list" where
  "lookup_sites info T = (case map_of info T of None \<Rightarrow> [] | Some ss \<Rightarrow> ss)"

definition used_site :: "MCInstrInfo \<Rightarrow> MachineFn \<Rightarrow> Site \<Rightarrow> bool" where
  "used_site D F s \<longleftrightarrow> use_sites D F (snd s) \<noteq> []"

lemma lookup_update [simp]: "lookup_sites (AList.update T ss info) U = (if U = T then ss else lookup_sites info U)"
  by (simp add: lookup_sites_def update_conv)

abbreviation all_pushes :: "nat \<Rightarrow> MachineInstr list \<Rightarrow> Site list" where
  "all_pushes \<equiv> push_sites (\<lambda>MI. getOpcode MI = PUSHCONT_MBB)"

definition collected ::
  "MCInstrInfo \<Rightarrow> MachineFn \<Rightarrow> (nat \<Rightarrow> Site list) \<Rightarrow> Site list \<Rightarrow> HoistInfo \<times> Site list \<Rightarrow> bool" where
  "collected D F sites all s \<longleftrightarrow> distinct (map fst (fst s)) \<and>
     (\<forall>T. lookup_sites (fst s) T = filter (used_site D F) (sites T)) \<and>
     snd s = filter (\<lambda>x. \<not> used_site D F x) all"

lemma collectInstr_collected:
  assumes "wf_push MI" "collected D F sites all s" "collectInstr D F b MI s = Some s'"
  shows "collected D F (\<lambda>T. sites T @ block_sites T b [MI]) (all @ all_pushes b [MI]) s'"
proof (cases "getOpcode MI = PUSHCONT_MBB")
  case False
  then show ?thesis using assms by (auto simp: collectInstr_def block_sites_def pushes_to_def push_sites_def)
next
  case True
  obtain r T where MI: "reg_operand MI 0 = Some r" "block_of MI = Some T"
    using assms(1) True by (auto simp: wf_push_def)
  then have "getReg (operands MI ! 0) = r"
    by (auto simp: reg_operand_def getOperand_def bind_eq_Some_conv split: if_splits)
  then have bs: "block_sites U b [MI] = (if U = T then [(b, r)] else [])" "all_pushes b [MI] = [(b, r)]" for U
    using True MI by (simp_all add: block_sites_def pushes_to_def push_sites_def)
  show ?thesis
  proof (cases "use_sites D F r = []")
    case True
    then have "s' = (fst s, snd s @ [(b, r)])"
      using assms(3) MI \<open>getOpcode MI = PUSHCONT_MBB\<close> by (simp add: collectInstr_def)
    then show ?thesis using assms(2) True by (auto simp: collected_def bs used_site_def)
  next
    case False
    then have "s' = (AList.update T (lookup_sites (fst s) T @ [(b, r)]) (fst s), snd s)"
      using assms(3) MI \<open>getOpcode MI = PUSHCONT_MBB\<close> by (simp add: collectInstr_def lookup_sites_def)
    then show ?thesis using assms(2) False
      by (auto simp: collected_def bs used_site_def distinct_update)
  qed
qed

lemma collect_block:
  assumes "\<forall>MI \<in> set B. wf_push MI" "collected D F sites all s" "foldM (collectInstr D F b) B s = Some s'"
  shows "collected D F (\<lambda>T. sites T @ block_sites T b B) (all @ all_pushes b B) s'"
  using assms
proof (induction B arbitrary: sites all s)
  case Nil
  then show ?case by (simp add: block_sites_def push_sites_def)
next
  case (Cons MI B)
  obtain s1 where s1: "collectInstr D F b MI s = Some s1" "foldM (collectInstr D F b) B s1 = Some s'"
    using Cons.prems(3) by (auto simp: bind_eq_Some_conv)
  have "collected D F (\<lambda>T. sites T @ block_sites T b [MI]) (all @ all_pushes b [MI]) s1"
    using Cons.prems(1,2) s1(1) by (intro collectInstr_collected) auto
  then have "collected D F (\<lambda>T. (sites T @ block_sites T b [MI]) @ block_sites T b B)
      ((all @ all_pushes b [MI]) @ all_pushes b B) s'"
    using Cons.prems(1) s1(2) by (intro Cons.IH) auto
  moreover have "block_sites T b (MI # B) = block_sites T b [MI] @ block_sites T b B"
      "all_pushes b (MI # B) = all_pushes b [MI] @ all_pushes b B" for T
    by (simp_all add: block_sites_def push_sites_def)
  ultimately show ?case by simp
qed

lemma collectHoist_collected:
  assumes "wf_fn D F" "collectHoist D F = Some info"
  shows "collected D F (sites_of F) (concat (map (\<lambda>b. all_pushes b (insts F b)) (blockIds F))) info"
proof -
  have "collected D F (\<lambda>T. sites T @ concat (map (\<lambda>b. block_sites T b (insts F b)) bs))
      (all @ concat (map (\<lambda>b. all_pushes b (insts F b)) bs)) info"
    if "set bs \<subseteq> set (blockIds F)" "collected D F sites all s"
      "foldM (\<lambda>b. foldM (collectInstr D F b) (insts F b)) bs s = Some info" for bs sites all s
    using that
  proof (induction bs arbitrary: sites all s)
    case (Cons b bs)
    obtain s1 where s1: "foldM (collectInstr D F b) (insts F b) s = Some s1"
        "foldM (\<lambda>b. foldM (collectInstr D F b) (insts F b)) bs s1 = Some info"
      using Cons.prems(3) by (auto simp: bind_eq_Some_conv)
    have "collected D F (\<lambda>T. sites T @ block_sites T b (insts F b)) (all @ all_pushes b (insts F b)) s1"
      using assms(1) Cons.prems(1,2) s1(1) by (intro collect_block) (auto simp: wf_fn_def)
    then have "collected D F (\<lambda>T. (sites T @ block_sites T b (insts F b)) @
        concat (map (\<lambda>b. block_sites T b (insts F b)) bs))
        ((all @ all_pushes b (insts F b)) @ concat (map (\<lambda>b. all_pushes b (insts F b)) bs)) info"
      using Cons.prems(1) s1(2) by (intro Cons.IH) auto
    then show ?case by simp
  qed simp
  from this [of "blockIds F" "\<lambda>_. []" "[]" "([], [])"] show ?thesis
    using assms(2) by (simp add: collectHoist_def collected_def lookup_sites_def sites_of_def)
qed

section \<open>The whole pass\<close>

definition unused_reg :: "MCInstrInfo \<Rightarrow> MachineFn \<Rightarrow> nat \<Rightarrow> bool" where
  "unused_reg D F r \<longleftrightarrow> (\<forall>b \<in> set (blockIds F). \<forall>I \<in> set (terminators D (insts F b)). takes_cont I \<longrightarrow>
     (\<forall>k. reg_operand I k \<noteq> Some r))"

lemma no_use_unused:
  assumes "hoist_desc D" "use_sites D F r = []"
  shows "unused_reg D F r"
  unfolding unused_reg_def
proof (intro ballI impI allI notI)
  fix b I k
  assume b: "b \<in> set (blockIds F)" "I \<in> set (terminators D (insts F b))" "takes_cont I" "reg_operand I k = Some r"
  then obtain i where "i < length (insts F b)" "insts F b ! i = I" by (auto simp: in_set_conv_nth)
  then have "(b, i, k) \<in> set (use_sites D F r)"
    using b takes_cont_desc [OF hoist_desc_facts(1) [OF assms(1)] b(3)] by (simp add: set_use_sites)
  then show False using assms(2) by simp
qed

lemma erase_unused:
  assumes D: "hoist_desc D" and F: "wf_fn D F" and s: "(b, r) \<in> set (sites_of F T)" and r: "unused_reg D F r"
  shows "hoisted dms D F (erase_push (b, r) F)"
    "unused_reg D F q \<Longrightarrow> unused_reg D (erase_push (b, r) F) q"
proof -
  let ?G = "erase_push (b, r) F"
  obtain P where P: "b \<in> set (blockIds F)" "P \<in> set (insts F b)" "is_push_of r P" "block_of P = Some T"
    using F s by (rule sites_of_member)
  note G = erase_push_correct [OF D F P(1-3)]
  have lead: "leads_to D ?G I k = leads_to D F I k"
    if "B \<in> set (blockIds F)" "I \<in> set (terminators D (insts F B))" "takes_cont I" for B I k
  proof (cases "reg_operand I k")
    case (Some q)
    then have "q \<noteq> r" using r that unfolding unused_reg_def by blast
    then show ?thesis using Some cont_target_cong [of D ?G q F] G(2) by (simp add: leads_to_def)
  qed (simp add: leads_to_def)
  have "same_jumps D F ?G"
    unfolding same_jumps_def
    using G(4) lead by (auto intro!: list.rel_refl_strong simp: same_lead_def)
  moreover have "def_blocks D ?G q \<subseteq> def_blocks D F q" for q
    using erase_push_insts [OF D F P(1-3)] by (auto simp: def_blocks_def)
  then have "dominated dms D ?G" if "dominated dms D F"
    using that G(4) unfolding dominated_def by (metis (no_types, lifting) erase_push_fields(1) subsetD)
  ultimately show "hoisted dms D F ?G" using G(1) by (simp add: hoisted_def)
  show "unused_reg D F q \<Longrightarrow> unused_reg D ?G q"
    using G(4) unfolding unused_reg_def by simp
qed

lemma erase_all_unused:
  assumes D: "hoist_desc D" and F: "wf_fn D F"
    and del: "\<And>s. s \<in> set del \<Longrightarrow> \<exists>T. s \<in> set (sites_of F T)" "\<And>s. s \<in> set del \<Longrightarrow> unused_reg D F (snd s)"
    and dist: "distinct (map snd del)"
  shows "hoisted dms D F (fold erase_push del F)"
    "sites_of (fold erase_push del F) T = filter (\<lambda>s. snd s \<notin> snd ` set del) (sites_of F T)"
proof -
  have "hoisted dms D F (fold erase_push del F) \<and>
      sites_of (fold erase_push del F) T = filter (\<lambda>s. snd s \<notin> snd ` set del) (sites_of F T)"
    using F del dist
  proof (induction del arbitrary: F)
    case Nil
    then show ?case by (simp add: hoisted_refl)
  next
    case (Cons s del)
    obtain b r where s: "s = (b, r)" by (cases s)
    define G where "G = erase_push (b, r) F"
    obtain U where U: "(b, r) \<in> set (sites_of F U)" using Cons.prems(2) [of s] s by auto
    have un: "unused_reg D F r" using Cons.prems(3) [of s] s by simp
    obtain P where P: "b \<in> set (blockIds F)" "P \<in> set (insts F b)" "is_push_of r P"
      using Cons.prems(1) U by (rule sites_of_member)
    note E = erase_unused [OF D Cons.prems(1) U un, folded G_def]
    note S = erase_push_correct(3) [OF D Cons.prems(1) P, folded G_def]
    have "hoisted dms D G (fold erase_push del G) \<and>
        sites_of (fold erase_push del G) T = filter (\<lambda>s. snd s \<notin> snd ` set del) (sites_of G T)"
    proof (rule Cons.IH)
      show "wf_fn D G" using E(1) [of dms] by (simp add: hoisted_def)
      show "\<exists>T. x \<in> set (sites_of G T)" if x: "x \<in> set del" for x
      proof -
        obtain V where "x \<in> set (sites_of F V)" using Cons.prems(2) [of x] x by auto
        moreover have "snd x \<noteq> r" using Cons.prems(4) x s by force
        ultimately have "x \<in> set (sites_of G V)" using S [of V] by auto
        then show ?thesis ..
      qed
      show "unused_reg D G (snd x)" if "x \<in> set del" for x
        using Cons.prems(3) [of x] that E(2) by simp
      show "distinct (map snd del)" using Cons.prems(4) by simp
    qed
    moreover have "fold erase_push (s # del) F = fold erase_push del G" by (simp add: s G_def)
    moreover have "filter (\<lambda>s. snd s \<notin> snd ` set del) (sites_of G T) =
        filter (\<lambda>x. snd x \<notin> snd ` set (s # del)) (sites_of F T)"
      unfolding S filter_filter by (intro filter_cong) (auto simp: s)
    ultimately show ?case using hoisted_trans [OF E(1)] by auto
  qed
  then show "hoisted dms D F (fold erase_push del F)"
    "sites_of (fold erase_push del F) T = filter (\<lambda>s. snd s \<notin> snd ` set del) (sites_of F T)" by auto
qed

lemma hoist_loop:
  assumes D: "hoist_desc D" and F: "wf_fn D F" and tree: "dominator_tree (set (blockIds F)) dms ncd"
    and es: "distinct (map fst es)" "\<And>e. e \<in> set es \<Longrightarrow> snd e = sites_of F (fst e)"
    and res: "foldM (hoistTarget D ncd isVirtual) es F = Some F'"
  shows "hoisted dms D F F' \<and> (\<forall>T \<in> fst ` set es. length (sites_of F' T) \<le> 1) \<and>
    (\<forall>T. T \<notin> fst ` set es \<longrightarrow> sites_of F' T = sites_of F T)"
  using F tree es res
proof (induction es arbitrary: F)
  case Nil
  then show ?case by (simp add: hoisted_refl)
next
  case (Cons e es)
  define T where "T = fst e"
  have e: "e = (T, sites_of F T)" using Cons.prems(4) [of e] by (simp add: T_def prod_eq_iff)
  obtain G where G: "hoistTarget D ncd isVirtual (T, sites_of F T) F = Some G"
      "foldM (hoistTarget D ncd isVirtual) es G = Some F'"
    using Cons.prems(5) e by (auto simp: bind_eq_Some_conv)
  note H = hoistTarget_correct [OF D Cons.prems(1,2) G(1)]
  have ids: "blockIds G = blockIds F" using H(1) by (rule hoisted_ids)
  have "hoisted dms D G F' \<and> (\<forall>T \<in> fst ` set es. length (sites_of F' T) \<le> 1) \<and>
      (\<forall>T. T \<notin> fst ` set es \<longrightarrow> sites_of F' T = sites_of G T)"
  proof (rule Cons.IH [OF _ _ _ _ G(2)])
    show "wf_fn D G" using H(1) by (simp add: hoisted_def)
    show "dominator_tree (set (blockIds G)) dms ncd" using Cons.prems(2) ids by simp
    show "distinct (map fst es)" using Cons.prems(3) by simp
    show "snd x = sites_of G (fst x)" if "x \<in> set es" for x
    proof -
      have "fst x \<noteq> T" using that Cons.prems(3) e by (auto simp: rev_image_eqI)
      then show ?thesis using Cons.prems(4) [of x] that H(3) by simp
    qed
  qed
  moreover have "T \<notin> fst ` set es" using Cons.prems(3) e by auto
  ultimately show ?case using hoisted_trans [OF H(1)] H(2,3) e by auto
qed

lemma ContinuationsHoist_pass:
  assumes D: "hoist_desc D" and F: "wf_fn D F" and tree: "dominator_tree (set (blockIds F)) dms ncd"
    and res: "ContinuationsHoist D ncd isVirtual addr F = Some (Changed, F')"
  shows "hoisted dms D F F'" "length (sites_of F' T) \<le> 1"
    "b \<in> set (blockIds F) \<Longrightarrow> block_jump D F' b c = block_jump D F b c"
proof -
  obtain info where info: "collectHoist D F = Some info" "optimizeHoist D ncd isVirtual addr info F = Some (Changed, F')"
    using res by (auto simp: ContinuationsHoist_def bind_eq_Some_conv)
  obtain keys del where kd: "info = (keys, del)" by (cases info)
  let ?all = "concat (map (\<lambda>b. all_pushes b (insts F b)) (blockIds F))"
  have C: "distinct (map fst keys)" "\<And>T. lookup_sites keys T = filter (used_site D F) (sites_of F T)"
      "del = filter (\<lambda>x. \<not> used_site D F x) ?all"
    using collectHoist_collected [OF F info(1)] kd by (auto simp: collected_def)
  define F1 where "F1 = fold erase_push del F"
  have all: "distinct (map snd ?all)" using push_sites_once [OF D F] by (intro distinct_once) simp
  have mem: "\<exists>T. x \<in> set (sites_of F T)" if x: "x \<in> set ?all" for x
  proof -
    obtain b MI where b: "b \<in> set (blockIds F)" "MI \<in> set (insts F b)" "getOpcode MI = PUSHCONT_MBB"
        "x = (b, getReg (operands MI ! 0))"
      using x by (auto simp: push_sites_def)
    then obtain T where "block_of MI = Some T" using F unfolding wf_fn_def wf_push_def by blast
    then have "x \<in> set (sites_of F T)" using b by (auto simp: sites_of_def block_sites_def pushes_to_def)
    then show ?thesis ..
  qed
  have sub: "x \<in> set ?all" if "x \<in> set (sites_of F T)" for x T
    using that by (force simp: sites_of_def block_sites_def push_sites_def pushes_to_def)
  have un: "unused_reg D F (snd x)" if "x \<in> set del" for x
    using that C(3) no_use_unused [OF D, of F "snd x"] by (auto simp: used_site_def)
  have dist: "distinct (map snd del)" using all unfolding C(3) by (rule distinct_map_filter)
  have E: "hoisted dms D F F1" "sites_of F1 T = filter (\<lambda>s. snd s \<notin> snd ` set del) (sites_of F T)" for T
    unfolding F1_def using erase_all_unused [OF D F _ un dist] mem C(3) by auto
  have used: "sites_of F1 T = lookup_sites keys T" for T
  proof -
    have "snd s \<notin> snd ` set del \<longleftrightarrow> used_site D F s" if "s \<in> set (sites_of F T)" for s
      using sub [OF that] unfolding C(3) by (auto simp: used_site_def)
    then show ?thesis unfolding E(2) C(2) by (intro filter_cong refl) simp
  qed
  define Pairs where "Pairs = sort_key (\<lambda>e. addr (fst e)) keys"
  have loop: "foldM (hoistTarget D ncd isVirtual) Pairs F1 = Some F'"
    using info(2) kd by (auto simp: optimizeHoist_def Let_def F1_def Pairs_def bind_eq_Some_conv)
  have ids: "blockIds F1 = blockIds F" using E(1) by (rule hoisted_ids)
  have "mset (map fst Pairs) = mset (map fst keys)" unfolding Pairs_def by simp
  then have dp: "distinct (map fst Pairs)" using C(1) mset_eq_imp_distinct_iff by blast
  have ep: "snd e = sites_of F1 (fst e)" if "e \<in> set Pairs" for e
  proof -
    have "e \<in> set keys" using that by (simp add: Pairs_def)
    then have "map_of keys (fst e) = Some (snd e)" using map_of_is_SomeI [OF C(1)] by (metis prod.collapse)
    then show ?thesis using used by (simp add: lookup_sites_def)
  qed
  have "wf_fn D F1" "dominator_tree (set (blockIds F1)) dms ncd"
    using E(1) tree ids by (simp_all add: hoisted_def)
  note L = hoist_loop [OF D this dp ep loop]
  show h: "hoisted dms D F F'" using hoisted_trans [OF E(1)] L by blast
  show "length (sites_of F' T) \<le> 1"
  proof (cases "T \<in> fst ` set Pairs")
    case False
    then have "map_of keys T = None" by (simp add: Pairs_def map_of_eq_None_iff)
    then show ?thesis using L False used [of T] by (simp add: lookup_sites_def)
  qed (use L in blast)
  show "block_jump D F' b c = block_jump D F b c" if "b \<in> set (blockIds F)"
    using same_jumps_block_jump [OF D F _ _ that] h by (simp add: hoisted_def)
qed

end
