(* ===== verification/TVM_EntryPasses.thy ===== *)
theory TVM_EntryPasses
  imports TVM_ContHoist
begin

text \<open>
  The passes around arguments and register numbers: TVMArgumentMove.cpp, TVMPrepareForLiveIntervals.cpp,
  TVMReplacePhysRegs.cpp and TVMRegNumbering.cpp.
\<close>

unbundle bit_operations_syntax

section \<open>TVMArgumentMove\<close>

text \<open>
  The argument at MI is put before InsertPt, so the loop's increment, which goes to the successor of MI,
  goes back to InsertPt: after every move the scan starts again. pre is the block before InsertPt.
\<close>

definition first_argument :: "MachineInstr list \<Rightarrow> nat option" where
  "first_argument B = find_index True (map isArgument B)"

lemma first_argument_bound: "first_argument B = Some k \<Longrightarrow> k < length B"
  unfolding first_argument_def using find_index_Some by fastforce

function moveArguments :: "MachineInstr list \<Rightarrow> MachineInstr list \<Rightarrow> bool \<times> MachineInstr list" where
  "moveArguments pre post =
     (case first_argument post of
        None \<Rightarrow> (False, pre @ post)
      | Some k \<Rightarrow> (True, snd (moveArguments (pre @ [post ! k]) (take k post @ drop (k + 1) post))))"
  by pat_completeness auto
termination
  by (relation "measure (\<lambda>(pre, post). length post)") (auto dest: first_argument_bound)

declare moveArguments.simps [simp del]

definition argumentMove :: "MachineInstr list \<Rightarrow> bool \<times> MachineInstr list" where
  "argumentMove EntryMBB =
     moveArguments (takeWhile isArgument EntryMBB) (dropWhile isArgument EntryMBB)"

section \<open>TVMPrepareForLiveIntervals\<close>

text \<open>
  Every argument is put at the beginning of the block: front is what was put there, mid the
  instructions passed over. Changed is never set.
\<close>

fun frontArguments :: "MachineInstr list \<Rightarrow> MachineInstr list \<Rightarrow> MachineInstr list \<Rightarrow> MachineInstr list" where
  "frontArguments front mid [] = front @ mid"
| "frontArguments front mid (MI # rest) =
     (if isArgument MI then frontArguments (MI # front) mid rest
      else frontArguments front (mid @ [MI]) rest)"

definition prepareForLiveIntervals :: "MachineInstr list \<Rightarrow> bool \<times> MachineInstr list" where
  "prepareForLiveIntervals Entry = (False, frontArguments [] [] Entry)"

section \<open>TVMReplacePhysRegs\<close>

text \<open>
  The operands here are the explicit ones. numRegs is NUM_TARGET_REGS, fake says which registers are
  VALUE_STACK and ARGUMENTS; both come from the generated register tables.
\<close>

definition uses_reg :: "nat \<Rightarrow> MachineFn \<Rightarrow> bool" where
  "uses_reg r F \<longleftrightarrow> list_ex (\<lambda>b. list_ex (\<lambda>MI. list_ex (\<lambda>opd. isReg opd \<and> getReg opd = r) (operands MI))
     (insts F b)) (blockIds F)"

definition replacePhysReg :: "(nat \<Rightarrow> bool) \<Rightarrow> nat \<Rightarrow> bool \<times> MachineFn \<Rightarrow> bool \<times> MachineFn" where
  "replacePhysReg fake PReg s =
     (if fake PReg \<or> \<not> uses_reg PReg (snd s) then s
      else let (VReg, F1) = createVirtualRegister (snd s) in (True, replaceRegWith PReg VReg F1))"

definition replacePhysRegs :: "nat \<Rightarrow> (nat \<Rightarrow> bool) \<Rightarrow> MachineFn \<Rightarrow> bool \<times> MachineFn" where
  "replacePhysRegs numRegs fake F = fold (replacePhysReg fake) [1..<numRegs] (False, F)"

section \<open>TVMRegNumbering\<close>

definition initTVMRegs :: "nat \<Rightarrow> nat list \<Rightarrow> nat list option" where
  "initTVMRegs NumVirtRegs TVMRegs = do { check (TVMRegs = []); Some (replicate NumVirtRegs UnusedReg) }"

text \<open>The arguments at the front of the entry block; operand 1 has to be an immediate.\<close>

fun numberArguments :: "MachineInstr list \<Rightarrow> nat list \<Rightarrow> nat list option" where
  "numberArguments [] regs = Some regs"
| "numberArguments (MI # B) regs =
     (if \<not> isArgument MI then Some regs
      else do {
        opd \<leftarrow> getOperand MI 1;
        Imm \<leftarrow> getImm opd;
        VReg \<leftarrow> reg_operand MI 0;
        regs' \<leftarrow> setTVMReg VReg (nat (Imm mod 2 ^ 32)) regs;
        numberArguments B regs' })"

text \<open>The state: the table, NumStackRegs and CurReg.\<close>

definition numberVReg ::
  "(nat \<Rightarrow> bool) \<Rightarrow> BitVector \<Rightarrow> nat \<Rightarrow> nat list \<times> nat \<times> nat \<Rightarrow> (nat list \<times> nat \<times> nat) option" where
  "numberVReg used Stackified VReg s =
     (let (regs, NumStackRegs, CurReg) = s
      in if \<not> used VReg then Some s
         else if isVRegStackified Stackified VReg
         then do {
           regs' \<leftarrow> setTVMReg VReg (2 ^ 31 OR NumStackRegs) regs;
           Some (regs', NumStackRegs + 1, CurReg) }
         else do {
           v \<leftarrow> getTVMReg regs VReg;
           if v = UnusedReg
           then do { regs' \<leftarrow> setTVMReg VReg CurReg regs; Some (regs', NumStackRegs, CurReg + 1) }
           else Some s })"

text \<open>use_empty counts the uses in debug instructions, too.\<close>

definition used_reg :: "MCInstrInfo \<Rightarrow> MachineFn \<Rightarrow> nat \<Rightarrow> bool" where
  "used_reg D F r \<longleftrightarrow> list_ex (\<lambda>b. list_ex (\<lambda>MI. list_ex (\<lambda>opd. isReg opd \<and> getReg opd = r) (uses D MI))
     (insts F b)) (blockIds F)"

definition regNumbering ::
  "MCInstrInfo \<Rightarrow> BitVector \<Rightarrow> nat \<Rightarrow> nat list \<Rightarrow> MachineFn \<Rightarrow> nat list option" where
  "regNumbering D Stackified numParams TVMRegs F = do {
     regs0 \<leftarrow> initTVMRegs (nextVReg F) TVMRegs;
     check (blockIds F \<noteq> []);
     regs1 \<leftarrow> numberArguments (insts F (hd (blockIds F))) regs0;
     (regs2, _, _) \<leftarrow> foldM (numberVReg (used_reg D F) Stackified) [0..<nextVReg F] (regs1, 0, numParams);
     Some regs2 }"

section \<open>Arguments come first\<close>

lemma first_argument_split:
  assumes "first_argument B = Some k"
  shows "filter isArgument B = B ! k # filter isArgument (take k B @ drop (k + 1) B)"
    "filter (\<lambda>I. \<not> isArgument I) (take k B @ drop (k + 1) B) = filter (\<lambda>I. \<not> isArgument I) B"
proof -
  have k: "k < length B" "isArgument (B ! k)" "\<And>j. j < k \<Longrightarrow> \<not> isArgument (B ! j)"
    using find_index_Some [OF assms [unfolded first_argument_def]] by auto
  then have B: "B = take k B @ B ! k # drop (Suc k) B" by (simp add: id_take_nth_drop)
  have none: "filter isArgument (take k B) = []"
    using k by (auto simp: filter_empty_conv in_set_conv_nth)
  show "filter isArgument B = B ! k # filter isArgument (take k B @ drop (k + 1) B)"
    using none k(2) by (subst B) simp
  show "filter (\<lambda>I. \<not> isArgument I) (take k B @ drop (k + 1) B) = filter (\<lambda>I. \<not> isArgument I) B"
    using k(2) by (subst (3) B) simp
qed

lemma moveArguments_result:
  "moveArguments pre post =
     (list_ex isArgument post, pre @ filter isArgument post @ filter (\<lambda>I. \<not> isArgument I) post)"
proof (induction pre post rule: moveArguments.induct)
  case (1 pre post)
  show ?case
  proof (cases "first_argument post")
    case None
    then have "\<forall>I \<in> set post. \<not> isArgument I" by (auto simp: first_argument_def)
    then show ?thesis using None by (simp add: moveArguments.simps list_ex_iff filter_empty_conv)
  next
    case (Some k)
    have "isArgument (post ! k)" "post ! k \<in> set post"
      using find_index_Some [OF Some [unfolded first_argument_def]] by auto
    then have "list_ex isArgument post" by (auto simp: list_ex_iff)
    then show ?thesis
      using 1 [OF Some] Some first_argument_split [OF Some] by (simp add: moveArguments.simps)
  qed
qed

lemma argumentMove_result:
  "argumentMove B =
     (filter isArgument B @ filter (\<lambda>I. \<not> isArgument I) B \<noteq> B,
      filter isArgument B @ filter (\<lambda>I. \<not> isArgument I) B)"
proof -
  let ?A = "takeWhile isArgument B" and ?R = "dropWhile isArgument B"
  have A: "filter isArgument ?A = ?A" "filter (\<lambda>I. \<not> isArgument I) ?A = []"
    by (auto simp: filter_empty_conv dest: set_takeWhileD intro: filter_True)
  have B: "filter P B = filter P ?A @ filter P ?R" for P
    by (metis filter_append takeWhile_dropWhile_id)
  have "list_ex isArgument ?R \<longleftrightarrow> filter isArgument ?R @ filter (\<lambda>I. \<not> isArgument I) ?R \<noteq> ?R"
  proof (cases "list_ex isArgument ?R")
    case True
    then obtain x xs where x: "?R = x # xs" by (cases ?R) auto
    then have "\<not> isArgument x" by (metis hd_dropWhile list.discI list.sel(1))
    moreover obtain y ys where "filter isArgument ?R = y # ys"
      using True by (cases "filter isArgument ?R") (auto simp: list_ex_iff filter_empty_conv)
    moreover have "isArgument y" using calculation(2) by (metis filter_eq_Cons_iff)
    ultimately show ?thesis using True x by auto
  next
    case False
    then show ?thesis by (auto simp: list_ex_iff filter_empty_conv filter_id_conv)
  qed
  moreover have "filter isArgument B @ filter (\<lambda>I. \<not> isArgument I) B =
      ?A @ filter isArgument ?R @ filter (\<lambda>I. \<not> isArgument I) ?R"
    using A B by simp
  moreover have "?A @ X = B \<longleftrightarrow> X = ?R" for X
    using same_append_eq [of ?A X ?R] by simp
  ultimately show ?thesis
    unfolding argumentMove_def moveArguments_result by simp
qed

lemma frontArguments_result:
  "frontArguments front mid B =
     rev (filter isArgument B) @ front @ mid @ filter (\<lambda>I. \<not> isArgument I) B"
  by (induction front mid B rule: frontArguments.induct) auto

section \<open>Physical registers are replaced\<close>

lemma uses_reg_iff:
  "uses_reg r F \<longleftrightarrow> (\<exists>b \<in> set (blockIds F). \<exists>MI \<in> set (insts F b). \<exists>opd \<in> set (operands MI). isReg opd \<and> getReg opd = r)"
  by (simp add: uses_reg_def list_ex_iff)

lemma uses_reg_replace:
  assumes "m \<noteq> r"
  shows "uses_reg q (replaceRegWith r m F) \<longleftrightarrow> (q \<noteq> r \<and> uses_reg q F) \<or> (q = m \<and> uses_reg r F)"
proof
  assume "uses_reg q (replaceRegWith r m F)"
  then show "(q \<noteq> r \<and> uses_reg q F) \<or> (q = m \<and> uses_reg r F)"
    using assms unfolding uses_reg_iff
    by (fastforce simp: replaceRegWith_def rename_reg_def setReg_def split: if_splits)
next
  assume "(q \<noteq> r \<and> uses_reg q F) \<or> (q = m \<and> uses_reg r F)"
  then obtain b MI opd where o: "b \<in> set (blockIds F)" "MI \<in> set (insts F b)" "opd \<in> set (operands MI)" "isReg opd"
      "q = (if getReg opd = r then m else getReg opd)"
    unfolding uses_reg_iff by auto
  let ?g = "\<lambda>opd. if isReg opd \<and> getReg opd = r then setReg m opd else opd"
  have "rename_reg r m MI \<in> set (insts (replaceRegWith r m F) b)" "?g opd \<in> set (operands (rename_reg r m MI))"
    using o by (auto simp: replaceRegWith_def rename_reg_def)
  moreover have "isReg (?g opd)" "getReg (?g opd) = q" using o by (auto simp: setReg_def)
  moreover have "b \<in> set (blockIds (replaceRegWith r m F))" using o by (simp add: replaceRegWith_def)
  ultimately show "uses_reg q (replaceRegWith r m F)" unfolding uses_reg_iff by blast
qed

lemma replacePhysRegs_result:
  assumes "numRegs \<le> nextVReg F"
  shows "\<forall>r. 1 \<le> r \<and> r < numRegs \<and> \<not> fake r \<longrightarrow> \<not> uses_reg r (snd (replacePhysRegs numRegs fake F))"
    and "\<not> fst (replacePhysRegs numRegs fake F) \<Longrightarrow> snd (replacePhysRegs numRegs fake F) = F"
proof -
  have "(\<forall>r \<in> set ps. \<not> fake r \<longrightarrow> \<not> uses_reg r (snd (fold (replacePhysReg fake) ps s))) \<and>
      (\<forall>r. r < numRegs \<longrightarrow> \<not> uses_reg r (snd s) \<longrightarrow> \<not> uses_reg r (snd (fold (replacePhysReg fake) ps s))) \<and>
      (\<not> fst (fold (replacePhysReg fake) ps s) \<longrightarrow> \<not> fst s \<and> snd (fold (replacePhysReg fake) ps s) = snd s)"
    if "numRegs \<le> nextVReg (snd s)" "\<forall>r \<in> set ps. r < numRegs" for ps s
    using that
  proof (induction ps arbitrary: s)
    case (Cons p ps)
    let ?s = "replacePhysReg fake p s"
    have "numRegs \<le> nextVReg (snd ?s)"
      using Cons.prems(1) by (auto simp: replacePhysReg_def createVirtualRegister_def replaceRegWith_def)
    note IH = Cons.IH [OF this]
    have more: "uses_reg q (F \<lparr> nextVReg := n \<rparr>) = uses_reg q F" for q n and F :: MachineFn
      by (simp add: uses_reg_def)
    have keep: "\<not> uses_reg r (snd ?s)" if "r < numRegs" "\<not> uses_reg r (snd s)" for r
    proof -
      have "nextVReg (snd s) \<noteq> p" using Cons.prems by auto
      then show ?thesis using that Cons.prems(1)
        by (auto simp: replacePhysReg_def createVirtualRegister_def uses_reg_replace more)
    qed
    have here: "\<not> uses_reg p (snd ?s)" if "\<not> fake p"
    proof -
      have "nextVReg (snd s) \<noteq> p" using Cons.prems by auto
      then show ?thesis using that
        by (auto simp: replacePhysReg_def createVirtualRegister_def uses_reg_replace more)
    qed
    have flag: "\<not> fst ?s \<Longrightarrow> \<not> fst s \<and> ?s = s"
      by (auto simp: replacePhysReg_def createVirtualRegister_def split: if_splits)
    show ?case using IH Cons.prems(2) keep here flag by auto
  qed simp
  from this [of "(False, F)" "[1..<numRegs]"] assms
  show "\<forall>r. 1 \<le> r \<and> r < numRegs \<and> \<not> fake r \<longrightarrow> \<not> uses_reg r (snd (replacePhysRegs numRegs fake F))"
    and "\<not> fst (replacePhysRegs numRegs fake F) \<Longrightarrow> snd (replacePhysRegs numRegs fake F) = F"
    unfolding replacePhysRegs_def by auto
qed

section \<open>Register numbers\<close>

lemma or_high:
  fixes n :: nat
  assumes "n < 2 ^ 31"
  shows "2 ^ 31 OR n = 2 ^ 31 + n"
proof -
  have b: "\<not> bit n 31" using assms by (simp add: bit_iff_odd div_less)
  have "2 ^ 31 AND n = (0::nat)"
    by (rule bit_eqI) (use b in \<open>auto simp: bit_and_iff bit_exp_iff simp del: power_numeral power_Suc
      numeral_power_eq_of_nat_cancel_iff\<close>)
  then show ?thesis by (simp only: disjunctive_add_eq_or)
qed

text \<open>How many registers before i were numbered, and the number that register i gets.\<close>

definition before :: "(nat \<Rightarrow> bool) \<Rightarrow> nat \<Rightarrow> nat" where
  "before P i = length (filter P [0..<i])"

lemma before_simps [simp]: "before P 0 = 0" "before P (Suc i) = before P i + (if P i then 1 else 0)"
  by (simp_all add: before_def)

lemma before_mono: "i \<le> j \<Longrightarrow> before P i \<le> before P j"
  by (induction j) (auto simp: le_Suc_eq)

lemma before_less: "P i \<Longrightarrow> i < j \<Longrightarrow> before P i < before P j"
  using before_mono [of "Suc i" j P] by simp

lemma before_le: "before P i \<le> i"
  by (induction i) auto

definition number_of :: "(nat \<Rightarrow> bool) \<Rightarrow> (nat \<Rightarrow> bool) \<Rightarrow> nat \<Rightarrow> nat list \<Rightarrow> nat \<Rightarrow> nat" where
  "number_of used stk c regs i =
     (if \<not> used i then regs ! i
      else if stk i then 2 ^ 31 OR before (\<lambda>j. used j \<and> stk j) i
      else if regs ! i = UnusedReg then c + before (\<lambda>j. used j \<and> \<not> stk j \<and> regs ! j = UnusedReg) i
      else regs ! i)"

lemma numberVRegs_result:
  assumes "n \<le> length regs" "c + n < 2 ^ 31"
  shows "\<exists>regs'. foldM (numberVReg used S) [0..<n] (regs, 0, c) =
      Some (regs', before (\<lambda>j. used j \<and> isVRegStackified S j) n,
        c + before (\<lambda>j. used j \<and> \<not> isVRegStackified S j \<and> regs ! j = UnusedReg) n) \<and>
    length regs' = length regs \<and>
    (\<forall>i < length regs. regs' ! i = (if i < n then number_of used (isVRegStackified S) c regs i else regs ! i))"
  using assms
proof (induction n)
  case (Suc n)
  let ?st = "\<lambda>j. used j \<and> isVRegStackified S j"
  let ?nw = "\<lambda>j. used j \<and> \<not> isVRegStackified S j \<and> regs ! j = UnusedReg"
  obtain regs' where IH: "foldM (numberVReg used S) [0..<n] (regs, 0, c) = Some (regs', before ?st n, c + before ?nw n)"
      "length regs' = length regs"
      "\<forall>i < length regs. regs' ! i = (if i < n then number_of used (isVRegStackified S) c regs i else regs ! i)"
    using Suc by auto
  have n: "n < length regs" "regs' ! n = regs ! n" using Suc.prems IH(3) by auto
  have small: "before ?st n < 2 ^ 31" "c + before ?nw n < 2 ^ 31"
    using before_le [of ?st n] before_le [of ?nw n] Suc.prems(2) by linarith+
  have ne: "2 ^ 31 OR before ?st n \<noteq> UnusedReg" "c + before ?nw n \<noteq> UnusedReg"
    using small before_le [of ?st n] Suc.prems(2) or_high [OF small(1)] by (simp_all add: UnusedReg_def)
  have step: "foldM (numberVReg used S) [0..<Suc n] (regs, 0, c) =
      numberVReg used S n (regs', before ?st n, c + before ?nw n)"
    using IH(1) by (cases "numberVReg used S n (regs', before ?st n, c + before ?nw n)") simp_all
  consider "\<not> used n" | "used n" "isVRegStackified S n" | "used n" "\<not> isVRegStackified S n" "regs ! n = UnusedReg"
    | "used n" "\<not> isVRegStackified S n" "regs ! n \<noteq> UnusedReg" by blast
  then show ?case
  proof cases
    case 1
    then show ?thesis unfolding step using IH(2,3) n by (auto simp: numberVReg_def number_of_def less_Suc_eq)
  next
    case 2
    then show ?thesis unfolding step using IH(2,3) n ne
      by (auto simp: numberVReg_def number_of_def less_Suc_eq setTVMReg_def nth_list_update)
  next
    case 3
    then show ?thesis unfolding step using IH(2,3) n ne
      by (auto simp: numberVReg_def number_of_def less_Suc_eq setTVMReg_def getTVMReg_def nth_list_update)
  next
    case 4
    then show ?thesis unfolding step using IH(2,3) n
      by (auto simp: numberVReg_def number_of_def less_Suc_eq getTVMReg_def)
  qed
qed simp

text \<open>No two used registers share a number.\<close>

lemma number_of_distinct:
  assumes args: "\<And>i j. \<lbrakk>regs ! i \<noteq> UnusedReg; regs ! j \<noteq> UnusedReg; i < n; j < n; i \<noteq> j\<rbrakk> \<Longrightarrow> regs ! i \<noteq> regs ! j"
    and low: "\<And>i. i < n \<Longrightarrow> regs ! i \<noteq> UnusedReg \<Longrightarrow> regs ! i < c"
    and c: "c + n < 2 ^ 31" and ij: "i < n" "j < n" "i < j" "used i" "used j"
  shows "number_of used stk c regs i \<noteq> number_of used stk c regs j"
proof -
  let ?st = "\<lambda>j. used j \<and> stk j" and ?nw = "\<lambda>j. used j \<and> \<not> stk j \<and> regs ! j = UnusedReg"
  have b: "before ?st k < 2 ^ 31" "c + before ?nw k < 2 ^ 31" if "k < n" for k
    using before_le [of ?st k] before_le [of ?nw k] c that by linarith+
  have high: "number_of used stk c regs k \<ge> 2 ^ 31" if "used k" "stk k" "k < n" for k
    using that or_high [OF b(1) [OF that(3)]] by (simp add: number_of_def)
  have lown: "number_of used stk c regs k < 2 ^ 31" if "used k" "\<not> stk k" "k < n" for k
    using that b [of k] low [of k] c by (auto simp: number_of_def)
  consider "stk i" "stk j" | "stk i \<noteq> stk j" | "\<not> stk i" "\<not> stk j" by blast
  then show ?thesis
  proof cases
    case 1
    then show ?thesis
      using ij before_less [of ?st i j] or_high [OF b(1) [OF ij(1)]] or_high [OF b(1) [OF ij(2)]]
      by (simp add: number_of_def)
  next
    case 2
    then show ?thesis using high lown ij by (metis linorder_not_less)
  next
    case 3
    show ?thesis
    proof (cases "regs ! i = UnusedReg")
      case True
      then show ?thesis
        using 3 ij before_less [of ?nw i j] low [OF ij(2)] by (auto simp: number_of_def)
    next
      case False
      then show ?thesis
        using 3 ij args [of i j] low [OF ij(1)] by (auto simp: number_of_def)
    qed
  qed
qed

text \<open>Arguments without a table entry of their own: numbers below the parameters, no two the same.\<close>

definition argument_numbers :: "nat \<Rightarrow> nat list \<Rightarrow> bool" where
  "argument_numbers c regs \<longleftrightarrow> (\<forall>i < length regs. regs ! i \<noteq> UnusedReg \<longrightarrow> regs ! i < c \<and>
     (\<forall>j < length regs. j \<noteq> i \<longrightarrow> regs ! j \<noteq> regs ! i))"

lemma numberArguments_length: "numberArguments B regs = Some regs' \<Longrightarrow> length regs' = length regs"
proof (induction B arbitrary: regs)
  case (Cons MI B)
  show ?case
  proof (cases "isArgument MI")
    case True
    then obtain Imm VReg regs1 where "setTVMReg VReg Imm regs = Some regs1" "numberArguments B regs1 = Some regs'"
      using Cons.prems by (auto simp: bind_eq_Some_conv)
    then show ?thesis using Cons.IH [of regs1] by (auto simp: setTVMReg_def split: if_splits)
  qed (use Cons.prems in simp)
qed simp

lemma regNumbering_succeeds:
  assumes "blockIds F \<noteq> []" "c + nextVReg F < 2 ^ 31"
    and "numberArguments (insts F (hd (blockIds F))) (replicate (nextVReg F) UnusedReg) = Some regs1"
  shows "\<exists>regs. regNumbering D S c [] F = Some regs \<and> length regs = nextVReg F"
proof -
  have "length regs1 = nextVReg F" using numberArguments_length [OF assms(3)] by simp
  then show ?thesis
    using assms numberVRegs_result [of "nextVReg F" regs1 c "used_reg D F" S]
    by (auto simp: regNumbering_def initTVMRegs_def)
qed

lemma regNumbering_distinct:
  assumes res: "regNumbering D S c [] F = Some regs" and small: "c + nextVReg F < 2 ^ 31"
    and args: "numberArguments (insts F (hd (blockIds F))) (replicate (nextVReg F) UnusedReg) = Some regs1"
      "argument_numbers c regs1"
    and r: "r < nextVReg F" "used_reg D F r"
  shows "regs ! r \<noteq> UnusedReg" "regs ! r < 2 ^ 31 \<longleftrightarrow> \<not> isVRegStackified S r"
    and "\<lbrakk>q < nextVReg F; q \<noteq> r; used_reg D F q\<rbrakk> \<Longrightarrow> regs ! q \<noteq> regs ! r"
proof -
  let ?n = "nextVReg F" and ?u = "used_reg D F"
  obtain a b where regs1: "foldM (numberVReg ?u S) [0..<?n] (regs1, 0, c) = Some (regs, a, b)"
    using res args(1) by (auto simp: regNumbering_def initTVMRegs_def bind_eq_Some_conv split: if_splits)
  have len: "length regs1 = ?n" using numberArguments_length [OF args(1)] by simp
  have at: "regs ! i = number_of ?u (isVRegStackified S) c regs1 i" if "i < ?n" for i
    using numberVRegs_result [of ?n regs1 c ?u S] len small regs1 that by auto
  have uniq: "regs1 ! i \<noteq> regs1 ! j" if "regs1 ! i \<noteq> UnusedReg" "i < ?n" "j < ?n" "i \<noteq> j" for i j
    using args(2) that len unfolding argument_numbers_def by metis
  have low: "regs1 ! i < c" if "i < ?n" "regs1 ! i \<noteq> UnusedReg" for i
    using args(2) that len unfolding argument_numbers_def by metis
  have dist: "number_of ?u (isVRegStackified S) c regs1 i \<noteq> number_of ?u (isVRegStackified S) c regs1 j"
    if "i < ?n" "j < ?n" "i < j" "?u i" "?u j" for i j
    by (rule number_of_distinct [OF uniq low small that])
  show "regs ! q \<noteq> regs ! r" if q: "q < nextVReg F" "q \<noteq> r" "used_reg D F q"
  proof (cases "q < r")
    case True
    then show ?thesis unfolding at [OF r(1)] at [OF q(1)] by (intro dist r q)
  next
    case False
    then have "r < q" using q(2) by simp
    then show ?thesis unfolding at [OF r(1)] at [OF q(1)] by (intro not_sym [OF dist] r q)
  qed
  have b: "before (\<lambda>j. ?u j \<and> isVRegStackified S j) r < 2 ^ 31 - 1"
      "c + before (\<lambda>j. ?u j \<and> \<not> isVRegStackified S j \<and> regs1 ! j = UnusedReg) r < 2 ^ 31"
    using before_le [of "\<lambda>j. ?u j \<and> isVRegStackified S j" r]
      before_le [of "\<lambda>j. ?u j \<and> \<not> isVRegStackified S j \<and> regs1 ! j = UnusedReg" r] r(1) small
    by linarith+
  then have high: "2 ^ 31 OR before (\<lambda>j. ?u j \<and> isVRegStackified S j) r =
      2 ^ 31 + before (\<lambda>j. ?u j \<and> isVRegStackified S j) r" by (intro or_high) simp
  show "regs ! r \<noteq> UnusedReg"
    using at [OF r(1)] r(2) b high low [OF r(1)] by (auto simp: number_of_def UnusedReg_def)
  show "regs ! r < 2 ^ 31 \<longleftrightarrow> \<not> isVRegStackified S r"
    using at [OF r(1)] r(2) b high low [OF r(1)] small by (auto simp: number_of_def)
qed

end
