(* ===== verification/TVM_Materialize.thy ===== *)
theory TVM_Materialize
  imports TVM_EntryPasses
begin

text \<open>
  The two passes that bring cheap values close to their uses: TVMRematerialize.cpp gives every use of a
  cheap definition a copy of its own, TVMMoveMaterializable.cpp moves a cheap definition to its only use
  and defines undefined operands. An instruction is named by its block and its index there. What the
  passes ask of LiveIntervals is a parameter; registers with one definition do not need it.
\<close>

section \<open>Positions\<close>

type_synonym Pos = "nat \<times> nat"

definition instr_at :: "MachineFn \<Rightarrow> Pos \<Rightarrow> MachineInstr" where
  "instr_at F s = insts F (fst s) ! snd s"

definition block_positions :: "MachineFn \<Rightarrow> nat \<Rightarrow> Pos list" where
  "block_positions F b = map (Pair b) [0..<length (insts F b)]"

definition def_sites :: "MCInstrInfo \<Rightarrow> MachineFn \<Rightarrow> nat \<Rightarrow> Pos list" where
  "def_sites D F r = filter (\<lambda>s. sets_reg D r (instr_at F s)) (concat (map (block_positions F) (blockIds F)))"

text \<open>
  What is asked of LiveIntervals: the definition whose value reaches an instruction, whether a value is
  live at the dead slot of its definition once the interval is shrunk, whether the value of a definition
  is the one a use reads, and whether the use ends it.
\<close>

record IntervalQueries =
  reachingDef :: "MachineFn \<Rightarrow> nat \<Rightarrow> Pos \<Rightarrow> Pos option"
  liveAtDeadSlot :: "MachineFn \<Rightarrow> nat \<Rightarrow> Pos \<Rightarrow> bool"
  valueIn :: "MachineFn \<Rightarrow> nat \<Rightarrow> Pos \<Rightarrow> Pos \<Rightarrow> bool"
  isKillAt :: "MachineFn \<Rightarrow> nat \<Rightarrow> Pos \<Rightarrow> bool"

text \<open>Both passes have a copy of GetVRegDef.\<close>

definition GetVRegDef :: "MCInstrInfo \<Rightarrow> IntervalQueries \<Rightarrow> MachineFn \<Rightarrow> nat \<Rightarrow> Pos \<Rightarrow> Pos option" where
  "GetVRegDef D L F Reg Insert =
     (case def_sites D F Reg of [s] \<Rightarrow> Some s | _ \<Rightarrow> reachingDef L F Reg Insert)"

definition insert_at_pos :: "Pos \<Rightarrow> MachineInstr \<Rightarrow> MachineFn \<Rightarrow> MachineFn" where
  "insert_at_pos s MI F = set_code (fst s) (insert_instr (snd s) MI (insts F (fst s))) F"

definition erase_at_pos :: "Pos \<Rightarrow> MachineFn \<Rightarrow> MachineFn" where
  "erase_at_pos s F = set_code (fst s) (take (snd s) (insts F (fst s)) @ drop (snd s + 1) (insts F (fst s))) F"

definition update_operand :: "Pos \<Rightarrow> nat \<Rightarrow> MachineOperand \<Rightarrow> MachineFn \<Rightarrow> MachineFn" where
  "update_operand s k opd F =
     set_code (fst s) ((insts F (fst s))[snd s := set_operand k opd (instr_at F s)]) F"

lemma edit_lengths [simp]:
  "length (insts (insert_at_pos s MI F) b) = length (insts F b) + (if fst s = b then 1 else 0)"
  "length (insts (erase_at_pos s F) b) = length (insts F b) - (if fst s = b \<and> snd s < length (insts F b) then 1 else 0)"
  "length (insts (update_operand s k opd F) b) = length (insts F b)"
  by (auto simp: insert_at_pos_def erase_at_pos_def update_operand_def set_code_def insert_instr_def)

section \<open>TVMRematerialize\<close>

definition ShouldRematerialize :: "(MachineInstr \<Rightarrow> bool) \<Rightarrow> MachineInstr \<Rightarrow> bool" where
  "ShouldRematerialize cheap Def \<longleftrightarrow> getOpcode Def = PUSH_GLOBAL_ADDRESS \<or> cheap Def"

text \<open>reMaterialize of TargetInstrInfo: a clone of Orig that defines DestReg.\<close>

definition reMaterialize :: "nat \<Rightarrow> MachineInstr \<Rightarrow> MachineInstr option" where
  "reMaterialize DestReg Orig = do {
     r \<leftarrow> reg_operand Orig 0;
     Some (rename_reg r DestReg (mk_instr (getOpcode Orig) (operands Orig))) }"

text \<open>
  The clone goes before the instruction at s, whose operand k then reads the new register; the original
  is erased when nothing reads it any more, which liveAtDeadSlot answers after the interval has
  been shrunk. Erasing the instruction at s itself is not defined. The result has the new index of that
  instruction.
\<close>

definition RematerializeCheapDef ::
  "MCInstrInfo \<Rightarrow> IntervalQueries \<Rightarrow> nat \<Rightarrow> nat \<Rightarrow> Pos \<Rightarrow> Pos \<Rightarrow>
   MachineFn \<times> BitVector \<Rightarrow> (nat \<times> MachineFn \<times> BitVector) option" where
  "RematerializeCheapDef D L Reg k Def s st = do {
     let (NewReg, F1) = createVirtualRegister (fst st);
     Clone \<leftarrow> reMaterialize NewReg (instr_at (fst st) Def);
     let F2 = insert_at_pos s Clone (update_operand s k (setReg NewReg (operands (instr_at (fst st) s) ! k)) F1);
     let S = stackifyVReg NewReg (snd st);
     let d = (if fst Def = fst s \<and> snd s \<le> snd Def then (fst Def, snd Def + 1) else Def);
     let IsDead = (\<not> used_reg D F2 Reg \<or> \<not> liveAtDeadSlot L F2 Reg d);
     if \<not> IsDead then Some (snd s + 1, F2, S)
     else do {
       check (d \<noteq> (fst s, snd s + 1));
       Some (if fst d = fst s \<and> snd d < snd s then snd s else snd s + 1, erase_at_pos d F2, S) } }"

text \<open>The state: Changed, the index of the instruction in block b, and the function.\<close>

definition remat_operand ::
  "MCInstrInfo \<Rightarrow> IntervalQueries \<Rightarrow> (MachineInstr \<Rightarrow> bool) \<Rightarrow> nat \<Rightarrow> nat \<Rightarrow> bool \<times> nat \<times> MachineFn \<times> BitVector \<Rightarrow>
   (bool \<times> nat \<times> MachineFn \<times> BitVector) option" where
  "remat_operand D L cheap b k st =
     (let (Changed, i, F, S) = st; MI = instr_at F (b, i); Op = operands MI ! k
      in if \<not> isReg Op \<or> k < NumDefs D (getOpcode MI) then Some st
         else (case GetVRegDef D L F (getReg Op) (b, i) of
                 None \<Rightarrow> Some st
               | Some d \<Rightarrow>
                   if getOpcode (instr_at F d) = INLINEASM \<or> isArgument (instr_at F d) then Some st
                   else if ShouldRematerialize cheap (instr_at F d)
                   then map_option (Pair True) (RematerializeCheapDef D L (getReg Op) k d (b, i) (F, S))
                   else Some st))"

definition remat_instr ::
  "MCInstrInfo \<Rightarrow> IntervalQueries \<Rightarrow> (MachineInstr \<Rightarrow> bool) \<Rightarrow> nat \<Rightarrow> bool \<times> nat \<times> MachineFn \<times> BitVector \<Rightarrow>
   (bool \<times> nat \<times> MachineFn \<times> BitVector) option" where
  "remat_instr D L cheap b st =
     (let MI = instr_at (fst (snd (snd st))) (b, fst (snd st))
      in if getOpcode MI = INLINEASM \<or> getOpcode MI = DBG_VALUE then Some st
         else foldM (remat_operand D L cheap b) [0..<length (operands MI)] st)"

text \<open>How many instructions of the block are left, the one at the index included.\<close>

definition left_in :: "nat \<Rightarrow> bool \<times> nat \<times> MachineFn \<times> BitVector \<Rightarrow> nat" where
  "left_in b st = length (insts (fst (snd (snd st))) b) - fst (snd st)"

lemma left_in_remat_operand:
  assumes "remat_operand D L cheap b k st = Some st'"
  shows "left_in b st' \<le> left_in b st"
proof -
  obtain Changed i F S where st: "st = (Changed, i, F, S)" by (cases st)
  show ?thesis
  proof (cases "st' = st")
    case False
    then obtain d where "map_option (Pair True)
        (RematerializeCheapDef D L (getReg (operands (instr_at F (b, i)) ! k)) k d (b, i) (F, S)) = Some st'"
      using assms by (auto simp: remat_operand_def st Let_def split: if_splits option.splits)
    then show ?thesis
      by (auto simp: RematerializeCheapDef_def createVirtualRegister_def left_in_def st Let_def bind_eq_Some_conv
          split: if_splits)
  qed simp
qed

lemma left_in_remat_instr:
  assumes "remat_instr D L cheap b st = Some st'"
  shows "left_in b st' \<le> left_in b st"
proof (cases "st' = st")
  case False
  then have "foldM (remat_operand D L cheap b)
      [0..<length (operands (instr_at (fst (snd (snd st))) (b, fst (snd st))))] st = Some st'"
    using assms by (auto simp: remat_instr_def Let_def split: if_splits)
  then show ?thesis
    by (rule foldM_invariant [where P = "\<lambda>s. left_in b s \<le> left_in b st"])
       (auto dest: left_in_remat_operand)
qed simp

definition next_instr :: "bool \<times> nat \<times> 'a \<Rightarrow> bool \<times> nat \<times> 'a" where
  "next_instr st = (fst st, fst (snd st) + 1, snd (snd st))"

function remat_block ::
  "MCInstrInfo \<Rightarrow> IntervalQueries \<Rightarrow> (MachineInstr \<Rightarrow> bool) \<Rightarrow> nat \<Rightarrow> bool \<times> nat \<times> MachineFn \<times> BitVector \<Rightarrow>
   (bool \<times> nat \<times> MachineFn \<times> BitVector) option" where
  "remat_block D L cheap b st =
     (if left_in b st = 0 then Some st
      else do {
        st' \<leftarrow> remat_instr D L cheap b st;
        remat_block D L cheap b (next_instr st') })"
  by pat_completeness auto
termination
proof (relation "measure (\<lambda>(D, L, cheap, b, st). left_in b st)", goal_cases)
  case (2 D L cheap b st st')
  then show ?case
    using left_in_remat_instr [of D L cheap b st st'] by (auto simp: left_in_def next_instr_def)
qed simp

declare remat_block.simps [simp del]

text \<open>The blocks in layout order; the result is Changed, the function and the stackified registers.\<close>

definition rematerialize ::
  "MCInstrInfo \<Rightarrow> IntervalQueries \<Rightarrow> (MachineInstr \<Rightarrow> bool) \<Rightarrow> MachineFn \<times> BitVector \<Rightarrow>
   (bool \<times> MachineFn \<times> BitVector) option" where
  "rematerialize D L cheap st =
     foldM (\<lambda>b s. map_option (\<lambda>t. (fst t, snd (snd t))) (remat_block D L cheap b (fst s, 0, snd s)))
       (blockIds (fst st)) (False, st)"

section \<open>TVMMoveMaterializable\<close>

definition use_count :: "MCInstrInfo \<Rightarrow> MachineFn \<Rightarrow> nat \<Rightarrow> nat" where
  "use_count D F r = length (filter (\<lambda>opd. isReg opd \<and> getReg opd = r)
     (concat (map (uses D) (concat (map (insts F) (blockIds F))))))"

text \<open>The uses outside debug instructions: the value of Def is read at most once, and ends there.\<close>

fun one_kill :: "(Pos \<Rightarrow> bool) \<Rightarrow> (Pos \<Rightarrow> bool) \<Rightarrow> bool \<Rightarrow> Pos list \<Rightarrow> bool" where
  "one_kill val kill HasOne [] = HasOne"
| "one_kill val kill HasOne (u # us) =
     (if val u then if \<not> kill u \<or> HasOne then False else one_kill val kill True us
      else one_kill val kill HasOne us)"

definition HasOneUse :: "MCInstrInfo \<Rightarrow> IntervalQueries \<Rightarrow> MachineFn \<Rightarrow> nat \<Rightarrow> Pos \<Rightarrow> bool" where
  "HasOneUse D L F Reg Def \<longleftrightarrow> use_count D F Reg = 1 \<or>
     one_kill (valueIn L F Reg Def) (isKillAt L F Reg) False (map (\<lambda>(b, i, k). (b, i)) (use_sites D F Reg))"

text \<open>splice moves element d of a block before element p; a move before itself does nothing.\<close>

definition splice_instr :: "nat \<Rightarrow> nat \<Rightarrow> 'a list \<Rightarrow> 'a list" where
  "splice_instr d p xs =
     (if d < p then take d xs @ drop (d + 1) (take p xs) @ xs ! d # drop p xs
      else if d = p then xs
      else take p xs @ xs ! d # drop p (take d xs) @ drop (d + 1) xs)"

text \<open>
  The state: Changed, the index of MI, the index of InsertBefore, and the function. Whenever there is a
  definition the pass says that it has changed something.
\<close>

definition move_operand ::
  "MCInstrInfo \<Rightarrow> IntervalQueries \<Rightarrow> (Opcode \<Rightarrow> bool) \<Rightarrow> nat \<Rightarrow> nat \<Rightarrow> bool \<times> nat \<times> nat \<times> MachineFn \<Rightarrow>
   (bool \<times> nat \<times> nat \<times> MachineFn) option" where
  "move_operand D L isRematerializable b k st =
     (let (Changed, m, p, F) = st; Use = operands (instr_at F (b, m)) ! k
      in if \<not> isReg Use then Some st
         else (case GetVRegDef D L F (getReg Use) (b, m) of
                 Some d \<Rightarrow>
                   Some (if HasOneUse D L F (getReg Use) d \<and> fst d = b \<and>
                            isRematerializable (getOpcode (instr_at F d)) \<and> \<not> isArgument (instr_at F d) \<and>
                            \<not> isArgument (instr_at F (b, p))
                         then (True,
                               if snd d = m then if p < m then p else m else if m < snd d then m + 1 else m,
                               if snd d < p then p - 1 else p,
                               set_code b (splice_instr (snd d) p (insts F b)) F)
                         else (True, m, p, F))
               | None \<Rightarrow>
                   if \<not> isUndef Use then Some st
                   else do {
                     Value \<leftarrow> (if isConstInt (instr_at F (b, p))
                               then do { opd \<leftarrow> getOperand (instr_at F (b, p)) 1; getCImm opd }
                               else Some 0);
                     let (RegConst, F1) = createVirtualRegister F;
                     Some (True, m + 1, p, insert_at_pos (b, p) (mk_instr CONST_I257 [reg RegConst, MO_CImmediate Value])
                       (update_operand (b, m) k (reg RegConst) F1)) }))"

definition processInstruction_MM ::
  "MCInstrInfo \<Rightarrow> IntervalQueries \<Rightarrow> (Opcode \<Rightarrow> bool) \<Rightarrow> nat \<Rightarrow> nat \<Rightarrow> MachineFn \<Rightarrow> (bool \<times> nat \<times> MachineFn) option" where
  "processInstruction_MM D L isRematerializable b m F = do {
     (Changed, m', p, F') \<leftarrow> foldM (move_operand D L isRematerializable b)
       (rev [NumDefs D (getOpcode (instr_at F (b, m)))..<length (operands (instr_at F (b, m)))]) (False, m, m, F);
     Some (Changed, m', F') }"

partial_function (option) move_block ::
  "MCInstrInfo \<Rightarrow> IntervalQueries \<Rightarrow> (Opcode \<Rightarrow> bool) \<Rightarrow> nat \<Rightarrow> bool \<times> nat \<times> MachineFn \<Rightarrow>
   (bool \<times> nat \<times> MachineFn) option" where
  "move_block D L isRematerializable b st =
     (if length (insts (snd (snd st)) b) \<le> fst (snd st) then Some st
      else if isArgument (instr_at (snd (snd st)) (b, fst (snd st))) \<or>
              isArgumentNum (instr_at (snd (snd st)) (b, fst (snd st)))
      then move_block D L isRematerializable b (next_instr st)
      else do {
        (Changed, m, F) \<leftarrow> processInstruction_MM D L isRematerializable b (fst (snd st)) (snd (snd st));
        check (\<not> isArgument (instr_at F (b, m)));
        move_block D L isRematerializable b (next_instr (fst st \<or> Changed, m, F)) })"

declare move_block.simps [code]

text \<open>rpo: the blocks in reverse post-order.\<close>

definition moveMaterializable ::
  "MCInstrInfo \<Rightarrow> IntervalQueries \<Rightarrow> (Opcode \<Rightarrow> bool) \<Rightarrow> nat list \<Rightarrow> MachineFn \<Rightarrow> (bool \<times> MachineFn) option" where
  "moveMaterializable D L isRematerializable rpo F =
     foldM (\<lambda>b s. map_option (\<lambda>t. (fst t, snd (snd t))) (move_block D L isRematerializable b (fst s, 0, snd s)))
       rpo (False, F)"

end
