(* ===== verification/TVM_MachineRuns.thy ===== *)
theory TVM_MachineRuns
  imports TVM_Materialize
begin

text \<open>
  The two passes keep the runs of the function: an execution of code over any machine, in which an
  undefined operand may have any value, and the paths of the flow graph. Functions are in SSA form.
\<close>

section \<open>Running code\<close>

text \<open>
  A machine gives an instruction's results and the next world from its opcode, its operands without the
  register names, and the values of its register operands.
\<close>

type_synonym ('v, 'w) Machine = "Opcode \<Rightarrow> MachineOperand list \<Rightarrow> 'v list \<Rightarrow> 'w \<Rightarrow> 'v list \<times> 'w"

definition shape :: "MCInstrInfo \<Rightarrow> MachineInstr \<Rightarrow> MachineOperand list" where
  "shape D MI = map (\<lambda>opd. if isReg opd then MO_Register 0 False False else opd) (uses D MI)"

definition reads_args :: "MCInstrInfo \<Rightarrow> MachineInstr \<Rightarrow> (nat \<Rightarrow> 'v) \<Rightarrow> 'v list \<Rightarrow> bool" where
  "reads_args D MI \<rho> vs \<longleftrightarrow>
     list_all2 (\<lambda>opd v. isUndef opd \<or> v = \<rho> (getReg opd)) (filter isReg (uses D MI)) vs"

definition assign :: "nat list \<Rightarrow> 'v list \<Rightarrow> (nat \<Rightarrow> 'v) \<Rightarrow> nat \<Rightarrow> 'v" where
  "assign rs vs \<rho> = fold (\<lambda>(r, v) \<rho>. \<rho>(r := v)) (zip rs vs) \<rho>"

definition def_regs :: "MCInstrInfo \<Rightarrow> MachineInstr \<Rightarrow> nat list" where
  "def_regs D MI = map getReg (filter isReg (defs D MI))"

definition instr_step ::
  "MCInstrInfo \<Rightarrow> ('v, 'w) Machine \<Rightarrow> MachineInstr \<Rightarrow> (nat \<Rightarrow> 'v) \<times> 'w \<Rightarrow> (nat \<Rightarrow> 'v) \<times> 'w \<Rightarrow> bool" where
  "instr_step D M MI s t \<longleftrightarrow>
     (if isDebugInstr MI then t = s
      else \<exists>vs. reads_args D MI (fst s) vs \<and>
        t = (assign (def_regs D MI) (fst (M (getOpcode MI) (shape D MI) vs (snd s))) (fst s),
             snd (M (getOpcode MI) (shape D MI) vs (snd s))))"

fun code_run ::
  "MCInstrInfo \<Rightarrow> ('v, 'w) Machine \<Rightarrow> MachineInstr list \<Rightarrow> (nat \<Rightarrow> 'v) \<times> 'w \<Rightarrow> (nat \<Rightarrow> 'v) \<times> 'w \<Rightarrow> bool" where
  "code_run D M [] s t \<longleftrightarrow> t = s"
| "code_run D M (MI # B) s t \<longleftrightarrow> (\<exists>u. instr_step D M MI s u \<and> code_run D M B u t)"

lemma code_run_append: "code_run D M (A @ B) s t \<longleftrightarrow> (\<exists>u. code_run D M A s u \<and> code_run D M B u t)"
  by (induction A arbitrary: s) auto

text \<open>A register that an instruction reads, and the constants: nothing read, one register set, no effect.\<close>

definition reads_reg :: "MCInstrInfo \<Rightarrow> nat \<Rightarrow> MachineInstr \<Rightarrow> bool" where
  "reads_reg D r MI \<longleftrightarrow> \<not> isDebugInstr MI \<and>
     (\<exists>opd \<in> set (uses D MI). isReg opd \<and> \<not> isUndef opd \<and> getReg opd = r)"

definition const_instr :: "MCInstrInfo \<Rightarrow> ('v, 'w) Machine \<Rightarrow> MachineInstr \<Rightarrow> bool" where
  "const_instr D M MI \<longleftrightarrow> \<not> isDebugInstr MI \<and> filter isReg (uses D MI) = [] \<and>
     NumDefs D (getOpcode MI) = 1 \<and> reg_operand MI 0 \<noteq> None \<and>
     (\<exists>v. \<forall>w. M (getOpcode MI) (shape D MI) [] w = ([v], w))"

definition agree :: "nat set \<Rightarrow> (nat \<Rightarrow> 'v) \<Rightarrow> (nat \<Rightarrow> 'v) \<Rightarrow> bool" where
  "agree X \<rho> \<sigma> \<longleftrightarrow> (\<forall>r. r \<notin> X \<longrightarrow> \<rho> r = \<sigma> r)"

lemma assign_simps [simp]: "assign [] vs \<rho> = \<rho>" "assign rs [] \<rho> = \<rho>"
  "assign (r # rs) (v # vs) \<rho> = assign rs vs (\<rho>(r := v))"
  by (simp_all add: assign_def)

lemma assign_same: "r \<notin> set rs \<Longrightarrow> assign rs vs \<rho> r = \<rho> r"
proof (induction rs arbitrary: vs \<rho>)
  case (Cons q rs)
  then show ?case by (cases vs) auto
qed simp

lemma agree_assign: "agree X \<rho> \<sigma> \<Longrightarrow> agree X (assign rs vs \<rho>) (assign rs vs \<sigma>)"
proof (induction rs arbitrary: vs \<rho> \<sigma>)
  case (Cons q rs)
  then show ?case
    by (cases vs) (auto simp: agree_def)
qed simp

lemma set_def_regs: "r \<in> set (def_regs D MI) \<longleftrightarrow> sets_reg D r MI"
  by (auto simp: def_regs_def sets_reg_def)

lemma instr_step_keeps: "instr_step D M MI s t \<Longrightarrow> \<not> sets_reg D r MI \<Longrightarrow> fst t r = fst s r"
  by (auto simp: instr_step_def assign_same set_def_regs split: if_splits)

lemma args_agree:
  assumes "agree X \<rho> \<sigma>" "\<forall>r \<in> X. \<not> reads_reg D r MI" "\<not> isDebugInstr MI" "reads_args D MI \<rho> vs"
  shows "reads_args D MI \<sigma> vs"
  using assms(4) unfolding reads_args_def
  by (rule list.rel_mono_strong)
     (use assms(1-3) in \<open>auto simp: agree_def reads_reg_def\<close>)

lemma step_agree:
  assumes "agree X (fst s) \<rho>" "\<forall>r \<in> X. \<not> reads_reg D r MI" "instr_step D M MI s t"
  shows "\<exists>\<sigma>. instr_step D M MI (\<rho>, snd s) (\<sigma>, snd t) \<and> agree X (fst t) \<sigma>"
proof (cases "isDebugInstr MI")
  case True
  then show ?thesis using assms by (auto simp: instr_step_def)
next
  case False
  then obtain vs where vs: "reads_args D MI (fst s) vs"
      "t = (assign (def_regs D MI) (fst (M (getOpcode MI) (shape D MI) vs (snd s))) (fst s),
            snd (M (getOpcode MI) (shape D MI) vs (snd s)))"
    using assms(3) by (auto simp: instr_step_def)
  have "reads_args D MI \<rho> vs" using args_agree [OF assms(1,2) False vs(1)] .
  then show ?thesis
    using False vs(2) agree_assign [OF assms(1)] by (auto simp: instr_step_def)
qed

lemma const_step:
  assumes "const_instr D M MI"
  obtains r v where "reg_operand MI 0 = Some r" "\<And>s t. instr_step D M MI s t \<longleftrightarrow> t = ((fst s)(r := v), snd s)"
    "\<And>q. sets_reg D q MI \<longleftrightarrow> q = r" "\<And>q. \<not> reads_reg D q MI"
proof -
  obtain r v where r: "reg_operand MI 0 = Some r" "\<forall>w. M (getOpcode MI) (shape D MI) [] w = ([v], w)"
      "\<not> isDebugInstr MI" "filter isReg (uses D MI) = []" "NumDefs D (getOpcode MI) = 1"
    using assms by (auto simp: const_instr_def)
  obtain opd rest where ops: "operands MI = opd # rest" "isReg opd" "getReg opd = r"
    using r(1) by (cases "operands MI") (auto simp: reg_operand_def getOperand_def split: if_splits)
  then have defs: "defs D MI = [opd]" using r(5) by (simp add: defs_def)
  show thesis
  proof (rule that [OF r(1)])
    show "instr_step D M MI s t \<longleftrightarrow> t = ((fst s)(r := v), snd s)" for s t
      using r ops defs by (simp add: instr_step_def reads_args_def def_regs_def)
    show "sets_reg D q MI \<longleftrightarrow> q = r" for q using defs ops by (auto simp: sets_reg_def)
    show "\<not> reads_reg D q MI" for q using r(4) by (auto simp: reads_reg_def filter_empty_conv)
  qed
qed

section \<open>Paths\<close>

definition is_path :: "MachineFn \<Rightarrow> nat list \<Rightarrow> bool" where
  "is_path F p \<longleftrightarrow> p \<noteq> [] \<and> hd p = hd (blockIds F) \<and> set p \<subseteq> set (blockIds F) \<and>
     (\<forall>i. Suc i < length p \<longrightarrow> p ! Suc i \<in> set (succs F (p ! i)))"

definition path_code :: "MachineFn \<Rightarrow> nat list \<Rightarrow> MachineInstr list" where
  "path_code F p = concat (map (insts F) p)"

definition trace :: "MachineFn \<Rightarrow> nat list \<Rightarrow> Pos list" where
  "trace F p = concat (map (block_positions F) p)"

definition valid_pos :: "MachineFn \<Rightarrow> Pos \<Rightarrow> bool" where
  "valid_pos F s \<longleftrightarrow> fst s \<in> set (blockIds F) \<and> snd s < length (insts F (fst s))"

text \<open>Whatever the machine: a run of G along a path is a run of F along it, with the same world at the end.\<close>

definition refines :: "MCInstrInfo \<Rightarrow> ('v, 'w) Machine \<Rightarrow> MachineFn \<Rightarrow> MachineFn \<Rightarrow> bool" where
  "refines D M F G \<longleftrightarrow> succs G = succs F \<and> blockIds G = blockIds F \<and>
     (\<forall>p \<rho> w \<sigma> w'. is_path F p \<longrightarrow> code_run D M (path_code G p) (\<rho>, w) (\<sigma>, w') \<longrightarrow>
        (\<exists>\<sigma>'. code_run D M (path_code F p) (\<rho>, w) (\<sigma>', w')))"

lemma refines_refl: "refines D M F F"
  by (auto simp: refines_def)

lemma refines_trans: "refines D M F G \<Longrightarrow> refines D M G H \<Longrightarrow> refines D M F H"
  unfolding refines_def is_path_def by (elim conjE, intro conjI) (simp, simp, metis)

lemma insts_positions: "map (instr_at F) (block_positions F b) = insts F b"
  by (simp add: block_positions_def instr_at_def comp_def map_nth)

lemma path_code_trace: "path_code F p = map (instr_at F) (trace F p)"
  by (simp add: path_code_def trace_def map_concat insts_positions comp_def)

lemma set_block_positions: "s \<in> set (block_positions F b) \<longleftrightarrow> fst s = b \<and> snd s < length (insts F b)"
  by (cases s) (auto simp: block_positions_def)

lemma trace_append: "trace F (p @ q) = trace F p @ trace F q"
  by (simp add: trace_def)

lemma set_trace: "s \<in> set (trace F p) \<longleftrightarrow> fst s \<in> set p \<and> snd s < length (insts F (fst s))"
  by (auto simp: trace_def set_block_positions)

lemma trace_valid: "is_path F p \<Longrightarrow> s \<in> set (trace F p) \<Longrightarrow> valid_pos F s"
  by (auto simp: set_trace valid_pos_def is_path_def)

lemma is_path_blocks: "is_path F p \<Longrightarrow> set p \<subseteq> set (blockIds F)"
  by (simp add: is_path_def)

lemma is_path_prefix: "is_path F (p @ q) \<Longrightarrow> p \<noteq> [] \<Longrightarrow> is_path F p"
  unfolding is_path_def
proof (elim conjE, intro conjI allI impI)
  fix i assume "\<forall>i. Suc i < length (p @ q) \<longrightarrow> (p @ q) ! Suc i \<in> set (succs F ((p @ q) ! i))" "Suc i < length p"
  then show "p ! Suc i \<in> set (succs F (p ! i))" by (auto simp: nth_append dest: spec [of _ i])
qed (auto simp: hd_append)

lemma set_def_sites: "s \<in> set (def_sites D F r) \<longleftrightarrow> valid_pos F s \<and> sets_reg D r (instr_at F s)"
  by (auto simp: def_sites_def valid_pos_def set_block_positions)

lemma def_instrs_sites: "def_instrs D F r = map (instr_at F) (def_sites D F r)"
proof -
  have "concat (map (insts F) (blockIds F)) = map (instr_at F) (concat (map (block_positions F) (blockIds F)))"
    by (simp add: map_concat insts_positions comp_def)
  then show ?thesis by (simp add: def_instrs_def def_sites_def filter_map comp_def)
qed

text \<open>A position on a path splits it.\<close>

lemma trace_split:
  assumes "trace F p = xs @ (b, i) # ys"
  shows "\<exists>p1 p2. p = p1 @ b # p2 \<and> xs = trace F p1 @ map (Pair b) [0..<i] \<and> i < length (insts F b)"
  using assms
proof (induction p arbitrary: xs)
  case Nil
  then show ?case by (simp add: trace_def)
next
  case (Cons a p)
  let ?A = "block_positions F a"
  have eq: "?A @ trace F p = xs @ (b, i) # ys" using Cons.prems by (simp add: trace_def)
  then consider (here) zs where "?A = xs @ (b, i) # zs"
    | (later) zs where "xs = ?A @ zs" "trace F p = zs @ (b, i) # ys"
    by (auto simp: append_eq_append_conv2 append_eq_Cons_conv Cons_eq_append_conv)
  then show ?case
  proof cases
    case here
    then have len: "length xs < length (insts F a)" and "?A ! length xs = (b, i)"
      by (auto simp: block_positions_def dest: arg_cong [where f = length])
    then have "a = b" "i = length xs" by (auto simp: block_positions_def)
    moreover have "xs = take (length xs) ?A" using here by simp
    then have "xs = map (Pair a) [0..<length xs]"
      using len by (simp add: block_positions_def take_map)
    ultimately show ?thesis using len by (intro exI [of _ "[]"] exI [of _ p]) (simp add: trace_def)
  next
    case later
    obtain p1 p2 where "p = p1 @ b # p2" "zs = trace F p1 @ map (Pair b) [0..<i]" "i < length (insts F b)"
      using Cons.IH [OF later(2)] by blast
    then show ?thesis using later(1)
      by (intro exI [of _ "a # p1"] exI [of _ p2]) (simp add: trace_def)
  qed
qed

section \<open>Functions in SSA form\<close>

definition defined_first :: "MCInstrInfo \<Rightarrow> MachineFn \<Rightarrow> bool" where
  "defined_first D F \<longleftrightarrow> (\<forall>p b u MI v r. is_path F (p @ [b]) \<longrightarrow> insts F b = u @ MI # v \<longrightarrow>
     reads_reg D r MI \<longrightarrow> def_instrs D F r \<noteq> [] \<longrightarrow> (\<exists>I \<in> set (path_code F p @ u). sets_reg D r I))"

text \<open>An operand is marked as undefined only when its register has no definition.\<close>

definition undef_ok :: "MCInstrInfo \<Rightarrow> MachineFn \<Rightarrow> bool" where
  "undef_ok D F \<longleftrightarrow> (\<forall>b \<in> set (blockIds F). \<forall>MI \<in> set (insts F b). \<forall>opd \<in> set (uses D MI).
     isReg opd \<and> isUndef opd \<longrightarrow> def_instrs D F (getReg opd) = [])"

definition ssa_fn :: "MCInstrInfo \<Rightarrow> MachineFn \<Rightarrow> bool" where
  "ssa_fn D F \<longleftrightarrow> distinct (blockIds F) \<and> fresh_regs F \<and> ssa D F \<and> defined_first D F \<and> undef_ok D F"

text \<open>What LiveIntervals answers about functions in SSA form.\<close>

definition intervals_ok :: "MCInstrInfo \<Rightarrow> IntervalQueries \<Rightarrow> bool" where
  "intervals_ok D L \<longleftrightarrow>
     (\<forall>F r s d. reachingDef L F r s = Some d \<longrightarrow> d \<in> set (def_sites D F r)) \<and>
     (\<forall>F r d. ssa_fn D F \<longrightarrow> d \<in> set (def_sites D F r) \<longrightarrow> \<not> liveAtDeadSlot L F r d \<longrightarrow>
        (\<forall>b \<in> set (blockIds F). \<forall>MI \<in> set (insts F b). \<not> reads_reg D r MI)) \<and>
     (\<forall>F r d s. ssa_fn D F \<longrightarrow> d \<in> set (def_sites D F r) \<longrightarrow> valid_pos F s \<longrightarrow> reads_reg D r (instr_at F s) \<longrightarrow>
        valueIn L F r d s)"

lemma GetVRegDef_sites:
  assumes "intervals_ok D L" "ssa D F"
  shows "GetVRegDef D L F r s = (case def_sites D F r of [] \<Rightarrow> None | d # ds \<Rightarrow> Some d)"
    "def_sites D F r = [] \<or> (\<exists>d. def_sites D F r = [d])"
proof -
  have len: "length (def_sites D F r) \<le> 1"
    using assms(2) by (simp add: ssa_def def_instrs_sites)
  then show one: "def_sites D F r = [] \<or> (\<exists>d. def_sites D F r = [d])"
    by (cases "def_sites D F r") simp_all
  have "reachingDef L F r s = Some d \<Longrightarrow> d \<in> set (def_sites D F r)" for d
    using assms(1) unfolding intervals_ok_def by blast
  then show "GetVRegDef D L F r s = (case def_sites D F r of [] \<Rightarrow> None | d # ds \<Rightarrow> Some d)"
    using one by (cases "reachingDef L F r s") (auto simp: GetVRegDef_def)
qed

section \<open>Rewriting the instructions one by one\<close>

definition rewritten :: "MachineFn \<Rightarrow> (Pos \<Rightarrow> MachineInstr list) \<Rightarrow> MachineFn \<Rightarrow> bool" where
  "rewritten F f G \<longleftrightarrow> succs G = succs F \<and> blockIds G = blockIds F \<and>
     (\<forall>b \<in> set (blockIds F). insts G b = concat (map f (block_positions F b)))"

lemma rewritten_path:
  assumes "rewritten F f G" "set p \<subseteq> set (blockIds F)"
  shows "path_code G p = concat (map f (trace F p))"
  using assms(2) by (induction p) (use assms(1) in \<open>auto simp: path_code_def trace_def rewritten_def\<close>)

lemma rewritten_is_path: "rewritten F f G \<Longrightarrow> is_path G p = is_path F p"
  by (simp add: rewritten_def is_path_def)

text \<open>J relates the registers of the two runs after the positions passed so far.\<close>

lemma rewritten_refines:
  assumes rw: "rewritten F f G" and start: "\<And>\<rho>. J [] \<rho> \<rho>"
    and step: "\<And>p xs s ys \<rho> \<rho>' w \<sigma>' w'. \<lbrakk>is_path F p; trace F p = xs @ s # ys; J xs \<rho> \<rho>';
        code_run D M (f s) (\<rho>', w) (\<sigma>', w')\<rbrakk> \<Longrightarrow>
        \<exists>\<sigma>. instr_step D M (instr_at F s) (\<rho>, w) (\<sigma>, w') \<and> J (xs @ [s]) \<sigma> \<sigma>'"
  shows "refines D M F G"
proof -
  have run: "\<exists>\<sigma>. code_run D M (map (instr_at F) ys) (\<rho>, w) (\<sigma>, w')"
    if "is_path F p" "trace F p = xs @ ys" "J xs \<rho> \<rho>'" "code_run D M (concat (map f ys)) (\<rho>', w) (\<sigma>', w')"
    for p xs ys \<rho> \<rho>' w \<sigma>' w'
    using that
  proof (induction ys arbitrary: xs \<rho> \<rho>' w)
    case (Cons s ys)
    then obtain u where u: "code_run D M (f s) (\<rho>', w) u" "code_run D M (concat (map f ys)) u (\<sigma>', w')"
      by (auto simp: code_run_append)
    obtain \<sigma> where "instr_step D M (instr_at F s) (\<rho>, w) (\<sigma>, snd u)" "J (xs @ [s]) \<sigma> (fst u)"
      using step [OF Cons.prems(1,2,3), of w "fst u" "snd u"] u(1) by auto
    then show ?case
      using Cons.IH [of "xs @ [s]" \<sigma> "fst u" "snd u"] Cons.prems(1,2) u(2) by auto
  qed simp
  show ?thesis
    unfolding refines_def
  proof (intro conjI allI impI)
    show "succs G = succs F" "blockIds G = blockIds F" using rw by (simp_all add: rewritten_def)
    fix p \<rho> w \<sigma> w' assume p: "is_path F p" "code_run D M (path_code G p) (\<rho>, w) (\<sigma>, w')"
    then have "code_run D M (concat (map f (trace F p))) (\<rho>, w) (\<sigma>, w')"
      using rewritten_path [OF rw, of p] by (simp add: is_path_def)
    then show "\<exists>\<sigma>'. code_run D M (path_code F p) (\<rho>, w) (\<sigma>', w')"
      using run [OF p(1), of "[]", OF _ start] by (simp add: path_code_trace)
  qed
qed

lemma concat_split:
  assumes "concat xss = u @ x # v"
  shows "\<exists>xss1 pre post xss2. xss = xss1 @ (pre @ x # post) # xss2 \<and> u = concat xss1 @ pre"
  using assms
proof (induction xss arbitrary: u)
  case (Cons xs xss)
  from Cons.prems consider (here) post where "xs = u @ x # post" | (later) u' where "u = xs @ u'" "concat xss = u' @ x # v"
    by (auto simp: append_eq_append_conv2 append_eq_Cons_conv Cons_eq_append_conv)
  then show ?case
  proof cases
    case here
    then show ?thesis by (intro exI [of _ "[]"] exI [of _ u] exI [of _ post] exI [of _ xss]) simp
  next
    case later
    then obtain xss1 pre post xss2 where "xss = xss1 @ (pre @ x # post) # xss2" "u' = concat xss1 @ pre"
      using Cons.IH by blast
    then show ?thesis using later(1)
      by (intro exI [of _ "xs # xss1"] exI [of _ pre] exI [of _ post] exI [of _ xss2]) simp
  qed
qed simp

lemma rewritten_block_split:
  assumes "rewritten F f G" "b \<in> set (blockIds F)" "insts G b = u @ MI # v"
  obtains j pre post where "j < length (insts F b)" "f (b, j) = pre @ MI # post"
    "u = concat (map f (map (Pair b) [0..<j])) @ pre"
proof -
  have "concat (map f (block_positions F b)) = u @ MI # v" using assms by (simp add: rewritten_def)
  from concat_split [OF this] obtain xss1 pre post xss2
    where x: "map f (block_positions F b) = xss1 @ (pre @ MI # post) # xss2" "u = concat xss1 @ pre"
    by (elim exE conjE)
  let ?j = "length xss1"
  have len: "?j < length (insts F b)"
    using arg_cong [OF x(1), of length] by (simp add: block_positions_def)
  have "map f (block_positions F b) ! ?j = pre @ MI # post" using x(1) by (simp add: nth_append)
  then have "f (b, ?j) = pre @ MI # post" using len by (simp add: block_positions_def)
  moreover have "xss1 = take ?j (map f (block_positions F b))" using x(1) by simp
  then have "xss1 = map f (map (Pair b) [0..<?j])" using len by (simp add: block_positions_def take_map)
  ultimately show thesis using that [of ?j pre post] len x(2) by simp
qed

lemma rewritten_defined_first:
  assumes rw: "rewritten F f G" and F: "defined_first D F"
    and each: "\<And>b j pre MI post r. \<lbrakk>b \<in> set (blockIds F); j < length (insts F b); f (b, j) = pre @ MI # post;
        reads_reg D r MI; def_instrs D G r \<noteq> []\<rbrakk> \<Longrightarrow>
        (\<exists>I \<in> set (concat (map f (map (Pair b) [0..<j])) @ pre). sets_reg D r I) \<or>
        reads_reg D r (instr_at F (b, j)) \<and> def_instrs D F r \<noteq> [] \<and>
        (\<forall>s. valid_pos F s \<longrightarrow> sets_reg D r (instr_at F s) \<longrightarrow> (\<exists>I \<in> set (f s). sets_reg D r I))"
  shows "defined_first D G"
  unfolding defined_first_def
proof (intro allI impI)
  fix p b u MI v r
  assume p: "is_path G (p @ [b])" and B: "insts G b = u @ MI # v" and r: "reads_reg D r MI" "def_instrs D G r \<noteq> []"
  have path: "is_path F (p @ [b])" using p rewritten_is_path [OF rw] by simp
  then have b: "b \<in> set (blockIds F)" "set p \<subseteq> set (blockIds F)"
    using is_path_blocks [OF path] by simp_all
  obtain j pre post where j: "j < length (insts F b)" "f (b, j) = pre @ MI # post"
      "u = concat (map f (map (Pair b) [0..<j])) @ pre"
    by (rule rewritten_block_split [OF rw b(1) B])
  from each [OF b(1) j(1,2) r] show "\<exists>I \<in> set (path_code G p @ u). sets_reg D r I"
  proof (elim disjE conjE)
    assume "\<exists>I \<in> set (concat (map f (map (Pair b) [0..<j])) @ pre). sets_reg D r I"
    then show ?thesis using j(3) by auto
  next
    assume old: "reads_reg D r (instr_at F (b, j))" "def_instrs D F r \<noteq> []"
      and keep: "\<forall>s. valid_pos F s \<longrightarrow> sets_reg D r (instr_at F s) \<longrightarrow> (\<exists>I \<in> set (f s). sets_reg D r I)"
    have "insts F b = take j (insts F b) @ instr_at F (b, j) # drop (Suc j) (insts F b)"
      using id_take_nth_drop [OF j(1)] by (simp add: instr_at_def)
    from F [unfolded defined_first_def, rule_format, OF path this old]
    obtain I where I: "I \<in> set (path_code F p @ take j (insts F b))" "sets_reg D r I" ..
    have "take j (insts F b) = map (instr_at F) (map (Pair b) [0..<j])"
      using j(1) by (intro nth_equalityI) (simp_all add: instr_at_def)
    then obtain s where s: "s \<in> set (trace F p @ map (Pair b) [0..<j])" "I = instr_at F s"
      using I(1) by (auto simp: path_code_trace)
    have "valid_pos F s" using s(1) b j(1) by (auto simp: set_trace valid_pos_def)
    then obtain I' where "I' \<in> set (f s)" "sets_reg D r I'" using keep s(2) I(2) by blast
    moreover have "path_code G p = concat (map f (trace F p))" using rewritten_path [OF rw b(2)] .
    ultimately show ?thesis using s(1) j(3) by (auto 0 3)
  qed
qed

lemma rewritten_def_instrs:
  assumes "rewritten F f G"
  shows "def_instrs D G r = filter (sets_reg D r) (concat (map f (concat (map (block_positions F) (blockIds F)))))"
proof -
  have "concat (map (insts G) bs) = concat (map f (concat (map (block_positions F) bs)))"
    if "set bs \<subseteq> set (blockIds F)" for bs
    using that assms by (induction bs) (auto simp: rewritten_def)
  then show ?thesis using assms by (simp add: def_instrs_def rewritten_def)
qed

lemma all_positions: "set (concat (map (block_positions F) (blockIds F))) = {s. valid_pos F s}"
  by (auto simp: valid_pos_def set_block_positions)

lemma distinct_positions:
  assumes "distinct (blockIds F)"
  shows "distinct (concat (map (block_positions F) (blockIds F)))"
proof -
  have "distinct (concat (map (block_positions F) bs))" if "distinct bs" for bs
    using that by (induction bs) (auto simp: block_positions_def distinct_map inj_on_def)
  then show ?thesis using assms by blast
qed

lemma rewritten_no_def:
  "rewritten F f G \<Longrightarrow> def_instrs D G r = [] \<longleftrightarrow> (\<forall>s. valid_pos F s \<longrightarrow> (\<forall>I \<in> set (f s). \<not> sets_reg D r I))"
  using all_positions [of F] by (auto simp: rewritten_def_instrs filter_empty_conv simp del: set_concat set_map) auto

lemma rewritten_ssa:
  assumes rw: "rewritten F f G" and ids: "distinct (blockIds F)"
    and one: "\<And>s r. valid_pos F s \<Longrightarrow> length (filter (sets_reg D r) (f s)) \<le> 1"
    and same: "\<And>s t r I J. \<lbrakk>valid_pos F s; valid_pos F t; I \<in> set (f s); J \<in> set (f t); sets_reg D r I; sets_reg D r J\<rbrakk> \<Longrightarrow> s = t"
  shows "ssa D G"
  unfolding ssa_def
proof
  fix r
  have "length (filter (sets_reg D r) (concat (map f ps))) \<le> 1" if "distinct ps" "\<forall>s \<in> set ps. valid_pos F s" for ps
    using that
  proof (induction ps)
    case (Cons s ps)
    show ?case
    proof (cases "filter (sets_reg D r) (f s) = []")
      case False
      then obtain I where I: "I \<in> set (f s)" "sets_reg D r I" by (auto simp: filter_empty_conv)
      have "filter (sets_reg D r) (concat (map f ps)) = []"
        unfolding filter_empty_conv
      proof (intro ballI notI)
        fix J assume "J \<in> set (concat (map f ps))" "sets_reg D r J"
        then obtain t where "t \<in> set ps" "J \<in> set (f t)" "sets_reg D r J" by auto
        then show False using same [OF _ _ I(1) _ I(2), of t] Cons.prems by auto
      qed
      then show ?thesis using one [of s r] Cons.prems by simp
    qed (use Cons in simp)
  qed simp
  then show "length (def_instrs D G r) \<le> 1"
    using distinct_positions [OF ids] all_positions [of F] by (simp add: rewritten_def_instrs [OF rw])
qed

lemma ssa_site:
  assumes "ssa D F" "valid_pos F s" "valid_pos F t" "sets_reg D r (instr_at F s)" "sets_reg D r (instr_at F t)"
  shows "s = t"
proof -
  have "s \<in> set (def_sites D F r)" "t \<in> set (def_sites D F r)" using assms by (simp_all add: set_def_sites)
  moreover have "length (def_sites D F r) \<le> 1" using assms(1) by (simp add: ssa_def def_instrs_sites)
  ultimately show ?thesis by (cases "def_sites D F r") auto
qed

lemma fresh_reg:
  assumes "fresh_regs F" "valid_pos F s" "opd \<in> set (operands (instr_at F s))" "isReg opd"
  shows "getReg opd < nextVReg F"
  using assms unfolding fresh_regs_def valid_pos_def instr_at_def by (meson nth_mem)

lemma rewritten_fresh:
  assumes "rewritten F f G"
    and "\<And>s I opd. \<lbrakk>valid_pos F s; I \<in> set (f s); opd \<in> set (operands I); isReg opd\<rbrakk> \<Longrightarrow> getReg opd < nextVReg G"
  shows "fresh_regs G"
  using assms by (fastforce simp: fresh_regs_def rewritten_def valid_pos_def set_block_positions)

lemma rewritten_undef_ok:
  assumes "rewritten F f G"
    and "\<And>s I opd. \<lbrakk>valid_pos F s; I \<in> set (f s); opd \<in> set (uses D I); isReg opd; isUndef opd\<rbrakk> \<Longrightarrow>
        def_instrs D G (getReg opd) = []"
  shows "undef_ok D G"
  using assms by (fastforce simp: undef_ok_def rewritten_def valid_pos_def set_block_positions)

text \<open>How the edits rewrite a block: one position, or two.\<close>

lemma nth_range: "b \<le> length B \<Longrightarrow> concat (map (\<lambda>j. [B ! j]) [a..<b]) = drop a (take b B)"
  by (rule nth_equalityI) (simp_all add: concat_map_singleton)

lemma concat_nth:
  assumes "b \<le> length B" "\<And>j. a \<le> j \<Longrightarrow> j < b \<Longrightarrow> h j = [B ! j]"
  shows "concat (map h [a..<b]) = drop a (take b B)"
proof -
  have "map h [a..<b] = map (\<lambda>j. [B ! j]) [a..<b]" using assms(2) by simp
  then show ?thesis using nth_range [OF assms(1)] by metis
qed

lemma concat_one:
  assumes "i < length B" "\<And>j. j < length B \<Longrightarrow> j \<noteq> i \<Longrightarrow> h j = [B ! j]"
  shows "concat (map h [0..<length B]) = take i B @ h i @ drop (Suc i) B"
proof -
  have "[0..<length B] = [0..<i] @ i # [Suc i..<length B]"
    using assms(1) upt_add_eq_append [of 0 i "length B - i"] by (simp add: upt_conv_Cons)
  then show ?thesis using concat_nth [of i B 0 h] concat_nth [of "length B" B "Suc i" h] assms by simp
qed

lemma concat_two:
  assumes "i < d" "d < length B" "\<And>j. j < length B \<Longrightarrow> j \<noteq> i \<Longrightarrow> j \<noteq> d \<Longrightarrow> h j = [B ! j]"
  shows "concat (map h [0..<length B]) = take i B @ h i @ drop (Suc i) (take d B) @ h d @ drop (Suc d) B"
proof -
  have "[0..<length B] = [0..<i] @ i # [Suc i..<d] @ d # [Suc d..<length B]"
    using assms(1,2) upt_add_eq_append [of 0 i "length B - i"] upt_add_eq_append [of "Suc i" d "length B - d"]
    by (simp add: upt_conv_Cons)
  then show ?thesis
    using concat_nth [of i B 0 h] concat_nth [of d B "Suc i" h] concat_nth [of "length B" B "Suc d" h] assms by simp
qed

end
