(* ===== verification/TVM_MaterializeCorrect.thy ===== *)
theory TVM_MaterializeCorrect
  imports TVM_MachineRuns
begin

text \<open>
  Rematerialisation keeps the runs: what a copy for a use, and the erasing of a definition nobody reads,
  make of a function in SSA form, and then the pass.
\<close>

section \<open>A copy for a use\<close>

lemma foldM_total:
  assumes "P s" "\<And>x s. x \<in> set xs \<Longrightarrow> P s \<Longrightarrow> \<exists>t. f x s = Some t \<and> P t"
  shows "\<exists>t. foldM f xs s = Some t \<and> P t"
  using assms
proof (induction xs arbitrary: s)
  case (Cons x xs)
  then obtain t where "f x s = Some t" "P t" by fastforce
  then show ?case using Cons.IH [of t] Cons.prems(2) by simp
qed simp

lemma clone_step:
  assumes "const_instr D M Def" "reMaterialize New Def = Some Clone" "sets_reg D r Def"
  obtains v where "\<And>s t. instr_step D M Def s t \<longleftrightarrow> t = ((fst s)(r := v), snd s)"
    "\<And>s t. instr_step D M Clone s t \<longleftrightarrow> t = ((fst s)(New := v), snd s)"
    "\<And>q. sets_reg D q Def \<longleftrightarrow> q = r" "\<And>q. sets_reg D q Clone \<longleftrightarrow> q = New" "const_instr D M Clone"
    "uses D Clone = uses D Def" "\<And>opd. opd \<in> set (operands Clone) \<Longrightarrow> isReg opd \<Longrightarrow> getReg opd = New \<or> opd \<in> set (operands Def)"
proof -
  obtain q where q: "reg_operand Def 0 = Some q" "Clone = rename_reg q New (mk_instr (getOpcode Def) (operands Def))"
    using assms(2) by (auto simp: reMaterialize_def bind_eq_Some_conv)
  obtain opd rest where ops: "operands Def = opd # rest" "isReg opd" "getReg opd = q"
    using q(1) by (cases "operands Def") (auto simp: reg_operand_def getOperand_def split: if_splits)
  let ?g = "\<lambda>opd. if isReg opd \<and> getReg opd = q then setReg New opd else opd"
  have nd: "NumDefs D (getOpcode Def) = 1" "filter isReg (uses D Def) = []" "\<not> isDebugInstr Def"
    using assms(1) by (auto simp: const_instr_def)
  have opc: "getOpcode Clone = getOpcode Def" "operands Clone = map ?g (operands Def)"
    by (simp_all add: q(2) rename_reg_def mk_instr_def)
  have uses: "uses D Clone = uses D Def"
  proof -
    have "uses D Clone = map ?g (uses D Def)" by (simp add: uses_def opc drop_map)
    also have "\<dots> = uses D Def" using nd(2) by (intro map_idI) (auto simp: filter_empty_conv)
    finally show ?thesis .
  qed
  have defs: "defs D Def = [opd]" "defs D Clone = [setReg New opd]"
    using nd(1) ops by (simp_all add: defs_def opc)
  have qr: "q = r" using assms(3) ops defs(1) by (auto simp: sets_reg_def)
  obtain v where v: "\<And>w. M (getOpcode Def) (shape D Def) [] w = ([v], w)"
    using assms(1) by (auto simp: const_instr_def)
  have shape: "shape D Clone = shape D Def" by (simp add: shape_def uses)
  have dbg: "isDebugInstr Clone = isDebugInstr Def" by (simp add: isDebugInstr_def opc)
  show thesis
  proof (rule that)
    show "instr_step D M Def s t \<longleftrightarrow> t = ((fst s)(r := v), snd s)" for s t
      using nd v defs ops qr by (simp add: instr_step_def reads_args_def def_regs_def)
    show "instr_step D M Clone s t \<longleftrightarrow> t = ((fst s)(New := v), snd s)" for s t
      using nd v defs ops qr uses shape dbg opc by (simp add: instr_step_def reads_args_def def_regs_def setReg_def)
    show "sets_reg D p Def \<longleftrightarrow> p = r" for p using defs ops qr by (auto simp: sets_reg_def)
    show "sets_reg D p Clone \<longleftrightarrow> p = New" for p using defs by (auto simp: sets_reg_def setReg_def)
    show "const_instr D M Clone"
      using assms(1) ops(1,2) opc uses shape dbg
      by (auto simp: const_instr_def reg_operand_def getOperand_def setReg_def)
    show "uses D Clone = uses D Def" by (rule uses)
    show "getReg opd = New \<or> opd \<in> set (operands Def)" if "opd \<in> set (operands Clone)" "isReg opd" for opd
      using that opc(2) by (auto simp: setReg_def)
  qed
qed

lemma filter_update:
  assumes "j < length xs" "P (xs ! j)" "P y"
  shows "list_all2 (\<lambda>a b. a = b \<or> a = xs ! j \<and> b = y) (filter P xs) (filter P (xs[j := y]))"
  using assms
proof (induction xs arbitrary: j)
  case (Cons x xs)
  show ?case
  proof (cases j)
    case 0
    then show ?thesis using Cons.prems by (simp add: list_all2_refl)
  next
    case (Suc i)
    then show ?thesis using Cons.IH [of i] Cons.prems by simp
  qed
qed simp

text \<open>The instruction whose operand k reads another register.\<close>

lemma set_operand_facts:
  assumes k: "NumDefs D (getOpcode MI) \<le> k" "k < length (operands MI)" and regs: "isReg (operands MI ! k)" "isReg opd"
  shows "uses D (set_operand k opd MI) = (uses D MI)[k - NumDefs D (getOpcode MI) := opd]"
    "shape D (set_operand k opd MI) = shape D MI" "def_regs D (set_operand k opd MI) = def_regs D MI"
    "getOpcode (set_operand k opd MI) = getOpcode MI" "isDebugInstr (set_operand k opd MI) = isDebugInstr MI"
    "sets_reg D q (set_operand k opd MI) = sets_reg D q MI"
    "length (operands (set_operand k opd MI)) = length (operands MI)"
proof -
  let ?j = "k - NumDefs D (getOpcode MI)"
  show uses: "uses D (set_operand k opd MI) = (uses D MI)[?j := opd]"
    using k by (simp add: uses_def set_operand_def drop_update_swap)
  have j: "uses D MI ! ?j = operands MI ! k" "?j < length (uses D MI)" using k by (simp_all add: uses_def)
  have "map g ((uses D MI)[?j := opd]) = map g (uses D MI)" if "g opd = g (uses D MI ! ?j)" for g :: "MachineOperand \<Rightarrow> MachineOperand"
    using j that by (simp add: map_update list_update_same_conv)
  then show "shape D (set_operand k opd MI) = shape D MI"
    using uses j regs by (simp add: shape_def)
  have defs: "defs D (set_operand k opd MI) = defs D MI"
    using k by (simp add: defs_def set_operand_def)
  then show "def_regs D (set_operand k opd MI) = def_regs D MI" "sets_reg D q (set_operand k opd MI) = sets_reg D q MI"
    by (simp_all add: def_regs_def sets_reg_def)
  show "getOpcode (set_operand k opd MI) = getOpcode MI" "isDebugInstr (set_operand k opd MI) = isDebugInstr MI"
    "length (operands (set_operand k opd MI)) = length (operands MI)"
    by (simp_all add: set_operand_def isDebugInstr_def)
qed

lemma set_operand_args:
  assumes k: "NumDefs D (getOpcode MI) \<le> k" "k < length (operands MI)" and regs: "isReg (operands MI ! k)" "isReg opd"
    and args: "reads_args D (set_operand k opd MI) \<rho>' vs"
    and other: "\<And>q. q \<noteq> New \<Longrightarrow> \<rho>' q = \<rho> q" "\<forall>o' \<in> set (uses D MI). isReg o' \<longrightarrow> getReg o' \<noteq> New"
    and at: "isUndef (operands MI ! k) \<or> \<not> isUndef opd \<and> \<rho> (getReg (operands MI ! k)) = \<rho>' (getReg opd)"
  shows "reads_args D MI \<rho> vs"
proof -
  let ?j = "k - NumDefs D (getOpcode MI)"
  have j: "uses D MI ! ?j = operands MI ! k" "?j < length (uses D MI)" using k by (simp_all add: uses_def)
  have "list_all2 (\<lambda>a b. a = b \<or> a = uses D MI ! ?j \<and> b = opd) (filter isReg (uses D MI))
      (filter isReg ((uses D MI)[?j := opd]))"
    using j regs by (intro filter_update) simp_all
  moreover have "list_all2 (\<lambda>opd v. isUndef opd \<or> v = \<rho>' (getReg opd)) (filter isReg ((uses D MI)[?j := opd])) vs"
    using args set_operand_facts(1) [OF k regs] by (simp add: reads_args_def)
  ultimately have "list_all2 (\<lambda>a v. (isUndef a \<or> v = \<rho>' (getReg a)) \<or>
      a = uses D MI ! ?j \<and> (isUndef opd \<or> v = \<rho>' (getReg opd))) (filter isReg (uses D MI)) vs"
    by (rule list_all2_trans [rotated]) blast
  then show ?thesis
    unfolding reads_args_def
    by (rule list.rel_mono_strong) (use other at j(1) in auto)
qed

lemma ssa_fnD:
  assumes "ssa_fn D F"
  shows "distinct (blockIds F)" "fresh_regs F" "ssa D F" "defined_first D F" "undef_ok D F"
  using assms by (simp_all add: ssa_fn_def)

text \<open>On a path the definition has been passed before a use.\<close>

lemma def_passed:
  assumes F: "ssa D F" "defined_first D F" and d: "d \<in> set (def_sites D F r)"
    and p: "is_path F p" "trace F p = xs @ s # ys" and r: "reads_reg D r (instr_at F s)"
  shows "d \<in> set xs"
proof -
  obtain b i where s: "s = (b, i)" by (cases s)
  obtain p1 p2 where sp: "p = p1 @ b # p2" "xs = trace F p1 @ map (Pair b) [0..<i]" "i < length (insts F b)"
    using trace_split [OF p(2) [unfolded s]] by blast
  have "is_path F ((p1 @ [b]) @ p2)" using p(1) sp(1) by simp
  then have path: "is_path F (p1 @ [b])" using is_path_prefix by blast
  have "insts F b = take i (insts F b) @ instr_at F s # drop (Suc i) (insts F b)"
    using id_take_nth_drop [OF sp(3)] by (simp add: instr_at_def s)
  moreover have "def_instrs D F r \<noteq> []" using d by (auto simp: def_instrs_sites)
  ultimately obtain I where I: "I \<in> set (path_code F p1 @ take i (insts F b))" "sets_reg D r I"
    using F(2) [unfolded defined_first_def, rule_format, OF path _ r] by blast
  have "take i (insts F b) = map (instr_at F) (map (Pair b) [0..<i])"
    using sp(3) by (intro nth_equalityI) (simp_all add: instr_at_def)
  then obtain t where t: "t \<in> set xs" "I = instr_at F t" using I(1) sp(2) by (auto simp: path_code_trace)
  have "t \<in> set (trace F p)" using t(1) p(2) by simp
  then have "valid_pos F t" using trace_valid [OF p(1)] by blast
  then have "t = d" using ssa_site [OF F(1)] t(2) I(2) d by (auto simp: set_def_sites)
  then show ?thesis using t(1) by simp
qed

lemma block_rewritten:
  assumes "G = set_code b B' F" "B' = concat (map (\<lambda>j. f (b, j)) [0..<length (insts F b)])"
    "\<And>s. fst s \<noteq> b \<Longrightarrow> f s = [instr_at F s]"
  shows "rewritten F f G"
  unfolding rewritten_def
proof (intro conjI ballI)
  show "succs G = succs F" "blockIds G = blockIds F" using assms(1) by (simp_all add: set_code_def)
  fix c
  show "insts G c = concat (map f (block_positions F c))"
  proof (cases "c = b")
    case True
    then show ?thesis using assms(1,2) by (simp add: set_code_def block_positions_def comp_def)
  next
    case False
    then have m: "map f (block_positions F c) = map (\<lambda>s. [instr_at F s]) (block_positions F c)"
      using assms(3) by (simp add: set_block_positions)
    show ?thesis using assms(1) False unfolding m
      by (simp add: set_code_def concat_map_singleton insts_positions)
  qed
qed

lemma inserted_rewritten:
  assumes "p \<le> i" "i < length (insts F b)"
  shows "rewritten F (\<lambda>t. (if t = (b, p) then [New] else []) @
       [if t = (b, i) then set_operand k opd (instr_at F t) else instr_at F t])
     (insert_at_pos (b, p) New (update_operand (b, i) k opd F))"
proof (rule block_rewritten)
  let ?B = "insts F b" and ?h = "\<lambda>j. (if (b, j) = (b, p) then [New] else []) @
      [if (b, j) = (b, i) then set_operand k opd (instr_at F (b, j)) else instr_at F (b, j)]"
  show "insert_at_pos (b, p) New (update_operand (b, i) k opd F) =
      set_code b (insert_instr p New (?B[i := set_operand k opd (?B ! i)])) F"
    by (simp add: insert_at_pos_def update_operand_def set_code_def instr_at_def)
  show "insert_instr p New (?B[i := set_operand k opd (?B ! i)]) = concat (map ?h [0..<length ?B])"
  proof (cases "p = i")
    case True
    then show ?thesis
      using concat_one [OF assms(2), of ?h] assms(2)
      by (simp add: insert_instr_def instr_at_def drop_update_swap) (simp add: Cons_nth_drop_Suc [symmetric])
  next
    case False
    then have lt: "p < i" using assms(1) by simp
    have "concat (map ?h [0..<length ?B]) = take p ?B @ ?h p @ drop (Suc p) (take i ?B) @ ?h i @ drop (Suc i) ?B"
      by (rule concat_two [OF lt assms(2)]) (simp add: instr_at_def)
    moreover have "drop p (take i ?B) = ?B ! p # drop (Suc p) (take i ?B)"
      using lt assms(2) by (simp add: Cons_nth_drop_Suc [symmetric])
    ultimately show ?thesis
      using lt assms(2) by (simp add: insert_instr_def instr_at_def upd_conv_take_nth_drop)
  qed
qed auto

lemma inserted_at:
  assumes "i < length (insts F b)"
  shows "instr_at (insert_at_pos (b, i) New F) (b, Suc i) = instr_at F (b, i)"
    "instr_at (insert_at_pos (b, i) New F) (b, i) = New"
    "\<lbrakk>valid_pos F d; d' = (if fst d = b \<and> i \<le> snd d then (b, snd d + 1) else d)\<rbrakk> \<Longrightarrow>
       valid_pos (insert_at_pos (b, i) New F) d' \<and> instr_at (insert_at_pos (b, i) New F) d' = instr_at F d"
  using assms by (auto simp: insert_at_pos_def insert_instr_def set_code_def instr_at_def nth_append valid_pos_def)

lemma erased_rewritten:
  assumes "valid_pos F d"
  shows "rewritten F (\<lambda>t. if t = d then [] else [instr_at F t]) (erase_at_pos d F)"
proof (rule block_rewritten)
  obtain b i where d: "d = (b, i)" "i < length (insts F b)" using assms by (cases d) (simp add: valid_pos_def)
  show "erase_at_pos d F = set_code (fst d) (take (snd d) (insts F (fst d)) @ drop (snd d + 1) (insts F (fst d))) F"
    by (simp add: erase_at_pos_def)
  let ?h = "\<lambda>j. if (b, j) = (b, i) then [] else [instr_at F (b, j)]"
  show "take (snd d) (insts F (fst d)) @ drop (snd d + 1) (insts F (fst d)) =
      concat (map (\<lambda>j. if (fst d, j) = d then [] else [instr_at F (fst d, j)]) [0..<length (insts F (fst d))])"
    unfolding d(1) fst_conv snd_conv using concat_one [OF d(2), of ?h] by (simp add: instr_at_def)
qed auto

text \<open>
  A constant in a new register before the use, which then reads that register: the old operand was
  undefined, or its register had the value of the constant.
\<close>

lemma insert_for_use:
  assumes F: "ssa_fn D F" and s: "valid_pos F (b, i)" and MI: "MI = instr_at F (b, i)" and p: "p \<le> i"
    and k: "NumDefs D (getOpcode MI) \<le> k" "k < length (operands MI)" "operands MI ! k = opd" "isReg opd"
    and C_step: "\<And>s t. instr_step D M C s t \<longleftrightarrow> t = ((fst s)(nextVReg F := v), snd s)"
    and C_sets: "\<And>q. sets_reg D q C \<longleftrightarrow> q = nextVReg F" and C_uses: "filter isReg (uses D C) = []"
    and C_ops: "\<And>o'. o' \<in> set (operands C) \<Longrightarrow> isReg o' \<Longrightarrow> getReg o' \<le> nextVReg F"
    and opd': "isReg opd'" "getReg opd' = nextVReg F" "\<not> isUndef opd'"
    and val: "isUndef opd \<or> d \<in> set (def_sites D F (getReg opd)) \<and>
        (\<forall>s t. instr_step D M (instr_at F d) s t \<longleftrightarrow> t = ((fst s)(getReg opd := v), snd s))"
    and G: "G = insert_at_pos (b, p) C (update_operand (b, i) k opd' (F \<lparr> nextVReg := nextVReg F + 1 \<rparr>))"
  shows "refines D M F G" "ssa_fn D G"
proof -
  let ?New = "nextVReg F" and ?r = "getReg opd" and ?MI' = "set_operand k opd' MI"
  define f where "f = (\<lambda>t. (if t = (b, p) then [C] else []) @ [if t = (b, i) then ?MI' else instr_at F t])"
  have i: "i < length (insts F b)" using s by (simp add: valid_pos_def)
  have rw: "rewritten F f G"
    using inserted_rewritten [of p i "F \<lparr> nextVReg := nextVReg F + 1 \<rparr>" b C k opd'] i p
    by (simp add: rewritten_def f_def G MI instr_at_def block_positions_def cong: if_cong)
  note ssa = ssa_fnD [OF F]
  have C_reads: "\<not> reads_reg D q C" for q using C_uses by (auto simp: reads_reg_def filter_empty_conv)
  have regs: "isReg (operands MI ! k)" using k(3,4) by simp
  note new = set_operand_facts [OF k(1,2) regs opd'(1)]
  have MIuses: "opd \<in> set (uses D MI)"
    using k(1-3) by (auto simp: uses_def in_set_conv_nth intro!: exI [of _ "k - NumDefs D (getOpcode MI)"])
  have reads: "reads_reg D ?r MI" if "\<not> isDebugInstr MI" "\<not> isUndef opd"
    using that MIuses k(4) by (auto simp: reads_reg_def)
  have fresh: "getReg o' < ?New" if "valid_pos F t" "o' \<in> set (operands (instr_at F t))" "isReg o'" for t o'
    by (rule fresh_reg [OF ssa(2) that])
  then have fresh_uses: "getReg o' < ?New" if "valid_pos F t" "o' \<in> set (uses D (instr_at F t))" "isReg o'" for t o'
    using that(1,3) in_set_dropD [OF that(2) [unfolded uses_def]] by blast
  have fresh_sets: "\<not> sets_reg D ?New (instr_at F t)" if "valid_pos F t" for t
    using that fresh by (fastforce simp: sets_reg_def defs_def dest: in_set_takeD)
  have fresh_reads: "\<not> reads_reg D ?New (instr_at F t)" if "valid_pos F t" for t
    using that fresh_uses by (fastforce simp: reads_reg_def)
  have nextG: "nextVReg G = ?New + 1" by (simp add: G insert_at_pos_def update_operand_def set_code_def)

  show "refines D M F G"
  proof (rule rewritten_refines [OF rw, where J = "\<lambda>xs \<rho> \<rho>'. agree {?New} \<rho>' \<rho> \<and>
      (\<not> isUndef opd \<and> d \<in> set xs \<longrightarrow> \<rho> ?r = v) \<and> ((b, p) \<in> set xs \<longrightarrow> \<rho>' ?New = v)"])
    show "agree {?New} \<rho> \<rho> \<and> (\<not> isUndef opd \<and> d \<in> set [] \<longrightarrow> \<rho> ?r = v) \<and> ((b, p) \<in> set [] \<longrightarrow> \<rho> ?New = v)" for \<rho>
      by (simp add: agree_def)
    fix ps xs t ys \<rho> \<rho>' w \<sigma>' w'
    assume ps: "is_path F ps" "trace F ps = xs @ t # ys"
      and J: "agree {?New} \<rho>' \<rho> \<and> (\<not> isUndef opd \<and> d \<in> set xs \<longrightarrow> \<rho> ?r = v) \<and> ((b, p) \<in> set xs \<longrightarrow> \<rho>' ?New = v)"
      and run: "code_run D M (f t) (\<rho>', w) (\<sigma>', w')"
    have t: "valid_pos F t" using trace_valid [OF ps(1), of t] ps(2) by simp
    define \<tau> where "\<tau> = (if t = (b, p) then \<rho>'(?New := v) else \<rho>')"
    have step: "instr_step D M (if t = (b, i) then ?MI' else instr_at F t) (\<tau>, w) (\<sigma>', w')"
      using run by (auto simp: f_def \<tau>_def C_step split: if_splits)
    have \<tau>: "agree {?New} \<tau> \<rho>" "(b, p) \<in> set (xs @ [t]) \<Longrightarrow> \<tau> ?New = v" using J by (auto simp: \<tau>_def agree_def)
    have "\<not> sets_reg D ?New (if t = (b, i) then ?MI' else instr_at F t)"
      using fresh_sets [OF t] new(6) MI by auto
    then have New_same: "\<sigma>' ?New = \<tau> ?New" using instr_step_keeps [OF step] by simp
    have keep_r: "\<sigma> ?r = v" if st: "instr_step D M (instr_at F t) (\<rho>, w) (\<sigma>, w')" and passed: "\<not> isUndef opd" "d \<in> set (xs @ [t])" for \<sigma>
    proof (cases "t = d")
      case True
      then show ?thesis using st val passed(1) by simp
    next
      case ne: False
      have "d \<in> set (def_sites D F ?r)" using val passed(1) by blast
      then have "\<not> sets_reg D ?r (instr_at F t)"
        using ssa_site [OF ssa(3) t, of d ?r] ne by (auto simp: set_def_sites)
      then show ?thesis using instr_step_keeps [OF st] J passed ne by simp
    qed
    have "\<exists>\<sigma>. instr_step D M (instr_at F t) (\<rho>, w) (\<sigma>, w') \<and> agree {?New} \<sigma>' \<sigma>"
    proof (cases "t = (b, i) \<and> \<not> isDebugInstr MI")
      case True
      obtain vs where vs: "reads_args D ?MI' \<tau> vs"
          "(\<sigma>', w') = (assign (def_regs D MI) (fst (M (getOpcode MI) (shape D MI) vs w)) \<tau>,
             snd (M (getOpcode MI) (shape D MI) vs w))"
        using step True new by (auto simp: instr_step_def)
      have "(b, p) \<in> set (xs @ [t])"
      proof (cases "p = i")
        case False
        obtain p1 where "xs = trace F p1 @ map (Pair b) [0..<i]"
          using trace_split [of F ps xs b i ys] ps(2) True by blast
        then show ?thesis using False p by auto
      qed (simp add: True)
      then have New_val: "\<tau> ?New = v" by (rule \<tau>(2))
      have "reads_args D MI \<rho> vs"
      proof (rule set_operand_args [OF k(1,2) regs opd'(1) vs(1), where New = ?New])
        show "\<tau> q = \<rho> q" if "q \<noteq> ?New" for q using \<tau>(1) that by (simp add: agree_def)
        show "\<forall>o' \<in> set (uses D MI). isReg o' \<longrightarrow> getReg o' \<noteq> ?New" using fresh_uses [OF s] MI by fastforce
        show "isUndef (operands MI ! k) \<or> \<not> isUndef opd' \<and> \<rho> (getReg (operands MI ! k)) = \<tau> (getReg opd')"
        proof (cases "isUndef opd")
          case False
          have "reads_reg D ?r (instr_at F t)" using reads False True MI by simp
          then have "d \<in> set xs" using def_passed [OF ssa(3,4) _ ps] val False by blast
          then show ?thesis using J False opd'(2,3) New_val k(3) by simp
        qed (simp add: k(3))
      qed
      then have "instr_step D M MI (\<rho>, w) (assign (def_regs D MI) (fst (M (getOpcode MI) (shape D MI) vs w)) \<rho>, w')"
        using True vs(2) by (auto simp: instr_step_def)
      then show ?thesis using True MI vs(2) agree_assign [OF \<tau>(1)] by auto
    next
      case False
      then have "instr_step D M (instr_at F t) (\<tau>, w) (\<sigma>', w')"
        using step new(5) MI by (auto simp: instr_step_def split: if_splits)
      then show ?thesis
        using step_agree [of "{?New}" "(\<tau>, w)" \<rho> D "instr_at F t" M "(\<sigma>', w')"] \<tau>(1) fresh_reads [OF t] by auto
    qed
    then show "\<exists>\<sigma>. instr_step D M (instr_at F t) (\<rho>, w) (\<sigma>, w') \<and> agree {?New} \<sigma>' \<sigma> \<and>
        (\<not> isUndef opd \<and> d \<in> set (xs @ [t]) \<longrightarrow> \<sigma> ?r = v) \<and> ((b, p) \<in> set (xs @ [t]) \<longrightarrow> \<sigma>' ?New = v)"
      using keep_r New_same \<tau>(2) by auto
  qed

  have f_cases: "I = C \<and> t = (b, p) \<or> I = ?MI' \<and> t = (b, i) \<or> I = instr_at F t" if "I \<in> set (f t)" for t I
    using that by (auto simp: f_def split: if_splits)
  have f_sets: "q = ?New \<and> t = (b, p) \<and> I = C \<or> q \<noteq> ?New \<and> sets_reg D q (instr_at F t)"
    if "valid_pos F t" "I \<in> set (f t)" "sets_reg D q I" for q t I
    using f_cases [OF that(2)] that(3) fresh_sets [OF that(1)] C_sets [of q] new(6) MI by (cases "q = ?New") auto
  have f_keeps: "\<exists>I \<in> set (f t). sets_reg D q I" if "sets_reg D q (instr_at F t)" for q t
    using that new(6) MI by (auto simp: f_def)
  have G_def: "def_instrs D F q \<noteq> []" if nd: "def_instrs D G q \<noteq> []" and nq: "q \<noteq> ?New" for q
  proof -
    obtain t I where "valid_pos F t" "I \<in> set (f t)" "sets_reg D q I"
      using nd rewritten_no_def [OF rw, of D q] by auto
    then have "t \<in> set (def_sites D F q)" using f_sets [of t I q] nq by (auto simp: set_def_sites)
    then show ?thesis by (auto simp: def_instrs_sites)
  qed
  have "ssa D G"
  proof (rule rewritten_ssa [OF rw ssa(1)])
    show "length (filter (sets_reg D q) (f t)) \<le> 1" if "valid_pos F t" for t q
      using fresh_sets [OF that] C_sets [of q] new(6) MI by (cases "q = ?New") (auto simp: f_def)
    fix t u q I J assume *: "valid_pos F t" "valid_pos F u" "I \<in> set (f t)" "J \<in> set (f u)" "sets_reg D q I" "sets_reg D q J"
    show "t = u"
      using f_sets [OF *(1,3,5)] f_sets [OF *(2,4,6)] ssa_site [OF ssa(3) *(1,2), of q] by auto
  qed
  moreover have new_uses: "o' = opd' \<or> o' \<in> set (uses D MI)" if "o' \<in> set (uses D ?MI')" for o'
    using that new(1) subsetD [OF set_update_subset_insert] by fastforce
  have "defined_first D G"
  proof (rule rewritten_defined_first [OF rw ssa(4)])
    fix c j pre I post q
    assume c: "c \<in> set (blockIds F)" "j < length (insts F c)" and I: "f (c, j) = pre @ I # post"
      and q: "reads_reg D q I" "def_instrs D G q \<noteq> []"
    have valid: "valid_pos F (c, j)" using c by (simp add: valid_pos_def)
    have in_f: "I \<in> set (f (c, j))" using I by simp
    have nC: "I \<noteq> C" using q(1) C_reads by blast
    show "(\<exists>I \<in> set (concat (map f (map (Pair c) [0..<j])) @ pre). sets_reg D q I) \<or>
        reads_reg D q (instr_at F (c, j)) \<and> def_instrs D F q \<noteq> [] \<and>
        (\<forall>s. valid_pos F s \<longrightarrow> sets_reg D q (instr_at F s) \<longrightarrow> (\<exists>I \<in> set (f s). sets_reg D q I))"
    proof (cases "q = ?New")
      case True
      have "I \<noteq> instr_at F (c, j)" using q(1) True fresh_reads [OF valid] by metis
      then have at: "c = b" "j = i" using f_cases [OF in_f] nC by auto
      have "C \<in> set (concat (map f (map (Pair c) [0..<j])) @ pre)"
      proof (cases "p = i")
        case True
        then have "[C, ?MI'] = pre @ I # post" using I at by (simp add: f_def)
        then show ?thesis using nC by (auto simp: Cons_eq_append_conv)
      next
        case False
        then have "p \<in> set [0..<i]" using p by simp
        moreover have "C \<in> set (f (b, p))" by (simp add: f_def)
        ultimately show ?thesis using at by fastforce
      qed
      then show ?thesis using C_sets [of q] True by blast
    next
      case False
      have "reads_reg D q (instr_at F (c, j))"
      proof (cases "I = instr_at F (c, j)")
        case same: False
        then have at: "I = ?MI'" "(c, j) = (b, i)" using f_cases [OF in_f] nC by auto
        then show ?thesis using q(1) new(5) new_uses False opd'(2) MI by (auto simp: reads_reg_def)
      qed (use q(1) in simp)
      then show ?thesis using G_def [OF q(2) False] f_keeps by blast
    qed
  qed
  moreover have "fresh_regs G"
  proof (rule rewritten_fresh [OF rw])
    fix t I o' assume *: "valid_pos F t" "I \<in> set (f t)" "o' \<in> set (operands I)" "isReg o'"
    consider "I = C" | "o' \<in> set (operands (instr_at F t))" | "o' = opd'"
      using f_cases [OF *(2)] *(3) MI subsetD [OF set_update_subset_insert, of o' "operands MI" k opd']
      by (auto simp: set_operand_def)
    then show "getReg o' < nextVReg G"
      using C_ops [of o'] fresh [OF *(1), of o'] *(3,4) opd'(2) nextG by cases auto
  qed
  moreover have "undef_ok D G"
  proof (rule rewritten_undef_ok [OF rw])
    fix t I o' assume *: "valid_pos F t" "I \<in> set (f t)" "o' \<in> set (uses D I)" "isReg o'" "isUndef o'"
    have "I \<noteq> C" using *(3,4) C_uses by (auto simp: filter_empty_conv)
    moreover have "o' \<noteq> opd'" using *(5) opd'(3) by auto
    ultimately have u: "o' \<in> set (uses D (instr_at F t))"
      using f_cases [OF *(2)] *(3) new_uses MI by auto
    have "instr_at F t \<in> set (insts F (fst t))" "fst t \<in> set (blockIds F)"
      using *(1) by (simp_all add: valid_pos_def instr_at_def)
    then have "def_instrs D F (getReg o') = []" using ssa(5) u *(4,5) by (auto simp: undef_ok_def)
    moreover have "getReg o' \<noteq> ?New" using fresh_uses [OF *(1) u *(4)] by simp
    ultimately show "def_instrs D G (getReg o') = []" using G_def by blast
  qed
  moreover have "distinct (blockIds G)" using rw ssa(1) by (simp add: rewritten_def)
  ultimately show "ssa_fn D G" by (simp add: ssa_fn_def)
qed

text \<open>The clone in front of the use.\<close>

lemma copy_for_use:
  assumes F: "ssa_fn D F" and s: "valid_pos F (b, i)" and MI: "MI = instr_at F (b, i)"
    and k: "NumDefs D (getOpcode MI) \<le> k" "k < length (operands MI)" "operands MI ! k = opd" "isReg opd"
    and d: "d \<in> set (def_sites D F (getReg opd))" and const: "const_instr D M (instr_at F d)"
    and Clone: "reMaterialize (nextVReg F) (instr_at F d) = Some Clone"
    and G: "G = insert_at_pos (b, i) Clone (update_operand (b, i) k (setReg (nextVReg F) opd)
        (F \<lparr> nextVReg := nextVReg F + 1 \<rparr>))"
  shows "refines D M F G" "ssa_fn D G" "d \<noteq> (b, i)"
proof -
  let ?New = "nextVReg F" and ?r = "getReg opd"
  note ssa = ssa_fnD [OF F]
  have dv: "valid_pos F d" "sets_reg D ?r (instr_at F d)" using d by (simp_all add: set_def_sites)
  obtain v where def_step: "\<And>s t. instr_step D M (instr_at F d) s t \<longleftrightarrow> t = ((fst s)(?r := v), snd s)"
    and clone_step: "\<And>s t. instr_step D M Clone s t \<longleftrightarrow> t = ((fst s)(?New := v), snd s)"
    and def_sets: "\<And>q. sets_reg D q (instr_at F d) \<longleftrightarrow> q = ?r" and clone_sets: "\<And>q. sets_reg D q Clone \<longleftrightarrow> q = ?New"
    and clone_const: "const_instr D M Clone" and clone_uses: "uses D Clone = uses D (instr_at F d)"
    and clone_ops: "\<And>opd. opd \<in> set (operands Clone) \<Longrightarrow> isReg opd \<Longrightarrow> getReg opd = ?New \<or> opd \<in> set (operands (instr_at F d))"
    by (rule clone_step [OF const Clone dv(2)]) (rule that; assumption)
  have no_uses: "filter isReg (uses D Clone) = []" using clone_const by (simp add: const_instr_def)
  have MIuses: "opd \<in> set (uses D MI)"
    using k(1-3) by (auto simp: uses_def in_set_conv_nth intro!: exI [of _ "k - NumDefs D (getOpcode MI)"])
  have MIb: "MI \<in> set (insts F b)" "b \<in> set (blockIds F)" using s MI by (simp_all add: valid_pos_def instr_at_def)
  have "def_instrs D F ?r \<noteq> []" using d by (auto simp: def_instrs_sites)
  then have undef: "\<not> isUndef opd" using ssa(5) MIb MIuses k(4) by (auto simp: undef_ok_def)
  show "d \<noteq> (b, i)"
  proof
    assume "d = (b, i)"
    then have "filter isReg (uses D MI) = []" using const MI by (simp add: const_instr_def)
    then show False using MIuses k(4) by (auto simp: filter_empty_conv)
  qed
  have ops: "getReg o' \<le> ?New" if "o' \<in> set (operands Clone)" "isReg o'" for o'
    using clone_ops [OF that] fresh_reg [OF ssa(2) dv(1) _ that(2)] by auto
  have new: "isReg (setReg ?New opd)" "getReg (setReg ?New opd) = ?New" "\<not> isUndef (setReg ?New opd)"
    using k(4) undef by (simp_all add: setReg_def)
  have val: "isUndef opd \<or> d \<in> set (def_sites D F ?r) \<and>
      (\<forall>s t. instr_step D M (instr_at F d) s t \<longleftrightarrow> t = ((fst s)(?r := v), snd s))"
    using d def_step by blast
  show "refines D M F G" "ssa_fn D G"
    by (rule insert_for_use [OF F s MI order_refl k clone_step clone_sets no_uses ops new val G]; assumption)+
qed

section \<open>Erasing what is not read\<close>

lemma erase_unread:
  assumes F: "ssa_fn D F" and d: "d \<in> set (def_sites D F r)" and const: "const_instr D M (instr_at F d)"
    and unread: "\<And>s. valid_pos F s \<Longrightarrow> \<not> reads_reg D r (instr_at F s)"
  shows "refines D M F (erase_at_pos d F)" "ssa_fn D (erase_at_pos d F)"
proof -
  let ?G = "erase_at_pos d F"
  define f where "f = (\<lambda>t. if t = d then [] else [instr_at F t])"
  have dv: "valid_pos F d" "sets_reg D r (instr_at F d)" using d by (simp_all add: set_def_sites)
  have rw: "rewritten F f ?G" unfolding f_def by (rule erased_rewritten [OF dv(1)])
  note ssa = ssa_fnD [OF F]
  obtain q v where q: "\<And>s t. instr_step D M (instr_at F d) s t \<longleftrightarrow> t = ((fst s)(q := v), snd s)"
      "\<And>p. sets_reg D p (instr_at F d) \<longleftrightarrow> p = q"
    by (rule const_step [OF const]) (rule that; assumption)
  then have qr: "q = r" using dv(2) by simp
  show "refines D M F ?G"
  proof (rule rewritten_refines [OF rw, where J = "\<lambda>xs \<rho> \<rho>'. agree {r} \<rho>' \<rho>"])
    show "agree {r} \<rho> \<rho>" for \<rho> by (simp add: agree_def)
    fix p xs t ys \<rho> \<rho>' w \<sigma>' w'
    assume p: "is_path F p" "trace F p = xs @ t # ys" and J: "agree {r} \<rho>' \<rho>"
      and run: "code_run D M (f t) (\<rho>', w) (\<sigma>', w')"
    have t: "valid_pos F t" using trace_valid [OF p(1), of t] p(2) by simp
    show "\<exists>\<sigma>. instr_step D M (instr_at F t) (\<rho>, w) (\<sigma>, w') \<and> agree {r} \<sigma>' \<sigma>"
    proof (cases "t = d")
      case True
      then show ?thesis using run J q(1) qr by (auto simp: f_def agree_def)
    next
      case False
      then show ?thesis
        using step_agree [of "{r}" "(\<rho>', w)" \<rho> D "instr_at F t" M "(\<sigma>', w')"] J run unread [OF t] by (auto simp: f_def)
    qed
  qed
  have f_in: "I \<in> set (f t) \<longleftrightarrow> t \<noteq> d \<and> I = instr_at F t" for t I by (auto simp: f_def)
  have no_def: "def_instrs D ?G p = []" if none: "def_instrs D F p = []" for p
  proof -
    have "def_sites D F p = []" using none by (simp add: def_instrs_sites)
    then have "\<not> sets_reg D p (instr_at F s)" if "valid_pos F s" for s
      using that set_def_sites [of s D F p] by simp
    then show ?thesis using rewritten_no_def [OF rw, of D p] f_in by simp
  qed
  have "ssa D ?G"
  proof (rule rewritten_ssa [OF rw ssa(1)])
    show "length (filter (sets_reg D p) (f s)) \<le> 1" for s p by (simp add: f_def)
    fix s t p I J assume *: "valid_pos F s" "valid_pos F t" "I \<in> set (f s)" "J \<in> set (f t)" "sets_reg D p I" "sets_reg D p J"
    show "s = t" by (rule ssa_site [OF ssa(3) *(1,2), of p]) (use *(3-6) f_in in simp_all)
  qed
  moreover have "defined_first D ?G"
  proof (rule rewritten_defined_first [OF rw ssa(4)], rule disjI2)
    fix c j pre I post p
    assume c: "c \<in> set (blockIds F)" "j < length (insts F c)" and I: "f (c, j) = pre @ I # post"
      and p: "reads_reg D p I" "def_instrs D ?G p \<noteq> []"
    have valid: "valid_pos F (c, j)" using c by (simp add: valid_pos_def)
    have "I \<in> set (f (c, j))" using I by simp
    then have "I = instr_at F (c, j)" using f_in by simp
    then have reads: "reads_reg D p (instr_at F (c, j))" using p(1) by simp
    then have pr: "p \<noteq> r" using unread [OF valid] by metis
    have "\<exists>I \<in> set (f s). sets_reg D p I" if ps: "sets_reg D p (instr_at F s)" for s
    proof -
      have "s \<noteq> d" using ps q(2) [of p] qr pr by metis
      then show ?thesis using ps by (simp add: f_def)
    qed
    moreover have "def_instrs D F p \<noteq> []" using no_def [of p] p(2) by blast
    ultimately show "reads_reg D p (instr_at F (c, j)) \<and> def_instrs D F p \<noteq> [] \<and>
        (\<forall>s. valid_pos F s \<longrightarrow> sets_reg D p (instr_at F s) \<longrightarrow> (\<exists>I \<in> set (f s). sets_reg D p I))"
      using reads by simp
  qed
  moreover have "fresh_regs ?G"
  proof (rule rewritten_fresh [OF rw])
    fix s I opd assume "valid_pos F s" "I \<in> set (f s)" "opd \<in> set (operands I)" "isReg opd"
    then have "getReg opd < nextVReg F" using fresh_reg [OF ssa(2), of s opd] f_in [of I s] by simp
    then show "getReg opd < nextVReg ?G" by (simp add: erase_at_pos_def set_code_def)
  qed
  moreover have "undef_ok D ?G"
  proof (rule rewritten_undef_ok [OF rw])
    fix s I opd assume *: "valid_pos F s" "I \<in> set (f s)" "opd \<in> set (uses D I)" "isReg opd" "isUndef opd"
    then have "instr_at F s \<in> set (insts F (fst s))" "fst s \<in> set (blockIds F)" "I = instr_at F s"
      using f_in [of I s] by (simp_all add: valid_pos_def instr_at_def)
    then have "def_instrs D F (getReg opd) = []" using ssa(5) *(3-5) by (simp add: undef_ok_def)
    then show "def_instrs D ?G (getReg opd) = []" by (rule no_def)
  qed
  moreover have "distinct (blockIds ?G)" using rw ssa(1) by (simp add: rewritten_def)
  ultimately show "ssa_fn D ?G" by (simp add: ssa_fn_def)
qed

lemma erased_at:
  assumes "valid_pos F d" "valid_pos F t" "t \<noteq> d"
    "t' = (if fst d = fst t \<and> snd d < snd t then (fst t, snd t - 1) else t)"
  shows "valid_pos (erase_at_pos d F) t'" "instr_at (erase_at_pos d F) t' = instr_at F t"
proof -
  obtain b i where d: "d = (b, i)" "i < length (insts F b)" using assms(1) by (cases d) (simp add: valid_pos_def)
  obtain c j where t: "t = (c, j)" "c \<in> set (blockIds F)" "j < length (insts F c)" using assms(2) by (cases t) (simp add: valid_pos_def)
  show "valid_pos (erase_at_pos d F) t'" "instr_at (erase_at_pos d F) t' = instr_at F t"
    using d t assms(3,4) by (auto simp: valid_pos_def erase_at_pos_def set_code_def instr_at_def nth_append)
qed

lemma rewritten_instr:
  assumes rw: "rewritten F f G" and s: "valid_pos G s"
  obtains t where "valid_pos F t" "instr_at G s \<in> set (f t)"
proof -
  have "blockIds G = blockIds F" using rw by (simp add: rewritten_def)
  then have s': "instr_at G s \<in> set (insts G (fst s))" "fst s \<in> set (blockIds F)"
    using s by (simp_all add: valid_pos_def instr_at_def)
  moreover have "insts G (fst s) = concat (map f (block_positions F (fst s)))"
    using rw s'(2) by (simp add: rewritten_def)
  ultimately obtain t where "t \<in> set (block_positions F (fst s))" "instr_at G s \<in> set (f t)" by auto
  then show thesis using s'(2) that [of t] by (simp add: valid_pos_def set_block_positions)
qed

section \<open>How often a register is read\<close>

definition reads_count :: "MCInstrInfo \<Rightarrow> nat \<Rightarrow> MachineInstr \<Rightarrow> nat" where
  "reads_count D r MI = length (filter (\<lambda>opd. isReg opd \<and> getReg opd = r) (uses D MI))"

lemma concat_map_map_concat: "concat (map (\<lambda>b. concat (map f (g b))) bs) = concat (map f (concat (map g bs)))"
  by (induction bs) simp_all

lemma rewritten_use_count:
  assumes "rewritten F f G"
  shows "use_count D G r =
    sum_list (map (\<lambda>s. sum_list (map (reads_count D r) (f s))) (concat (map (block_positions F) (blockIds F))))"
proof -
  let ?P = "\<lambda>opd. isReg opd \<and> getReg opd = r"
  have "map (insts G) (blockIds G) = map (\<lambda>b. concat (map f (block_positions F b))) (blockIds F)"
    using assms by (simp add: rewritten_def)
  then have "concat (map (insts G) (blockIds G)) = concat (map f (concat (map (block_positions F) (blockIds F))))"
    by (simp add: concat_map_map_concat)
  moreover have "length (filter ?P (concat (map (uses D) xs))) = sum_list (map (reads_count D r) xs)" for xs
    by (induction xs) (simp_all add: reads_count_def)
  moreover have "sum_list (map (reads_count D r) (concat (map f ss))) =
      sum_list (map (\<lambda>s. sum_list (map (reads_count D r) (f s))) ss)" for ss
    by (induction ss) simp_all
  ultimately show ?thesis by (simp only: use_count_def)
qed

lemma use_count_positions:
  "use_count D F r = sum_list (map (\<lambda>s. reads_count D r (instr_at F s)) (concat (map (block_positions F) (blockIds F))))"
proof -
  have "rewritten F (\<lambda>s. [instr_at F s]) F"
    by (simp add: rewritten_def concat_map_singleton insts_positions)
  from rewritten_use_count [OF this] show ?thesis by simp
qed

lemma rewritten_use_count_le:
  assumes "rewritten F f G"
    and "\<And>s. valid_pos F s \<Longrightarrow> sum_list (map (reads_count D r) (f s)) \<le> reads_count D r (instr_at F s)"
  shows "use_count D G r \<le> use_count D F r"
  unfolding rewritten_use_count [OF assms(1)] use_count_positions [of D F r]
  by (rule sum_list_mono) (use assms(2) all_positions [of F] in blast)

lemma rewritten_use_count_once:
  assumes "rewritten F f G" "distinct (blockIds F)"
    and "\<And>s. valid_pos F s \<Longrightarrow> sum_list (map (reads_count D r) (f s)) \<le> (if s = t then 1 else 0)"
  shows "use_count D G r \<le> 1"
proof -
  let ?ps = "concat (map (block_positions F) (blockIds F))"
  have "use_count D G r \<le> sum_list (map (\<lambda>s. if s = t then 1 else 0) ?ps)"
    unfolding rewritten_use_count [OF assms(1)]
    by (rule sum_list_mono) (use assms(3) all_positions [of F] in blast)
  also have "\<dots> = (\<Sum>s \<in> set ?ps. if s = t then 1 else 0)"
    using distinct_positions [OF assms(2)] by (rule sum_list_distinct_conv_sum_set)
  also have "\<dots> \<le> 1" by simp
  finally show ?thesis .
qed

lemma filter_update_le:
  assumes "\<not> P y"
  shows "length (filter P (xs[j := y])) \<le> length (filter P xs)"
  using assms by (induction xs arbitrary: j) (auto split: nat.split)

lemma filter_update_one:
  assumes "\<forall>x \<in> set xs. \<not> P x"
  shows "length (filter P (xs[j := y])) \<le> 1"
  using assms
proof (induction xs arbitrary: j)
  case (Cons x xs)
  then show ?case by (cases j) (simp_all add: filter_False)
qed simp

section \<open>The pass\<close>

text \<open>
  Trivially rematerialisable instructions read no register, and those of the function that the pass copies
  are constants of the machine.
\<close>

definition cheap_ok :: "MCInstrInfo \<Rightarrow> ('v, 'w) Machine \<Rightarrow> (MachineInstr \<Rightarrow> bool) \<Rightarrow> MachineFn \<Rightarrow> bool" where
  "cheap_ok D M cheap F \<longleftrightarrow> (\<forall>MI. cheap MI \<longrightarrow> filter isReg (uses D MI) = []) \<and>
     (\<forall>s. valid_pos F s \<longrightarrow> ShouldRematerialize cheap (instr_at F s) \<longrightarrow> const_instr D M (instr_at F s))"

lemma cheap_okD:
  "cheap_ok D M cheap F \<Longrightarrow> cheap MI \<Longrightarrow> filter isReg (uses D MI) = []"
  "\<lbrakk>cheap_ok D M cheap F; valid_pos F s; ShouldRematerialize cheap (instr_at F s)\<rbrakk> \<Longrightarrow> const_instr D M (instr_at F s)"
  unfolding cheap_ok_def by blast+

lemma cheap_ok_rewritten:
  assumes F: "cheap_ok D M cheap F" and rw: "rewritten F f G"
    and f: "\<And>t I. \<lbrakk>valid_pos F t; I \<in> set (f t)\<rbrakk> \<Longrightarrow>
        I = instr_at F t \<or> const_instr D M I \<or> filter isReg (uses D I) \<noteq> [] \<and> getOpcode I \<noteq> PUSH_GLOBAL_ADDRESS"
  shows "cheap_ok D M cheap G"
  unfolding cheap_ok_def
proof (intro conjI allI impI)
  show "filter isReg (uses D MI) = []" if "cheap MI" for MI using that F by (simp add: cheap_ok_def)
  fix s assume s: "valid_pos G s" and should: "ShouldRematerialize cheap (instr_at G s)"
  obtain t where t: "valid_pos F t" "instr_at G s \<in> set (f t)" by (rule rewritten_instr [OF rw s])
  show "const_instr D M (instr_at G s)"
    using f [OF t] cheap_okD(1) [OF F, of "instr_at G s"] cheap_okD(2) [OF F t(1)] should
    by (auto simp: ShouldRematerialize_def)
qed

lemma dead_unread:
  assumes L: "intervals_ok D L" and F: "ssa_fn D F" and d: "d \<in> set (def_sites D F r)"
    and dead: "\<not> used_reg D F r \<or> \<not> liveAtDeadSlot L F r d" and s: "valid_pos F s"
  shows "\<not> reads_reg D r (instr_at F s)"
proof -
  have s': "instr_at F s \<in> set (insts F (fst s))" "fst s \<in> set (blockIds F)"
    using s by (simp_all add: valid_pos_def instr_at_def)
  from dead show ?thesis
  proof
    assume "\<not> used_reg D F r"
    then show ?thesis using s' by (auto simp: used_reg_def list_ex_iff reads_reg_def)
  next
    assume "\<not> liveAtDeadSlot L F r d"
    then show ?thesis using L F d s' unfolding intervals_ok_def by blast
  qed
qed

text \<open>Registers whose definition the pass copies for a use.\<close>

definition wants :: "MCInstrInfo \<Rightarrow> (MachineInstr \<Rightarrow> bool) \<Rightarrow> MachineFn \<Rightarrow> nat \<Rightarrow> bool" where
  "wants D cheap F r \<longleftrightarrow> (\<exists>I \<in> set (def_instrs D F r). ShouldRematerialize cheap I \<and>
     getOpcode I \<noteq> INLINEASM \<and> \<not> isArgument I)"

lemma wants_rewritten:
  assumes rw: "rewritten F f G" and r: "wants D cheap G r"
    and f: "\<And>t I. \<lbrakk>valid_pos F t; I \<in> set (f t); sets_reg D r I\<rbrakk> \<Longrightarrow>
        I = instr_at F t \<or> \<not> ShouldRematerialize cheap I"
  shows "wants D cheap F r"
proof -
  obtain I where I: "I \<in> set (def_instrs D G r)" "ShouldRematerialize cheap I" "getOpcode I \<noteq> INLINEASM" "\<not> isArgument I"
    using r by (auto simp: wants_def)
  have "I \<in> set (concat (map f (concat (map (block_positions F) (blockIds F)))))" "sets_reg D r I"
    using I(1) by (simp_all add: rewritten_def_instrs [OF rw])
  then obtain t where t: "t \<in> set (concat (map (block_positions F) (blockIds F)))" "I \<in> set (f t)" "sets_reg D r I" by auto
  then have v: "valid_pos F t" using all_positions [of F] by blast
  then have "I = instr_at F t" using f [OF v t(2,3)] I(2) by blast
  then have "I \<in> set (def_instrs D F r)" using v t(3) by (auto simp: def_instrs_sites set_def_sites)
  then show ?thesis using I by (auto simp: wants_def)
qed

text \<open>
  What a copy changes: the operand reads the new register, which no other operand reads, the clone is in
  front of the instruction, and nothing else is new.
\<close>

definition copied_use :: "MCInstrInfo \<Rightarrow> (MachineInstr \<Rightarrow> bool) \<Rightarrow> nat \<Rightarrow> nat \<Rightarrow> MachineFn \<Rightarrow> nat \<Rightarrow> MachineFn \<Rightarrow> nat \<Rightarrow> bool" where
  "copied_use D cheap b k F i G j \<longleftrightarrow>
     instr_at G (b, j) = set_operand k (setReg (nextVReg F) (operands (instr_at F (b, i)) ! k)) (instr_at F (b, i)) \<and>
     (\<exists>C. filter isReg (uses D C) = [] \<and> set (take j (insts G b)) \<subseteq> insert C (set (take i (insts F b)))) \<and>
     (\<forall>c. c \<noteq> b \<longrightarrow> set (insts G c) \<subseteq> set (insts F c)) \<and>
     (\<forall>r. r \<noteq> nextVReg F \<longrightarrow> wants D cheap G r \<longrightarrow> wants D cheap F r) \<and>
     (\<forall>r. r \<noteq> nextVReg F \<longrightarrow> use_count D G r \<le> use_count D F r) \<and>
     use_count D G (nextVReg F) \<le> 1 \<and> nextVReg F \<le> nextVReg G"

lemma RematerializeCheapDef_step:
  assumes F: "ssa_fn D F" and L: "intervals_ok D L" and cheap: "cheap_ok D M cheap F"
    and s: "valid_pos F (b, i)" and MI: "MI = instr_at F (b, i)"
    and k: "NumDefs D (getOpcode MI) \<le> k" "k < length (operands MI)" "operands MI ! k = opd" "isReg opd"
    and d: "d \<in> set (def_sites D F (getReg opd))" "ShouldRematerialize cheap (instr_at F d)"
  shows "\<exists>j G. RematerializeCheapDef D L (getReg opd) k d (b, i) (F, S) = Some (j, G, stackifyVReg (nextVReg F) S) \<and>
    refines D M F G \<and> ssa_fn D G \<and> cheap_ok D M cheap G \<and> valid_pos G (b, j) \<and>
    length (operands (instr_at G (b, j))) = length (operands MI) \<and> copied_use D cheap b k F i G j"
proof -
  let ?New = "nextVReg F" and ?r = "getReg opd"
  have dv: "valid_pos F d" using d(1) by (simp add: set_def_sites)
  have const: "const_instr D M (instr_at F d)" by (rule cheap_okD(2) [OF cheap dv d(2)])
  then obtain Clone where Clone: "reMaterialize ?New (instr_at F d) = Some Clone"
    by (auto simp: const_instr_def reMaterialize_def)
  define MI' where "MI' = set_operand k (setReg ?New opd) MI"
  define H where "H = update_operand (b, i) k (setReg ?New opd) (F \<lparr> nextVReg := ?New + 1 \<rparr>)"
  define G where "G = insert_at_pos (b, i) Clone H"
  note copy = copy_for_use [OF F s MI k d(1) const Clone G_def [unfolded H_def]]
  have i: "i < length (insts F b)" "b \<in> set (blockIds F)" using s by (simp_all add: valid_pos_def)
  have rw: "rewritten F (\<lambda>t. (if t = (b, i) then [Clone] else []) @ [if t = (b, i) then MI' else instr_at F t]) G"
    using inserted_rewritten [of i i "F \<lparr> nextVReg := ?New + 1 \<rparr>" b Clone k "setReg ?New opd"] i
    by (simp add: rewritten_def G_def H_def MI'_def MI instr_at_def block_positions_def cong: if_cong)
  have H: "i < length (insts H b)" "instr_at H (b, i) = MI'"
    "\<And>t. valid_pos F t \<Longrightarrow> t \<noteq> (b, i) \<Longrightarrow> valid_pos H t \<and> instr_at H t = instr_at F t"
    using i by (auto simp: H_def MI'_def MI update_operand_def set_code_def instr_at_def valid_pos_def split: prod.splits)
  have regs: "isReg (operands MI ! k)" "isReg (setReg ?New opd)" using k(3,4) by (simp_all add: setReg_def)
  have len: "length (operands MI') = length (operands MI)"
    using set_operand_facts(7) [OF k(1,2) regs] by (simp add: MI'_def)
  have uses: "filter isReg (uses D MI') \<noteq> []" "filter isReg (uses D MI) \<noteq> []"
  proof -
    have "setReg ?New opd \<in> set (uses D MI')" "opd \<in> set (uses D MI)"
      using k set_operand_facts(1) [OF k(1,2) regs]
      by (auto simp: MI'_def uses_def set_update_memI in_set_conv_nth intro!: exI [of _ "k - NumDefs D (getOpcode MI)"])
    then show "filter isReg (uses D MI') \<noteq> []" "filter isReg (uses D MI) \<noteq> []"
      using regs(2) k(4) by (auto simp: filter_empty_conv)
  qed
  have not_pga: "getOpcode MI' \<noteq> PUSH_GLOBAL_ADDRESS"
  proof
    assume "getOpcode MI' = PUSH_GLOBAL_ADDRESS"
    then have "ShouldRematerialize cheap (instr_at F (b, i))"
      using set_operand_facts(4) [OF k(1,2) regs] by (simp add: MI'_def MI ShouldRematerialize_def)
    then show False using cheap_okD(2) [OF cheap s] uses(2) MI by (simp add: const_instr_def)
  qed
  obtain "const_instr D M Clone" and C_sets: "\<And>q. sets_reg D q Clone \<longleftrightarrow> q = ?New"
    by (rule clone_step [OF const Clone]) (use d(1) in \<open>auto simp: set_def_sites\<close>)
  then have C_uses: "filter isReg (uses D Clone) = []" by (simp add: const_instr_def)
  have not_should: "\<not> ShouldRematerialize cheap MI'"
    using not_pga uses(1) cheap_okD(1) [OF cheap, of MI'] by (auto simp: ShouldRematerialize_def)
  have wantsG: "wants D cheap F r" if "r \<noteq> ?New" "wants D cheap G r" for r
    by (rule wants_rewritten [OF rw that(2)]) (use that(1) C_sets not_should in \<open>auto split: if_splits\<close>)
  have count: "use_count D G r \<le> use_count D F r" if r: "r \<noteq> ?New" for r
  proof (rule rewritten_use_count_le [OF rw])
    have "reads_count D r Clone = 0" using C_uses by (auto simp: reads_count_def filter_empty_conv)
    moreover have "reads_count D r MI' \<le> reads_count D r MI"
      unfolding reads_count_def MI'_def set_operand_facts(1) [OF k(1,2) regs]
      by (rule filter_update_le) (use r in \<open>simp add: setReg_def\<close>)
    ultimately show "sum_list (map (reads_count D r)
        ((if t = (b, i) then [Clone] else []) @ [if t = (b, i) then MI' else instr_at F t])) \<le> reads_count D r (instr_at F t)" for t
      using MI by simp
  qed
  have once: "use_count D G ?New \<le> 1"
  proof (rule rewritten_use_count_once [OF rw ssa_fnD(1) [OF F], where t = "(b, i)"])
    fix t assume t: "valid_pos F t"
    have no: "\<forall>o' \<in> set (uses D (instr_at F u)). \<not> (isReg o' \<and> getReg o' = ?New)" if "valid_pos F u" for u
      using fresh_reg [OF ssa_fnD(2) [OF F] that] unfolding uses_def by (metis in_set_dropD less_irrefl)
    have "reads_count D ?New Clone = 0" using C_uses by (auto simp: reads_count_def filter_empty_conv)
    moreover have "reads_count D ?New MI' \<le> 1"
      unfolding reads_count_def MI'_def set_operand_facts(1) [OF k(1,2) regs]
      by (rule filter_update_one) (use no [OF s] MI in simp)
    moreover have "reads_count D ?New (instr_at F t) = 0" using no [OF t] by (simp add: reads_count_def filter_False)
    ultimately show "sum_list (map (reads_count D ?New)
        ((if t = (b, i) then [Clone] else []) @ [if t = (b, i) then MI' else instr_at F t])) \<le> (if t = (b, i) then 1 else 0)"
      by simp
  qed
  have nextG: "nextVReg F \<le> nextVReg G" by (simp add: G_def H_def insert_at_pos_def update_operand_def set_code_def)
  from \<open>const_instr D M Clone\<close> have cheapG: "cheap_ok D M cheap G"
    by (intro cheap_ok_rewritten [OF cheap rw]) (use uses not_pga in \<open>auto split: if_splits\<close>)
  define d' where "d' = (if fst d = b \<and> i \<le> snd d then (b, snd d + 1) else d)"
  have next_at: "valid_pos G (b, Suc i)" "instr_at G (b, Suc i) = MI'"
    using inserted_at(1) [OF H(1), of Clone] H(1,2) i(2)
    by (simp_all add: G_def valid_pos_def H_def update_operand_def set_code_def insert_at_pos_def insert_instr_def)
  have dG: "valid_pos G d'" "instr_at G d' = instr_at F d"
    using inserted_at(3) [OF H(1), of d d' Clone] H(3) [OF dv copy(3)] by (simp_all add: d'_def G_def)
  have d'_ne: "d' \<noteq> (b, Suc i)" "d' \<noteq> (b, i)" using copy(3) by (cases d; auto simp: d'_def)+
  let ?dead = "\<not> used_reg D G ?r \<or> \<not> liveAtDeadSlot L G ?r d'"
  have run: "RematerializeCheapDef D L ?r k d (b, i) (F, S) =
      (if \<not> ?dead then Some (Suc i, G, stackifyVReg ?New S)
       else Some (if fst d' = b \<and> snd d' < i then i else Suc i, erase_at_pos d' G, stackifyVReg ?New S))"
  proof -
    have G2: "insert_at_pos (b, i) Clone (update_operand (b, i) k (setReg ?New (operands (instr_at F (b, i)) ! k))
        (F \<lparr> nextVReg := ?New + 1 \<rparr>)) = G"
      by (simp add: G_def H_def k(3) [symmetric] MI)
    have d2: "(if fst d = b \<and> i \<le> snd d then (fst d, snd d + 1) else d) = d'" by (simp add: d'_def)
    show ?thesis
      using d'_ne(1)
      by (simp only: RematerializeCheapDef_def createVirtualRegister_def Let_def fst_conv snd_conv prod.case Clone
            Option.bind.simps G2 d2) (auto simp: check_def)
  qed
  have takeG: "take (Suc i) (insts G b) = take i (insts F b) @ [Clone]"
    using i(1) by (simp add: G_def H_def insert_at_pos_def update_operand_def set_code_def insert_instr_def)
  have codeG: "insts G c = insts F c" if "c \<noteq> b" for c
    using that by (simp add: G_def H_def insert_at_pos_def update_operand_def set_code_def)
  have MI'_eq: "set_operand k (setReg ?New (operands (instr_at F (b, i)) ! k)) (instr_at F (b, i)) = MI'"
    using k(3) by (simp add: MI'_def MI)
  show ?thesis
  proof (cases ?dead)
    case False
    have "copied_use D cheap b k F i G (Suc i)"
      unfolding copied_use_def MI'_eq using next_at(2) takeG codeG C_uses wantsG count once nextG by (intro conjI allI impI exI [of _ Clone]) auto
    then show ?thesis using False run copy(1,2) cheapG next_at len by simp
  next
    case True
    have site: "d' \<in> set (def_sites D G ?r)" using dG d(1) by (simp add: set_def_sites)
    have constG: "const_instr D M (instr_at G d')" using const dG(2) by simp
    have unread: "\<not> reads_reg D ?r (instr_at G s)" if "valid_pos G s" for s
      by (rule dead_unread [OF L copy(2) site True that])
    note erase = erase_unread [OF copy(2) site constG unread]
    let ?j = "if fst d' = b \<and> snd d' < i then i else Suc i"
    have j: "(b, ?j) = (if fst d' = fst (b, Suc i) \<and> snd d' < snd (b, Suc i) then (fst (b, Suc i), snd (b, Suc i) - 1) else (b, Suc i))"
      using d'_ne by (cases d') auto
    have at: "valid_pos (erase_at_pos d' G) (b, ?j)" "instr_at (erase_at_pos d' G) (b, ?j) = MI'"
      using erased_at [OF dG(1) next_at(1) d'_ne(1) [symmetric] j] next_at(2) by simp_all
    have "cheap_ok D M cheap (erase_at_pos d' G)"
      by (rule cheap_ok_rewritten [OF cheapG erased_rewritten [OF dG(1)]]) (simp split: if_splits)
    moreover have "copied_use D cheap b k F i (erase_at_pos d' G) ?j"
      unfolding copied_use_def MI'_eq
    proof (intro conjI allI impI exI [of _ Clone])
      show "instr_at (erase_at_pos d' G) (b, ?j) = MI'" by (rule at(2))
      show "filter isReg (uses D Clone) = []" by (rule C_uses)
      have "set (take ?j (insts (erase_at_pos d' G) b)) \<subseteq> set (take (Suc i) (insts G b))"
        using dG(1) next_at(1) d'_ne
        by (cases d') (auto simp: erase_at_pos_def set_code_def valid_pos_def take_drop min_def
            dest: in_set_takeD in_set_dropD split: if_splits,
          use set_take_subset_set_take [of _ "Suc i" "insts G b"] in \<open>meson less_imp_le less_SucI subsetD\<close>)
      then show "set (take ?j (insts (erase_at_pos d' G) b)) \<subseteq> insert Clone (set (take i (insts F b)))"
        using takeG by auto
      show "set (insts (erase_at_pos d' G) c) \<subseteq> set (insts F c)" if "c \<noteq> b" for c
        using codeG [OF that] by (auto simp: erase_at_pos_def set_code_def dest: in_set_takeD in_set_dropD)
      show "wants D cheap F r" if "r \<noteq> ?New" "wants D cheap (erase_at_pos d' G) r" for r
        by (rule wantsG [OF that(1)], rule wants_rewritten [OF erased_rewritten [OF dG(1)] that(2)]) (simp split: if_splits)
      have le: "use_count D (erase_at_pos d' G) r \<le> use_count D G r" for r
        by (rule rewritten_use_count_le [OF erased_rewritten [OF dG(1)]]) simp
      show "use_count D (erase_at_pos d' G) r \<le> use_count D F r" if "r \<noteq> ?New" for r
        using le [of r] count [OF that] by simp
      show "use_count D (erase_at_pos d' G) ?New \<le> 1" using le [of ?New] once by simp
      show "nextVReg F \<le> nextVReg (erase_at_pos d' G)" using nextG by (simp add: erase_at_pos_def set_code_def)
    qed
    ultimately show ?thesis using run True refines_trans [OF copy(1) erase(1)] erase(2) at len by (metis (no_types, lifting))
  qed
qed

text \<open>
  An instruction is served when each of its operands that reads a cheap definition reads a copy of its own: a
  register made by the pass (its number is not below n, where the registers of the pass begin), which is
  stackified and which no other operand of the function reads. Inline assembly and debug values are left out.
\<close>

definition served_operand ::
  "MCInstrInfo \<Rightarrow> (MachineInstr \<Rightarrow> bool) \<Rightarrow> nat \<Rightarrow> MachineFn \<Rightarrow> BitVector \<Rightarrow> MachineOperand \<Rightarrow> bool" where
  "served_operand D cheap n F S opd \<longleftrightarrow> (isReg opd \<longrightarrow> wants D cheap F (getReg opd) \<longrightarrow>
     n \<le> getReg opd \<and> isVRegStackified S (getReg opd) \<and> use_count D F (getReg opd) \<le> 1)"

definition served ::
  "MCInstrInfo \<Rightarrow> (MachineInstr \<Rightarrow> bool) \<Rightarrow> nat \<Rightarrow> MachineFn \<Rightarrow> BitVector \<Rightarrow> MachineInstr \<Rightarrow> bool" where
  "served D cheap n F S MI \<longleftrightarrow> getOpcode MI = INLINEASM \<or> getOpcode MI = DBG_VALUE \<or>
     (\<forall>opd \<in> set (uses D MI). served_operand D cheap n F S opd)"

lemma served_copied:
  assumes C: "copied_use D cheap b k F i G j" and old: "isReg opd \<Longrightarrow> getReg opd < nextVReg F"
    and s: "served_operand D cheap n F S opd"
  shows "served_operand D cheap n G (stackifyVReg (nextVReg F) S) opd"
  unfolding served_operand_def
proof (intro impI)
  assume opd: "isReg opd" "wants D cheap G (getReg opd)"
  then have ne: "getReg opd \<noteq> nextVReg F" using old by simp
  have "wants D cheap F (getReg opd)" "use_count D G (getReg opd) \<le> use_count D F (getReg opd)"
    using C opd(2) ne by (simp_all add: copied_use_def)
  then show "n \<le> getReg opd \<and> isVRegStackified (stackifyVReg (nextVReg F) S) (getReg opd) \<and> use_count D G (getReg opd) \<le> 1"
    using s opd(1) ne by (auto simp: served_operand_def stackify_reads_back)
qed

text \<open>What holds between two operands of the instruction at index i of block b: the blocks bs are done.\<close>

definition remat_inv :: "MCInstrInfo \<Rightarrow> ('v, 'w) Machine \<Rightarrow> (MachineInstr \<Rightarrow> bool) \<Rightarrow> MachineFn \<Rightarrow> nat list \<Rightarrow> nat \<Rightarrow>
    bool \<times> nat \<times> MachineFn \<times> BitVector \<Rightarrow> bool" where
  "remat_inv D M cheap F0 bs b = (\<lambda>(c, i, F, S). refines D M F0 F \<and> ssa_fn D F \<and> cheap_ok D M cheap F \<and>
     nextVReg F0 \<le> nextVReg F \<and>
     (\<forall>a \<in> set bs. \<forall>I \<in> set (insts F a). served D cheap (nextVReg F0) F S I) \<and>
     (\<forall>I \<in> set (take i (insts F b)). served D cheap (nextVReg F0) F S I))"

lemma remat_operand_step:
  assumes L: "intervals_ok D L" and inv: "remat_inv D M cheap F0 bs b (c, i, F, S)" and s: "valid_pos F (b, i)"
    and bs: "b \<notin> set bs" "set bs \<subseteq> set (blockIds F)" and k: "k < length (operands (instr_at F (b, i)))"
    and before: "\<forall>j < k. NumDefs D (getOpcode (instr_at F (b, i))) \<le> j \<longrightarrow> served_operand D cheap (nextVReg F0) F S (operands (instr_at F (b, i)) ! j)"
    and real: "getOpcode (instr_at F (b, i)) \<notin> {INLINEASM, DBG_VALUE}"
  shows "\<exists>c' j G S'. remat_operand D L cheap b k (c, i, F, S) = Some (c', j, G, S') \<and>
    remat_inv D M cheap F0 bs b (c', j, G, S') \<and> valid_pos G (b, j) \<and>
    getOpcode (instr_at G (b, j)) = getOpcode (instr_at F (b, i)) \<and>
    length (operands (instr_at G (b, j))) = length (operands (instr_at F (b, i))) \<and>
    (\<forall>j' < Suc k. NumDefs D (getOpcode (instr_at G (b, j))) \<le> j' \<longrightarrow>
       served_operand D cheap (nextVReg F0) G S' (operands (instr_at G (b, j)) ! j'))"
proof -
  let ?MI = "instr_at F (b, i)"
  let ?opd = "operands ?MI ! k" and ?n = "NumDefs D (getOpcode (instr_at F (b, i)))"
  have F: "ssa_fn D F" "cheap_ok D M cheap F" "refines D M F0 F" and n0: "nextVReg F0 \<le> nextVReg F"
    using inv by (simp_all add: remat_inv_def)
  note defs = GetVRegDef_sites [OF L ssa_fnD(3) [OF F(1)], of "getReg ?opd"]
  show ?thesis
  proof (cases "isReg ?opd \<and> ?n \<le> k \<and> (\<exists>d. GetVRegDef D L F (getReg ?opd) (b, i) = Some d \<and>
      getOpcode (instr_at F d) \<noteq> INLINEASM \<and> \<not> isArgument (instr_at F d) \<and> ShouldRematerialize cheap (instr_at F d))")
    case False
    then have "remat_operand D L cheap b k (c, i, F, S) = Some (c, i, F, S)"
      by (auto simp: remat_operand_def Let_def split: option.splits)
    moreover have "served_operand D cheap (nextVReg F0) F S ?opd" if "?n \<le> k"
      unfolding served_operand_def
    proof (intro impI)
      assume "isReg ?opd" "wants D cheap F (getReg ?opd)"
      then show "nextVReg F0 \<le> getReg ?opd \<and> isVRegStackified S (getReg ?opd) \<and> use_count D F (getReg ?opd) \<le> 1"
        using False that defs by (auto simp: wants_def def_instrs_sites)
    qed
    ultimately show ?thesis using inv s before by (auto simp: less_Suc_eq)
  next
    case True
    then obtain d where d: "GetVRegDef D L F (getReg ?opd) (b, i) = Some d" "getOpcode (instr_at F d) \<noteq> INLINEASM"
        "\<not> isArgument (instr_at F d)" "ShouldRematerialize cheap (instr_at F d)" by blast
    have site: "d \<in> set (def_sites D F (getReg ?opd))" using defs(1) d(1) by (auto split: list.splits)
    let ?S = "stackifyVReg (nextVReg F) S"
    have nk: "?n \<le> k" and rk: "isReg ?opd" using True by simp_all
    obtain j G where step: "RematerializeCheapDef D L (getReg ?opd) k d (b, i) (F, S) = Some (j, G, ?S)"
        "refines D M F G" "ssa_fn D G" "cheap_ok D M cheap G" "valid_pos G (b, j)"
        "length (operands (instr_at G (b, j))) = length (operands ?MI)" "copied_use D cheap b k F i G j"
      using RematerializeCheapDef_step [OF F(1) L F(2) s refl nk k refl rk site d(4), of S] by blast
    have at: "instr_at G (b, j) = set_operand k (setReg (nextVReg F) ?opd) ?MI"
      using step(7) by (simp add: copied_use_def)
    have run: "remat_operand D L cheap b k (c, i, F, S) = Some (True, j, G, ?S)"
      using True d step(1) by (auto simp: remat_operand_def Let_def)
    have fresh: "getReg o' < nextVReg F" if "a \<in> set (blockIds F)" "I \<in> set (insts F a)" "o' \<in> set (operands I)" "isReg o'" for a I o'
      using ssa_fnD(2) [OF F(1)] that by (simp add: fresh_regs_def)
    have keep: "served D cheap (nextVReg F0) G ?S I" if "a \<in> set (blockIds F)" "I \<in> set (insts F a)" "served D cheap (nextVReg F0) F S I" for a I
      using that(3) served_copied [OF step(7)] fresh [OF that(1,2)]
      unfolding served_def uses_def by (meson in_set_dropD)
    have b: "b \<in> set (blockIds F)" using s by (simp add: valid_pos_def)
    have "remat_inv D M cheap F0 bs b (True, j, G, ?S)"
      unfolding remat_inv_def prod.case
    proof (intro conjI ballI)
      show "refines D M F0 G" by (rule refines_trans [OF F(3) step(2)])
      show "ssa_fn D G" "cheap_ok D M cheap G" by (rule step)+
      show "nextVReg F0 \<le> nextVReg G" using n0 step(7) by (simp add: copied_use_def)
      fix a I assume a: "a \<in> set bs" "I \<in> set (insts G a)"
      have "I \<in> set (insts F a)" using step(7) a bs(1) by (auto simp: copied_use_def)
      then show "served D cheap (nextVReg F0) G ?S I" using keep [of a I] a(1) bs(2) inv by (auto simp: remat_inv_def)
    next
      fix I assume I: "I \<in> set (take j (insts G b))"
      obtain C where C: "filter isReg (uses D C) = []" "set (take j (insts G b)) \<subseteq> insert C (set (take i (insts F b)))"
        using step(7) by (auto simp: copied_use_def)
      consider "I = C" | "I \<in> set (take i (insts F b))" using C(2) I by blast
      then show "served D cheap (nextVReg F0) G ?S I"
      proof cases
        case 1
        then show ?thesis using C(1) by (auto simp: served_def served_operand_def filter_empty_conv)
      next
        case 2
        then show ?thesis using keep [OF b, of I] inv by (auto simp: remat_inv_def dest: in_set_takeD)
      qed
    qed
    moreover have "served_operand D cheap (nextVReg F0) G ?S (operands (instr_at G (b, j)) ! j')" if j': "j' < Suc k" "?n \<le> j'" for j'
    proof (cases "j' = k")
      case True
      moreover have "use_count D G (nextVReg F) \<le> 1" using step(7) by (simp add: copied_use_def)
      ultimately show ?thesis
        using k n0 by (simp add: at set_operand_def served_operand_def stackify_reads_back setReg_def)
    next
      case False
      then have "served_operand D cheap (nextVReg F0) F S (operands ?MI ! j')" using before j' by simp
      moreover have "operands ?MI ! j' \<in> set (operands ?MI)" using j'(1) k by simp
      moreover have "?MI \<in> set (insts F b)" using s by (simp add: valid_pos_def instr_at_def)
      ultimately show ?thesis
        using served_copied [OF step(7)] fresh [OF b] False by (simp add: at set_operand_def)
    qed
    ultimately show ?thesis using run step(5,6) at by (auto simp: set_operand_def)
  qed
qed

lemma foldM_upt:
  assumes "P 0 s" "\<And>k s. k < n \<Longrightarrow> P k s \<Longrightarrow> \<exists>t. f k s = Some t \<and> P (Suc k) t"
  shows "\<exists>t. foldM f [0..<n] s = Some t \<and> P n t"
  using assms
proof (induction n)
  case (Suc n)
  then obtain t where t: "foldM f [0..<n] s = Some t" "P n t" by fastforce
  then show ?case using Suc.prems(2) [of n t] by (auto simp: foldM_append)
qed simp

lemma remat_instr_step:
  assumes L: "intervals_ok D L" and inv: "remat_inv D M cheap F0 bs b (c, i, F, S)" and s: "valid_pos F (b, i)"
    and bs: "b \<notin> set bs" "set bs \<subseteq> set (blockIds F0)"
  shows "\<exists>c' j G S'. remat_instr D L cheap b (c, i, F, S) = Some (c', j, G, S') \<and> valid_pos G (b, j) \<and>
    remat_inv D M cheap F0 bs b (c', Suc j, G, S')"
proof -
  let ?MI = "instr_at F (b, i)"
  have next_inv: "remat_inv D M cheap F0 bs b (c', Suc j, G, S')"
    if "remat_inv D M cheap F0 bs b (c', j, G, S')" "valid_pos G (b, j)" "served D cheap (nextVReg F0) G S' (instr_at G (b, j))" for c' j G S'
    using that by (auto simp: remat_inv_def take_Suc_conv_app_nth valid_pos_def instr_at_def)
  show ?thesis
  proof (cases "getOpcode ?MI \<in> {INLINEASM, DBG_VALUE}")
    case True
    then show ?thesis using next_inv [OF inv s] s by (auto simp: remat_instr_def Let_def served_def)
  next
    case False
    let ?n = "length (operands ?MI)"
    let ?P = "\<lambda>k t. remat_inv D M cheap F0 bs b t \<and> (case t of (c, j, G, S) \<Rightarrow> valid_pos G (b, j) \<and>
        getOpcode (instr_at G (b, j)) = getOpcode ?MI \<and> length (operands (instr_at G (b, j))) = ?n \<and>
        (\<forall>j' < k. NumDefs D (getOpcode (instr_at G (b, j))) \<le> j' \<longrightarrow>
           served_operand D cheap (nextVReg F0) G S (operands (instr_at G (b, j)) ! j')))"
    have "\<exists>t. foldM (remat_operand D L cheap b) [0..<?n] (c, i, F, S) = Some t \<and> ?P ?n t"
    proof (rule foldM_upt [where P = ?P])
      show "?P 0 (c, i, F, S)" using inv s by simp
      fix k and t :: "bool \<times> nat \<times> MachineFn \<times> BitVector" assume k: "k < ?n" and P: "?P k t"
      obtain c j G S where t: "t = (c, j, G, S)" by (cases t)
      have inv': "remat_inv D M cheap F0 bs b (c, j, G, S)" and at: "valid_pos G (b, j)"
        "getOpcode (instr_at G (b, j)) = getOpcode ?MI" "length (operands (instr_at G (b, j))) = ?n"
        "\<forall>j' < k. NumDefs D (getOpcode (instr_at G (b, j))) \<le> j' \<longrightarrow> served_operand D cheap (nextVReg F0) G S (operands (instr_at G (b, j)) ! j')"
        using P by (simp_all add: t)
      have bs': "set bs \<subseteq> set (blockIds G)" using bs(2) inv' by (simp add: remat_inv_def refines_def)
      have k': "k < length (operands (instr_at G (b, j)))" using k at(3) by simp
      have real: "getOpcode (instr_at G (b, j)) \<notin> {INLINEASM, DBG_VALUE}" using False at(2) by simp
      show "\<exists>u. remat_operand D L cheap b k t = Some u \<and> ?P (Suc k) u"
        using remat_operand_step [OF L inv' at(1) bs(1) bs' k' at(4) real] at(2,3) unfolding t by auto
    qed
    then obtain c' j G S' where t: "remat_instr D L cheap b (c, i, F, S) = Some (c', j, G, S')" "?P ?n (c', j, G, S')"
      using False by (auto simp: remat_instr_def Let_def)
    have "served D cheap (nextVReg F0) G S' (instr_at G (b, j))"
      using t(2) by (auto simp: served_def uses_def in_set_conv_nth)
    then show ?thesis using next_inv t by auto
  qed
qed

lemma remat_block_step:
  assumes L: "intervals_ok D L" and inv: "remat_inv D M cheap F0 bs b (c, i, F, S)"
    and b: "b \<in> set (blockIds F0)" "b \<notin> set bs" "set bs \<subseteq> set (blockIds F0)"
  shows "\<exists>c' j G S'. remat_block D L cheap b (c, i, F, S) = Some (c', j, G, S') \<and>
    remat_inv D M cheap F0 (bs @ [b]) b' (c', 0, G, S')"
  using inv
proof (induction "left_in b (c, i, F, S)" arbitrary: c i F S rule: less_induct)
  case less
  have ids: "blockIds F = blockIds F0" using less.prems by (simp add: remat_inv_def refines_def)
  show ?case
  proof (cases "left_in b (c, i, F, S) = 0")
    case True
    then have "take i (insts F b) = insts F b" by (simp add: left_in_def)
    then have "remat_inv D M cheap F0 (bs @ [b]) b' (c, 0, F, S)" using less.prems by (auto simp: remat_inv_def)
    then show ?thesis using True by (simp add: remat_block.simps [of D L cheap b])
  next
    case False
    then have s: "valid_pos F (b, i)" using b(1) ids by (simp add: valid_pos_def left_in_def)
    obtain c' j G S' where step: "remat_instr D L cheap b (c, i, F, S) = Some (c', j, G, S')" "valid_pos G (b, j)"
        "remat_inv D M cheap F0 bs b (c', Suc j, G, S')"
      using remat_instr_step [OF L less.prems s b(2,3)] by blast
    have "left_in b (c', Suc j, G, S') < left_in b (c, i, F, S)"
      using left_in_remat_instr [OF step(1)] step(2) by (auto simp: left_in_def valid_pos_def)
    note IH = less.hyps [OF this step(3)]
    have "remat_block D L cheap b (c, i, F, S) = remat_block D L cheap b (c', Suc j, G, S')"
      using step(1) False by (subst remat_block.simps) (simp add: next_instr_def)
    then show ?thesis using IH by simp
  qed
qed

lemma rematerialize_blocks:
  assumes L: "intervals_ok D L" and bs: "set (bs @ cs) \<subseteq> set (blockIds F0)" "distinct (bs @ cs)"
    and inv: "remat_inv D M cheap F0 bs b' (c, 0, F, S)"
  shows "\<exists>c' G S'. foldM (\<lambda>b s. map_option (\<lambda>t. (fst t, snd (snd t))) (remat_block D L cheap b (fst s, 0, snd s))) cs (c, F, S) =
    Some (c', G, S') \<and> remat_inv D M cheap F0 (bs @ cs) b' (c', 0, G, S')"
  using bs inv
proof (induction cs arbitrary: bs c F S)
  case (Cons b cs)
  have b: "b \<in> set (blockIds F0)" "b \<notin> set bs" "set bs \<subseteq> set (blockIds F0)" using Cons.prems(1,2) by auto
  have "remat_inv D M cheap F0 bs b (c, 0, F, S)" using Cons.prems(3) by (simp add: remat_inv_def)
  from remat_block_step [OF L this b, of b'] obtain c' j G S' where
    step: "remat_block D L cheap b (c, 0, F, S) = Some (c', j, G, S')" "remat_inv D M cheap F0 (bs @ [b]) b' (c', 0, G, S')"
    by blast
  then show ?case using Cons.IH [where bs = "bs @ [b]" and c = c' and F = G and S = S'] Cons.prems(1,2) by auto
qed auto

text \<open>The pass ends, keeps the runs, and serves every instruction.\<close>

lemma rematerialize_total:
  assumes L: "intervals_ok D L" and F: "ssa_fn D F" "cheap_ok D M cheap F"
  shows "\<exists>c G S'. rematerialize D L cheap (F, S) = Some (c, G, S') \<and> refines D M F G \<and> ssa_fn D G \<and>
    (\<forall>b \<in> set (blockIds G). \<forall>I \<in> set (insts G b). served D cheap (nextVReg F) G S' I)"
proof -
  have "remat_inv D M cheap F [] 0 (False, 0, F, S)" using F by (simp add: remat_inv_def refines_refl)
  from rematerialize_blocks [OF L _ _ this, of "blockIds F"] ssa_fnD(1) [OF F(1)]
  obtain c G S' where run: "rematerialize D L cheap (F, S) = Some (c, G, S')"
      "remat_inv D M cheap F ([] @ blockIds F) 0 (c, 0, G, S')"
    by (auto simp: rematerialize_def)
  moreover have "blockIds G = blockIds F" using run(2) by (simp add: remat_inv_def refines_def)
  ultimately show ?thesis by (auto simp: remat_inv_def)
qed

end
