(* ===== verification/TVM_MoveCorrect.thy ===== *)
theory TVM_MoveCorrect
  imports TVM_MaterializeCorrect
begin

text \<open>
  Moving materialisable definitions keeps the runs of a function in SSA form without debug instructions;
  with one, the pass can move a definition below its use.
\<close>

section \<open>The only use\<close>

definition no_debug :: "MachineFn \<Rightarrow> bool" where
  "no_debug F \<longleftrightarrow> (\<forall>s. valid_pos F s \<longrightarrow> \<not> isDebugInstr (instr_at F s))"

definition sole_reader :: "MCInstrInfo \<Rightarrow> MachineFn \<Rightarrow> nat \<Rightarrow> Pos \<Rightarrow> bool" where
  "sole_reader D F r u \<longleftrightarrow> (\<forall>s. valid_pos F s \<longrightarrow> reads_reg D r (instr_at F s) \<longrightarrow> s = u)"

lemma one_kill_count: "one_kill val kill h us \<Longrightarrow> length (filter val us) + (if h then 1 else 0) = 1"
  by (induction us arbitrary: h) (fastforce split: if_splits)+

lemma sum_list_two:
  fixes g :: "'a \<Rightarrow> nat"
  assumes "distinct xs" "x \<in> set xs" "y \<in> set xs" "x \<noteq> y"
  shows "g x + g y \<le> sum_list (map g xs)"
proof -
  have "sum g {x, y} \<le> sum g (set xs)" by (rule sum_mono2) (use assms in auto)
  then show ?thesis using assms by (simp add: sum_list_distinct_conv_sum_set)
qed

lemma reads_operand:
  "reads_reg D r MI \<Longrightarrow> 0 < length (filter (\<lambda>opd. isReg opd \<and> getReg opd = r) (uses D MI))"
  by (auto simp: reads_reg_def filter_empty_conv)

lemma reads_site:
  assumes "valid_pos F s" "reads_reg D r (instr_at F s)"
  shows "s \<in> set (map (\<lambda>(b, i, k). (b, i)) (use_sites D F r))"
proof -
  obtain b i where s: "s = (b, i)" by (cases s)
  let ?MI = "instr_at F s"
  obtain opd where opd: "opd \<in> set (uses D ?MI)" "isReg opd" "getReg opd = r" "\<not> isDebugInstr ?MI"
    using assms(2) by (auto simp: reads_reg_def)
  then obtain j where j: "j < length (uses D ?MI)" "uses D ?MI ! j = opd" by (auto simp: in_set_conv_nth)
  have "(b, i, NumDefs D (getOpcode ?MI) + j) \<in> set (use_sites D F r)"
    using assms(1) opd j unfolding set_use_sites
    by (simp add: s valid_pos_def instr_at_def uses_def reg_operand_def getOperand_def less_diff_conv add.commute)
  then have "(b, i) \<in> (\<lambda>(b, i, k). (b, i)) ` set (use_sites D F r)" by (rule rev_image_eqI) simp
  then show ?thesis by (simp add: s)
qed

lemma HasOneUse_sole:
  assumes L: "intervals_ok D L" and F: "ssa_fn D F" and d: "d \<in> set (def_sites D F r)"
    and u: "valid_pos F u" "reads_reg D r (instr_at F u)" and one: "HasOneUse D L F r d"
  shows "sole_reader D F r u"
  unfolding sole_reader_def
proof (intro allI impI)
  fix s assume s: "valid_pos F s" "reads_reg D r (instr_at F s)"
  show "s = u"
  proof (cases "use_count D F r = 1")
    case True
    show ?thesis
    proof (rule ccontr)
      assume ne: "s \<noteq> u"
      let ?g = "\<lambda>s. length (filter (\<lambda>opd. isReg opd \<and> getReg opd = r) (uses D (instr_at F s)))"
      have "s \<in> set (concat (map (block_positions F) (blockIds F)))" "u \<in> set (concat (map (block_positions F) (blockIds F)))"
        using all_positions [of F] s(1) u(1) by blast+
      from sum_list_two [OF distinct_positions [OF ssa_fnD(1) [OF F]] this ne, of ?g]
      have "?g s + ?g u \<le> use_count D F r" by (simp add: use_count_positions reads_count_def)
      moreover have "0 < ?g s" "0 < ?g u" using reads_operand s(2) u(2) by blast+
      ultimately have "2 \<le> use_count D F r" by linarith
      then show False using True by simp
    qed
  next
    case False
    let ?us = "map (\<lambda>(b, i, k). (b, i)) (use_sites D F r)"
    have "length (filter (valueIn L F r d) ?us) = 1"
      using one False one_kill_count [of _ _ False] by (fastforce simp: HasOneUse_def)
    then obtain x where x: "filter (valueIn L F r d) ?us = [x]"
      by (cases "filter (valueIn L F r d) ?us") (simp_all del: filter_map)
    have val: "valueIn L F r d t" if "valid_pos F t" "reads_reg D r (instr_at F t)" for t
      using L [unfolded intervals_ok_def, THEN conjunct2, THEN conjunct2, rule_format, OF F d that] .
    have "t \<in> set (filter (valueIn L F r d) ?us)" if "valid_pos F t" "reads_reg D r (instr_at F t)" for t
      using reads_site [OF that] val [OF that] by simp
    from this [OF s] this [OF u] show ?thesis unfolding x by simp
  qed
qed

text \<open>A definition precedes its uses in the blocks that can be reached.\<close>

definition reachable_block :: "MachineFn \<Rightarrow> nat \<Rightarrow> bool" where
  "reachable_block F b \<longleftrightarrow> (\<exists>p. is_path F (p @ [b]))"

lemma reachable_first:
  assumes "reachable_block F b"
  obtains p where "is_path F (p @ [b])" "b \<notin> set p"
proof -
  obtain p where p: "is_path F (p @ [b])" using assms by (auto simp: reachable_block_def)
  obtain q ys where q: "p @ [b] = q @ b # ys" "b \<notin> set q" using split_list_first [of b "p @ [b]"] by auto
  have "is_path F ((q @ [b]) @ ys)" using p q(1) by simp
  then have "is_path F (q @ [b])" by (rule is_path_prefix) simp
  then show thesis using q(2) that by blast
qed

lemma def_before_use:
  assumes F: "ssa_fn D F" and d: "(b, j) \<in> set (def_sites D F r)" and b: "reachable_block F b"
    and m: "m < length (insts F b)" "reads_reg D r (instr_at F (b, m))"
  shows "j < m"
proof -
  obtain p where p: "is_path F (p @ [b])" "b \<notin> set p" by (rule reachable_first [OF b])
  have "[0..<length (insts F b)] = [0..<m] @ m # [Suc m..<length (insts F b)]"
    using m(1) upt_add_eq_append [of 0 m "length (insts F b) - m"] by (simp add: upt_conv_Cons)
  then have "trace F (p @ [b]) = (trace F p @ map (Pair b) [0..<m]) @ (b, m) # map (Pair b) [Suc m..<length (insts F b)]"
    by (simp add: trace_def block_positions_def)
  from def_passed [OF ssa_fnD(3,4) [OF F] d p(1) this m(2)] have "(b, j) \<in> set (trace F p @ map (Pair b) [0..<m])" .
  then show ?thesis using p(2) by (auto simp: set_trace)
qed

section \<open>Moving a definition\<close>

lemma splice_rewritten:
  assumes "dd < length (insts F b)" "p < length (insts F b)" "dd \<noteq> p"
  shows "rewritten F (\<lambda>t. if t = (b, dd) then [] else if t = (b, p) then [instr_at F (b, dd), instr_at F t] else [instr_at F t])
     (set_code b (splice_instr dd p (insts F b)) F)"
proof (rule block_rewritten)
  let ?B = "insts F b"
  let ?h = "\<lambda>j. if (b, j) = (b, dd) then [] else if (b, j) = (b, p) then [instr_at F (b, dd), instr_at F (b, j)] else [instr_at F (b, j)]"
  show "set_code b (splice_instr dd p ?B) F = set_code b (splice_instr dd p ?B) F" ..
  show "splice_instr dd p ?B = concat (map ?h [0..<length ?B])"
  proof (cases "dd < p")
    case True
    have "concat (map ?h [0..<length ?B]) = take dd ?B @ ?h dd @ drop (Suc dd) (take p ?B) @ ?h p @ drop (Suc p) ?B"
      by (rule concat_two [OF True assms(2)]) (simp add: instr_at_def)
    then show ?thesis using True assms(2) by (simp add: splice_instr_def instr_at_def Cons_nth_drop_Suc)
  next
    case False
    then have lt: "p < dd" using assms(3) by simp
    have "concat (map ?h [0..<length ?B]) = take p ?B @ ?h p @ drop (Suc p) (take dd ?B) @ ?h dd @ drop (Suc dd) ?B"
      by (rule concat_two [OF lt assms(1)]) (simp add: instr_at_def)
    moreover have "drop p (take dd ?B) = ?B ! p # drop (Suc p) (take dd ?B)"
      using lt assms(1) by (simp add: Cons_nth_drop_Suc [symmetric])
    ultimately show ?thesis using lt by (simp add: splice_instr_def instr_at_def)
  qed
qed auto

lemma splice_nth:
  assumes "dd < m" "p \<le> m" "m < length xs"
  shows "splice_instr dd p xs ! m = xs ! m" "length (splice_instr dd p xs) = length xs"
  using assms by (auto simp: splice_instr_def nth_append min_def nth_Cons intro!: arg_cong [where f = "nth xs"] split: nat.splits)

lemma move_keeps:
  assumes F: "ssa_fn D F" and d: "(b, dd) \<in> set (def_sites D F r)" and p: "p \<le> m" "p \<noteq> dd"
    and m: "valid_pos F (b, m)" "reads_reg D r (instr_at F (b, m))" "sole_reader D F r (b, m)"
    and const: "const_instr D M (instr_at F (b, dd))" and G: "G = set_code b (splice_instr dd p (insts F b)) F"
  shows "refines D M F G" "ssa_fn D G"
proof -
  let ?d = "(b, dd)" and ?Def = "instr_at F (b, dd)"
  define f where "f = (\<lambda>t. if t = ?d then [] else if t = (b, p) then [?Def, instr_at F t] else [instr_at F t])"
  have dv: "valid_pos F ?d" "sets_reg D r ?Def" using d by (simp_all add: set_def_sites)
  have lens: "dd < length (insts F b)" "p < length (insts F b)" "m < length (insts F b)" "b \<in> set (blockIds F)"
    using dv(1) m(1) p(1) by (simp_all add: valid_pos_def)
  have rw: "rewritten F f G" unfolding f_def G by (rule splice_rewritten [OF lens(1,2) p(2) [symmetric]])
  note ssa = ssa_fnD [OF F]
  obtain q v where q: "\<And>s t. instr_step D M ?Def s t \<longleftrightarrow> t = ((fst s)(q := v), snd s)"
      "\<And>x. sets_reg D x ?Def \<longleftrightarrow> x = q" "\<And>x. \<not> reads_reg D x ?Def"
    by (rule const_step [OF const]) (rule that; assumption)
  have qr: "q = r" using dv(2) q(2) by simp
  have md: "?d \<noteq> (b, m)" using m(2) q(3) by auto
  have other: "\<not> sets_reg D r (instr_at F t)" if "valid_pos F t" "t \<noteq> ?d" for t
    using ssa_site [OF ssa(3) that(1) dv(1) _ dv(2)] that(2) by blast
  show "refines D M F G"
  proof (rule rewritten_refines [OF rw, where J = "\<lambda>xs \<rho> \<rho>'. agree {r} \<rho>' \<rho> \<and> (?d \<in> set xs \<longrightarrow> \<rho> r = v) \<and>
      ((b, p) \<in> set xs \<longrightarrow> \<rho>' r = v)"])
    show "agree {r} \<rho> \<rho> \<and> (?d \<in> set [] \<longrightarrow> \<rho> r = v) \<and> ((b, p) \<in> set [] \<longrightarrow> \<rho> r = v)" for \<rho>
      by (simp add: agree_def)
    fix ps xs t ys \<rho> \<rho>' w \<sigma>' w'
    assume ps: "is_path F ps" "trace F ps = xs @ t # ys"
      and J: "agree {r} \<rho>' \<rho> \<and> (?d \<in> set xs \<longrightarrow> \<rho> r = v) \<and> ((b, p) \<in> set xs \<longrightarrow> \<rho>' r = v)"
      and run: "code_run D M (f t) (\<rho>', w) (\<sigma>', w')"
    have t: "valid_pos F t" using trace_valid [OF ps(1), of t] ps(2) by simp
    show "\<exists>\<sigma>. instr_step D M (instr_at F t) (\<rho>, w) (\<sigma>, w') \<and> agree {r} \<sigma>' \<sigma> \<and>
        (?d \<in> set (xs @ [t]) \<longrightarrow> \<sigma> r = v) \<and> ((b, p) \<in> set (xs @ [t]) \<longrightarrow> \<sigma>' r = v)"
    proof (cases "t = ?d")
      case True
      then show ?thesis using run J q(1) qr p(2) by (auto simp: f_def agree_def)
    next
      case ne: False
      define \<tau> where "\<tau> = (if t = (b, p) then \<rho>'(r := v) else \<rho>')"
      have step: "instr_step D M (instr_at F t) (\<tau>, w) (\<sigma>', w')"
        using run ne q(1) qr by (simp add: f_def \<tau>_def split: if_splits)
      have \<tau>: "agree {r} \<tau> \<rho>" "(b, p) \<in> set (xs @ [t]) \<longrightarrow> \<tau> r = v" using J by (auto simp: \<tau>_def agree_def)
      obtain \<sigma> where \<sigma>: "instr_step D M (instr_at F t) (\<rho>, w) (\<sigma>, w')" "agree {r} \<sigma>' \<sigma>"
      proof (cases "reads_reg D r (instr_at F t)")
        case False
        then show thesis
          using step_agree [of "{r}" "(\<tau>, w)" \<rho> D "instr_at F t" M "(\<sigma>', w')"] \<tau>(1) step that by auto
      next
        case True
        then have tm: "t = (b, m)" using m(3) [unfolded sole_reader_def, rule_format, OF t] by blast
        have "?d \<in> set xs" by (rule def_passed [OF ssa(3,4) d ps True])
        moreover have "(b, p) \<in> set (xs @ [t])"
        proof (cases "p = m")
          case False
          obtain p1 where "xs = trace F p1 @ map (Pair b) [0..<m]"
            using trace_split [OF ps(2) [unfolded tm]] by blast
          then show ?thesis using False p(1) by auto
        qed (simp add: tm)
        ultimately have "\<tau> r = \<rho> r" using J \<tau>(2) by simp
        then have "\<tau> = \<rho>" using \<tau>(1) by (auto simp: agree_def)
        then show thesis using step that [of \<sigma>'] by (simp add: agree_def)
      qed
      moreover have "\<sigma> r = \<rho> r" "\<sigma>' r = \<tau> r"
        using instr_step_keeps [OF \<sigma>(1) other [OF t ne]] instr_step_keeps [OF step other [OF t ne]] by simp_all
      ultimately show ?thesis using J \<tau>(2) ne by auto
    qed
  qed

  have f_from: "I = instr_at F t \<and> t \<noteq> ?d \<or> I = ?Def \<and> t = (b, p)" if "I \<in> set (f t)" for t I
    using that p(2) by (auto simp: f_def split: if_splits)
  have f_sets: "x = r \<and> t = (b, p) \<or> x \<noteq> r \<and> sets_reg D x (instr_at F t)"
    if "valid_pos F t" "I \<in> set (f t)" "sets_reg D x I" for x t I
    using f_from [OF that(2)] that(3) q(2) [of x] qr other [OF that(1)] by (cases "x = r") auto
  have no_def: "def_instrs D G x = []" if none: "def_instrs D F x = []" for x
  proof -
    have "def_sites D F x = []" using none by (simp add: def_instrs_sites)
    then have no: "\<not> sets_reg D x (instr_at F s)" if "valid_pos F s" for s
      using that set_def_sites [of s D F x] by simp
    have "\<not> sets_reg D x I" if "valid_pos F s" "I \<in> set (f s)" for s I
      using f_from [OF that(2)] no [OF that(1)] no [OF dv(1)] by auto
    then show ?thesis using rewritten_no_def [OF rw, of D x] by simp
  qed
  have "ssa D G"
  proof (rule rewritten_ssa [OF rw ssa(1)])
    show "length (filter (sets_reg D x) (f t)) \<le> 1" if "valid_pos F t" for t x
      using q(2) [of x] qr other [OF that] p(2) by (cases "x = r") (auto simp: f_def)
    fix s t x I J assume *: "valid_pos F s" "valid_pos F t" "I \<in> set (f s)" "J \<in> set (f t)" "sets_reg D x I" "sets_reg D x J"
    show "s = t"
      using f_sets [OF *(1,3,5)] f_sets [OF *(2,4,6)] ssa_site [OF ssa(3) *(1,2), of x] by auto
  qed
  moreover have "defined_first D G"
  proof (rule rewritten_defined_first [OF rw ssa(4)])
    fix c j pre I post x
    assume c: "c \<in> set (blockIds F)" "j < length (insts F c)" and I: "f (c, j) = pre @ I # post"
      and x: "reads_reg D x I" "def_instrs D G x \<noteq> []"
    have valid: "valid_pos F (c, j)" using c by (simp add: valid_pos_def)
    have in_f: "I \<in> set (f (c, j))" using I by simp
    have "I \<noteq> ?Def" using x(1) q(3) by blast
    then have at: "I = instr_at F (c, j)" "(c, j) \<noteq> ?d" using f_from [OF in_f] by auto
    show "(\<exists>I \<in> set (concat (map f (map (Pair c) [0..<j])) @ pre). sets_reg D x I) \<or>
        reads_reg D x (instr_at F (c, j)) \<and> def_instrs D F x \<noteq> [] \<and>
        (\<forall>s. valid_pos F s \<longrightarrow> sets_reg D x (instr_at F s) \<longrightarrow> (\<exists>I \<in> set (f s). sets_reg D x I))"
    proof (cases "x = r")
      case True
      then have cj: "c = b" "j = m" using m(3) valid x(1) at(1) by (auto simp: sole_reader_def)
      have "?Def \<in> set (concat (map f (map (Pair c) [0..<j])) @ pre)"
      proof (cases "p = m")
        case True
        then have "[?Def, instr_at F (b, m)] = pre @ I # post" using I cj p(2) by (simp add: f_def)
        then show ?thesis using \<open>I \<noteq> ?Def\<close> by (auto simp: Cons_eq_append_conv)
      next
        case False
        then have "p \<in> set [0..<m]" using p(1) by simp
        moreover have "?Def \<in> set (f (b, p))" using p(2) by (simp add: f_def)
        ultimately show ?thesis using cj by fastforce
      qed
      then show ?thesis using dv(2) True by blast
    next
      case False
      have keep: "\<exists>I \<in> set (f s). sets_reg D x I" if "sets_reg D x (instr_at F s)" for s
      proof -
        have "s \<noteq> ?d" using that q(2) [of x] qr False by auto
        then show ?thesis using that by (auto simp: f_def)
      qed
      moreover have "def_instrs D F x \<noteq> []" using no_def [of x] x(2) by blast
      ultimately show ?thesis using x(1) at(1) by simp
    qed
  qed
  moreover have "fresh_regs G"
  proof (rule rewritten_fresh [OF rw])
    fix s I opd assume *: "valid_pos F s" "I \<in> set (f s)" "opd \<in> set (operands I)" "isReg opd"
    then have "getReg opd < nextVReg F"
      using f_from [OF *(2)] fresh_reg [OF ssa(2) *(1), of opd] fresh_reg [OF ssa(2) dv(1), of opd] by auto
    then show "getReg opd < nextVReg G" by (simp add: G set_code_def)
  qed
  moreover have "undef_ok D G"
  proof (rule rewritten_undef_ok [OF rw])
    fix s I opd assume *: "valid_pos F s" "I \<in> set (f s)" "opd \<in> set (uses D I)" "isReg opd" "isUndef opd"
    obtain t where t: "valid_pos F t" "I = instr_at F t" using f_from [OF *(2)] *(1) dv(1) by blast
    then have "I \<in> set (insts F (fst t))" "fst t \<in> set (blockIds F)" by (simp_all add: valid_pos_def instr_at_def)
    then have "def_instrs D F (getReg opd) = []" using ssa(5) *(3-5) by (auto simp: undef_ok_def)
    then show "def_instrs D G (getReg opd) = []" by (rule no_def)
  qed
  moreover have "distinct (blockIds G)" using rw ssa(1) by (simp add: rewritten_def)
  ultimately show "ssa_fn D G" by (simp add: ssa_fn_def)
qed

section \<open>The pass\<close>

text \<open>
  The instructions that the pass may move are constants of the machine, as are the ones it inserts; the
  constants of the function have their value as operand 1.
\<close>

definition move_ok :: "MCInstrInfo \<Rightarrow> ('v, 'w) Machine \<Rightarrow> (Opcode \<Rightarrow> bool) \<Rightarrow> MachineFn \<Rightarrow> bool" where
  "move_ok D M remat F \<longleftrightarrow> no_debug F \<and>
     (\<forall>r v. const_instr D M (mk_instr CONST_I257 [reg r, MO_CImmediate v])) \<and>
     (\<forall>s. valid_pos F s \<longrightarrow> remat (getOpcode (instr_at F s)) \<longrightarrow> \<not> isArgument (instr_at F s) \<longrightarrow>
        const_instr D M (instr_at F s)) \<and>
     (\<forall>s. valid_pos F s \<longrightarrow> isConstInt (instr_at F s) \<longrightarrow>
        (\<exists>v. getOperand (instr_at F s) 1 = Some (MO_CImmediate v)))"

lemma move_okD:
  assumes "move_ok D M remat F"
  shows "valid_pos F s \<Longrightarrow> \<not> isDebugInstr (instr_at F s)"
    "const_instr D M (mk_instr CONST_I257 [reg r, MO_CImmediate v])"
    "\<lbrakk>valid_pos F s; remat (getOpcode (instr_at F s)); \<not> isArgument (instr_at F s)\<rbrakk> \<Longrightarrow> const_instr D M (instr_at F s)"
    "\<lbrakk>valid_pos F s; isConstInt (instr_at F s)\<rbrakk> \<Longrightarrow> \<exists>v. getOperand (instr_at F s) 1 = Some (MO_CImmediate v)"
  using assms unfolding move_ok_def no_debug_def by blast+

lemma move_ok_rewritten:
  assumes F: "move_ok D M remat F" and rw: "rewritten F f G"
    and f: "\<And>t I. \<lbrakk>valid_pos F t; I \<in> set (f t)\<rbrakk> \<Longrightarrow>
        (\<exists>s. valid_pos F s \<and> I = instr_at F s) \<or> (\<exists>r v. I = mk_instr CONST_I257 [reg r, MO_CImmediate v]) \<or>
        (\<exists>s k r. valid_pos F s \<and> I = set_operand k (reg r) (instr_at F s) \<and>
           NumDefs D (getOpcode (instr_at F s)) \<le> k \<and> k < length (operands (instr_at F s)) \<and>
           isReg (operands (instr_at F s) ! k))"
  shows "move_ok D M remat G"
proof -
  have all: "\<not> isDebugInstr (instr_at G u) \<and>
      (remat (getOpcode (instr_at G u)) \<longrightarrow> \<not> isArgument (instr_at G u) \<longrightarrow> const_instr D M (instr_at G u)) \<and>
      (isConstInt (instr_at G u) \<longrightarrow> (\<exists>v. getOperand (instr_at G u) 1 = Some (MO_CImmediate v)))"
    if u: "valid_pos G u" for u
  proof -
    obtain t where t: "valid_pos F t" "instr_at G u \<in> set (f t)" by (rule rewritten_instr [OF rw u])
    from f [OF t] consider (same) s where "valid_pos F s" "instr_at G u = instr_at F s"
      | (new) r v where "instr_at G u = mk_instr CONST_I257 [reg r, MO_CImmediate v]"
      | (use) s k r where "valid_pos F s" "instr_at G u = set_operand k (reg r) (instr_at F s)"
          "NumDefs D (getOpcode (instr_at F s)) \<le> k" "k < length (operands (instr_at F s))"
          "isReg (operands (instr_at F s) ! k)" by blast
    then show ?thesis
    proof cases
      case same
      then show ?thesis using move_okD [OF F] by simp
    next
      case new
      then show ?thesis using move_okD(2) [OF F, of r v]
        by (simp add: isDebugInstr_def isConstInt_def mk_instr_def getOperand_def)
    next
      case use
      let ?MI = "instr_at F s"
      have same: "getOpcode (instr_at G u) = getOpcode ?MI" "isDebugInstr (instr_at G u) = isDebugInstr ?MI"
          "isArgument (instr_at G u) = isArgument ?MI" "isConstInt (instr_at G u) = isConstInt ?MI"
        by (simp_all add: use(2) set_operand_def isDebugInstr_def isArgument_def isConstInt_def)
      have "operands ?MI ! k \<in> set (uses D ?MI)"
        using use(3,4) by (auto simp: uses_def in_set_conv_nth intro!: exI [of _ "k - NumDefs D (getOpcode ?MI)"])
      then have "\<not> const_instr D M ?MI" using use(5) by (auto simp: const_instr_def filter_empty_conv)
      then have "\<not> (remat (getOpcode ?MI) \<and> \<not> isArgument ?MI)" using move_okD(3) [OF F use(1)] by blast
      moreover have "getOperand (instr_at G u) 1 = Some (MO_CImmediate v)" if "getOperand ?MI 1 = Some (MO_CImmediate v)" for v
        using that use(5) by (cases "k = 1") (auto simp: use(2) set_operand_def getOperand_def split: if_splits)
      ultimately show ?thesis using move_okD(1,4) [OF F use(1)] same by metis
    qed
  qed
  show ?thesis
    unfolding move_ok_def no_debug_def using all move_okD(2) [OF F] by simp
qed

definition move_inv :: "MCInstrInfo \<Rightarrow> ('v, 'w) Machine \<Rightarrow> (Opcode \<Rightarrow> bool) \<Rightarrow> MachineFn \<Rightarrow> MachineFn \<Rightarrow> bool" where
  "move_inv D M remat F0 F \<longleftrightarrow> refines D M F0 F \<and> ssa_fn D F \<and> move_ok D M remat F"

text \<open>Between two operands of MI: InsertBefore is not behind it, and MI is the same instruction.\<close>

definition at_instr :: "nat \<Rightarrow> MachineInstr \<Rightarrow> nat \<Rightarrow> nat \<times> nat \<times> MachineFn \<Rightarrow> bool" where
  "at_instr b MI n = (\<lambda>(m, p, F). valid_pos F (b, m) \<and> p \<le> m \<and> getOpcode (instr_at F (b, m)) = getOpcode MI \<and>
     length (operands (instr_at F (b, m))) = length (operands MI) \<and> length (insts F b) - m = n)"

text \<open>What an edit for operand k of MI leaves alone.\<close>

definition frame :: "MCInstrInfo \<Rightarrow> nat \<Rightarrow> nat \<Rightarrow> MachineFn \<Rightarrow> nat \<Rightarrow> MachineFn \<Rightarrow> nat \<Rightarrow> bool" where
  "frame D b k F m G m' \<longleftrightarrow> (\<forall>c. c \<noteq> b \<longrightarrow> insts G c = insts F c) \<and>
     (\<forall>I \<in> set (take m' (insts G b)). I \<in> set (take m (insts F b)) \<or> filter isReg (uses D I) = []) \<and>
     (\<forall>j. j \<noteq> k \<longrightarrow> operands (instr_at G (b, m')) ! j = operands (instr_at F (b, m)) ! j)"

lemma frame_refl: "frame D b k F m F m"
  by (simp add: frame_def)

definition undef_use :: "MachineOperand \<Rightarrow> bool" where
  "undef_use opd \<longleftrightarrow> isReg opd \<and> isUndef opd"

lemma set_splice: "d < length xs \<Longrightarrow> set (splice_instr d p xs) \<subseteq> set xs"
  by (auto simp: splice_instr_def dest: in_set_takeD in_set_dropD)

lemma take_splice:
  assumes "d < m" "p \<le> m" "m < length xs"
  shows "take m (splice_instr d p xs) = splice_instr d p (take m xs)"
proof -
  have "take (m - p) (drop p xs) = drop p (take m xs)" by (simp add: take_drop assms)
  moreover have "take (m - d) (drop (d + 1) xs) = drop (d + 1) (take (m + 1) xs)" "take (m - (d + 1)) (drop (d + 1) xs) = drop (d + 1) (take m xs)"
    using assms by (simp_all add: take_drop)
  ultimately show ?thesis
    using assms by (simp add: splice_instr_def min_def take_Cons' Suc_diff_Suc)
qed

lemma set_take_splice:
  assumes "dd < m" "p \<le> m" "m < length xs"
  shows "set (take m (splice_instr dd p xs)) \<subseteq> set (take m xs)"
  using take_splice [OF assms] set_splice [of dd "take m xs" p] assms by simp

lemma reachable_refines: "refines D M F G \<Longrightarrow> reachable_block G b = reachable_block F b"
  by (simp add: reachable_block_def refines_def is_path_def)

lemma use_defined:
  assumes L: "intervals_ok D L" and F: "ssa_fn D F" and m: "valid_pos F (b, m)"
    and k: "NumDefs D (getOpcode (instr_at F (b, m))) \<le> k" "k < length (operands (instr_at F (b, m)))"
    and opd: "operands (instr_at F (b, m)) ! k = opd" "isReg opd" and d: "GetVRegDef D L F (getReg opd) (b, m) = Some d"
  shows "\<not> isUndef opd" "opd \<in> set (uses D (instr_at F (b, m)))" "d \<in> set (def_sites D F (getReg opd))"
proof -
  show used: "opd \<in> set (uses D (instr_at F (b, m)))"
    using k opd(1) by (auto simp: uses_def in_set_conv_nth intro!: exI [of _ "k - NumDefs D (getOpcode (instr_at F (b, m)))"])
  show d': "d \<in> set (def_sites D F (getReg opd))"
    using GetVRegDef_sites(1) [OF L ssa_fnD(3) [OF F], of "getReg opd" "(b, m)"] d by (auto split: list.splits)
  then have "def_instrs D F (getReg opd) \<noteq> []" by (auto simp: def_instrs_sites)
  moreover have "instr_at F (b, m) \<in> set (insts F b)" "b \<in> set (blockIds F)"
    using m by (simp_all add: valid_pos_def instr_at_def)
  ultimately show "\<not> isUndef opd" using ssa_fnD(5) [OF F] used opd(2) by (auto simp: undef_ok_def)
qed

lemma move_def_step:
  assumes L: "intervals_ok D L" and inv: "move_inv D M remat F0 F" and b: "reachable_block F0 b"
    and at: "at_instr b MI n (m, p, F)" and k: "NumDefs D (getOpcode MI) \<le> k" "k < length (operands MI)"
    and opd: "operands (instr_at F (b, m)) ! k = opd" "isReg opd" and d: "GetVRegDef D L F (getReg opd) (b, m) = Some d"
    and move: "HasOneUse D L F (getReg opd) d" "fst d = b" "remat (getOpcode (instr_at F d))" "\<not> isArgument (instr_at F d)"
    and G: "G = set_code b (splice_instr (snd d) p (insts F b)) F"
  shows "snd d < m" "move_inv D M remat F0 G" "at_instr b MI n (m, if snd d < p then p - 1 else p, G)"
    "frame D b k F m G m" "\<not> undef_use (operands (instr_at G (b, m)) ! k)"
proof -
  let ?r = "getReg opd" and ?MI = "instr_at F (b, m)"
  have F: "refines D M F0 F" "ssa_fn D F" "move_ok D M remat F" using inv by (simp_all add: move_inv_def)
  note ssa = ssa_fnD [OF F(2)]
  have m: "valid_pos F (b, m)" "p \<le> m" "getOpcode ?MI = getOpcode MI" "length (operands ?MI) = length (operands MI)"
      "length (insts F b) - m = n"
    using at by (simp_all add: at_instr_def)
  have len: "m < length (insts F b)" "b \<in> set (blockIds F)" using m(1) by (simp_all add: valid_pos_def)
  have k': "NumDefs D (getOpcode ?MI) \<le> k" "k < length (operands ?MI)" using k m(3,4) by simp_all
  note use = use_defined [OF L F(2) m(1) k' opd d]
  have site: "(b, snd d) \<in> set (def_sites D F ?r)" using use(3) unfolding move(2) [symmetric] by simp
  then have dv: "valid_pos F (b, snd d)" by (simp add: set_def_sites)
  have reads: "reads_reg D ?r ?MI" using move_okD(1) [OF F(3) m(1)] use(1,2) opd(2) by (auto simp: reads_reg_def)
  have reach: "reachable_block F b" using b reachable_refines [OF F(1)] by simp
  show lt: "snd d < m" by (rule def_before_use [OF F(2) site reach len(1) reads])
  have sole: "sole_reader D F ?r (b, m)"
    using HasOneUse_sole [OF L F(2) site m(1) reads] move(1,2) by (cases d) simp
  have const: "const_instr D M (instr_at F (b, snd d))"
    using move_okD(3) [OF F(3) dv] move(2-4) by (cases d) simp
  show "move_inv D M remat F0 G"
  proof (cases "p = snd d")
    case True
    then have "G = F" by (simp add: G splice_instr_def set_code_def)
    then show ?thesis using inv by simp
  next
    case False
    note keeps = move_keeps [OF F(2) site m(2) False m(1) reads sole const G]
    have lens: "snd d < length (insts F b)" "p < length (insts F b)" using m(2) len(1) dv by (simp_all add: valid_pos_def)
    have "move_ok D M remat G"
      unfolding G
    proof (rule move_ok_rewritten [OF F(3) splice_rewritten [OF lens False [symmetric]]], rule disjI1)
      fix t I assume "valid_pos F t" and "I \<in> set (if t = (b, snd d) then [] else if t = (b, p)
          then [instr_at F (b, snd d), instr_at F t] else [instr_at F t])"
      then have "I = instr_at F t \<or> I = instr_at F (b, snd d)" by (simp split: if_splits) blast
      then show "\<exists>s. valid_pos F s \<and> I = instr_at F s" using \<open>valid_pos F t\<close> dv by blast
    qed
    then show ?thesis using keeps refines_trans [OF F(1)] by (simp add: move_inv_def)
  qed
  have at': "instr_at G (b, m) = ?MI" "length (insts G b) = length (insts F b)" "blockIds G = blockIds F"
    using splice_nth [OF lt m(2) len(1)] by (simp_all add: G instr_at_def set_code_def)
  then show "frame D b k F m G m" "\<not> undef_use (operands (instr_at G (b, m)) ! k)"
    using set_take_splice [OF lt m(2) len(1)] use(1) opd(1) by (auto simp: frame_def undef_use_def G set_code_def)
  show "at_instr b MI n (m, if snd d < p then p - 1 else p, G)"
    using at' m len by (auto simp: at_instr_def valid_pos_def)
qed

lemma define_undef_step:
  assumes inv: "move_inv D M remat F0 F" and at: "at_instr b MI n (m, p, F)"
    and k: "NumDefs D (getOpcode MI) \<le> k" "k < length (operands MI)"
    and opd: "operands (instr_at F (b, m)) ! k = opd" "isReg opd" "isUndef opd"
    and G: "G = insert_at_pos (b, p) (mk_instr CONST_I257 [reg (nextVReg F), MO_CImmediate x])
        (update_operand (b, m) k (reg (nextVReg F)) (F \<lparr> nextVReg := nextVReg F + 1 \<rparr>))"
  shows "move_inv D M remat F0 G" "at_instr b MI n (m + 1, p, G)" "frame D b k F m G (m + 1)"
    "\<not> undef_use (operands (instr_at G (b, m + 1)) ! k)"
proof -
  let ?New = "nextVReg F" and ?MI = "instr_at F (b, m)"
  let ?C = "mk_instr CONST_I257 [reg ?New, MO_CImmediate x]"
  have F: "refines D M F0 F" "ssa_fn D F" "move_ok D M remat F" using inv by (simp_all add: move_inv_def)
  have m: "valid_pos F (b, m)" "p \<le> m" "getOpcode ?MI = getOpcode MI" "length (operands ?MI) = length (operands MI)"
      "length (insts F b) - m = n"
    using at by (simp_all add: at_instr_def)
  have len: "m < length (insts F b)" "b \<in> set (blockIds F)" using m(1) by (simp_all add: valid_pos_def)
  have const: "const_instr D M ?C" by (rule move_okD(2) [OF F(3)])
  obtain q v where q: "reg_operand ?C 0 = Some q" "\<And>s t. instr_step D M ?C s t \<longleftrightarrow> t = ((fst s)(q := v), snd s)"
      "\<And>y. sets_reg D y ?C \<longleftrightarrow> y = q"
    by (rule const_step [OF const]) (rule that; assumption)
  have qn: "q = ?New" using q(1) by (simp add: reg_operand_def getOperand_def mk_instr_def reg_def)
  have k': "NumDefs D (getOpcode ?MI) \<le> k" "k < length (operands ?MI)" using k m(3,4) by simp_all
  have uses: "filter isReg (uses D ?C) = []" using const by (simp add: const_instr_def)
  have ops: "getReg o' \<le> ?New" if "o' \<in> set (operands ?C)" "isReg o'" for o'
    using that by (auto simp: mk_instr_def reg_def)
  have new: "isReg (reg ?New)" "getReg (reg ?New) = ?New" "\<not> isUndef (reg ?New)" by (simp_all add: reg_def)
  have keeps: "refines D M F G" "ssa_fn D G"
    by (rule insert_for_use [OF F(2) m(1) refl m(2) k' opd(1,2) q(2,3) [unfolded qn] uses ops new disjI1 [OF opd(3)] G];
        assumption)+
  have rw: "rewritten F (\<lambda>t. (if t = (b, p) then [?C] else []) @
      [if t = (b, m) then set_operand k (reg ?New) (instr_at F t) else instr_at F t]) G"
    using inserted_rewritten [OF m(2), of "F \<lparr> nextVReg := ?New + 1 \<rparr>" b ?C k "reg ?New"] len(1)
    by (simp add: rewritten_def G instr_at_def block_positions_def cong: if_cong)
  have "move_ok D M remat G"
  proof (rule move_ok_rewritten [OF F(3) rw])
    fix t I assume t: "valid_pos F t"
      and "I \<in> set ((if t = (b, p) then [?C] else []) @
        [if t = (b, m) then set_operand k (reg ?New) (instr_at F t) else instr_at F t])"
    then consider "I = ?C" | "I = set_operand k (reg ?New) ?MI" | "I = instr_at F t" by (auto split: if_splits)
    then show "(\<exists>s. valid_pos F s \<and> I = instr_at F s) \<or> (\<exists>r v. I = mk_instr CONST_I257 [reg r, MO_CImmediate v]) \<or>
        (\<exists>s k r. valid_pos F s \<and> I = set_operand k (reg r) (instr_at F s) \<and>
           NumDefs D (getOpcode (instr_at F s)) \<le> k \<and> k < length (operands (instr_at F s)) \<and>
           isReg (operands (instr_at F s) ! k))"
      using t m(1) k' opd(1,2) by cases blast+
  qed
  then show "move_inv D M remat F0 G" using keeps refines_trans [OF F(1)] by (simp add: move_inv_def)
  let ?H = "update_operand (b, m) k (reg ?New) (F \<lparr> nextVReg := ?New + 1 \<rparr>)"
  have H: "valid_pos ?H (b, m)" "instr_at ?H (b, m) = set_operand k (reg ?New) ?MI" "p < length (insts ?H b)"
    using len m(2) by (simp_all add: valid_pos_def update_operand_def set_code_def instr_at_def)
  from inserted_at(3) [OF H(3) H(1), of "(b, m + 1)" ?C] m(2)
  have at': "valid_pos G (b, m + 1)" "instr_at G (b, m + 1) = set_operand k (reg ?New) ?MI"
    using H(2) by (simp_all add: G)
  then show "\<not> undef_use (operands (instr_at G (b, m + 1)) ! k)"
    using k'(2) new(3) by (simp add: set_operand_def undef_use_def)
  have "take (Suc m) (insts G b) = take p (insts F b) @ ?C # drop p (take m (insts F b))"
    using m(2) len(1)
    by (simp add: G insert_at_pos_def update_operand_def set_code_def insert_instr_def Suc_diff_le take_drop)
  then have "set (take (Suc m) (insts G b)) \<subseteq> insert ?C (set (take m (insts F b)))"
    using m(2) by (auto dest: in_set_dropD set_take_subset_set_take [THEN subsetD, rotated])
  then show "frame D b k F m G (m + 1)"
    using uses at'(2) by (auto simp: frame_def set_operand_def G insert_at_pos_def update_operand_def set_code_def)
  have "length (insts G b) = length (insts F b) + 1" by (simp add: G)
  with at' show "at_instr b MI n (m + 1, p, G)"
    using m set_operand_facts(4,7) [OF k', of "reg ?New"] opd(1,2) new(1) by (simp add: at_instr_def)
qed

lemma move_operand_step:
  assumes L: "intervals_ok D L" and inv: "move_inv D M remat F0 F" and b: "reachable_block F0 b"
    and at: "at_instr b MI n (m, p, F)" and k: "NumDefs D (getOpcode MI) \<le> k" "k < length (operands MI)"
  shows "\<exists>c' m' p' G. move_operand D L remat b k (c, m, p, F) = Some (c', m', p', G) \<and> move_inv D M remat F0 G \<and>
    at_instr b MI n (m', p', G) \<and> frame D b k F m G m' \<and> \<not> undef_use (operands (instr_at G (b, m')) ! k)"
proof -
  let ?opd = "operands (instr_at F (b, m)) ! k"
  show ?thesis
  proof (cases "isReg ?opd")
    case False
    then show ?thesis using inv at by (simp add: move_operand_def frame_refl undef_use_def)
  next
    case True
    show ?thesis
    proof (cases "GetVRegDef D L F (getReg ?opd) (b, m)")
      case (Some d)
      let ?moves = "HasOneUse D L F (getReg ?opd) d \<and> fst d = b \<and> remat (getOpcode (instr_at F d)) \<and>
          \<not> isArgument (instr_at F d) \<and> \<not> isArgument (instr_at F (b, p))"
      show ?thesis
      proof (cases ?moves)
        case False
        have F: "ssa_fn D F" and m: "valid_pos F (b, m)" using inv at by (simp_all add: move_inv_def at_instr_def)
        have "\<not> undef_use ?opd"
          using use_defined(1) [OF L F m _ _ refl True Some] at k by (simp add: at_instr_def undef_use_def)
        moreover have "move_operand D L remat b k (c, m, p, F) = Some (True, m, p, F)"
          using True Some False by (auto simp: move_operand_def Let_def)
        ultimately show ?thesis using inv at frame_refl by auto
      next
        case moves: True
        then have moves': "HasOneUse D L F (getReg ?opd) d" "fst d = b" "remat (getOpcode (instr_at F d))"
            "\<not> isArgument (instr_at F d)" by simp_all
        note step = move_def_step [OF L inv b at k refl True Some moves' refl]
        show ?thesis using step moves True Some by (auto simp: move_operand_def Let_def)
      qed
    next
      case None
      show ?thesis
      proof (cases "isUndef ?opd")
        case False
        then show ?thesis using inv at True None by (simp add: move_operand_def frame_refl undef_use_def)
      next
        case undef: True
        have p: "valid_pos F (b, p)" using at by (simp add: at_instr_def valid_pos_def)
        have "\<exists>x. (if isConstInt (instr_at F (b, p))
            then do { opd \<leftarrow> getOperand (instr_at F (b, p)) 1; getCImm opd } else Some 0) = Some x"
          using move_okD(4) [OF _ p, of D M remat] inv by (fastforce simp: move_inv_def)
        then obtain x where x: "(if isConstInt (instr_at F (b, p))
            then do { opd \<leftarrow> getOperand (instr_at F (b, p)) 1; getCImm opd } else Some 0) = Some x" ..
        note step = define_undef_step [OF inv at k refl True undef refl, of x]
        show ?thesis using step x True None undef
          by (auto simp: move_operand_def Let_def createVirtualRegister_def split del: if_split)
      qed
    qed
  qed
qed

text \<open>An instruction is settled when no operand of it is undefined; argument instructions are left alone.\<close>

definition settled :: "MCInstrInfo \<Rightarrow> MachineInstr \<Rightarrow> bool" where
  "settled D MI \<longleftrightarrow> isArgument MI \<or> isArgumentNum MI \<or> (\<forall>opd \<in> set (uses D MI). \<not> undef_use opd)"

definition settled_upto :: "MCInstrInfo \<Rightarrow> nat set \<Rightarrow> nat \<Rightarrow> MachineFn \<Rightarrow> nat \<Rightarrow> bool" where
  "settled_upto D bs b F m \<longleftrightarrow> (\<forall>a \<in> bs - {b}. \<forall>I \<in> set (insts F a). settled D I) \<and>
     (\<forall>I \<in> set (take m (insts F b)). settled D I)"

lemma settled_frame:
  assumes "frame D b k F m G m'" "settled_upto D bs b F m"
  shows "settled_upto D bs b G m'"
proof -
  have "settled D I" if "filter isReg (uses D I) = []" for I
    using that by (auto simp: settled_def undef_use_def filter_empty_conv)
  then show ?thesis using assms by (auto simp: frame_def settled_upto_def)
qed

lemma settled_next:
  "\<lbrakk>settled_upto D bs b F m; valid_pos F (b, m); settled D (instr_at F (b, m))\<rbrakk> \<Longrightarrow> settled_upto D bs b F (m + 1)"
  by (auto simp: settled_upto_def take_Suc_conv_app_nth valid_pos_def instr_at_def)

lemma foldM_todo:
  assumes "P xs s" "\<And>x xs s. P (x # xs) s \<Longrightarrow> \<exists>t. f x s = Some t \<and> P xs t"
  shows "\<exists>t. foldM f xs s = Some t \<and> P [] t"
  using assms(1)
proof (induction xs arbitrary: s)
  case (Cons x xs)
  then obtain t where "f x s = Some t" "P xs t" using assms(2) by blast
  then show ?case using Cons.IH [of t] by simp
qed simp

lemma processInstruction_MM_step:
  assumes L: "intervals_ok D L" and inv: "move_inv D M remat F0 F" and b: "reachable_block F0 b" and m: "valid_pos F (b, m)"
    and S: "settled_upto D bs b F m"
  shows "\<exists>c' m' G. processInstruction_MM D L remat b m F = Some (c', m', G) \<and> move_inv D M remat F0 G \<and>
    valid_pos G (b, m') \<and> getOpcode (instr_at G (b, m')) = getOpcode (instr_at F (b, m)) \<and>
    length (insts G b) - m' = length (insts F b) - m \<and> settled_upto D bs b G (m' + 1)"
proof -
  let ?MI = "instr_at F (b, m)"
  let ?n = "length (insts F b) - m" and ?N = "NumDefs D (getOpcode (instr_at F (b, m)))"
    and ?len = "length (operands (instr_at F (b, m)))"
  let ?P = "\<lambda>ks (c :: bool, m, p, G). move_inv D M remat F0 G \<and> at_instr b ?MI ?n (m, p, G) \<and> settled_upto D bs b G m \<and>
      set ks \<subseteq> {?N..<?len} \<and> (\<forall>j \<in> {?N..<?len} - set ks. \<not> undef_use (operands (instr_at G (b, m)) ! j))"
  have "\<exists>t. foldM (move_operand D L remat b) (rev [?N..<?len]) (False, m, m, F) = Some t \<and> ?P [] t"
  proof (rule foldM_todo [where P = ?P])
    show "?P (rev [?N..<?len]) (False, m, m, F)" using inv m S by (simp add: at_instr_def)
    fix k ks and t :: "bool \<times> nat \<times> nat \<times> MachineFn" assume P: "?P (k # ks) t"
    obtain c j p G where t: "t = (c, j, p, G)" by (cases t)
    have inv': "move_inv D M remat F0 G" and at: "at_instr b ?MI ?n (j, p, G)" and k: "?N \<le> k" "k < ?len"
      and S': "settled_upto D bs b G j" using P by (simp_all add: t)
    obtain c' m' p' H where step: "move_operand D L remat b k (c, j, p, G) = Some (c', m', p', H)" "move_inv D M remat F0 H"
        "at_instr b ?MI ?n (m', p', H)" "frame D b k G j H m'" "\<not> undef_use (operands (instr_at H (b, m')) ! k)"
      using move_operand_step [OF L inv' b at k, of c] by blast
    have "\<not> undef_use (operands (instr_at H (b, m')) ! i)" if "i \<in> {?N..<?len} - set ks" for i
    proof (cases "i = k")
      case False
      then have "\<not> undef_use (operands (instr_at G (b, j)) ! i)" using P that by (simp add: t)
      then show ?thesis using step(4) False by (simp add: frame_def)
    qed (use step(5) in simp)
    then show "\<exists>u. move_operand D L remat b k t = Some u \<and> ?P ks u"
      using step settled_frame [OF step(4) S'] P by (auto simp: t)
  qed
  then obtain c' m' p' G where run: "foldM (move_operand D L remat b) (rev [?N..<?len]) (False, m, m, F) = Some (c', m', p', G)"
      "?P [] (c', m', p', G)" by auto
  then have at: "valid_pos G (b, m')" "getOpcode (instr_at G (b, m')) = getOpcode ?MI"
      "length (operands (instr_at G (b, m'))) = ?len" by (simp_all add: at_instr_def)
  have "settled D (instr_at G (b, m'))"
    using run(2) at(2,3) by (auto simp: settled_def uses_def in_set_conv_nth)
  then have "settled_upto D bs b G (m' + 1)" using run(2) at(1) settled_next by auto
  then show ?thesis using run by (auto simp: processInstruction_MM_def at_instr_def)
qed

text \<open>Every block ends, and the function that results has the runs of the one given.\<close>

lemma move_block_step:
  assumes L: "intervals_ok D L" and inv: "move_inv D M remat F0 F" and b: "reachable_block F0 b"
    and S: "settled_upto D bs b F m"
  shows "\<exists>c' m' G. move_block D L remat b (c, m, F) = Some (c', m', G) \<and> move_inv D M remat F0 G \<and>
    (\<forall>a \<in> insert b bs. \<forall>I \<in> set (insts G a). settled D I)"
  using inv S
proof (induction "length (insts F b) - m" arbitrary: c m F rule: less_induct)
  case less
  show ?case
  proof (cases "length (insts F b) \<le> m")
    case True
    then show ?thesis using less.prems by (auto simp: move_block.simps [of D L remat b] settled_upto_def)
  next
    case False
    have "b \<in> set (blockIds F0)" using b by (auto simp: reachable_block_def is_path_def)
    then have m: "valid_pos F (b, m)" using False less.prems by (simp add: valid_pos_def move_inv_def refines_def)
    show ?thesis
    proof (cases "isArgument (instr_at F (b, m)) \<or> isArgumentNum (instr_at F (b, m))")
      case True
      have "move_block D L remat b (c, m, F) = move_block D L remat b (c, m + 1, F)"
        using True False by (subst move_block.simps) (simp add: next_instr_def)
      moreover have "length (insts F b) - (m + 1) < length (insts F b) - m" using False by simp
      moreover have "settled_upto D bs b F (m + 1)"
        by (rule settled_next [OF less.prems(2) m]) (use True in \<open>auto simp: settled_def\<close>)
      ultimately show ?thesis using less.hyps [OF _ less.prems(1), of "m + 1" c] by simp
    next
      case arg: False
      obtain c' m' G where step: "processInstruction_MM D L remat b m F = Some (c', m', G)" "move_inv D M remat F0 G"
          "valid_pos G (b, m')" "getOpcode (instr_at G (b, m')) = getOpcode (instr_at F (b, m))"
          "length (insts G b) - m' = length (insts F b) - m" "settled_upto D bs b G (m' + 1)"
        using processInstruction_MM_step [OF L less.prems(1) b m less.prems(2)] by blast
      have "\<not> isArgument (instr_at G (b, m'))" using arg step(4) by (simp add: isArgument_def)
      then have "move_block D L remat b (c, m, F) = move_block D L remat b (c \<or> c', m' + 1, G)"
        using step(1) False arg by (subst move_block.simps) (simp add: next_instr_def)
      moreover have "length (insts G b) - (m' + 1) < length (insts F b) - m"
        using step(3,5) by (auto simp: valid_pos_def)
      ultimately show ?thesis using less.hyps [OF _ step(2), of "m' + 1" "c \<or> c'"] step(6) by simp
    qed
  qed
qed

lemma moveMaterializable_total:
  assumes L: "intervals_ok D L" and F: "ssa_fn D F" and M: "move_ok D M remat F"
    and rpo: "\<And>b. b \<in> set rpo \<Longrightarrow> reachable_block F b"
  shows "\<exists>c G. moveMaterializable D L remat rpo F = Some (c, G) \<and> refines D M F G \<and> ssa_fn D G \<and>
    (\<forall>b \<in> set rpo. \<forall>I \<in> set (insts G b). settled D I)"
proof -
  let ?f = "\<lambda>b s. map_option (\<lambda>t. (fst t, snd (snd t))) (move_block D L remat b (fst s, 0, snd s))"
  let ?P = "\<lambda>bs (s :: bool \<times> MachineFn). move_inv D M remat F (snd s) \<and> set bs \<subseteq> set rpo \<and>
      (\<exists>as. set rpo = as \<union> set bs \<and> (\<forall>a \<in> as. \<forall>I \<in> set (insts (snd s) a). settled D I))"
  have "\<exists>t. foldM ?f rpo (False, F) = Some t \<and> ?P [] t"
  proof (rule foldM_todo [where P = ?P])
    show "?P rpo (False, F)" using F M by (simp add: move_inv_def refines_refl exI [of _ "{}"])
    fix b bs and s :: "bool \<times> MachineFn" assume P: "?P (b # bs) s"
    then have inv: "move_inv D M remat F (snd s)" and b: "b \<in> set rpo" "set bs \<subseteq> set rpo" by simp_all
    from P obtain as where as: "set rpo = as \<union> set (b # bs)" "\<forall>a \<in> as. \<forall>I \<in> set (insts (snd s) a). settled D I" by blast
    have "settled_upto D as b (snd s) 0" using as(2) by (auto simp: settled_upto_def)
    from move_block_step [OF L inv rpo [OF b(1)] this, of "fst s"] obtain c' m' G where
      step: "move_block D L remat b (fst s, 0, snd s) = Some (c', m', G)" "move_inv D M remat F G"
        "\<forall>a \<in> insert b as. \<forall>I \<in> set (insts G a). settled D I" by blast
    have "set rpo = insert b as \<union> set bs" using as(1) by simp
    then show "\<exists>t. ?f b s = Some t \<and> ?P bs t"
      using step b(2) by (intro exI [of _ "(c', G)"] conjI exI [of _ "insert b as"]) simp_all
  qed
  then obtain t where "foldM ?f rpo (False, F) = Some t" "?P [] t" by blast
  then show ?thesis by (cases t) (simp add: moveMaterializable_def move_inv_def)
qed

end
