(* ===== verification/TVM_Roads.thy ===== *)
theory TVM_Roads
  imports TVM_Machine
begin

text \<open>
  TVMStackModel::prepareRoads: the sides of the basic blocks (entry and exit) are partitioned into
  roads, so that the two ends of every control-flow edge lie on one road. Blocks are numbered; a road
  number 0 means that the side has none yet.
\<close>

section \<open>The model\<close>

record CFG =
  successors :: "nat \<Rightarrow> nat list"
  predecessors :: "nat \<Rightarrow> nat list"

record Roads =
  roadBegin :: "nat list"
  roadEnd :: "nat list"
  queueThisRoad :: "nat list"
  queueNextRoads :: "nat list"

definition succ_step :: "nat \<Rightarrow> nat \<Rightarrow> Roads \<Rightarrow> Roads option" where
  "succ_step endRoad Succ st = do {
     check (Succ < length (roadBegin st)); check (Succ < length (roadEnd st));
     let beginRoad = roadBegin st ! Succ;
     check (beginRoad = endRoad \<or> beginRoad = 0);
     Some (if beginRoad = 0
           then st \<lparr> roadBegin := (roadBegin st)[Succ := endRoad],
                     queueThisRoad := queueThisRoad st @ [Succ],
                     queueNextRoads := (if roadEnd st ! Succ = 0 then queueNextRoads st @ [Succ]
                                        else queueNextRoads st) \<rparr>
           else st) }"

definition processSuccessors :: "CFG \<Rightarrow> nat \<Rightarrow> Roads \<Rightarrow> Roads option" where
  "processSuccessors G CurBB st = do {
     let endRoad = roadEnd st ! CurBB;
     check (endRoad \<noteq> 0);
     foldM (succ_step endRoad) (successors G CurBB) st }"

definition pred_step :: "nat \<Rightarrow> nat \<Rightarrow> Roads \<Rightarrow> Roads option" where
  "pred_step beginRoad Pred st = do {
     check (Pred < length (roadEnd st)); check (Pred < length (roadBegin st));
     let endRoad = roadEnd st ! Pred;
     check (beginRoad = endRoad \<or> endRoad = 0);
     Some (if endRoad = 0
           then st \<lparr> roadEnd := (roadEnd st)[Pred := beginRoad],
                     queueThisRoad := queueThisRoad st @ [Pred],
                     queueNextRoads := (if roadBegin st ! Pred = 0 then queueNextRoads st @ [Pred]
                                        else queueNextRoads st) \<rparr>
           else st) }"

definition processPredecessors :: "CFG \<Rightarrow> nat \<Rightarrow> Roads \<Rightarrow> Roads option" where
  "processPredecessors G CurBB st = do {
     let beginRoad = roadBegin st ! CurBB;
     check (beginRoad \<noteq> 0);
     foldM (pred_step beginRoad) (predecessors G CurBB) st }"

text \<open>One turn of the inner loop, with the front of the queue taken off.\<close>

definition road_step :: "CFG \<Rightarrow> nat \<Rightarrow> nat \<Rightarrow> Roads \<Rightarrow> Roads option" where
  "road_step G curRoad CurBB st = do {
     check (CurBB < length (roadBegin st)); check (CurBB < length (roadEnd st));
     st1 \<leftarrow> (if roadBegin st ! CurBB = curRoad then processPredecessors G CurBB st else Some st);
     if roadEnd st1 ! CurBB = curRoad then processSuccessors G CurBB st1 else Some st1 }"

partial_function (option) drain_road :: "CFG \<Rightarrow> nat \<Rightarrow> Roads \<Rightarrow> Roads option" where
  "drain_road G curRoad st =
     (case queueThisRoad st of
        [] \<Rightarrow> Some st
      | CurBB # rest \<Rightarrow> do {
          st1 \<leftarrow> road_step G curRoad CurBB (st \<lparr> queueThisRoad := rest \<rparr>);
          drain_road G curRoad st1 })"

text \<open>The second inner loop: the first block with one side left gets the new road there.\<close>

fun pick_next :: "nat \<Rightarrow> nat list \<Rightarrow> Roads \<Rightarrow> Roads option" where
  "pick_next curRoad [] st = Some (st \<lparr> queueNextRoads := [] \<rparr>)"
| "pick_next curRoad (CurBB # rest) st = do {
     check (CurBB < length (roadBegin st)); check (CurBB < length (roadEnd st));
     if roadBegin st ! CurBB \<noteq> 0 \<and> roadEnd st ! CurBB \<noteq> 0 then pick_next curRoad rest st
     else do {
       check (\<not> (roadBegin st ! CurBB = 0 \<and> roadEnd st ! CurBB = 0));
       Some (st \<lparr> roadBegin := (if roadBegin st ! CurBB = 0 then (roadBegin st)[CurBB := curRoad]
                                else roadBegin st),
                  roadEnd := (if roadEnd st ! CurBB = 0 then (roadEnd st)[CurBB := curRoad]
                              else roadEnd st),
                  queueNextRoads := rest,
                  queueThisRoad := queueThisRoad st @ [CurBB] \<rparr>) } }"

partial_function (option) roads_loop :: "CFG \<Rightarrow> nat \<Rightarrow> Roads \<Rightarrow> (nat \<times> Roads) option" where
  "roads_loop G curRoad st = do {
     st1 \<leftarrow> drain_road G curRoad st;
     st2 \<leftarrow> pick_next (curRoad + 1) (queueNextRoads st1) st1;
     if queueThisRoad st2 = [] then Some (curRoad + 1, st2)
     else roads_loop G (curRoad + 1) st2 }"

declare drain_road.simps [code] roads_loop.simps [code]

text \<open>MaxRoads and the roads, for n blocks of which FirstBB is the entry.\<close>

definition prepareRoads :: "CFG \<Rightarrow> nat \<Rightarrow> nat \<Rightarrow> (nat \<times> Roads) option" where
  "prepareRoads G n FirstBB = do {
     check (FirstBB < n);
     roads_loop G 1 \<lparr> roadBegin = replicate n 0, roadEnd = (replicate n 0)[FirstBB := 1],
                      queueThisRoad = [FirstBB], queueNextRoads = [] \<rparr> }"

section \<open>The invariant\<close>

text \<open>The blocks of a function know their neighbours on both sides.\<close>

definition cfg_ok :: "CFG \<Rightarrow> nat \<Rightarrow> bool" where
  "cfg_ok G n \<longleftrightarrow> (\<forall>b < n. (\<forall>s \<in> set (successors G b). s < n \<and> b \<in> set (predecessors G s)) \<and>
     (\<forall>p \<in> set (predecessors G b). p < n \<and> b \<in> set (successors G p)))"

definition edge :: "CFG \<Rightarrow> nat \<Rightarrow> nat \<Rightarrow> nat \<Rightarrow> bool" where
  "edge G n b s \<longleftrightarrow> b < n \<and> s < n \<and> s \<in> set (successors G b)"

text \<open>
  The two sides of an edge agree, or one of them has none yet, the other lies on the current road
  and its block is still to be processed: it is queued, or it is the current block cur with ps and
  ss the neighbours left to visit.
\<close>

definition edge_ok :: "nat \<Rightarrow> nat \<Rightarrow> nat set \<Rightarrow> nat set \<Rightarrow> Roads \<Rightarrow> nat \<Rightarrow> nat \<Rightarrow> bool" where
  "edge_ok cr cur ps ss st b s \<longleftrightarrow>
     roadEnd st ! b = roadBegin st ! s \<or>
     (roadEnd st ! b = cr \<and> roadBegin st ! s = 0 \<and>
        (b \<in> set (queueThisRoad st) \<or> (b = cur \<and> s \<in> ss))) \<or>
     (roadBegin st ! s = cr \<and> roadEnd st ! b = 0 \<and>
        (s \<in> set (queueThisRoad st) \<or> (s = cur \<and> b \<in> ps)))"

definition edges_ok :: "CFG \<Rightarrow> nat \<Rightarrow> nat \<Rightarrow> nat \<Rightarrow> nat set \<Rightarrow> nat set \<Rightarrow> Roads \<Rightarrow> bool" where
  "edges_ok G n cr cur ps ss st \<longleftrightarrow> (\<forall>b s. edge G n b s \<longrightarrow> edge_ok cr cur ps ss st b s)"

lemma edges_okI: "(\<And>b s. edge G n b s \<Longrightarrow> edge_ok cr cur ps ss st b s) \<Longrightarrow> edges_ok G n cr cur ps ss st"
  by (simp add: edges_ok_def)

lemma edges_okD: "edges_ok G n cr cur ps ss st \<Longrightarrow> edge G n b s \<Longrightarrow> edge_ok cr cur ps ss st b s"
  by (simp add: edges_ok_def)

text \<open>The bookkeeping of the queues; FirstBB is the one block that is never queued for its entry.\<close>

definition queues_ok :: "nat \<Rightarrow> nat \<Rightarrow> Roads \<Rightarrow> bool" where
  "queues_ok n First st \<longleftrightarrow>
     length (roadBegin st) = n \<and> length (roadEnd st) = n \<and>
     set (queueThisRoad st) \<subseteq> {..<n} \<and> set (queueNextRoads st) \<subseteq> {..<n} \<and>
     roadEnd st ! First \<noteq> 0 \<and>
     (\<forall>b \<in> set (queueNextRoads st). roadBegin st ! b \<noteq> 0 \<or> roadEnd st ! b \<noteq> 0) \<and>
     (\<forall>b < n. b \<noteq> First \<longrightarrow> (roadBegin st ! b = 0) \<noteq> (roadEnd st ! b = 0) \<longrightarrow>
        b \<in> set (queueNextRoads st))"

definition zeros :: "Roads \<Rightarrow> nat" where
  "zeros st = count_list (roadBegin st) 0 + count_list (roadEnd st) 0"

lemma count_list_update:
  "i < length xs \<Longrightarrow> xs ! i = x \<Longrightarrow> y \<noteq> x \<Longrightarrow> count_list xs x = Suc (count_list (xs[i := y]) x)"
proof (induction xs arbitrary: i)
  case (Cons a xs)
  then show ?case by (cases i) auto
qed simp

lemma pred_step_ok:
  assumes inv: "edges_ok G n cr cur (insert p ps) ss st" "queues_ok n First st"
    and "cr \<noteq> 0" "cur < n" "edge G n p cur" "roadBegin st ! cur = cr"
  shows "\<exists>st'. pred_step cr p st = Some st' \<and> edges_ok G n cr cur ps ss st' \<and> queues_ok n First st' \<and>
     roadBegin st' = roadBegin st \<and>
     zeros st' + length (queueThisRoad st') = zeros st + length (queueThisRoad st)"
proof -
  have p: "p < n" using assms(5) by (simp add: edge_def)
  have len: "length (roadBegin st) = n" "length (roadEnd st) = n"
    using inv(2) by (simp_all add: queues_ok_def)
  have "roadEnd st ! p = cr \<or> roadEnd st ! p = 0"
    using edges_okD [OF inv(1) assms(5)] assms(6) by (auto simp: edge_ok_def)
  then show ?thesis
  proof
    assume a: "roadEnd st ! p = cr"
    then have "pred_step cr p st = Some st" using p len assms(3) by (simp add: pred_step_def)
    moreover have "edges_ok G n cr cur ps ss st"
    proof (rule edges_okI)
      fix b t assume "edge G n b t"
      from edges_okD [OF inv(1) this] a assms(3) show "edge_ok cr cur ps ss st b t"
        by (auto simp: edge_ok_def)
    qed
    ultimately show ?thesis using inv(2) by blast
  next
    assume a: "roadEnd st ! p = 0"
    define st' where "st' = st \<lparr> roadEnd := (roadEnd st)[p := cr],
       queueThisRoad := queueThisRoad st @ [p],
       queueNextRoads := (if roadBegin st ! p = 0 then queueNextRoads st @ [p] else queueNextRoads st) \<rparr>"
    have "pred_step cr p st = Some st'" using a p len by (simp add: pred_step_def st'_def)
    moreover have "edges_ok G n cr cur ps ss st'"
    proof (rule edges_okI)
      fix b s assume e: "edge G n b s"
      then have "b < n" by (simp add: edge_def)
      with edges_okD [OF inv(1) e] a len show "edge_ok cr cur ps ss st' b s"
        by (cases "b = p") (auto simp: edge_ok_def st'_def)
    qed
    moreover have "queues_ok n First st'"
      using inv(2) p assms(3) by (auto simp: queues_ok_def st'_def nth_list_update)
    moreover have "zeros st' + length (queueThisRoad st') = zeros st + length (queueThisRoad st)"
      using count_list_update [of p "roadEnd st" 0 cr] a p len assms(3) by (simp add: zeros_def st'_def)
    moreover have "roadBegin st' = roadBegin st" by (simp add: st'_def)
    ultimately show ?thesis by blast
  qed
qed

lemma succ_step_ok:
  assumes inv: "edges_ok G n cr cur ps (insert s ss) st" "queues_ok n First st"
    and "cr \<noteq> 0" "cur < n" "edge G n cur s" "roadEnd st ! cur = cr"
  shows "\<exists>st'. succ_step cr s st = Some st' \<and> edges_ok G n cr cur ps ss st' \<and> queues_ok n First st' \<and>
     roadEnd st' = roadEnd st \<and>
     zeros st' + length (queueThisRoad st') = zeros st + length (queueThisRoad st)"
proof -
  have s: "s < n" using assms(5) by (simp add: edge_def)
  have len: "length (roadBegin st) = n" "length (roadEnd st) = n"
    using inv(2) by (simp_all add: queues_ok_def)
  have "roadBegin st ! s = cr \<or> roadBegin st ! s = 0"
    using edges_okD [OF inv(1) assms(5)] assms(6) by (auto simp: edge_ok_def)
  then show ?thesis
  proof
    assume a: "roadBegin st ! s = cr"
    then have "succ_step cr s st = Some st" using s len assms(3) by (simp add: succ_step_def)
    moreover have "edges_ok G n cr cur ps ss st"
    proof (rule edges_okI)
      fix b t assume "edge G n b t"
      from edges_okD [OF inv(1) this] a assms(3) show "edge_ok cr cur ps ss st b t"
        by (auto simp: edge_ok_def)
    qed
    ultimately show ?thesis using inv(2) by blast
  next
    assume a: "roadBegin st ! s = 0"
    define st' where "st' = st \<lparr> roadBegin := (roadBegin st)[s := cr],
       queueThisRoad := queueThisRoad st @ [s],
       queueNextRoads := (if roadEnd st ! s = 0 then queueNextRoads st @ [s] else queueNextRoads st) \<rparr>"
    have "succ_step cr s st = Some st'" using a s len by (simp add: succ_step_def st'_def)
    moreover have "edges_ok G n cr cur ps ss st'"
    proof (rule edges_okI)
      fix b t assume e: "edge G n b t"
      then have "t < n" by (simp add: edge_def)
      with edges_okD [OF inv(1) e] a len show "edge_ok cr cur ps ss st' b t"
        by (cases "t = s") (auto simp: edge_ok_def st'_def)
    qed
    moreover have "queues_ok n First st'"
      using inv(2) s assms(3) by (auto simp: queues_ok_def st'_def nth_list_update)
    moreover have "zeros st' + length (queueThisRoad st') = zeros st + length (queueThisRoad st)"
      using count_list_update [of s "roadBegin st" 0 cr] a s len assms(3) by (simp add: zeros_def st'_def)
    moreover have "roadEnd st' = roadEnd st" by (simp add: st'_def)
    ultimately show ?thesis by blast
  qed
qed

lemma pred_steps_ok:
  assumes "edges_ok G n cr cur (set ps) ss st" "queues_ok n First st"
    and "cr \<noteq> 0" "cur < n" "\<forall>p \<in> set ps. edge G n p cur" "roadBegin st ! cur = cr"
  shows "\<exists>st'. foldM (pred_step cr) ps st = Some st' \<and> edges_ok G n cr cur {} ss st' \<and>
     queues_ok n First st' \<and>
     zeros st' + length (queueThisRoad st') = zeros st + length (queueThisRoad st)"
  using assms
proof (induction ps arbitrary: st)
  case (Cons p ps)
  obtain st1 where st1: "pred_step cr p st = Some st1" "edges_ok G n cr cur (set ps) ss st1"
      "queues_ok n First st1" "roadBegin st1 = roadBegin st"
      "zeros st1 + length (queueThisRoad st1) = zeros st + length (queueThisRoad st)"
    using pred_step_ok [of G n cr cur p "set ps" ss st First] Cons.prems by auto
  have "roadBegin st1 ! cur = cr" using st1(4) Cons.prems(6) by simp
  with Cons.IH [OF st1(2,3) Cons.prems(3,4)] Cons.prems(5) st1(1,5) show ?case by auto
qed simp

lemma succ_steps_ok:
  assumes "edges_ok G n cr cur {} (set ss) st" "queues_ok n First st"
    and "cr \<noteq> 0" "cur < n" "\<forall>s \<in> set ss. edge G n cur s" "roadEnd st ! cur = cr"
  shows "\<exists>st'. foldM (succ_step cr) ss st = Some st' \<and> edges_ok G n cr cur {} {} st' \<and>
     queues_ok n First st' \<and>
     zeros st' + length (queueThisRoad st') = zeros st + length (queueThisRoad st)"
  using assms
proof (induction ss arbitrary: st)
  case (Cons s ss)
  obtain st1 where st1: "succ_step cr s st = Some st1" "edges_ok G n cr cur {} (set ss) st1"
      "queues_ok n First st1" "roadEnd st1 = roadEnd st"
      "zeros st1 + length (queueThisRoad st1) = zeros st + length (queueThisRoad st)"
    using succ_step_ok [of G n cr cur "{}" s "set ss" st First] Cons.prems by auto
  have "roadEnd st1 ! cur = cr" using st1(4) Cons.prems(6) by simp
  with Cons.IH [OF st1(2,3) Cons.prems(3,4)] Cons.prems(5) st1(1,5) show ?case by auto
qed simp

section \<open>The loops\<close>

definition road_inv :: "CFG \<Rightarrow> nat \<Rightarrow> nat \<Rightarrow> nat \<Rightarrow> Roads \<Rightarrow> bool" where
  "road_inv G n First cr st \<longleftrightarrow> edges_ok G n cr 0 {} {} st \<and> queues_ok n First st"

lemma edges_ok_cur: "edges_ok G n cr cur {} {} st = edges_ok G n cr cur' {} {} st"
  by (simp add: edges_ok_def edge_ok_def)

lemma road_step_ok:
  assumes "cfg_ok G n" "road_inv G n First cr st" "cr \<noteq> 0" "queueThisRoad st = cur # rest"
  shows "\<exists>st'. road_step G cr cur (st \<lparr> queueThisRoad := rest \<rparr>) = Some st' \<and>
     road_inv G n First cr st' \<and>
     zeros st' + length (queueThisRoad st') < zeros st + length (queueThisRoad st)"
proof -
  let ?st = "st \<lparr> queueThisRoad := rest \<rparr>"
  have q: "queues_ok n First ?st" "cur < n" "length (roadBegin st) = n" "length (roadEnd st) = n"
  proof -
    have "queues_ok n First st" using assms(2) by (simp add: road_inv_def)
    with assms(4) show "queues_ok n First ?st" "cur < n" "length (roadBegin st) = n"
      "length (roadEnd st) = n" unfolding queues_ok_def by simp_all
  qed
  have e0: "edges_ok G n cr 0 {} {} st" using assms(2) by (simp add: road_inv_def)
  have e: "edges_ok G n cr cur (set (predecessors G cur)) (set (successors G cur)) ?st"
  proof (rule edges_okI)
    fix b s assume bs: "edge G n b s"
    then have "b \<in> set (predecessors G s)" "s \<in> set (successors G b)"
      using assms(1) unfolding edge_def cfg_ok_def by blast+
    with edges_okD [OF e0 bs] assms(4)
    show "edge_ok cr cur (set (predecessors G cur)) (set (successors G cur)) ?st b s"
      by (auto simp: edge_ok_def)
  qed
  have P: "\<forall>p \<in> set (predecessors G cur). edge G n p cur"
    and S: "\<forall>s \<in> set (successors G cur). edge G n cur s"
    using assms(1) q(2) unfolding cfg_ok_def edge_def by blast+
  obtain st1 where st1: "(if roadBegin ?st ! cur = cr then processPredecessors G cur ?st else Some ?st) = Some st1"
      "edges_ok G n cr cur {} (set (successors G cur)) st1" "queues_ok n First st1"
      "zeros st1 + length (queueThisRoad st1) = zeros ?st + length rest"
  proof (cases "roadBegin ?st ! cur = cr")
    case True
    with pred_steps_ok [OF e q(1) assms(3) q(2) P True] that assms(3) show ?thesis
      by (auto simp: processPredecessors_def)
  next
    case False
    have "edges_ok G n cr cur {} (set (successors G cur)) ?st"
    proof (rule edges_okI)
      fix b s assume "edge G n b s"
      from edges_okD [OF e this] False
      show "edge_ok cr cur {} (set (successors G cur)) ?st b s" by (auto simp: edge_ok_def)
    qed
    with False that q(1) show ?thesis by auto
  qed
  have "\<exists>st2. (if roadEnd st1 ! cur = cr then processSuccessors G cur st1 else Some st1) = Some st2 \<and>
      edges_ok G n cr cur {} {} st2 \<and> queues_ok n First st2 \<and>
      zeros st2 + length (queueThisRoad st2) = zeros st1 + length (queueThisRoad st1)"
  proof (cases "roadEnd st1 ! cur = cr")
    case True
    with succ_steps_ok [OF st1(2,3) assms(3) q(2) S True] assms(3) show ?thesis
      by (auto simp: processSuccessors_def)
  next
    case False
    have "edges_ok G n cr cur {} {} st1"
    proof (rule edges_okI)
      fix b s assume "edge G n b s"
      from edges_okD [OF st1(2) this] False show "edge_ok cr cur {} {} st1 b s"
        by (auto simp: edge_ok_def)
    qed
    with False st1(3) show ?thesis by auto
  qed
  then obtain st2 where st2:
      "(if roadEnd st1 ! cur = cr then processSuccessors G cur st1 else Some st1) = Some st2"
      "edges_ok G n cr cur {} {} st2" "queues_ok n First st2"
      "zeros st2 + length (queueThisRoad st2) = zeros st1 + length (queueThisRoad st1)" by blast
  have "road_step G cr cur ?st = Some st2"
    using st1(1) st2(1) q by (simp add: road_step_def)
  moreover have "zeros ?st = zeros st" by (simp add: zeros_def)
  ultimately show ?thesis
    using st1(4) st2(2-4) assms(4) edges_ok_cur [of G n cr cur st2 0] by (auto simp: road_inv_def)
qed

lemma drain_road_ok:
  assumes "cfg_ok G n" "road_inv G n First cr st" "cr \<noteq> 0"
  shows "\<exists>st'. drain_road G cr st = Some st' \<and> road_inv G n First cr st' \<and> queueThisRoad st' = [] \<and>
     zeros st' \<le> zeros st + length (queueThisRoad st) \<and>
     (queueThisRoad st \<noteq> [] \<longrightarrow> zeros st' < zeros st + length (queueThisRoad st))"
  using assms(2)
proof (induction "zeros st + length (queueThisRoad st)" arbitrary: st rule: less_induct)
  case less
  show ?case
  proof (cases "queueThisRoad st")
    case Nil
    with less.prems show ?thesis by (subst drain_road.simps) simp
  next
    case (Cons cur rest)
    obtain st1 where st1: "road_step G cr cur (st \<lparr> queueThisRoad := rest \<rparr>) = Some st1"
        "road_inv G n First cr st1"
        "zeros st1 + length (queueThisRoad st1) < zeros st + length (queueThisRoad st)"
      using road_step_ok [OF assms(1) less.prems assms(3) Cons] by blast
    obtain st2 where "drain_road G cr st1 = Some st2" "road_inv G n First cr st2"
        "queueThisRoad st2 = []" "zeros st2 \<le> zeros st1 + length (queueThisRoad st1)"
      using less.hyps [OF st1(3,2)] by blast
    with st1(1,3) Cons show ?thesis by (subst drain_road.simps) simp
  qed
qed

text \<open>With an empty queue all edges agree; the chosen block starts a road of its own.\<close>

lemma pick_next_ok:
  assumes "road_inv G n First cr st" "queueThisRoad st = []" "queueNextRoads st = skip @ nx"
    "\<forall>b \<in> set skip. roadBegin st ! b \<noteq> 0 \<and> roadEnd st ! b \<noteq> 0"
  shows "\<exists>st'. pick_next (cr + 1) nx st = Some st' \<and> road_inv G n First (cr + 1) st' \<and>
     (queueThisRoad st' = [] \<and> queueNextRoads st' = [] \<or> zeros st' < zeros st \<and> length (queueThisRoad st') = 1)"
  using assms(3,4)
proof (induction nx arbitrary: skip)
  case Nil
  have q: "queues_ok n First st" "queueNextRoads st = skip"
    using assms(1) Nil by (simp_all add: road_inv_def)
  then have "\<forall>b < n. b \<noteq> First \<longrightarrow> (roadBegin st ! b = 0) = (roadEnd st ! b = 0)"
    using Nil(2) unfolding queues_ok_def by metis
  then have "road_inv G n First (cr + 1) (st \<lparr> queueNextRoads := [] \<rparr>)"
    using assms(1,2) q by (auto simp: road_inv_def edges_ok_def edge_ok_def queues_ok_def)
  with assms(2) show ?case by simp
next
  case (Cons cur nx)
  have len: "length (roadBegin st) = n" "length (roadEnd st) = n" "cur < n"
    and one: "roadBegin st ! cur \<noteq> 0 \<or> roadEnd st ! cur \<noteq> 0"
    using assms(1) Cons.prems(1) by (auto simp: road_inv_def queues_ok_def)
  show ?case
  proof (cases "roadBegin st ! cur \<noteq> 0 \<and> roadEnd st ! cur \<noteq> 0")
    case True
    with Cons.IH [of "skip @ [cur]"] Cons.prems len show ?thesis by auto
  next
    case False
    define st' where "st' = st \<lparr> roadBegin := (if roadBegin st ! cur = 0 then (roadBegin st)[cur := cr + 1]
          else roadBegin st),
        roadEnd := (if roadEnd st ! cur = 0 then (roadEnd st)[cur := cr + 1] else roadEnd st),
        queueNextRoads := nx, queueThisRoad := [cur] \<rparr>"
    have "pick_next (cr + 1) (cur # nx) st = Some st'"
      using False one len assms(2) by (auto simp: st'_def)
    moreover have agree: "roadEnd st ! b = roadBegin st ! s" if "edge G n b s" for b s
      using assms(1,2) that by (auto simp: road_inv_def edges_ok_def edge_ok_def)
    have "edges_ok G n (cr + 1) 0 {} {} st'"
    proof (rule edges_okI)
      fix b s assume e: "edge G n b s"
      then have "b < n" "s < n" by (simp_all add: edge_def)
      with agree [OF e] False one len show "edge_ok (cr + 1) 0 {} {} st' b s"
        by (auto simp: edge_ok_def st'_def nth_list_update)
    qed
    moreover have "queues_ok n First st'"
    proof -
      have q: "queues_ok n First st" using assms(1) by (simp add: road_inv_def)
      then have "set nx \<subseteq> {..<n}" "roadEnd st ! First \<noteq> 0"
        "\<forall>b \<in> set nx. roadBegin st ! b \<noteq> 0 \<or> roadEnd st ! b \<noteq> 0"
        unfolding queues_ok_def Cons.prems(1) by auto
      moreover have "b \<in> set nx"
        if "b < n" "b \<noteq> First" "b \<noteq> cur" "(roadBegin st ! b = 0) \<noteq> (roadEnd st ! b = 0)" for b
      proof -
        have "b \<in> set (queueNextRoads st)" using q that(1,2,4) unfolding queues_ok_def by blast
        then show ?thesis using Cons.prems that(3,4) by auto
      qed
      ultimately show ?thesis
        using len one False unfolding queues_ok_def st'_def
        by (cases "roadBegin st ! cur = 0") (auto simp: nth_list_update)
    qed
    moreover have "zeros st' < zeros st"
      using count_list_update [of cur "roadEnd st" 0 "cr + 1"]
        count_list_update [of cur "roadBegin st" 0 "cr + 1"] False one len
      by (auto simp: zeros_def st'_def)
    ultimately show ?thesis by (auto simp: road_inv_def st'_def)
  qed
qed

lemma roads_loop_ok:
  assumes "cfg_ok G n" "road_inv G n First cr st" "cr \<noteq> 0" "queueThisRoad st \<noteq> []"
  shows "\<exists>mx st'. roads_loop G cr st = Some (mx, st') \<and> road_inv G n First mx st' \<and>
     queueThisRoad st' = [] \<and> queueNextRoads st' = []"
  using assms(2-4)
proof (induction "zeros st + length (queueThisRoad st)" arbitrary: cr st rule: less_induct)
  case less
  obtain st1 where st1: "drain_road G cr st = Some st1" "road_inv G n First cr st1"
      "queueThisRoad st1 = []" "zeros st1 < zeros st + length (queueThisRoad st)"
    using drain_road_ok [OF assms(1) less.prems(1,2)] less.prems(3) by blast
  obtain st2 where st2: "pick_next (cr + 1) (queueNextRoads st1) st1 = Some st2"
      "road_inv G n First (cr + 1) st2"
      "queueThisRoad st2 = [] \<and> queueNextRoads st2 = [] \<or>
       zeros st2 < zeros st1 \<and> length (queueThisRoad st2) = 1"
    using pick_next_ok [OF st1(2,3), of "[]"] by auto
  show ?case
  proof (cases "queueThisRoad st2 = []")
    case True
    with st1(1) st2 show ?thesis by (subst roads_loop.simps) auto
  next
    case False
    have "zeros st2 + length (queueThisRoad st2) < zeros st + length (queueThisRoad st)"
      using st2(3) st1(4) False by auto
    from less.hyps [OF this st2(2) _ False] st1(1) st2(1) False show ?thesis
      by (subst roads_loop.simps) auto
  qed
qed

text \<open>The result: no assertion fails, the search ends, and every edge lies on one road.\<close>

inductive reachable :: "CFG \<Rightarrow> nat \<Rightarrow> nat \<Rightarrow> bool" for G First where
  entry: "reachable G First First"
| follow: "reachable G First b \<Longrightarrow> s \<in> set (successors G b) \<Longrightarrow> reachable G First s"

lemma prepareRoads_correct:
  assumes "cfg_ok G n" "First < n"
  shows "\<exists>mx st. prepareRoads G n First = Some (mx, st) \<and>
     (\<forall>b s. edge G n b s \<longrightarrow> roadEnd st ! b = roadBegin st ! s) \<and>
     (\<forall>b. reachable G First b \<longrightarrow> b < n \<and> roadEnd st ! b \<noteq> 0 \<and>
        (b \<noteq> First \<longrightarrow> roadBegin st ! b \<noteq> 0))"
proof -
  let ?st0 = "\<lparr> roadBegin = replicate n 0, roadEnd = (replicate n 0)[First := 1],
     queueThisRoad = [First], queueNextRoads = [] \<rparr>"
  have "edges_ok G n 1 0 {} {} ?st0"
  proof (rule edges_okI)
    fix b s assume "edge G n b s"
    then show "edge_ok 1 0 {} {} ?st0 b s"
      using assms(2) by (cases "b = First") (auto simp: edge_ok_def edge_def)
  qed
  moreover have "queues_ok n First ?st0" using assms(2) by (auto simp: queues_ok_def nth_list_update)
  ultimately have "road_inv G n First 1 ?st0" by (simp add: road_inv_def)
  from roads_loop_ok [OF assms(1) this] obtain mx st where st: "roads_loop G 1 ?st0 = Some (mx, st)"
      "road_inv G n First mx st" "queueThisRoad st = []" "queueNextRoads st = []" by auto
  have q: "queues_ok n First st" using st(2) by (simp add: road_inv_def)
  have agree: "roadEnd st ! b = roadBegin st ! s" if "edge G n b s" for b s
    using st(2,3) that by (auto simp: road_inv_def edges_ok_def edge_ok_def)
  have both: "(roadBegin st ! b = 0) = (roadEnd st ! b = 0)" if "b < n" "b \<noteq> First" for b
    using q st(4) that unfolding queues_ok_def by (metis empty_iff empty_set)
  have "b < n \<and> roadEnd st ! b \<noteq> 0 \<and> (b \<noteq> First \<longrightarrow> roadBegin st ! b \<noteq> 0)"
    if "reachable G First b" for b
    using that
  proof induction
    case entry
    then show ?case using assms(2) q by (simp add: queues_ok_def)
  next
    case (follow b s)
    then have "s < n" using assms(1) unfolding cfg_ok_def by blast
    with follow have "roadBegin st ! s \<noteq> 0" using agree [of b s] by (simp add: edge_def)
    with both [of s] \<open>s < n\<close> show ?case using q by (cases "s = First") (auto simp: queues_ok_def)
  qed
  with st(1) agree assms(2) show ?thesis by (auto simp: prepareRoads_def)
qed

end
