(* ===== verification/TVM_StackModel.thy ===== *)
theory TVM_StackModel
  imports TVM_InstrGen TVM_Roads
begin

text \<open>
  The pass TVMStackModel (TVMStackModel.cpp): block infos, road patterns, the stack a single
  instruction needs, the model of its execution, its rewriting to S-form, and the traversal of the
  function. The traversal order, the live intervals and the instruction descriptions are parameters.
\<close>

section \<open>State\<close>

text \<open>TVMStackBlockInfo.h.\<close>

record TVMStackBlockInfo =
  FixedBegin :: "Stack option"
  CalculatedEnd :: "Stack option"
  FixedEnd :: "Stack option"
  RoadBegin :: nat
  RoadEnd :: nat

type_synonym BBInfos = "nat \<Rightarrow> TVMStackBlockInfo"

definition fixedBegin :: "TVMStackBlockInfo \<Rightarrow> Stack option" where
  "fixedBegin info = do { s \<leftarrow> FixedBegin info; Some s }"

definition fixedEnd :: "TVMStackBlockInfo \<Rightarrow> Stack option" where
  "fixedEnd info = do { s \<leftarrow> FixedEnd info; Some s }"

definition isFixedEnd :: "TVMStackBlockInfo \<Rightarrow> bool" where
  "isFixedEnd info \<longleftrightarrow> FixedEnd info \<noteq> None"

text \<open>What the pass reads and never changes.\<close>

record ModelContext =
  Desc :: MCInstrInfo
  LIS :: LiveIntervals
  Graph :: CFG
  NumBlocks :: nat
  NumVirtRegs :: nat

section \<open>Live registers of a block\<close>

definition index2VirtReg :: "nat \<Rightarrow> nat" where
  "index2VirtReg i = 2 ^ 31 + i"

definition gatherBlockLiveIns :: "ModelContext \<Rightarrow> nat \<Rightarrow> nat list \<Rightarrow> nat list" where
  "gatherBlockLiveIns C MBB vregs =
     fold (\<lambda>i vs. let Reg = index2VirtReg i in
             if hasInterval (LIS C) Reg
             then (if isLiveInToMBB (LIS C) Reg MBB then insort_insert Reg vs else vs) else vs)
       [0..<NumVirtRegs C] vregs"

definition gatherBlockLiveOuts :: "ModelContext \<Rightarrow> nat \<Rightarrow> nat list \<Rightarrow> nat list" where
  "gatherBlockLiveOuts C MBB vregs =
     fold (\<lambda>i vs. let Reg = index2VirtReg i in
             if hasInterval (LIS C) Reg
             then (if isLiveOutOfMBB (LIS C) Reg MBB then insort_insert Reg vs else vs) else vs)
       [0..<NumVirtRegs C] vregs"

section \<open>Road patterns\<close>

definition road_blocks :: "ModelContext \<Rightarrow> BBInfos \<Rightarrow> nat \<Rightarrow> nat list" where
  "road_blocks C I RoadIdx =
     filter (\<lambda>b. RoadBegin (I b) = RoadIdx \<or> RoadEnd (I b) = RoadIdx) [0..<NumBlocks C]"

definition sink_blocks :: "ModelContext \<Rightarrow> BBInfos \<Rightarrow> nat \<Rightarrow> nat list" where
  "sink_blocks C I RoadIdx = filter (\<lambda>b. RoadBegin (I b) = RoadIdx) [0..<NumBlocks C]"

definition road_regs :: "ModelContext \<Rightarrow> BBInfos \<Rightarrow> nat \<Rightarrow> nat list" where
  "road_regs C I RoadIdx =
     fold (\<lambda>b regs.
        let regs1 = (if RoadBegin (I b) = RoadIdx then gatherBlockLiveIns C b regs else regs)
        in if RoadEnd (I b) = RoadIdx then gatherBlockLiveOuts C b regs1 else regs1)
       (road_blocks C I RoadIdx) []"

definition road_pattern :: "ModelContext \<Rightarrow> BBInfos \<Rightarrow> nat \<Rightarrow> Stack \<Rightarrow> Stack" where
  "road_pattern C I RoadIdx OutStack =
     (let Sinks = sink_blocks C I RoadIdx
      in if length Sinks = 1 \<and> length (successors (Graph C) (hd Sinks)) = 0
         then fold (\<lambda>Reg s. addDef s Reg)
                (gatherBlockLiveOuts C (hd Sinks) (gatherBlockLiveIns C (hd Sinks) [])) []
         else fold (\<lambda>Reg s. addDef s Reg)
                (filter (\<lambda>r. r \<notin> set OutStack) (road_regs C I RoadIdx)) OutStack)"

definition computeRoadPattern :: "ModelContext \<Rightarrow> nat \<Rightarrow> Stack \<Rightarrow> BBInfos \<Rightarrow> BBInfos" where
  "computeRoadPattern C RoadIdx OutStack I =
     (let RoadPattern = road_pattern C I RoadIdx OutStack
      in fold (\<lambda>b J.
           let J1 = (if RoadBegin (J b) = RoadIdx
                     then J(b := J b \<lparr> FixedBegin := Some (filteredByLiveIns (LIS C) b RoadPattern) \<rparr>)
                     else J)
           in if RoadEnd (J1 b) = RoadIdx then J1(b := J1 b \<lparr> FixedEnd := Some RoadPattern \<rparr>) else J1)
         (road_blocks C I RoadIdx) I)"

section \<open>The stack an instruction needs\<close>

definition ret_reg :: "MachineOperand \<Rightarrow> StackVreg option" where
  "ret_reg opd = do {
     check (isReg opd); Some (if isUndef opd then UnusedReg else getReg opd) }"

definition regs_to_consume :: "Opcode \<Rightarrow> nat" where
  "regs_to_consume opc =
     (if opc = JMPX then 1 else if opc = IFJMP \<or> opc = IFNOTJMP then 2
      else if opc = IFELSE then 3 else 0)"

text \<open>The branch of prepareStackFor for the last instruction of a block with successors.\<close>

definition prepare_last ::
  "ModelContext \<Rightarrow> nat \<Rightarrow> MachineInstr \<Rightarrow> Stack \<Rightarrow> nat \<Rightarrow> BBInfos \<Rightarrow>
   (StackFixup \<times> BBInfos \<times> Comment) option" where
  "prepare_last C MBB MI TheStack Index I = do {
     J \<leftarrow> (if \<not> isFixedEnd (I MBB)
           then do {
             OutStack \<leftarrow> consumeArguments TheStack (regs_to_consume (getOpcode MI));
             let J = computeRoadPattern C (RoadEnd (I MBB)) OutStack I;
             check (isFixedEnd (J MBB));
             Some J }
           else Some I);
     AfterTermStack \<leftarrow> fixedEnd (J MBB);
     let NeedStack = filterByImpDefs (withArgs AfterTermStack (MIArgs_of (Desc C) (LIS C) MI Index))
                       TheStack;
     Fix \<leftarrow> Diff NeedStack TheStack;
     Some (Fix, J, Some NeedStack) }"

definition prepareStackFor ::
  "ModelContext \<Rightarrow> nat \<Rightarrow> bool \<Rightarrow> MachineInstr \<Rightarrow> Stack \<Rightarrow> nat \<Rightarrow> BBInfos \<Rightarrow>
   (StackFixup \<times> BBInfos \<times> Comment) option" where
  "prepareStackFor C MBB hasNext MI StackBefore Index I =
     (if getOpcode MI = IMPLICIT_DEF then Some ([], I, None)
      else if getOpcode MI = HIDDENSTACK
      then do {
        Result \<leftarrow> getOperand MI 0; Operand \<leftarrow> getOperand MI 1;
        check (isReg Result);
        e \<leftarrow> getCImm Operand;
        Fix \<leftarrow> DiffForHiddenStack StackBefore (nat e) (getReg Result);
        Some (Fix, I, None) }
      else do {
        check (unique_regs StackBefore);
        TheStack \<leftarrow> filteredByMIdefs (Desc C) MI StackBefore;
        let NumOperands = length (operands MI);
        if descReturn (Desc C) (getOpcode MI)
        then do {
          Fix \<leftarrow> (if NumOperands = 0 then DiffForReturn TheStack None
                 else if NumOperands = 1
                 then do { r \<leftarrow> ret_reg (operands MI ! 0); DiffForReturn TheStack (Some r) }
                 else do { rs \<leftarrow> mapM ret_reg (operands MI); DiffForReturnMulti TheStack rs });
          Some (Fix, I, None) }
        else if (descTerminator (Desc C) (getOpcode MI) \<or> \<not> hasNext) \<and>
                successors (Graph C) MBB \<noteq> []
        then prepare_last C MBB MI TheStack Index I
        else do {
          Fix \<leftarrow> DiffForArgs TheStack (MIArgs_of (Desc C) (LIS C) MI Index)
                   (descCommutable (Desc C) (getOpcode MI));
          Some (Fix, I, None) } })"

section \<open>Executing an instruction in the model\<close>

text \<open>
  The asserts of modelInstructionExecution: of a commutable instruction every consumed register must
  be one of its register operands, of another the consumed registers are the operands in order.
\<close>

definition consume_check :: "bool \<Rightarrow> MachineOperand list \<Rightarrow> Stack \<Rightarrow> bool" where
  "consume_check commutable useOps s \<longleftrightarrow>
     (let regUses = filter isReg useOps; n = length regUses
      in n \<le> length s \<and>
         (if commutable then \<forall>i < n. \<exists>opd \<in> set useOps. isReg opd \<and> s ! i = getReg opd
          else \<forall>i < n. isUndef (rev regUses ! i) \<or> getReg (rev regUses ! i) = s ! i))"

definition modelInstructionExecution :: "MCInstrInfo \<Rightarrow> MachineInstr \<Rightarrow> Stack \<Rightarrow> Stack option" where
  "modelInstructionExecution D MI StackBefore =
     (if getOpcode MI = IMPLICIT_DEF then Some StackBefore
      else do {
        let NumToConsume = length (filter isReg (uses D MI));
        check (consume_check (descCommutable D (getOpcode MI)) (uses D MI) StackBefore);
        s \<leftarrow> consumeArguments StackBefore NumToConsume;
        foldM (\<lambda>opd st. do { check (isReg opd); Some (addDef st (getReg opd)) }) (defs D MI) s })"

section \<open>Rewriting\<close>

fun isImmOrCImm :: "MachineOperand \<Rightarrow> bool" where
  "isImmOrCImm (MO_Immediate i) = True"
| "isImmOrCImm (MO_CImmediate i) = True"
| "isImmOrCImm _ = False"

definition get_checked :: "(MachineOperand \<Rightarrow> bool) \<Rightarrow> MachineInstr \<Rightarrow> nat \<Rightarrow> MachineOperand option" where
  "get_checked P MI i = do { opd \<leftarrow> getOperand MI i; check (P opd); Some opd }"

text \<open>The new instructions of rewriteToSForm, and the stack without dead definitions.\<close>

definition rewriteToSForm ::
  "MCInstrInfo \<Rightarrow> MachineInstr \<Rightarrow> Comment \<Rightarrow> Stack \<Rightarrow> (MachineInstr list \<times> Stack) option" where
  "rewriteToSForm D MI PreTermStack TheStack =
     (case RegForm2SForm D (getOpcode MI) of
        None \<Rightarrow> Some ([], TheStack)
      | Some NewOpcode \<Rightarrow> do {
          let nDefs = NumDefs D (getOpcode MI);
          let NumGlobals = length (filter isGlobalOrSymbol (uses D MI));
          let NumImms = length (filter isImmOrCImm (uses D MI));
          globals \<leftarrow> mapM (\<lambda>j. get_checked isGlobalOrSymbol MI (nDefs + j)) [0..<NumGlobals];
          let labels = (if NewOpcode = PUSH_GLOBAL_ADDRESS_S
                        then map (\<lambda>g. mk_instr PUSHCONT_LABEL [g]) globals else []);
          imms \<leftarrow> (if getOpcode MI = PUSHCONT_MBB
                  then do { m \<leftarrow> getOperand MI 1; Some [m] }
                  else mapM (\<lambda>j. get_checked isImmOrCImm MI (length (operands MI) - NumImms + j))
                         [0..<NumImms]);
          let MIB = mk_instr NewOpcode
                      ((if NewOpcode \<noteq> PUSH_GLOBAL_ADDRESS_S then globals else []) @ imms);
          let MIB1 = setStackModelSourceRegs (map getReg (filter isReg (operands MI))) MIB;
          let TheStack' = filterByDeadDefs D MI TheStack;
          let MIB2 = (if nDefs \<noteq> 0
                      then addStackModelComment (InstrComment (defs D MI) (getOpcode MI) (uses D MI)) MIB1
                      else MIB1);
          let MIB3 = addStackModelComment
                       (if descTerminator D (getOpcode MI) then TermComment PreTermStack TheStack'
                        else StackComment (Some TheStack')) MIB2;
          Some (labels @ [MIB3], TheStack') })"

section \<open>Reversible instructions\<close>

definition OpcodeMap :: "(Opcode \<times> Opcode) list" where
  "OpcodeMap = [(SUB, SUBR), (STI, STIR), (STU, STUR), (STIX, STIXR), (STUX, STUXR),
     (SGT, SLT), (SGE, SLE), (SLT, SGT), (SLE, SGE)]"

definition score :: "Stack \<Rightarrow> StackVreg \<Rightarrow> nat \<Rightarrow> StackVreg \<Rightarrow> nat \<Rightarrow> nat option" where
  "score s r1 p1 r2 p2 = do {
     a \<leftarrow> Stack_position s r1; b \<leftarrow> Stack_position s r2;
     Some ((if a = p1 then 1 else 0) + (if b = p2 then 1 else 0)) }"

text \<open>The replacement built when the reversed order scores higher; tail are the operands after.\<close>

definition reversed ::
  "MachineInstr \<Rightarrow> Stack \<Rightarrow> nat \<Rightarrow> (MachineInstr \<Rightarrow> MachineOperand list option) \<Rightarrow>
   MachineInstr option option" where
  "reversed MI s lo tail = do {
     d \<leftarrow> get_checked isReg MI 0; a \<leftarrow> get_checked isReg MI 1; b \<leftarrow> get_checked isReg MI 2;
     OrigScore \<leftarrow> score s (getReg a) (lo + 1) (getReg b) lo;
     RScore \<leftarrow> score s (getReg a) lo (getReg b) (lo + 1);
     if RScore > OrigScore
     then do {
       opc \<leftarrow> map_of OpcodeMap (getOpcode MI);
       t \<leftarrow> tail MI;
       Some (Some (mk_instr opc ([MO_Register (getReg d) False False,
         MO_Register (getReg b) False False, MO_Register (getReg a) False False] @ t))) }
     else Some None }"

definition optimizeReversible :: "MachineInstr \<Rightarrow> Stack \<Rightarrow> MachineInstr option option" where
  "optimizeReversible MI TheStack =
     (if getOpcode MI \<in> {SUB, STU, STI}
      then reversed MI TheStack 0
             (\<lambda>MI. if getOpcode MI = STI \<or> getOpcode MI = STU
                   then do { opd \<leftarrow> getOperand MI 3; i \<leftarrow> getCImm opd; Some [MO_CImmediate i] }
                   else Some [])
      else if getOpcode MI \<in> {STIX, STUX}
      then do {
        c \<leftarrow> get_checked isReg MI 3;
        reversed MI TheStack 1 (\<lambda>MI. Some [MO_Register (getReg c) False False]) }
      else if getOpcode MI \<in> {SGT, SGE, SLT, SLE}
      then reversed MI TheStack 0 (\<lambda>MI. Some [])
      else Some None)"

section \<open>Instructions, blocks, the function\<close>

text \<open>processInstruction: the code that replaces the instruction, and the new state.\<close>

definition processInstruction ::
  "ModelContext \<Rightarrow> nat \<Rightarrow> bool \<Rightarrow> MachineInstr \<Rightarrow> Stack \<Rightarrow> BBInfos \<Rightarrow>
   (MachineInstr list \<times> Stack \<times> BBInfos) option" where
  "processInstruction C MBB hasNext MI TheStack I = do {
     let Index = slotIndex MI;
     NewMI \<leftarrow> optimizeReversible MI TheStack;
     let CurrentMI = (case NewMI of None \<Rightarrow> MI | Some N \<Rightarrow> N);
     (Fix, J, PreTerm) \<leftarrow> prepareStackFor C MBB hasNext CurrentMI TheStack Index I;
     code \<leftarrow> generate Fix;
     s1 \<leftarrow> apply_fixup Fix TheStack;
     s2 \<leftarrow> modelInstructionExecution (Desc C) CurrentMI s1;
     (new, s3) \<leftarrow> rewriteToSForm (Desc C) CurrentMI PreTerm s2;
     Some (code @ new, s3, J) }"

definition skipped :: "MachineInstr \<Rightarrow> bool" where
  "skipped MI \<longleftrightarrow> isDebugInstr MI \<or> isLabel MI"

fun processBlock ::
  "ModelContext \<Rightarrow> nat \<Rightarrow> MachineInstr list \<Rightarrow> Stack \<Rightarrow> BBInfos \<Rightarrow>
   (MachineInstr list \<times> Stack \<times> BBInfos) option" where
  "processBlock C MBB [] s I = Some ([], s, I)"
| "processBlock C MBB (MI # rest) s I = do {
     check (\<not> isArgument MI);
     (code, s', I') \<leftarrow> (if skipped MI then Some ([MI], s, I)
                       else processInstruction C MBB (rest \<noteq> []) MI s I);
     (code', s'', I'') \<leftarrow> processBlock C MBB rest s' I';
     Some (code @ code', s'', I'') }"

text \<open>The blocks in the reverse post-order RPOT.\<close>

fun processBlocks ::
  "ModelContext \<Rightarrow> nat list \<Rightarrow> (nat \<Rightarrow> MachineInstr list) \<Rightarrow> BBInfos \<Rightarrow>
   ((nat \<Rightarrow> MachineInstr list) \<times> BBInfos) option" where
  "processBlocks C [] B I = Some (B, I)"
| "processBlocks C (MBB # RPOT) B I = do {
     s \<leftarrow> fixedBegin (I MBB);
     (code, s', I') \<leftarrow> processBlock C MBB (B MBB) s I;
     processBlocks C RPOT (B(MBB := code)) (I'(MBB := I' MBB \<lparr> CalculatedEnd := Some s' \<rparr>)) }"

definition runOnBasicBlocks ::
  "ModelContext \<Rightarrow> nat \<Rightarrow> nat list \<Rightarrow> Stack \<Rightarrow> (nat \<Rightarrow> MachineInstr list) \<Rightarrow> BBInfos \<Rightarrow>
   ((nat \<Rightarrow> MachineInstr list) \<times> BBInfos) option" where
  "runOnBasicBlocks C First RPOT StartStack B I =
     processBlocks C RPOT B (I(First := I First \<lparr> FixedBegin := Some StartStack \<rparr>))"

text \<open>The arguments at the start of the entry block; numParams counts the ones known before.\<close>

definition argument_num :: "nat \<Rightarrow> MachineInstr list \<Rightarrow> (nat \<times> MachineInstr list) option" where
  "argument_num numParams code =
     (case code of
        [] \<Rightarrow> Some (numParams, [])
      | ANI # rest \<Rightarrow>
          if isArgumentNum ANI
          then do { opd \<leftarrow> getOperand ANI 0; i \<leftarrow> getImm opd; Some (numParams + nat i, rest) }
          else Some (numParams, code))"

fun place_arguments ::
  "nat \<Rightarrow> MachineInstr list \<Rightarrow> Stack \<Rightarrow> (Stack \<times> MachineInstr list) option" where
  "place_arguments NumArgs [] s = Some (s, [])"
| "place_arguments NumArgs (MI # rest) s =
     (if \<not> isArgument MI then Some (s, MI # rest)
      else do {
        d \<leftarrow> get_checked isReg MI 0;
        opd \<leftarrow> getOperand MI 1; n \<leftarrow> getCImm opd;
        s' \<leftarrow> Stack_set s (usub (usub NumArgs (nat n)) 1) (getReg d);
        place_arguments NumArgs rest s' })"

definition initial_infos :: "Roads \<Rightarrow> BBInfos" where
  "initial_infos st = (\<lambda>b. \<lparr> FixedBegin = None, CalculatedEnd = None, FixedEnd = None,
     RoadBegin = (if b < length (roadBegin st) then roadBegin st ! b else 0),
     RoadEnd = (if b < length (roadEnd st) then roadEnd st ! b else 0) \<rparr>)"

definition runOnMachineFunction ::
  "ModelContext \<Rightarrow> nat \<Rightarrow> nat list \<Rightarrow> nat \<Rightarrow> (nat \<Rightarrow> MachineInstr list) \<Rightarrow>
   ((nat \<Rightarrow> MachineInstr list) \<times> BBInfos) option" where
  "runOnMachineFunction C First RPOT numParams B = do {
     (MaxRoads, roads) \<leftarrow> prepareRoads (Graph C) (NumBlocks C) First;
     (NumArgs, code) \<leftarrow> argument_num numParams (B First);
     (StartStack, code') \<leftarrow> place_arguments NumArgs code (Stack_init NumArgs);
     runOnBasicBlocks C First RPOT StartStack (B(First := code')) (initial_infos roads) }"

section \<open>Executing on a prepared stack\<close>

lemma length_MIArgs_of [simp]: "length (MIArgs_of D L MI i) = length (filter isReg (uses D MI))"
  by (simp add: MIArgs_of_def)

lemma Vreg_MIArgs_of:
  "j < length (filter isReg (uses D MI)) \<Longrightarrow>
   Vreg (MIArgs_of D L MI i ! j) =
     (let opd = filter isReg (uses D MI) ! j in if isUndef opd then UnusedReg else getReg opd)"
  by (simp add: MIArgs_of_def Let_def)

lemma add_defs:
  "\<forall>opd \<in> set ds. isReg opd \<Longrightarrow>
   foldM (\<lambda>opd st. do { check (isReg opd); Some (addDef st (getReg opd)) }) ds s =
   Some (rev (map getReg ds) @ s)"
  by (induction ds arbitrary: s) (simp_all add: addDef_def)

lemma take_all_nth: "take n t = xs \<Longrightarrow> i < n \<Longrightarrow> length xs = n \<Longrightarrow> t ! i = xs ! i"
  by (metis nth_take)

lemma consume_check_in_order:
  assumes "take n t = rev (map Vreg (MIArgs_of D L MI i))" "n = length (filter isReg (uses D MI))"
  shows "consume_check False (uses D MI) t"
proof -
  let ?ru = "filter isReg (uses D MI)"
  have "length (take n t) = n" using arg_cong [OF assms(1), of length] assms(2) by simp
  then have "n \<le> length t" by simp
  moreover have "isUndef (rev ?ru ! k) \<or> getReg (rev ?ru ! k) = t ! k" if "k < n" for k
  proof -
    have "t ! k = rev (map Vreg (MIArgs_of D L MI i)) ! k"
      using take_all_nth [OF assms(1) that] assms(2) by simp
    also have "\<dots> = Vreg (MIArgs_of D L MI i ! (n - Suc k))"
      using that assms(2) by (simp add: rev_nth)
    finally have "t ! k = (let opd = ?ru ! (n - Suc k) in if isUndef opd then UnusedReg else getReg opd)"
      using Vreg_MIArgs_of [of "n - Suc k" D MI L i] that assms(2) by simp
    moreover have "rev ?ru ! k = ?ru ! (n - Suc k)" using that assms(2) by (simp add: rev_nth)
    ultimately show ?thesis by (auto simp: Let_def)
  qed
  ultimately show ?thesis using assms(2) by (simp add: consume_check_def Let_def)
qed

lemma consume_check_as_set:
  assumes "n \<le> length t" "set (take n t) \<subseteq> getReg ` set (filter isReg (uses D MI))"
    "n = length (filter isReg (uses D MI))"
  shows "consume_check True (uses D MI) t"
proof -
  have "\<exists>opd \<in> set (uses D MI). isReg opd \<and> t ! k = getReg opd" if "k < n" for k
  proof -
    have "t ! k \<in> set (take n t)" using that assms(1) by (auto simp: in_set_conv_nth intro!: exI [of _ k])
    then show ?thesis using assms(2) by auto
  qed
  then show ?thesis using assms(1,3) by (simp add: consume_check_def Let_def)
qed

lemma model_execution:
  assumes "getOpcode MI \<noteq> IMPLICIT_DEF" "\<forall>opd \<in> set (defs D MI). isReg opd"
    "consume_check (descCommutable D (getOpcode MI)) (uses D MI) t"
  shows "modelInstructionExecution D MI t =
     Some (rev (map getReg (defs D MI)) @ drop (length (filter isReg (uses D MI))) t)"
  using assms add_defs [OF assms(2)]
  by (simp add: modelInstructionExecution_def consumeArguments_def consume_check_def Let_def)

section \<open>An ordinary instruction\<close>

text \<open>
  What the pass may assume of an instruction whose arguments are placed by DiffForArgs: its
  definitions are registers, its used registers are on the stack, a commutable instruction has two or
  more arguments, all of them defined.
\<close>

definition operands_ok :: "ModelContext \<Rightarrow> MachineInstr \<Rightarrow> Stack \<Rightarrow> bool" where
  "operands_ok C MI s \<longleftrightarrow>
     (\<forall>opd \<in> set (defs (Desc C) MI). isReg opd) \<and>
     (\<forall>opd \<in> set (uses (Desc C) MI). isReg opd \<and> \<not> isUndef opd \<longrightarrow>
        getReg opd \<noteq> UnusedReg \<and> getReg opd \<in> set s) \<and>
     (descCommutable (Desc C) (getOpcode MI) \<longrightarrow>
        length (filter isReg (uses (Desc C) MI)) \<ge> 2 \<and>
        (\<forall>opd \<in> set (uses (Desc C) MI). isReg opd \<longrightarrow> \<not> isUndef opd))"

definition ordinary :: "ModelContext \<Rightarrow> nat \<Rightarrow> bool \<Rightarrow> MachineInstr \<Rightarrow> bool" where
  "ordinary C MBB hasNext MI \<longleftrightarrow>
     getOpcode MI \<noteq> IMPLICIT_DEF \<and> getOpcode MI \<noteq> HIDDENSTACK \<and>
     \<not> descReturn (Desc C) (getOpcode MI) \<and>
     \<not> ((descTerminator (Desc C) (getOpcode MI) \<or> \<not> hasNext) \<and> successors (Graph C) MBB \<noteq> [])"

lemma args_ok_MIArgs:
  assumes "operands_ok C MI s"
  shows "args_ok (MIArgs_of (Desc C) (LIS C) MI i) s"
proof -
  have "Vreg a = UnusedReg \<or> Vreg a \<in> set s" if "a \<in> set (MIArgs_of (Desc C) (LIS C) MI i)" for a
    using that assms unfolding operands_ok_def MIArgs_of_def by (auto split: if_splits)
  moreover have "IsKilled a = IsKilled b"
    if "a \<in> set (MIArgs_of (Desc C) (LIS C) MI i)" "b \<in> set (MIArgs_of (Desc C) (LIS C) MI i)"
      "Vreg a = Vreg b" for a b
  proof (rule MIArgs_of_kill_consistent [OF _ that])
    show "\<forall>opd \<in> set (uses (Desc C) MI). isReg opd \<and> \<not> isUndef opd \<longrightarrow> getReg opd \<noteq> UnusedReg"
      using assms unfolding operands_ok_def by blast
  qed
  ultimately show ?thesis unfolding args_ok_def by blast
qed

lemma swapped_args:
  assumes "args_placed True args s t" "2 \<le> length args"
  shows "length args \<le> length t" "set (take (length args) t) = set (map Vreg args)"
    "mset (drop (length args) t) + mset (moved_regs args) = mset s"
proof -
  let ?n = "length args"
  have on: "?n \<le> length u \<and> set (take ?n u) = set (map Vreg args)" if "args_on_top args s u" for u
  proof -
    have "take ?n u = rev (map Vreg args)" using that by (simp add: args_on_top_def)
    moreover from arg_cong [OF this, of length] have "?n \<le> length u" by (simp add: min_def split: if_splits)
    ultimately show ?thesis by simp
  qed
  consider "args_on_top args s t" | u where "args_on_top args s u" "2 \<le> length u" "t = swap_at 0 1 u"
    using assms(1) by (auto simp: args_placed_def)
  then have "?n \<le> length t \<and> set (take ?n t) = set (map Vreg args) \<and>
      mset (drop ?n t) + mset (moved_regs args) = mset s"
  proof cases
    case 1
    with on args_on_top_rest [OF 1] show ?thesis by blast
  next
    case 2
    have "0 < ?n" "Suc 0 < ?n" using assms(2) by linarith+
    then have "drop ?n t = drop ?n u" using 2(3) by (simp add: swap_at_def drop_update_cancel)
    moreover have "take ?n t = swap_at 0 1 (take ?n u)"
      using 2(2,3) \<open>0 < ?n\<close> \<open>Suc 0 < ?n\<close> by (simp add: swap_at_def take_update_swap)
    moreover have "length (take ?n u) = ?n" using on [OF 2(1)] by simp
    ultimately have "mset (take ?n t) = mset (take ?n u)"
      using \<open>0 < ?n\<close> \<open>Suc 0 < ?n\<close> mset_swap_at [of 0 "take ?n u" 1] by simp
    then have "set (take ?n t) = set (take ?n u)" by (rule mset_eq_setD)
    with \<open>drop ?n t = drop ?n u\<close> show ?thesis
      using on [OF 2(1)] args_on_top_rest [OF 2(1)] 2(3) by simp
  qed
  then show "?n \<le> length t" "set (take ?n t) = set (map Vreg args)"
    "mset (drop ?n t) + mset (moved_regs args) = mset s" by blast+
qed

lemma Vreg_in_operands:
  assumes "\<forall>opd \<in> set (uses D MI). isReg opd \<longrightarrow> \<not> isUndef opd"
  shows "set (map Vreg (MIArgs_of D L MI i)) \<subseteq> getReg ` set (filter isReg (uses D MI))"
  using assms by (auto simp: MIArgs_of_def)

lemma ordinary_instruction:
  assumes ord: "ordinary C MBB hasNext MI" and ok: "operands_ok C MI s" and uniq: "unique_regs s"
    and lim: "length s + length (filter isReg (uses (Desc C) MI)) \<le> 256"
    and nodef: "\<not> pattern_defect (MIArgs_of (Desc C) (LIS C) MI i) (drop (top_unused s) s)"
  shows "\<exists>Fix t rest k. prepareStackFor C MBB hasNext MI s i I = Some (Fix, I, None) \<and>
     apply_fixup Fix s = Some t \<and> commented Fix s \<and>
     modelInstructionExecution (Desc C) MI t = Some (rev (map getReg (defs (Desc C) MI)) @ rest) \<and>
     mset rest + mset (moved_regs (MIArgs_of (Desc C) (LIS C) MI i)) + replicate_mset k UnusedReg =
       mset s"
proof -
  let ?args = "MIArgs_of (Desc C) (LIS C) MI i" and ?comm = "descCommutable (Desc C) (getOpcode MI)"
  let ?n = "length (filter isReg (uses (Desc C) MI))" and ?s = "drop (top_unused s) s"
  have dr: "\<forall>opd \<in> set (defs (Desc C) MI). isReg opd" using ok by (simp add: operands_ok_def)
  have prep: "prepareStackFor C MBB hasNext MI s i I =
      map_option (\<lambda>Fix. (Fix, I, None)) (DiffForArgs s ?args ?comm)"
    using ord uniq dr
    by (auto simp: prepareStackFor_def ordinary_def filteredByMIdefs_eq Let_def map_option_case
        split: option.splits)
  note exec = model_execution [OF _ dr]
  show ?thesis
  proof (cases "?args = []")
    case True
    then have n: "?n = 0" by (metis length_MIArgs_of list.size(3))
    have "consume_check ?comm (uses (Desc C) MI) s"
      using n ok by (auto simp: consume_check_def operands_ok_def Let_def)
    with exec [of s] n ord have "modelInstructionExecution (Desc C) MI s =
        Some (rev (map getReg (defs (Desc C) MI)) @ s)" by (simp add: ordinary_def)
    moreover have "moved_regs ?args = []" using True by (simp add: moved_regs_def)
    moreover have "apply_fixup [] s = Some s" by (simp add: apply_fixup_def changes_def fixup.run_Nil)
    ultimately show ?thesis using prep True
      by (intro exI [of _ "[]"] exI [of _ s] exI [of _ 0]) (simp add: DiffForArgs_def)
  next
    case False
    obtain Fix t where D: "DiffForArgs s ?args ?comm = Some Fix" "apply_fixup Fix s = Some t"
        "commented Fix s" "args_placed ?comm ?args ?s t"
      using DiffForArgs_places [OF False uniq args_ok_MIArgs [OF ok] _ nodef, of ?comm] lim
      unfolding length_MIArgs_of by blast
    have "consume_check ?comm (uses (Desc C) MI) t \<and>
        mset (drop ?n t) + mset (moved_regs ?args) = mset ?s"
    proof (cases ?comm)
      case True
      then have "2 \<le> length ?args" "\<forall>opd \<in> set (uses (Desc C) MI). isReg opd \<longrightarrow> \<not> isUndef opd"
        using ok by (auto simp: operands_ok_def)
      note sw = swapped_args [OF D(4) [unfolded eqTrueI [OF True]] this(1)]
      have "set (take ?n t) \<subseteq> getReg ` set (filter isReg (uses (Desc C) MI))"
        using sw(2) Vreg_in_operands [OF \<open>\<forall>opd \<in> set (uses (Desc C) MI). isReg opd \<longrightarrow> \<not> isUndef opd\<close>]
        unfolding length_MIArgs_of by blast
      from consume_check_as_set [OF _ this refl] sw(1,3) True show ?thesis by simp
    next
      case F: False
      then have top: "args_on_top ?args ?s t" using D(4) by (simp add: args_placed_def)
      then have "take ?n t = rev (map Vreg ?args)" by (simp add: args_on_top_def)
      with F top args_on_top_rest [OF top] show ?thesis by (auto intro!: consume_check_in_order)
    qed
    with exec [of t] ord have "modelInstructionExecution (Desc C) MI t =
        Some (rev (map getReg (defs (Desc C) MI)) @ drop ?n t)"
      "mset (drop ?n t) + mset (moved_regs ?args) = mset ?s" by (simp_all add: ordinary_def)
    moreover have "mset ?s + replicate_mset (top_unused s) UnusedReg = mset s"
      by (rule top_unused_drop(2))
    ultimately show ?thesis using prep D
      by (intro exI [of _ Fix] exI [of _ t] exI [of _ "drop ?n t"] exI [of _ "top_unused s"]) simp
  qed
qed

text \<open>
  The stack keeps no register twice, as long as a definition is not on the stack beside its uses.
\<close>

lemma unique_regs_mset:
  assumes "unique_regs s" "mset r \<subseteq># mset s"
  shows "unique_regs r"
proof -
  let ?f = "\<lambda>v. v \<noteq> UnusedReg"
  have "mset (filter ?f r) \<subseteq># mset (filter ?f s)"
    using assms(2) by (simp add: multiset_filter_mono)
  moreover have "count (mset (filter ?f s)) v \<le> 1" for v
    using assms(1) unfolding unique_regs_def distinct_count_atmost_1 by simp
  ultimately have le: "count (mset (filter ?f r)) v \<le> 1" for v
    using mset_subset_eq_count le_trans by metis
  define X where "X = filter ?f r"
  have "count (mset X) v = (if v \<in> set X then 1 else 0)" for v
  proof (cases "v \<in> set X")
    case True
    then have "v \<in># mset X" by simp
    then have "0 < count (mset X) v" by (simp only: count_greater_zero_iff)
    with le [of v] have "count (mset X) v = 1" unfolding X_def [symmetric] by linarith
    with True show ?thesis by simp
  qed (simp add: count_eq_zero_iff)
  then show ?thesis unfolding unique_regs_def distinct_count_atmost_1 X_def [symmetric] by blast
qed

lemma unique_regs_append:
  "unique_regs (xs @ ys) \<longleftrightarrow> unique_regs xs \<and> unique_regs ys \<and>
     (\<forall>v. v \<noteq> UnusedReg \<longrightarrow> v \<in> set xs \<longrightarrow> v \<notin> set ys)"
  by (auto simp: unique_regs_def)

lemma ordinary_keeps_unique:
  assumes "unique_regs s" "mset rest + moved + replicate_mset k UnusedReg = mset s"
    and "distinct ds" "UnusedReg \<notin> set ds" "set ds \<inter> set rest = {}"
  shows "unique_regs (rev ds @ rest)"
proof -
  have e: "mset s = mset rest + (moved + replicate_mset k UnusedReg)"
    using assms(2) by (simp add: add.assoc)
  have "mset rest \<subseteq># mset s" unfolding e by (rule mset_subset_eq_add_left)
  with assms(1) have "unique_regs rest" by (rule unique_regs_mset)
  moreover have "unique_regs (rev ds)"
    using assms(3) by (simp add: unique_regs_def)
  ultimately show ?thesis using assms(5) unfolding unique_regs_append by auto
qed

section \<open>The last instruction of a block\<close>

lemma filterByImpDefs_nth:
  "i < length s \<Longrightarrow> filterByImpDefs s r ! i = (if s ! i \<in> set r then s ! i else UnusedReg)"
  by (auto simp: filterByImpDefs_def Stack_exist_def)

lemma length_filterByImpDefs [simp]: "length (filterByImpDefs s r) = length s"
  by (simp add: filterByImpDefs_def)

lemma filterByImpDefs_avail: "v \<in> set (filterByImpDefs s r) \<Longrightarrow> v \<noteq> UnusedReg \<Longrightarrow> v \<in> set r"
  by (auto simp: filterByImpDefs_def Stack_exist_def split: if_splits)

lemma matches_drop: "matches s t \<Longrightarrow> matches (drop n s) (drop n t)"
  by (simp add: matches_def list_all2_dropI)

lemma filterByImpDefs_drop: "drop n (filterByImpDefs s r) = filterByImpDefs (drop n s) r"
  by (simp add: filterByImpDefs_def drop_map)

text \<open>
  The stack is brought to the road pattern below the arguments, and the instruction consumes its
  arguments: what is left matches the pattern, except for registers that are not on the stack at all.
\<close>

lemma last_instruction:
  assumes fe: "FixedEnd (I MBB) = Some fe" and ok: "operands_ok C MI s"
    and nc: "\<not> descCommutable (Desc C) (getOpcode MI)" "getOpcode MI \<noteq> IMPLICIT_DEF"
    and ne: "filter isReg (uses (Desc C) MI) \<noteq> [] \<or> fe \<noteq> []"
    and lim: "length (filter isReg (uses (Desc C) MI)) + length fe \<le> 256"
  shows "\<exists>Fix need t rest. prepare_last C MBB MI s i I = Some (Fix, I, Some need) \<and>
     apply_fixup Fix s = Some t \<and> matches t need \<and>
     modelInstructionExecution (Desc C) MI t = Some (rev (map getReg (defs (Desc C) MI)) @ rest) \<and>
     matches rest (filterByImpDefs fe s)"
proof -
  let ?args = "MIArgs_of (Desc C) (LIS C) MI i" and ?n = "length (filter isReg (uses (Desc C) MI))"
  let ?need = "filterByImpDefs (withArgs fe ?args) s"
  have len: "length ?need = ?n + length fe" by (simp add: withArgs_eq)
  have ne0: "?need \<noteq> []" using ne len by (metis add_is_0 length_0_conv)
  have "\<forall>v \<in> set ?need. v \<noteq> UnusedReg \<longrightarrow> v \<in> set s" using filterByImpDefs_avail by blast
  then obtain Fix t where F: "Diff ?need s = Some Fix" "apply_fixup Fix s = Some t" "matches t ?need"
    using Diff_reaches [OF ne0, of s] len lim by auto
  have P: "prepare_last C MBB MI s i I = Some (Fix, I, Some ?need)"
    using fe F(1) by (simp add: prepare_last_def isFixedEnd_def fixedEnd_def Let_def)
  have tl: "length t = ?n + length fe" using matches_length [OF F(3)] len by simp
  let ?ru = "filter isReg (uses (Desc C) MI)"
  have "isUndef (rev ?ru ! k) \<or> getReg (rev ?ru ! k) = t ! k" if k: "k < ?n" for k
  proof (cases "isUndef (rev ?ru ! k)")
    case False
    let ?opd = "?ru ! (?n - Suc k)"
    have opd: "rev ?ru ! k = ?opd" using k by (simp add: rev_nth)
    have "?opd \<in> set ?ru" by (rule nth_mem) (use k in simp)
    then have "?opd \<in> set (uses (Desc C) MI)" "isReg ?opd"
      by (simp_all only: set_filter mem_Collect_eq)
    then have av: "getReg ?opd \<noteq> UnusedReg" "getReg ?opd \<in> set s"
      using ok False opd by (auto simp: operands_ok_def)
    have "withArgs fe ?args ! k = Vreg (?args ! (?n - Suc k))"
      using k by (simp add: withArgs_eq nth_append rev_nth)
    also have "\<dots> = getReg ?opd" using Vreg_MIArgs_of [of "?n - Suc k"] k False opd
      by (simp add: Let_def)
    finally have "?need ! k = getReg ?opd"
      using filterByImpDefs_nth [of k "withArgs fe ?args" s] k av(2) by (simp add: withArgs_eq)
    then show ?thesis using matches_nth [OF F(3), of k] k len av(1) opd by simp
  qed simp
  then have "consume_check False (uses (Desc C) MI) t"
    using tl by (simp add: consume_check_def Let_def)
  then have "modelInstructionExecution (Desc C) MI t =
      Some (rev (map getReg (defs (Desc C) MI)) @ drop ?n t)"
    using model_execution [OF nc(2), of "Desc C" t] nc(1) ok by (auto simp: operands_ok_def)
  moreover have "matches (drop ?n t) (filterByImpDefs fe s)"
  proof -
    have "drop ?n (withArgs fe ?args) = fe" by (simp add: withArgs_eq)
    then show ?thesis using matches_drop [OF F(3), of ?n] by (simp add: filterByImpDefs_drop)
  qed
  ultimately show ?thesis using P F(2,3) by blast
qed

section \<open>Road patterns\<close>

lemma fold_addDef: "fold (\<lambda>Reg s. addDef s Reg) rs s = rev rs @ s"
  by (induction rs arbitrary: s) (simp_all add: addDef_def)

lemma set_insert_fold:
  "set (fold (\<lambda>i vs. let Reg = index2VirtReg i in
             if P Reg then (if Q Reg then insort_insert Reg vs else vs) else vs) is vs) =
   {index2VirtReg i | i. i \<in> set is \<and> P (index2VirtReg i) \<and> Q (index2VirtReg i)} \<union> set vs"
  by (induction "is" arbitrary: vs) (auto simp: Let_def set_insort_insert)

lemma set_gather:
  "set (gatherBlockLiveIns C b vs) = {index2VirtReg i | i. i < NumVirtRegs C \<and>
     hasInterval (LIS C) (index2VirtReg i) \<and> isLiveInToMBB (LIS C) (index2VirtReg i) b} \<union> set vs"
  "set (gatherBlockLiveOuts C b vs) = {index2VirtReg i | i. i < NumVirtRegs C \<and>
     hasInterval (LIS C) (index2VirtReg i) \<and> isLiveOutOfMBB (LIS C) (index2VirtReg i) b} \<union> set vs"
  unfolding gatherBlockLiveIns_def gatherBlockLiveOuts_def
  by (subst set_insert_fold; auto)+

lemma distinct_insert_fold:
  "sorted vs \<and> distinct vs \<Longrightarrow>
   sorted (fold (\<lambda>i vs. let Reg = index2VirtReg i in
     if P Reg then (if Q Reg then insort_insert Reg vs else vs) else vs) is vs) \<and>
   distinct (fold (\<lambda>i vs. let Reg = index2VirtReg i in
     if P Reg then (if Q Reg then insort_insert Reg vs else vs) else vs) is vs)"
  by (induction "is" arbitrary: vs)
     (auto simp: Let_def sorted_insort_insert distinct_insort_insert)

lemma distinct_gather:
  "sorted vs \<and> distinct vs \<Longrightarrow> sorted (gatherBlockLiveIns C b vs) \<and> distinct (gatherBlockLiveIns C b vs)"
  "sorted vs \<and> distinct vs \<Longrightarrow> sorted (gatherBlockLiveOuts C b vs) \<and> distinct (gatherBlockLiveOuts C b vs)"
  unfolding gatherBlockLiveIns_def gatherBlockLiveOuts_def by (rule distinct_insert_fold; assumption)+

lemma distinct_road_regs: "sorted (road_regs C I R) \<and> distinct (road_regs C I R)"
proof -
  have "sorted regs \<and> distinct regs \<Longrightarrow>
      sorted (fold (\<lambda>b regs.
        let regs1 = (if RoadBegin (I b) = R then gatherBlockLiveIns C b regs else regs)
        in if RoadEnd (I b) = R then gatherBlockLiveOuts C b regs1 else regs1) bs regs) \<and>
      distinct (fold (\<lambda>b regs.
        let regs1 = (if RoadBegin (I b) = R then gatherBlockLiveIns C b regs else regs)
        in if RoadEnd (I b) = R then gatherBlockLiveOuts C b regs1 else regs1) bs regs)" for bs regs
  proof (induction bs arbitrary: regs)
    case (Cons b bs)
    then show ?case using distinct_gather by (simp add: Let_def)
  qed simp
  then show ?thesis unfolding road_regs_def by simp
qed

lemma road_regs_live:
  assumes "b < NumBlocks C" "i < NumVirtRegs C" "hasInterval (LIS C) (index2VirtReg i)"
    and "RoadBegin (I b) = R \<and> isLiveInToMBB (LIS C) (index2VirtReg i) b \<or>
         RoadEnd (I b) = R \<and> isLiveOutOfMBB (LIS C) (index2VirtReg i) b"
  shows "index2VirtReg i \<in> set (road_regs C I R)"
proof -
  let ?F = "\<lambda>b regs. let regs1 = (if RoadBegin (I b) = R then gatherBlockLiveIns C b regs else regs)
        in if RoadEnd (I b) = R then gatherBlockLiveOuts C b regs1 else regs1"
  have mono: "set regs \<subseteq> set (fold ?F bs regs)" for bs regs
  proof (induction bs arbitrary: regs)
    case (Cons c bs)
    have "set regs \<subseteq> set (?F c regs)" by (auto simp: Let_def set_gather)
    with Cons.IH [of "?F c regs"] show ?case by simp
  qed simp
  have "b \<in> set (road_blocks C I R)" using assms(1,4) by (auto simp: road_blocks_def)
  then obtain xs ys where "road_blocks C I R = xs @ b # ys" by (meson split_list)
  then have "set (?F b (fold ?F xs [])) \<subseteq> set (road_regs C I R)"
    using mono [of "?F b (fold ?F xs [])" ys] by (simp add: road_regs_def)
  moreover have "index2VirtReg i \<in> set (?F b (fold ?F xs []))"
    using assms by (auto simp: Let_def set_gather)
  ultimately show ?thesis by blast
qed

text \<open>
  A road pattern holds no register twice if the stack that enters the road does not, and it has room
  for every register live at any side of the road, unless the road leads to a single sink block.
\<close>

lemma road_pattern_unique:
  assumes "unique_regs OutStack"
  shows "unique_regs (road_pattern C I R OutStack)"
proof -
  have "distinct rs \<Longrightarrow> unique_regs (rev rs)" for rs by (simp add: unique_regs_def)
  moreover have "distinct (gatherBlockLiveOuts C b (gatherBlockLiveIns C b []))" for b
    using distinct_gather [of "[]" C b] distinct_gather(2) [of "gatherBlockLiveIns C b []" C b] by simp
  moreover have "distinct (filter (\<lambda>r. r \<notin> set OutStack) (road_regs C I R))"
    using distinct_road_regs by simp
  ultimately show ?thesis
    using assms by (auto simp: road_pattern_def Let_def fold_addDef unique_regs_append)
qed

lemma road_pattern_live:
  assumes "b < NumBlocks C" "i < NumVirtRegs C" "hasInterval (LIS C) (index2VirtReg i)"
    and "RoadBegin (I b) = R \<and> isLiveInToMBB (LIS C) (index2VirtReg i) b \<or>
         RoadEnd (I b) = R \<and> isLiveOutOfMBB (LIS C) (index2VirtReg i) b"
    and "\<not> (length (sink_blocks C I R) = 1 \<and>
            successors (Graph C) (hd (sink_blocks C I R)) = [])"
  shows "index2VirtReg i \<in> set (road_pattern C I R OutStack)"
  using road_regs_live [of b C i I R] assms
  by (auto simp: road_pattern_def Let_def fold_addDef)

lemma computeRoadPattern_block:
  assumes "b < NumBlocks C"
  shows "computeRoadPattern C R OutStack I b =
     (I b) \<lparr> FixedBegin := (if RoadBegin (I b) = R
               then Some (filteredByLiveIns (LIS C) b (road_pattern C I R OutStack))
               else FixedBegin (I b)),
             FixedEnd := (if RoadEnd (I b) = R then Some (road_pattern C I R OutStack)
                          else FixedEnd (I b)) \<rparr>"
proof -
  let ?P = "road_pattern C I R OutStack"
  let ?upd = "\<lambda>b info. info \<lparr> FixedBegin := (if RoadBegin info = R
        then Some (filteredByLiveIns (LIS C) b ?P) else FixedBegin info),
      FixedEnd := (if RoadEnd info = R then Some ?P else FixedEnd info) \<rparr>"
  let ?F = "\<lambda>b J. let J1 = (if RoadBegin (J b) = R
                     then J(b := J b \<lparr> FixedBegin := Some (filteredByLiveIns (LIS C) b ?P) \<rparr>)
                     else J)
           in if RoadEnd (J1 b) = R then J1(b := J1 b \<lparr> FixedEnd := Some ?P \<rparr>) else J1"
  have step: "?F c J = J(c := ?upd c (J c))" for c J by (auto simp: Let_def fun_eq_iff)
  have "fold ?F bs J b = (if b \<in> set bs then ?upd b (J b) else J b)" for bs J
  proof (induction bs arbitrary: J)
    case (Cons c bs)
    have "fold ?F (c # bs) J b = fold ?F bs (J(c := ?upd c (J c))) b" using step by simp
    then show ?case using Cons.IH [of "J(c := ?upd c (J c))"] by auto
  qed simp
  from this [of "road_blocks C I R" I] assms show ?thesis
    by (auto simp: computeRoadPattern_def road_blocks_def Let_def)
qed

text \<open>Across an edge of the flow graph the target begins with what the source ends with.\<close>

lemma pattern_across_edge:
  assumes "b < NumBlocks C" "s < NumBlocks C" "RoadEnd (I b) = RoadBegin (I s)"
    and J: "J = computeRoadPattern C (RoadEnd (I b)) OutStack I"
  shows "\<exists>fe. FixedEnd (J b) = Some fe \<and> FixedBegin (J s) = Some (filteredByLiveIns (LIS C) s fe)"
  using computeRoadPattern_block [OF assms(1)] computeRoadPattern_block [OF assms(2)] assms(3)
  by (simp add: J)

text \<open>
  The hand-over: a stack that matches the road pattern where registers are available also matches
  what the target block expects, if the registers live into the target are on the stack.
\<close>

lemma hand_over:
  assumes "matches t (filterByImpDefs fe r)"
    and "\<And>v. v \<in> set fe \<Longrightarrow> hasInterval L v \<Longrightarrow> isLiveInToMBB L v b \<Longrightarrow> v \<noteq> UnusedReg \<Longrightarrow> v \<in> set r"
  shows "matches t (filteredByLiveIns L b fe)"
proof -
  have len: "length t = length fe" using matches_length [OF assms(1)] by simp
  have "t ! i = fe ! i"
    if i: "i < length fe" "fe ! i \<noteq> UnusedReg" "hasInterval L (fe ! i)" "isLiveInToMBB L (fe ! i) b" for i
  proof -
    have "fe ! i \<in> set r" using assms(2) i by simp
    then have "filterByImpDefs fe r ! i = fe ! i" using i(1) by (simp add: filterByImpDefs_nth)
    with matches_nth [OF assms(1), of i] i(1,2) show ?thesis by simp
  qed
  then show ?thesis
    using len by (auto simp: matches_def list_all2_conv_all_nth filteredByLiveIns_def split: if_splits)
qed

section \<open>Rewriting and reversing\<close>

lemma mapM_append: "mapM f (xs @ ys) = mapM f xs \<bind> (\<lambda>as. mapM f ys \<bind> (\<lambda>bs. Some (as @ bs)))"
proof (induction xs)
  case Nil
  then show ?case by (cases "mapM f ys") simp_all
next
  case (Cons x xs)
  then show ?case by (cases "f x"; cases "mapM f xs"; cases "mapM f ys") simp_all
qed

lemma mapM_checked_iff:
  "mapM (\<lambda>j. get_checked P MI (f j)) [0..<k] = Some xs \<longleftrightarrow>
   length xs = k \<and> (\<forall>j < k. f j < length (operands MI) \<and> operands MI ! f j = xs ! j \<and> P (xs ! j))"
proof (induction k arbitrary: xs)
  case (Suc k)
  have step: "mapM (\<lambda>j. get_checked P MI (f j)) [0..<Suc k] =
      mapM (\<lambda>j. get_checked P MI (f j)) [0..<k] \<bind> (\<lambda>ys. get_checked P MI (f k) \<bind> (\<lambda>y. Some (ys @ [y])))"
    by (cases "mapM (\<lambda>j. get_checked P MI (f j)) [0..<k]"; cases "get_checked P MI (f k)") (simp_all add: mapM_append)
  show ?case
  proof (cases xs rule: rev_cases)
    case Nil
    then show ?thesis unfolding step by (auto simp: bind_eq_Some_conv)
  next
    case (snoc ys y)
    have "mapM (\<lambda>j. get_checked P MI (f j)) [0..<Suc k] = Some xs \<longleftrightarrow>
        mapM (\<lambda>j. get_checked P MI (f j)) [0..<k] = Some ys \<and> get_checked P MI (f k) = Some y"
      unfolding step snoc by (auto simp: bind_eq_Some_conv)
    then show ?thesis
      unfolding Suc.IH snoc by (auto simp: get_checked_def getOperand_def nth_append less_Suc_eq bind_eq_Some_conv)
  qed
qed auto

text \<open>A list that begins with as many elements of a kind as it has, begins with all of them; likewise its end.\<close>

lemma filter_prefix:
  assumes "k = length (filter P xs)" "\<forall>j < k. P (xs ! j)"
  shows "take k xs = filter P xs"
proof -
  have k: "k \<le> length xs" by (simp add: assms(1))
  then have t: "filter P (take k xs) = take k xs" using assms(2) by (auto simp: filter_id_conv in_set_conv_nth)
  have "filter P xs = filter P (take k xs) @ filter P (drop k xs)" by (metis append_take_drop_id filter_append)
  then have split: "filter P xs = take k xs @ filter P (drop k xs)" using t by simp
  then have "k = k + length (filter P (drop k xs))" using k assms(1) by (metis length_append length_take min.absorb2)
  then show ?thesis using split by simp
qed

lemma filter_suffix:
  assumes "k = length (filter P xs)" "\<forall>j < k. P (xs ! (length xs - k + j))"
  shows "drop (length xs - k) xs = filter P xs"
proof -
  have "take k (rev xs) = filter P (rev xs)"
  proof (rule filter_prefix)
    show "k = length (filter P (rev xs))" by (simp add: assms(1) rev_filter [symmetric])
    have k: "k \<le> length xs" by (simp add: assms(1))
    show "\<forall>j < k. P (rev xs ! j)"
    proof (intro allI impI)
      fix j assume j: "j < k"
      have "length xs - k + (k - Suc j) = length xs - Suc j" using j k by simp
      moreover have "k - Suc j < k" using j by simp
      then have "P (xs ! (length xs - k + (k - Suc j)))" using assms(2) by blast
      ultimately show "P (rev xs ! j)" using j k by (simp add: rev_nth)
    qed
  qed
  then show ?thesis by (simp add: take_rev rev_filter [symmetric])
qed

lemma two_kinds:
  assumes "\<And>x. \<not> (P x \<and> Q x)"
  shows "length (filter P xs) + length (filter Q xs) \<le> length xs"
  using assms by (induction xs) auto

text \<open>
  The operands that the S-form gets. The loops read the globals from the front of the uses and the immediates from
  the back; this succeeds exactly when they lie there, and then they are all copied, in order.
\<close>

definition sform_order :: "MCInstrInfo \<Rightarrow> MachineInstr \<Rightarrow> bool" where
  "sform_order D MI \<longleftrightarrow>
     (\<exists>mid. uses D MI = filter isGlobalOrSymbol (uses D MI) @ mid @ filter isImmOrCImm (uses D MI))"

lemma rewrite_globals:
  assumes "k = length (filter isGlobalOrSymbol (uses D MI))"
  shows "mapM (\<lambda>j. get_checked isGlobalOrSymbol MI (NumDefs D (getOpcode MI) + j)) [0..<k] = Some gs \<longleftrightarrow>
    gs = filter isGlobalOrSymbol (uses D MI) \<and> take k (uses D MI) = gs"
proof -
  let ?U = "uses D MI" and ?n = "NumDefs D (getOpcode MI)"
  have k: "k \<le> length ?U" by (simp add: assms)
  have at: "?n + j < length (operands MI) \<and> operands MI ! (?n + j) = ?U ! j" if "j < k" for j
    using that k by (auto simp: uses_def)
  show ?thesis
  proof
    assume "mapM (\<lambda>j. get_checked isGlobalOrSymbol MI (?n + j)) [0..<k] = Some gs"
    then have gs: "length gs = k" "\<forall>j < k. ?U ! j = gs ! j \<and> isGlobalOrSymbol (gs ! j)"
      using at by (simp_all add: mapM_checked_iff)
    then have "take k ?U = gs" using k by (intro nth_equalityI) simp_all
    moreover have "take k ?U = filter isGlobalOrSymbol ?U" by (rule filter_prefix [OF assms]) (use gs in simp)
    ultimately show "gs = filter isGlobalOrSymbol ?U \<and> take k ?U = gs" by simp
  next
    assume gs: "gs = filter isGlobalOrSymbol ?U \<and> take k ?U = gs"
    have "?U ! j = gs ! j \<and> isGlobalOrSymbol (gs ! j)" if j: "j < k" for j
    proof -
      have "gs ! j \<in> set (filter isGlobalOrSymbol ?U)" using gs j assms nth_mem by metis
      moreover have "?U ! j = gs ! j" using gs j by (metis nth_take)
      ultimately show ?thesis by simp
    qed
    then show "mapM (\<lambda>j. get_checked isGlobalOrSymbol MI (?n + j)) [0..<k] = Some gs"
      using at gs assms by (simp add: mapM_checked_iff)
  qed
qed

lemma rewrite_imms:
  assumes "k = length (filter isImmOrCImm (uses D MI))"
  shows "mapM (\<lambda>j. get_checked isImmOrCImm MI (length (operands MI) - k + j)) [0..<k] = Some is \<longleftrightarrow>
    is = filter isImmOrCImm (uses D MI) \<and> drop (length (uses D MI) - k) (uses D MI) = is"
proof -
  let ?U = "uses D MI" and ?n = "NumDefs D (getOpcode MI)"
  have k: "k \<le> length ?U" by (simp add: assms)
  have at: "length (operands MI) - k + j < length (operands MI) \<and>
      operands MI ! (length (operands MI) - k + j) = ?U ! (length ?U - k + j)" if "j < k" for j
  proof -
    have n: "?n + k \<le> length (operands MI)" using that k by (simp add: uses_def)
    then show ?thesis using that by (simp add: uses_def)
  qed
  show ?thesis
  proof
    assume "mapM (\<lambda>j. get_checked isImmOrCImm MI (length (operands MI) - k + j)) [0..<k] = Some is"
    then have "is": "length is = k" "\<forall>j < k. ?U ! (length ?U - k + j) = is ! j \<and> isImmOrCImm (is ! j)"
      using at by (simp_all add: mapM_checked_iff)
    then have "drop (length ?U - k) ?U = is" using k by (intro nth_equalityI) simp_all
    moreover have "drop (length ?U - k) ?U = filter isImmOrCImm ?U" by (rule filter_suffix [OF assms]) (use "is" in simp)
    ultimately show "is = filter isImmOrCImm ?U \<and> drop (length ?U - k) ?U = is" by simp
  next
    assume "is": "is = filter isImmOrCImm ?U \<and> drop (length ?U - k) ?U = is"
    have "?U ! (length ?U - k + j) = is ! j \<and> isImmOrCImm (is ! j)" if j: "j < k" for j
    proof -
      have "is ! j \<in> set (filter isImmOrCImm ?U)" using "is" j assms nth_mem by metis
      moreover have "drop (length ?U - k) ?U ! j = ?U ! (length ?U - k + j)" using k by simp
      ultimately show ?thesis using "is" by simp
    qed
    then show "mapM (\<lambda>j. get_checked isImmOrCImm MI (length (operands MI) - k + j)) [0..<k] = Some is"
      using at "is" assms by (simp add: mapM_checked_iff)
  qed
qed

lemma sform_order_iff:
  "sform_order D MI \<longleftrightarrow>
    take (length (filter isGlobalOrSymbol (uses D MI))) (uses D MI) = filter isGlobalOrSymbol (uses D MI) \<and>
    drop (length (uses D MI) - length (filter isImmOrCImm (uses D MI))) (uses D MI) = filter isImmOrCImm (uses D MI)"
    (is "_ \<longleftrightarrow> take ?g ?U = ?G \<and> drop (length ?U - ?i) ?U = ?I")
proof
  assume "sform_order D MI"
  then obtain mid where U: "?U = ?G @ mid @ ?I" by (auto simp: sform_order_def)
  then have len: "length ?U = ?g + (length mid + ?i)" by (metis length_append)
  have "take ?g (?G @ mid @ ?I) = ?G" by simp
  moreover have "drop (length ?U - ?i) (?G @ mid @ ?I) = ?I" unfolding len by simp
  ultimately show "take ?g ?U = ?G \<and> drop (length ?U - ?i) ?U = ?I" using U by metis
next
  assume *: "take ?g ?U = ?G \<and> drop (length ?U - ?i) ?U = ?I"
  have "?g + ?i \<le> length ?U"
    by (rule two_kinds) (auto elim: isImmOrCImm.elims)
  then have d: "drop (length ?U - ?i - ?g) (drop ?g ?U) = drop (length ?U - ?i) ?U" by simp
  have "?U = take ?g ?U @ drop ?g ?U" by simp
  also have "drop ?g ?U = take (length ?U - ?i - ?g) (drop ?g ?U) @ drop (length ?U - ?i - ?g) (drop ?g ?U)"
    by (rule append_take_drop_id [symmetric])
  also note d
  finally have "?U = ?G @ take (length ?U - ?i - ?g) (drop ?g ?U) @ ?I"
    unfolding * [THEN conjunct1] * [THEN conjunct2] .
  then show "sform_order D MI" unfolding sform_order_def by (rule exI)
qed

lemma rewrite_operands:
  assumes "RegForm2SForm D (getOpcode MI) = Some NewOpcode" "getOpcode MI \<noteq> PUSHCONT_MBB"
  shows "sform_order D MI \<longrightarrow>
      (\<exists>N. rewriteToSForm D MI c s =
         Some ((if NewOpcode = PUSH_GLOBAL_ADDRESS_S
                then map (\<lambda>g. mk_instr PUSHCONT_LABEL [g]) (filter isGlobalOrSymbol (uses D MI)) else []) @ [N],
               filterByDeadDefs D MI s) \<and>
       getOpcode N = NewOpcode \<and>
       operands N = (if NewOpcode = PUSH_GLOBAL_ADDRESS_S then [] else filter isGlobalOrSymbol (uses D MI)) @
         filter isImmOrCImm (uses D MI) \<and>
       sourceRegs N = Some (map getReg (filter isReg (operands MI))))"
    and "\<not> sform_order D MI \<longrightarrow> rewriteToSForm D MI c s = None"
proof -
  let ?g = "length (filter isGlobalOrSymbol (uses D MI))" and ?i = "length (filter isImmOrCImm (uses D MI))"
  let ?gs = "mapM (\<lambda>j. get_checked isGlobalOrSymbol MI (NumDefs D (getOpcode MI) + j)) [0..<?g]"
  let ?is = "mapM (\<lambda>j. get_checked isImmOrCImm MI (length (operands MI) - ?i + j)) [0..<?i]"
  note gi = rewrite_globals [OF refl, where D = D and MI = MI] rewrite_imms [OF refl, where D = D and MI = MI]
  show "sform_order D MI \<longrightarrow>
      (\<exists>N. rewriteToSForm D MI c s =
         Some ((if NewOpcode = PUSH_GLOBAL_ADDRESS_S
                then map (\<lambda>g. mk_instr PUSHCONT_LABEL [g]) (filter isGlobalOrSymbol (uses D MI)) else []) @ [N],
               filterByDeadDefs D MI s) \<and>
       getOpcode N = NewOpcode \<and>
       operands N = (if NewOpcode = PUSH_GLOBAL_ADDRESS_S then [] else filter isGlobalOrSymbol (uses D MI)) @
         filter isImmOrCImm (uses D MI) \<and>
       sourceRegs N = Some (map getReg (filter isReg (operands MI))))"
  proof
    assume "sform_order D MI"
    then have gs: "?gs = Some (filter isGlobalOrSymbol (uses D MI))" and "is": "?is = Some (filter isImmOrCImm (uses D MI))"
      using gi by (simp_all add: sform_order_iff)
    show "\<exists>N. rewriteToSForm D MI c s =
         Some ((if NewOpcode = PUSH_GLOBAL_ADDRESS_S
                then map (\<lambda>g. mk_instr PUSHCONT_LABEL [g]) (filter isGlobalOrSymbol (uses D MI)) else []) @ [N],
               filterByDeadDefs D MI s) \<and>
       getOpcode N = NewOpcode \<and>
       operands N = (if NewOpcode = PUSH_GLOBAL_ADDRESS_S then [] else filter isGlobalOrSymbol (uses D MI)) @
         filter isImmOrCImm (uses D MI) \<and>
       sourceRegs N = Some (map getReg (filter isReg (operands MI)))"
      unfolding rewriteToSForm_def Let_def assms(1) option.case gs Option.bind.simps if_not_P [OF assms(2)] "is"
      by (auto simp: setStackModelSourceRegs_def addStackModelComment_def mk_instr_def)
  qed
  show "\<not> sform_order D MI \<longrightarrow> rewriteToSForm D MI c s = None"
  proof
    assume "\<not> sform_order D MI"
    have "?gs = None \<or> ?is = None"
    proof (rule ccontr)
      assume "\<not> (?gs = None \<or> ?is = None)"
      then obtain gs "is" where "?gs = Some gs" "?is = Some is" by (cases ?gs; cases ?is) simp_all
      then have "sform_order D MI" using gi(1) [of gs] gi(2) [of "is"] by (simp add: sform_order_iff)
      then show False using \<open>\<not> sform_order D MI\<close> by blast
    qed
    then show "rewriteToSForm D MI c s = None"
      unfolding rewriteToSForm_def Let_def assms(1) option.case if_not_P [OF assms(2)]
      by (cases ?gs; cases ?is) (simp_all only: Option.bind.simps option.distinct simp_thms)
  qed
qed

text \<open>The exception: a push of a block keeps the block.\<close>

lemma rewrite_pushcont:
  assumes "RegForm2SForm D (getOpcode MI) = Some NewOpcode" "getOpcode MI = PUSHCONT_MBB"
    and "filter isGlobalOrSymbol (uses D MI) = []" "getOperand MI 1 = Some m"
  shows "\<exists>N. rewriteToSForm D MI c s = Some ([N], filterByDeadDefs D MI s) \<and> getOpcode N = NewOpcode \<and>
    operands N = [m] \<and> sourceRegs N = Some (map getReg (filter isReg (operands MI)))"
  using assms by (simp add: rewriteToSForm_def setStackModelSourceRegs_def addStackModelComment_def mk_instr_def Let_def)

lemma reversed_score:
  assumes "reversed MI s lo tail = Some (Some N)"
  shows "\<exists>opc d a b. map_of OpcodeMap (getOpcode MI) = Some opc \<and> getOpcode N = opc \<and>
     getOperand MI 0 = Some d \<and> getOperand MI 1 = Some a \<and> getOperand MI 2 = Some b \<and>
     map getReg (take 3 (operands N)) = [getReg d, getReg b, getReg a] \<and>
     (\<exists>o1 o2. score s (getReg a) (lo + 1) (getReg b) lo = Some o1 \<and>
        score s (getReg b) (lo + 1) (getReg a) lo = Some o2 \<and> o1 < o2)"
proof -
  obtain d a b o1 o2 opc t where x: "get_checked isReg MI 0 = Some d" "get_checked isReg MI 1 = Some a"
      "get_checked isReg MI 2 = Some b" "score s (getReg a) (lo + 1) (getReg b) lo = Some o1"
      "score s (getReg a) lo (getReg b) (lo + 1) = Some o2" "o1 < o2"
      "map_of OpcodeMap (getOpcode MI) = Some opc" "tail MI = Some t"
      "N = mk_instr opc ([MO_Register (getReg d) False False,
         MO_Register (getReg b) False False, MO_Register (getReg a) False False] @ t)"
    using assms by (auto simp: reversed_def bind_eq_Some_conv split: if_splits)
  moreover have "score s (getReg b) (lo + 1) (getReg a) lo = score s (getReg a) lo (getReg b) (lo + 1)"
    by (cases "Stack_position s (getReg a)"; cases "Stack_position s (getReg b)")
       (simp_all add: score_def)
  ultimately show ?thesis
    by (auto simp: get_checked_def bind_eq_Some_conv mk_instr_def split: if_splits)
qed

text \<open>
  optimizeReversible replaces an instruction only by its reversed opcode with the two operands
  exchanged, and only when more of them already lie in their place: the two topmost slots for the last
  two operands, the second and the third for STIX and STUX.
\<close>

lemma optimizeReversible_gains:
  assumes "optimizeReversible MI s = Some (Some N)"
    and lo: "lo = (if getOpcode MI = STIX \<or> getOpcode MI = STUX then 1 else 0)"
  shows "\<exists>opc d a b o1 o2. map_of OpcodeMap (getOpcode MI) = Some opc \<and> getOpcode N = opc \<and>
     getOperand MI 0 = Some d \<and> getOperand MI 1 = Some a \<and> getOperand MI 2 = Some b \<and>
     map getReg (take 3 (operands N)) = [getReg d, getReg b, getReg a] \<and>
     score s (getReg a) (lo + 1) (getReg b) lo = Some o1 \<and>
     score s (getReg b) (lo + 1) (getReg a) lo = Some o2 \<and> o1 < o2"
proof -
  obtain tail where tail: "reversed MI s lo tail = Some (Some N)"
    using assms(1) unfolding lo by (auto simp: optimizeReversible_def bind_eq_Some_conv split: if_splits)
  from reversed_score [OF tail] show ?thesis
    by (elim exE conjE) (intro exI conjI; assumption)
qed

end
