(* ===== verification/TVM_Peephole.thy ===== *)
theory TVM_Peephole
  imports TVM_InstrGen
begin

text \<open>
  The pass TVMPeephole (TVMPeephole.cpp): combining drops and pushes, shorter forms, implicit returns,
  inlining of jump targets, and the simplification of IFELSE. A function is the list of its blocks in
  layout order; a block operand is a position in that list.
\<close>

section \<open>The model\<close>

type_synonym Block = "MachineInstr list"
type_synonym Function = "Block list"

definition BlkPushLimit :: nat where "BlkPushLimit = 15"

definition opd_imm :: "MachineInstr \<Rightarrow> nat \<Rightarrow> int option" where
  "opd_imm MI i = do { opd \<leftarrow> getOperand MI i; getImm opd }"

definition is_pop :: "int \<Rightarrow> MachineInstr \<Rightarrow> bool" where
  "is_pop i MI \<longleftrightarrow> getOpcode MI = POP \<and> opd_imm MI 0 = Some i"

subsection \<open>Drops\<close>

text \<open>
  A run of two or more drops becomes one BLKDROP, built in front of the instruction behind the run;
  that instruction is dereferenced, so the run may not end the block.
\<close>

function runBlkDropCombine :: "Block \<Rightarrow> Block option" where
  "runBlkDropCombine [] = Some []"
| "runBlkDropCombine (MI # rest) =
     (let run = takeWhile (is_pop 0) (MI # rest); after = dropWhile (is_pop 0) (MI # rest)
      in if length run > 1
         then do {
           check (after \<noteq> []);
           B \<leftarrow> runBlkDropCombine after;
           Some (mk_instr BLKDROP [imm (length run)] # B) }
         else map_option ((#) MI) (runBlkDropCombine rest))"
  by pat_completeness auto
termination
proof (relation "measure length")
  fix MI :: MachineInstr and rest run after
  assume a: "after = dropWhile (is_pop 0) (MI # rest)" "run = takeWhile (is_pop 0) (MI # rest)"
    "1 < length run"
  then have "is_pop 0 MI" by (auto split: if_splits)
  with a show "(after, MI # rest) \<in> measure length"
    by (simp add: length_dropWhile_le less_Suc_eq_le)
qed simp_all

subsection \<open>Pushes\<close>

text \<open>How many of the instructions behind the first one continue the sequence.\<close>

fun push_scan :: "int option \<Rightarrow> nat \<Rightarrow> nat \<Rightarrow> Block \<Rightarrow> nat option" where
  "push_scan cv Reg sz [] = Some 0"
| "push_scan cv Reg sz (MI # rest) =
     (if sz = BlkPushLimit then Some 0
      else if getOpcode MI = PUSH
      then do {
        i \<leftarrow> opd_imm MI 0;
        let R = nat (i mod 2 ^ 32);
        if R > BlkPushLimit then Some 0
        else if cv \<noteq> None \<and> R \<ge> sz then Some 0
        else if cv = None \<and> R \<noteq> Reg + sz then Some 0
        else map_option Suc (push_scan cv Reg (sz + 1) rest) }
      else if getOpcode MI = CONST_I257_S \<or> getOpcode MI = CONST_U257_S
      then do {
        opd \<leftarrow> getOperand MI 0; c \<leftarrow> getCImm opd;
        if cv \<noteq> Some c then Some 0
        else map_option Suc (push_scan cv Reg (sz + 1) rest) }
      else Some 0)"

function runBlkPushCombine :: "Block \<Rightarrow> Block option" where
  "runBlkPushCombine [] = Some []"
| "runBlkPushCombine (MI # rest) =
     (if getOpcode MI = PUSH
      then (case opd_imm MI 0 of
              None \<Rightarrow> None
            | Some i \<Rightarrow>
                (let R = nat (i mod 2 ^ 32)
                 in if R > BlkPushLimit then map_option ((#) MI) (runBlkPushCombine rest)
                    else (case push_scan None R 1 rest of
                            None \<Rightarrow> None
                          | Some k \<Rightarrow>
                              if k + 1 > 1
                              then (if drop k rest = [] then None
                                    else map_option ((#) (mk_instr BLKPUSH [imm (k + 1), imm R]))
                                           (runBlkPushCombine (drop k rest)))
                              else map_option ((#) MI) (runBlkPushCombine rest))))
      else if getOpcode MI = CONST_I257_S
      then (case getOperand MI 0 \<bind> getCImm of
              None \<Rightarrow> None
            | Some c \<Rightarrow>
                (case push_scan (Some c) UnusedReg 0 rest of
                   None \<Rightarrow> None
                 | Some k \<Rightarrow>
                     if k > 1
                     then (if drop k rest = [] then None
                           else map_option (\<lambda>B. MI # mk_instr BLKPUSH [imm k, imm 0] # B)
                                  (runBlkPushCombine (drop k rest)))
                     else map_option ((#) MI) (runBlkPushCombine rest)))
      else map_option ((#) MI) (runBlkPushCombine rest))"
  by pat_completeness auto
termination by (relation "measure length") auto

subsection \<open>Shorter forms\<close>

definition shorter_form :: "MachineInstr \<Rightarrow> Opcode option" where
  "shorter_form MI =
     (if getOpcode MI = BLKDROP \<and> opd_imm MI 0 = Some 2 then Some DROP2
      else if getOpcode MI = PUSH2 \<and> opd_imm MI 0 = Some 1 \<and> opd_imm MI 1 = Some 0 then Some DUP2
      else if getOpcode MI = PUSH2 \<and> opd_imm MI 0 = Some 3 \<and> opd_imm MI 1 = Some 2 then Some OVER2
      else if getOpcode MI = BLKSWAP \<and> opd_imm MI 0 = Some 1 \<and> opd_imm MI 1 = Some 2 then Some ROT
      else if getOpcode MI = BLKSWAP \<and> opd_imm MI 0 = Some 2 \<and> opd_imm MI 1 = Some 1 then Some ROTREV
      else if getOpcode MI = ROLLREV \<and> opd_imm MI 0 = Some 2 then Some ROTREV
      else if getOpcode MI = XC2PU \<and> opd_imm MI 0 = Some 0 \<and> opd_imm MI 1 = Some 0 \<and>
              opd_imm MI 2 = Some 1 then Some TUCK
      else None)"

definition runReplaceWithShorterForm :: "Block \<Rightarrow> Block" where
  "runReplaceWithShorterForm B =
     map (\<lambda>MI. case shorter_form MI of None \<Rightarrow> MI | Some opc \<Rightarrow> mk_instr opc []) B"

subsection \<open>Returns\<close>

definition MaybeOptimizeReturn :: "bool \<Rightarrow> nat \<Rightarrow> Function \<Rightarrow> Function option" where
  "MaybeOptimizeReturn disableReturnOpt b F =
     (if disableReturnOpt then None
      else if b + 1 \<noteq> length F then None
      else Some (F[b := butlast (F ! b) @ [mk_instr FALLTHROUGH_RETURN []]]))"

text \<open>None means that nothing has changed, as for the passes below.\<close>

definition runImplicitReturnOptimization ::
  "MCInstrInfo \<Rightarrow> bool \<Rightarrow> nat \<Rightarrow> Function \<Rightarrow> Function option" where
  "runImplicitReturnOptimization D disableReturnOpt b F =
     (if F ! b = [] then None
      else if descReturn D (getOpcode (last (F ! b)))
      then MaybeOptimizeReturn disableReturnOpt b F else None)"

subsection \<open>Inlining the target of a jump\<close>

text \<open>
  The block read backwards: a JMPX_S, then drops of the element below the top, then the push of a
  block. The result is the number of those drops, the code before the push, and the block.
\<close>

definition jump_shape :: "Block \<Rightarrow> (nat \<times> Block \<times> nat) option" where
  "jump_shape B =
     (case rev B of
        [] \<Rightarrow> None
      | JmpX # before \<Rightarrow>
          if getOpcode JmpX \<noteq> JMPX_S then None
          else (let stackOps = takeWhile (is_pop 1) before; back = dropWhile (is_pop 1) before
                in case back of
                     [] \<Rightarrow> None
                   | PushCont # pre \<Rightarrow>
                       if getOpcode PushCont \<noteq> PUSHCONT_MBB_S then None
                       else (case getOperand PushCont 0 \<bind> getMBB of
                               None \<Rightarrow> None
                             | Some c \<Rightarrow> Some (length stackOps, rev pre, c))))"

definition clone :: "MachineInstr \<Rightarrow> MachineInstr" where
  "clone MI = cloneMachineInstrIntermediateData MI (mk_instr (getOpcode MI) (operands MI))"

definition pop0 :: MachineInstr where
  "pop0 = clearIntermediateData (mk_instr POP [imm 0])"

text \<open>
  Copying a block behind itself would not end, so a block that jumps to itself has no result
  (the outer None); Some None is "no change".
\<close>

definition runMbbInlineOptimization :: "nat \<Rightarrow> Function \<Rightarrow> Function option option" where
  "runMbbInlineOptimization b F =
     (case jump_shape (F ! b) of
        None \<Rightarrow> Some None
      | Some (k, pre, c) \<Rightarrow>
          if c = b \<or> c \<ge> length F then None
          else Some (Some (F[b := pre @ replicate k pop0 @ map clone (F ! c)])))"

partial_function (option) inline_loop :: "nat \<Rightarrow> Function \<Rightarrow> Function option" where
  "inline_loop b F =
     (case runMbbInlineOptimization b F of
        None \<Rightarrow> None
      | Some None \<Rightarrow> Some F
      | Some (Some F') \<Rightarrow> inline_loop b F')"

declare inline_loop.simps [code]

subsection \<open>IFELSE\<close>

definition pattern_direct :: "(Opcode \<times> int list) list" where
  "pattern_direct = [(PUSHCONT_MBB_S, []), (PUSHCONT_MBB_S, []), (PUSHCONT_MBB_S, []),
     (ROLL, [3]), (BLKSWAP, [2, 2]), (XCHG_TOP, [1]), (IFELSE_S, [])]"

definition pattern_swapped :: "(Opcode \<times> int list) list" where
  "pattern_swapped = [(PUSHCONT_MBB_S, []), (PUSHCONT_MBB_S, []), (PUSHCONT_MBB_S, []),
     (BLKSWAP, [2, 4]), (XCHG_TOP, [1]), (ROLL, [2]), (ROLL, [5]), (BLKSWAP, [2, 4]),
     (XCHG_TOP, [1]), (IFELSE_S, [])]"

definition cont_operand :: "MachineInstr \<Rightarrow> nat option" where
  "cont_operand MI = do { opd \<leftarrow> getOperand MI 0; getMBB opd }"

definition ends_in_jump :: "Block \<Rightarrow> bool" where
  "ends_in_jump B \<longleftrightarrow> B \<noteq> [] \<and> getOpcode (last B) = JMPX_S"

definition jump_reg :: "Block \<Rightarrow> nat option" where
  "jump_reg B = (case sourceRegs (last B) of Some (r # rs) \<Rightarrow> Some r | _ \<Rightarrow> None)"

definition with_return :: "Block \<Rightarrow> Block" where
  "with_return B = butlast B @ [clearIntermediateData (mk_instr FALLTHROUGH_RETURN [])]"

text \<open>
  The continuation C that both branches jump to is copied behind the IFELSE, the branches return
  instead, and a null takes the place of C; then and else are swapped. The continuations must be
  blocks of their own (the copy loop and the erasures need that). The iterator is left on the push
  of B; Some None is "no change".
\<close>

definition runIfElseInlining :: "nat \<Rightarrow> nat \<Rightarrow> Function \<Rightarrow> (nat \<times> Function) option option" where
  "runIfElseInlining It b F =
     (let MBB = F ! b;
          found = (case match_all MBB It pattern_direct of
                     Some e \<Rightarrow> Some (e, False)
                   | None \<Rightarrow> (case match_all MBB It pattern_swapped of
                                Some e \<Rightarrow> Some (e, True) | None \<Rightarrow> None))
      in case found of
           None \<Rightarrow> Some None
         | Some (e, NeedSwap) \<Rightarrow> do {
             ContA \<leftarrow> cont_operand (MBB ! It);
             ContB \<leftarrow> cont_operand (MBB ! (It + 1));
             ContC \<leftarrow> cont_operand (MBB ! (It + 2));
             check (ContA < length F \<and> ContB < length F \<and> ContC < length F);
             if F ! ContA = [] \<or> F ! ContB = [] then Some None
             else if \<not> ends_in_jump (F ! ContA) \<or> \<not> ends_in_jump (F ! ContB) then Some None
             else (case (jump_reg (F ! ContA), jump_reg (F ! ContB)) of
                     (Some ra, Some rb) \<Rightarrow>
                       if ra \<noteq> rb then Some None
                       else do {
                         check (ContA \<noteq> ContB \<and> ContA \<noteq> b \<and> ContB \<noteq> b \<and> ContC \<noteq> b);
                         let swap = [clearIntermediateData (mk_instr XCHG_TOP [imm 1])];
                         let MBB' = take It MBB @
                           clearIntermediateData (mk_instr PUSHNULL_S []) # swap @
                           [MBB ! (It + 1), MBB ! It, MBB ! (e - 1), pop0] @
                           (if NeedSwap then swap else []) @
                           map clone (F ! ContC) @ drop e MBB;
                         Some (Some (It + 2, F[b := MBB', ContA := with_return (F ! ContA),
                                               ContB := with_return (F ! ContB)])) }
                   | _ \<Rightarrow> Some None) })"

definition isContinuationEmpty :: "Block \<Rightarrow> bool" where
  "isContinuationEmpty MBB \<longleftrightarrow>
     (if MBB = [] then True else if length MBB > 1 then False
      else getOpcode (last MBB) = FALLTHROUGH_RETURN)"

definition pattern_branches :: "(Opcode \<times> int list) list" where
  "pattern_branches = [(PUSHCONT_MBB_S, []), (PUSHCONT_MBB_S, []), (IFELSE_S, [])]"

definition runIfElseEmptyBranchRemoving ::
  "nat \<Rightarrow> nat \<Rightarrow> Function \<Rightarrow> (nat \<times> Function) option option" where
  "runIfElseEmptyBranchRemoving It b F =
     (let MBB = F ! b
      in case match_all MBB It pattern_branches of
           None \<Rightarrow> Some None
         | Some e \<Rightarrow> do {
             ContA \<leftarrow> cont_operand (MBB ! It);
             ContB \<leftarrow> cont_operand (MBB ! (It + 1));
             check (ContA < length F \<and> ContB < length F);
             let ContAEmpty = isContinuationEmpty (F ! ContA);
             let ContBEmpty = isContinuationEmpty (F ! ContB);
             Some (if ContAEmpty \<and> ContBEmpty
                   then Some (It + 1, F[b := take It MBB @ [pop0] @ drop e MBB])
                   else if ContAEmpty
                   then Some (It, F[b := take It MBB @
                     [MBB ! (It + 1), clearIntermediateData (mk_instr IFNOT_S [])] @ drop e MBB])
                   else if ContBEmpty
                   then Some (It, F[b := take It MBB @
                     [MBB ! It, clearIntermediateData (mk_instr IF_S [])] @ drop e MBB])
                   else None) })"

partial_function (option) ifelse_loop :: "nat \<Rightarrow> nat \<Rightarrow> bool \<Rightarrow> Function \<Rightarrow> (bool \<times> Function) option" where
  "ifelse_loop It b Changed F =
     (if It \<ge> length (F ! b) then Some (Changed, F)
      else case runIfElseInlining It b F of
             None \<Rightarrow> None
           | Some (Some (It', F')) \<Rightarrow> ifelse_loop It' b True F'
           | Some None \<Rightarrow>
               (case runIfElseEmptyBranchRemoving It b F of
                  None \<Rightarrow> None
                | Some (Some (It', F')) \<Rightarrow> ifelse_loop It' b True F'
                | Some None \<Rightarrow> ifelse_loop (It + 1) b Changed F))"

declare ifelse_loop.simps [code]

subsection \<open>The pass\<close>

record PeepholeOptions =
  DisableReturnOpt :: bool
  DisableIfElseOpt :: bool
  DisableDropOpt :: bool
  DisableBlkPushOpt :: bool
  DisableShorterFormOpt :: bool

definition runOnMachineBasicBlock ::
  "MCInstrInfo \<Rightarrow> PeepholeOptions \<Rightarrow> nat \<Rightarrow> Function \<Rightarrow> Function option" where
  "runOnMachineBasicBlock D opts b F = do {
     F1 \<leftarrow> inline_loop b F;
     let F2 = (case runImplicitReturnOptimization D (DisableReturnOpt opts) b F1 of
                 None \<Rightarrow> F1 | Some F' \<Rightarrow> F');
     B3 \<leftarrow> (if DisableDropOpt opts then Some (F2 ! b) else runBlkDropCombine (F2 ! b));
     B4 \<leftarrow> (if DisableBlkPushOpt opts then Some B3 else runBlkPushCombine B3);
     let B5 = (if DisableShorterFormOpt opts then B4 else runReplaceWithShorterForm B4);
     Some (F2[b := B5]) }"

definition runIfElseOptimization :: "PeepholeOptions \<Rightarrow> nat \<Rightarrow> Function \<Rightarrow> (bool \<times> Function) option" where
  "runIfElseOptimization opts b F =
     (if DisableIfElseOpt opts then Some (False, F) else ifelse_loop 0 b False F)"

definition Peephole_run :: "MCInstrInfo \<Rightarrow> PeepholeOptions \<Rightarrow> Function \<Rightarrow> Function option" where
  "Peephole_run D opts F = do {
     F1 \<leftarrow> foldM (runOnMachineBasicBlock D opts) [0..<length F] F;
     foldM (\<lambda>b G. map_option snd (runIfElseOptimization opts b G)) [0..<length F1] F1 }"

section \<open>The effect of straight-line code\<close>

text \<open>
  The reference semantics: the stack instructions perform their change, a constant pushes its
  value, the short forms are the change they stand for in the
  instruction set, and other is what everything else does.
\<close>

definition short_table :: "(Opcode \<times> Change) list" where
  "short_table = [(DROP2, blkdrop 2), (DUP2, push2 1 0), (OVER2, push2 3 2), (ROT, blkswap 1 2),
     (ROTREV, blkswap 2 1), (TUCK, xc2pu 0 0 1)]"

text \<open>BLKPUSH n j is PUSH j performed n times.\<close>

fun blkpush :: "nat \<Rightarrow> nat \<Rightarrow> Stack \<Rightarrow> Stack option" where
  "blkpush 0 j s = Some s"
| "blkpush (Suc n) j s = (if j < length s then blkpush n j (s ! j # s) else None)"

definition exec_instr ::
  "(int \<Rightarrow> nat) \<Rightarrow> (MachineInstr \<Rightarrow> Stack \<Rightarrow> Stack option) \<Rightarrow> MachineInstr \<Rightarrow> Stack \<Rightarrow> Stack option" where
  "exec_instr val other MI s =
     (if getOpcode MI = CONST_I257_S \<or> getOpcode MI = CONST_U257_S
      then do { opd \<leftarrow> getOperand MI 0; c \<leftarrow> getCImm opd; Some (val c # s) }
      else if getOpcode MI = BLKPUSH
      then do {
        n \<leftarrow> opd_imm MI 0; j \<leftarrow> opd_imm MI 1;
        blkpush (nat n) (nat j) s }
      else (case map_of short_table (getOpcode MI) of
              Some c \<Rightarrow> apply_change c s
            | None \<Rightarrow>
                (case map_of reading_table (getOpcode MI) of
                   Some f \<Rightarrow> do { ns \<leftarrow> mapM nat_opd (operands MI); c \<leftarrow> f ns; apply_change c s }
                 | None \<Rightarrow> other MI s)))"

definition exec_block ::
  "(int \<Rightarrow> nat) \<Rightarrow> (MachineInstr \<Rightarrow> Stack \<Rightarrow> Stack option) \<Rightarrow> Block \<Rightarrow> Stack \<Rightarrow> Stack option" where
  "exec_block val other = foldM (exec_instr val other)"

interpretation block: step_runner "exec_instr val other" "exec_block val other" for val other
  by unfold_locales (simp_all add: exec_block_def)

lemma exec_pop0:
  "is_pop 0 MI \<Longrightarrow> length (operands MI) = 1 \<Longrightarrow>
   exec_instr val other MI s = (case s of [] \<Rightarrow> None | x # t \<Rightarrow> Some t)"
  by (cases s) (auto simp: is_pop_def opd_imm_def getOperand_def exec_instr_def short_table_def
      reading_table_def nat_opd_def length_Suc_conv split: MachineOperand.splits if_splits
      elim!: getImm.elims)

lemma exec_drops:
  "\<forall>MI \<in> set run. is_pop 0 MI \<and> length (operands MI) = 1 \<Longrightarrow>
   exec_block val other run s = (if length run \<le> length s then Some (drop (length run) s) else None)"
proof (induction run arbitrary: s)
  case Nil
  then show ?case by (simp add: block.run_Nil)
next
  case (Cons MI run)
  then show ?case by (cases s) (simp_all add: block.run_Cons exec_pop0)
qed

lemma exec_blkdrop:
  "exec_instr val other (mk_instr BLKDROP [imm n]) s = (if n \<le> length s then Some (drop n s) else None)"
  by (simp add: exec_instr_def short_table_def reading_table_def)

lemma runBlkDropCombine_step:
  fixes MI rest
  defines "run \<equiv> takeWhile (is_pop 0) (MI # rest)" and "after \<equiv> dropWhile (is_pop 0) (MI # rest)"
  assumes "runBlkDropCombine (MI # rest) = Some B'"
  obtains (combined) B1 where "1 < length run" "after \<noteq> []" "runBlkDropCombine after = Some B1"
      "B' = mk_instr BLKDROP [imm (length run)] # B1"
    | (kept) B1 where "\<not> 1 < length run" "runBlkDropCombine rest = Some B1" "B' = MI # B1"
  using assms(3) unfolding runBlkDropCombine.simps run_def [symmetric] after_def [symmetric] Let_def
  by (auto simp: bind_eq_Some_conv split: if_splits)

lemma exec_cong:
  "(\<And>t. exec_block val other B1 t = exec_block val other B2 t) \<Longrightarrow>
   exec_block val other (MI # B1) s = exec_block val other (MI # B2) s"
  by (cases "exec_instr val other MI s") (simp_all add: block.run_Cons)

lemma runBlkDropCombine_effect:
  assumes "runBlkDropCombine B = Some B'" "\<forall>MI \<in> set B. getOpcode MI = POP \<longrightarrow> length (operands MI) = 1"
  shows "exec_block val other B' s = exec_block val other B s"
  using assms
proof (induction B arbitrary: B' s rule: length_induct)
  case (1 B)
  show ?case
  proof (cases B)
    case Nil
    with 1 show ?thesis by simp
  next
    case (Cons MI rest)
    let ?run = "takeWhile (is_pop 0) B" and ?after = "dropWhile (is_pop 0) B"
    have split: "?run @ ?after = B" by simp
    from "1.prems"(1) Cons have "runBlkDropCombine (MI # rest) = Some B'" by simp
    then show ?thesis
    proof (cases rule: runBlkDropCombine_step)
      case (combined B1)
      have "length ?after < length B"
        using combined(1) split Cons by (metis One_nat_def Suc_lessD add_diff_cancel_left'
            length_append less_add_same_cancel2)
      moreover have "set ?after \<subseteq> set B" by (meson set_dropWhileD subsetI)
      ultimately have tail: "exec_block val other B1 t = exec_block val other ?after t" for t
        using "1.IH" combined(3) "1.prems"(2) Cons by blast
      have run: "\<forall>N \<in> set ?run. is_pop 0 N \<and> length (operands N) = 1"
        using "1.prems"(2) by (auto dest!: set_takeWhileD simp: is_pop_def)
      have "exec_block val other B' s =
            (if length ?run \<le> length s then Some (drop (length ?run) s) else None) \<bind> exec_block val other B1"
        using combined(4) Cons by (simp add: block.run_Cons exec_blkdrop del: takeWhile.simps)
      also have "\<dots> = exec_block val other (?run @ ?after) s"
        unfolding block.run_append exec_drops [OF run] using tail by simp
      finally show ?thesis unfolding split .
    next
      case (kept B1)
      have "exec_block val other B1 t = exec_block val other rest t" for t
        using "1.IH" kept(2) "1.prems"(2) Cons by simp
      then show ?thesis unfolding kept(3) Cons by (rule exec_cong)
    qed
  qed
qed

text \<open>The sequences of pushes.\<close>

definition push_ok :: "MachineInstr \<Rightarrow> bool" where
  "push_ok MI \<longleftrightarrow>
     (getOpcode MI = PUSH \<longrightarrow> (\<exists>i < 2 ^ 32. operands MI = [imm i])) \<and>
     (getOpcode MI = CONST_I257_S \<or> getOpcode MI = CONST_U257_S \<longrightarrow>
      (\<exists>c. operands MI = [MO_CImmediate c]))"

lemma exec_push:
  assumes "getOpcode MI = PUSH" "operands MI = [imm i]"
  shows "exec_instr val other MI s = (if i < length s then Some (s ! i # s) else None)"
  using assms by (simp add: exec_instr_def short_table_def reading_table_def nat_opd_def imm_def)

lemma exec_const:
  assumes "getOpcode MI = CONST_I257_S \<or> getOpcode MI = CONST_U257_S" "operands MI = [MO_CImmediate c]"
  shows "exec_instr val other MI s = Some (val c # s)"
  using assms by (auto simp: exec_instr_def getOperand_def)

lemma opd_imm_push: "operands MI = [imm i] \<Longrightarrow> opd_imm MI 0 = Some (int i)"
  by (simp add: opd_imm_def getOperand_def imm_def)

lemma nat_mod32: "i < 2 ^ 32 \<Longrightarrow> nat (int i mod 2 ^ 32) = i"
  by simp

lemma blkpush_top: "blkpush n 0 (v # t) = Some (replicate n v @ v # t)"
proof (induction n arbitrary: t)
  case (Suc n)
  have "blkpush (Suc n) 0 (v # t) = Some (replicate n v @ v # v # t)" using Suc by simp
  then show ?case by (simp add: replicate_app_Cons_same)
qed simp

lemma top_copies: "r \<le> n \<Longrightarrow> (replicate n v @ v # t) ! r = v"
  by (simp add: nth_append nth_Cons split: nat.split)

lemma exec_blkpush:
  "exec_instr val other (mk_instr BLKPUSH [imm n, imm j]) s = blkpush n j s"
  by (simp add: exec_instr_def opd_imm_def getOperand_def imm_def)

lemma push_scan_copies:
  assumes "push_scan cv Reg sz rest = Some k" "\<forall>MI \<in> set rest. push_ok MI"
    and "cv = None \<Longrightarrow> Reg = 0" "\<And>c. cv = Some c \<Longrightarrow> v = val c"
  shows "exec_block val other (take k rest) (replicate sz v @ v # t) =
         Some (replicate (sz + k) v @ v # t)"
  using assms
proof (induction rest arbitrary: sz k)
  case Nil
  then show ?case by (simp add: block.run_Nil)
next
  case (Cons MI rest)
  show ?case
  proof (cases k)
    case 0
    then show ?thesis by (simp add: block.run_Nil)
  next
    case (Suc k')
    have ok: "push_ok MI" using Cons.prems(2) by simp
    from Cons.prems(1) Suc have lim: "sz \<noteq> BlkPushLimit" by auto
    consider (push) "getOpcode MI = PUSH" | (cst) "getOpcode MI = CONST_I257_S \<or> getOpcode MI = CONST_U257_S"
      using Cons.prems(1) Suc by (auto split: if_splits)
    then have "exec_instr val other MI (replicate sz v @ v # t) = Some (replicate (Suc sz) v @ v # t) \<and>
               push_scan cv Reg (sz + 1) rest = Some k'"
    proof cases
      case push
      with ok obtain i where i: "i < 2 ^ 32" "operands MI = [imm i]" by (auto simp: push_ok_def)
      with Cons.prems(1) Suc lim push have "i \<le> sz" "push_scan cv Reg (sz + 1) rest = Some k'"
        using Cons.prems(3)
        by (auto simp: opd_imm_push nat_mod32 Let_def split: if_splits)
      then show ?thesis
        using push i(2) by (simp add: exec_push top_copies)
    next
      case cst
      with ok obtain c where c: "operands MI = [MO_CImmediate c]" by (auto simp: push_ok_def)
      with Cons.prems(1) Suc lim cst have "cv = Some c" "push_scan cv Reg (sz + 1) rest = Some k'"
        by (auto simp: getOperand_def split: if_splits)
      then show ?thesis
        using cst c Cons.prems(4) by (simp add: exec_const)
    qed
    note step = this
    have "exec_block val other (take k' rest) (replicate (sz + 1) v @ v # t) =
          Some (replicate (sz + 1 + k') v @ v # t)"
      using Cons.IH [of "sz + 1" k'] step Cons.prems(2-4) by simp
    then show ?thesis using step Suc by (simp add: block.run_Cons)
  qed
qed

lemma runBlkPushCombine_step:
  assumes "runBlkPushCombine (MI # rest) = Some B'" "push_ok MI"
  obtains (kept) B1 where "runBlkPushCombine rest = Some B1" "B' = MI # B1"
    | (push) k B1 i where "getOpcode MI = PUSH" "operands MI = [imm i]" "i < 2 ^ 32"
        "push_scan None i 1 rest = Some k" "runBlkPushCombine (drop k rest) = Some B1"
        "B' = mk_instr BLKPUSH [imm (k + 1), imm i] # B1"
    | (cst) k B1 c where "getOpcode MI = CONST_I257_S" "operands MI = [MO_CImmediate c]"
        "push_scan (Some c) UnusedReg 0 rest = Some k" "runBlkPushCombine (drop k rest) = Some B1"
        "B' = MI # mk_instr BLKPUSH [imm k, imm 0] # B1"
proof -
  consider (a) "getOpcode MI = PUSH" | (b) "getOpcode MI = CONST_I257_S"
    | (c) "getOpcode MI \<noteq> PUSH" "getOpcode MI \<noteq> CONST_I257_S" by blast
  then show thesis
  proof cases
    case a
    with assms(2) obtain i where i: "i < 2 ^ 32" "operands MI = [imm i]" by (auto simp: push_ok_def)
    have j: "nat (int i mod 4294967296) = i" using i(1) by simp
    show thesis
      using assms(1) a kept push [OF a i(2,1)]
      by (auto simp: opd_imm_push [OF i(2)] j Let_def split: if_splits option.splits)
  next
    case b
    with assms(2) obtain c where c: "operands MI = [MO_CImmediate c]" by (auto simp: push_ok_def)
    show thesis
      using assms(1) b kept cst [OF b c]
      by (auto simp: getOperand_def c split: if_splits option.splits)
  next
    case c
    then show thesis using assms(1) kept by auto
  qed
qed

lemma runBlkPushCombine_effect:
  assumes "runBlkPushCombine B = Some B'" "\<forall>MI \<in> set B. push_ok MI \<and> getOpcode MI \<noteq> BLKPUSH"
    and "\<forall>MI \<in> set B'. getOpcode MI = BLKPUSH \<longrightarrow> opd_imm MI 1 = Some 0"
  shows "exec_block val other B' s = exec_block val other B s"
  using assms
proof (induction B arbitrary: B' s rule: length_induct)
  case (1 B)
  show ?case
  proof (cases B)
    case Nil
    with 1 show ?thesis by simp
  next
    case (Cons MI rest)
    have ok: "push_ok MI" "\<forall>MI \<in> set rest. push_ok MI" using "1.prems"(2) Cons by auto
    have IH: "exec_block val other B1 t = exec_block val other (drop k rest) t"
      if "runBlkPushCombine (drop k rest) = Some B1" "set B1 \<subseteq> set B'" for B1 k t
    proof -
      have "length (drop k rest) < length B" using Cons by simp
      moreover have "\<forall>MI \<in> set (drop k rest). push_ok MI \<and> getOpcode MI \<noteq> BLKPUSH"
        using "1.prems"(2) Cons by (auto dest: in_set_dropD)
      moreover have "\<forall>MI \<in> set B1. getOpcode MI = BLKPUSH \<longrightarrow> opd_imm MI 1 = Some 0"
        using "1.prems"(3) that(2) by blast
      ultimately show ?thesis using "1.IH" that(1) by blast
    qed
    from "1.prems"(1) Cons have "runBlkPushCombine (MI # rest) = Some B'" by simp
    then show ?thesis using ok(1)
    proof (cases rule: runBlkPushCombine_step)
      case (kept B1)
      then show ?thesis using IH [of 0 B1] unfolding Cons kept(2) by (intro exec_cong) auto
    next
      case (push k B1 i)
      have "opd_imm (mk_instr BLKPUSH [imm (k + 1), imm i]) 1 = Some 0"
        using "1.prems"(3) push(6) by simp
      then have i: "i = 0" by (simp add: opd_imm_def getOperand_def imm_def)
      have tail: "exec_block val other B1 t = exec_block val other (drop k rest) t" for t
        using IH push(5,6) by auto
      show ?thesis
      proof (cases s)
        case Nil
        then show ?thesis unfolding push(6) Cons block.run_Cons exec_push [OF push(1,2)]
          by (simp add: exec_blkpush)
      next
        case (Cons v t)
        note s = this
        have "exec_block val other B s = exec_block val other (take k rest @ drop k rest) (v # s)"
          using push(1,2) \<open>B = MI # rest\<close> s i by (simp add: block.run_Cons exec_push)
        also have "\<dots> = exec_block val other (drop k rest) (replicate (Suc k) v @ v # t)"
          using push_scan_copies [OF push(4) ok(2), of v val other t] i s
          by (simp add: block.run_append del: append_take_drop_id)
        also have "\<dots> = exec_block val other B' s"
          unfolding push(6) block.run_Cons exec_blkpush i s by (simp add: blkpush_top tail)
        finally show ?thesis by simp
      qed
    next
      case (cst k B1 c)
      have tail: "exec_block val other B1 t = exec_block val other (drop k rest) t" for t
        using IH cst(4,5) by auto
      have "exec_block val other B s = exec_block val other (take k rest @ drop k rest) (val c # s)"
        using cst(1,2) Cons by (simp add: block.run_Cons exec_const)
      also have "\<dots> = exec_block val other (drop k rest) (replicate k (val c) @ val c # s)"
        using push_scan_copies [OF cst(3) ok(2), of "val c" val other s]
        by (simp add: block.run_append del: append_take_drop_id)
      also have "\<dots> = exec_block val other B' s"
        using cst(1,2) unfolding cst(5) block.run_Cons by (simp add: exec_const exec_blkpush blkpush_top tail)
      finally show ?thesis by simp
    qed
  qed
qed

text \<open>A sequence of pushes that starts below the top copies one element, BLKPUSH pushes different ones.\<close>

lemma runBlkPushCombine_shifted:
  assumes "0 < r" "r < 15" "r + 1 < length s" "distinct s"
    and "B = [mk_instr PUSH [imm r], mk_instr PUSH [imm (r + 1)], mk_instr POP [imm 0]]"
  shows "\<exists>B'. runBlkPushCombine B = Some B' \<and>
     exec_block val other (butlast B') s \<noteq> exec_block val other (butlast B) s"
proof -
  let ?B' = "[mk_instr BLKPUSH [imm 2, imm r], mk_instr POP [imm 0]]"
  have "runBlkPushCombine B = Some ?B'"
    using assms(2) nat_mod32 [of r] nat_mod32 [of "r + 1"]
    by (simp add: assms(5) opd_imm_def getOperand_def imm_def mk_instr_def BlkPushLimit_def Let_def)
  moreover have "exec_block val other (butlast ?B') s = Some (s ! (r - 1) # s ! r # s)"
    using assms(1,3) by (simp add: block.run_single exec_blkpush numeral_eq_Suc nth_Cons')
  moreover have "exec_block val other (butlast B) s = Some (s ! r # s ! r # s)"
    using assms(3) by (simp add: assms(5) block.run_Cons block.run_Nil exec_push)
  moreover have "s ! (r - 1) \<noteq> s ! r" using assms(1,3,4) by (simp add: nth_eq_iff_index_eq)
  ultimately show ?thesis by auto
qed

end
