(* ===== verification/TVM_PeepholeEnds.thy ===== *)
theory TVM_PeepholeEnds
  imports TVM_Peephole
begin

text \<open>
  When the loop of runOnMachineBasicBlock that inlines the target of a jump ends: exactly when the chain
  of jumps that starts at the block leaves every cycle. A chain that runs into a cycle makes the pass
  copy for ever.
\<close>

text \<open>A block that could complete a jump begun in front of it: drops and a jump, or nothing.\<close>

definition fragment :: "Block \<Rightarrow> bool" where
  "fragment B \<longleftrightarrow> (case rev B of [] \<Rightarrow> True
     | JmpX # before \<Rightarrow> getOpcode JmpX = JMPX_S \<and> list_all (is_pop 1) before)"

text \<open>The chain of jumps from block c ends without coming back to b.\<close>

inductive chain_ends :: "Function \<Rightarrow> nat \<Rightarrow> nat \<Rightarrow> bool" for F b where
  stop: "jump_shape (F ! c) = None \<Longrightarrow> chain_ends F b c"
| jump: "jump_shape (F ! c) = Some (k, pre, t) \<Longrightarrow> t \<noteq> b \<Longrightarrow> t < length F \<Longrightarrow> chain_ends F b t \<Longrightarrow>
    chain_ends F b c"

inductive_simps chain_ends_iff: "chain_ends F b c"

lemma jump_shape_append:
  assumes "\<not> fragment B"
  shows "jump_shape (Y @ B) = map_option (\<lambda>(k, pre, t). (k, Y @ pre, t)) (jump_shape B)"
proof -
  obtain J before where B: "rev B = J # before"
    using assms by (cases "rev B") (auto simp: fragment_def)
  show ?thesis
  proof (cases "getOpcode J = JMPX_S")
    case False
    then show ?thesis using B by (simp add: jump_shape_def)
  next
    case True
    then obtain x where x: "x \<in> set before" "\<not> is_pop 1 x"
      using assms B by (auto simp: fragment_def list_all_iff)
    have tw: "takeWhile (is_pop 1) (before @ rev Y) = takeWhile (is_pop 1) before"
      "dropWhile (is_pop 1) (before @ rev Y) = dropWhile (is_pop 1) before @ rev Y"
      using x by (auto intro: takeWhile_append1 dropWhile_append1)
    have "dropWhile (is_pop 1) before \<noteq> []" using x by (auto simp: dropWhile_eq_Nil_conv)
    then obtain z zs where z: "dropWhile (is_pop 1) before = z # zs"
      by (cases "dropWhile (is_pop 1) before") auto
    show ?thesis
      using B True by (cases "getOperand z 0 \<bind> getMBB") (simp_all add: tw z jump_shape_def Let_def)
  qed
qed

lemma is_pop_same:
  "getOpcode (f MI) = getOpcode MI \<Longrightarrow> operands (f MI) = operands MI \<Longrightarrow> is_pop n (f MI) = is_pop n MI"
  by (simp add: is_pop_def opd_imm_def getOperand_def)

lemma clone_fields [simp]: "getOpcode (clone MI) = getOpcode MI" "operands (clone MI) = operands MI"
  by (simp_all add: clone_def clone_keeps_data mk_instr_def)

lemma clone_is_pop [simp]: "is_pop n (clone MI) = is_pop n MI"
  by (intro is_pop_same) simp_all

lemma jump_shape_clone:
  "jump_shape (map clone B) = map_option (\<lambda>(k, pre, t). (k, map clone pre, t)) (jump_shape B)"
proof (cases "rev B")
  case J: (Cons J before)
  have w: "is_pop 1 \<circ> clone = is_pop 1" by (simp add: fun_eq_iff)
  have tw: "takeWhile (is_pop 1) (map clone before) = map clone (takeWhile (is_pop 1) before)"
      "dropWhile (is_pop 1) (map clone before) = map clone (dropWhile (is_pop 1) before)"
    by (simp_all add: takeWhile_map dropWhile_map w)
  have opd: "getOperand (clone x) i = getOperand x i" for x i by (simp add: getOperand_def)
  show ?thesis
  proof (cases "dropWhile (is_pop 1) before")
    case Nil
    then show ?thesis
      by (simp only: jump_shape_def Let_def rev_map J tw list.map list.case) simp
  next
    case (Cons z zs)
    then show ?thesis using J
      by (cases "getOperand z 0 \<bind> getMBB")
        (simp_all only: jump_shape_def Let_def rev_map tw list.map list.case opd clone_fields, simp_all add: rev_map)
  qed
qed (simp add: jump_shape_def)

lemma fragment_clone [simp]: "fragment (map clone B) = fragment B"
  by (cases "rev B") (simp_all add: fragment_def rev_map list_all_iff)

text \<open>Block b of G is inlined up to the jump of block c of F.\<close>

definition jump_target :: "Block \<Rightarrow> nat option" where
  "jump_target B = map_option (\<lambda>(k, pre, t). t) (jump_shape B)"

definition follows :: "Function \<Rightarrow> nat \<Rightarrow> Function \<Rightarrow> nat \<Rightarrow> bool" where
  "follows F b G c \<longleftrightarrow> length G = length F \<and> b < length F \<and> (\<forall>i. i \<noteq> b \<longrightarrow> G ! i = F ! i) \<and>
     jump_target (G ! b) = jump_target (F ! c)"

lemma inline_step:
  assumes "follows F b G c" "\<forall>i < length F. \<not> fragment (F ! i)"
  shows "case jump_target (F ! c) of
      None \<Rightarrow> runMbbInlineOptimization b G = Some None
    | Some t \<Rightarrow> if t = b \<or> t \<ge> length F then runMbbInlineOptimization b G = None
                else \<exists>G'. runMbbInlineOptimization b G = Some (Some G') \<and> follows F b G' t"
proof (cases "jump_shape (G ! b)")
  case None
  then have "jump_target (F ! c) = None" using assms(1) by (simp add: follows_def jump_target_def)
  then show ?thesis using None by (simp add: runMbbInlineOptimization_def)
next
  case (Some s)
  obtain k pre t where s: "s = (k, pre, t)" by (cases s)
  then have t: "jump_target (F ! c) = Some t" using assms(1) Some by (simp add: follows_def jump_target_def)
  show ?thesis
  proof (cases "t = b \<or> t \<ge> length F")
    case True
    then show ?thesis using t Some s assms(1) by (auto simp: runMbbInlineOptimization_def follows_def)
  next
    case False
    define G' where "G' = G[b := (pre @ replicate k pop0) @ map clone (F ! t)]"
    have "G ! t = F ! t" using False assms(1) by (simp add: follows_def)
    then have run: "runMbbInlineOptimization b G = Some (Some G')"
      using False Some s assms(1) by (simp add: runMbbInlineOptimization_def follows_def G'_def)
    have "\<not> fragment (map clone (F ! t))" using False assms(2) by simp
    then have "jump_shape ((pre @ replicate k pop0) @ map clone (F ! t)) = map_option (\<lambda>(k', p, t).
        (k', (pre @ replicate k pop0) @ p, t)) (jump_shape (map clone (F ! t)))"
      by (rule jump_shape_append)
    moreover have "G' ! b = (pre @ replicate k pop0) @ map clone (F ! t)"
      using assms(1) by (simp add: G'_def follows_def)
    ultimately have "jump_target (G' ! b) = jump_target (F ! t)"
      by (cases "jump_shape (F ! t)") (auto simp: jump_target_def jump_shape_clone)
    then have "follows F b G' t" using assms(1) by (simp add: follows_def G'_def)
    then show ?thesis using t False run by auto
  qed
qed

text \<open>The loop returns exactly on the chains that end.\<close>

lemma chain_ends_alt:
  "chain_ends F b c \<longleftrightarrow> (case jump_target (F ! c) of None \<Rightarrow> True
     | Some t \<Rightarrow> t \<noteq> b \<and> t < length F \<and> chain_ends F b t)"
  by (subst chain_ends_iff) (auto simp: jump_target_def split: option.splits)

lemma inline_loop_ends:
  assumes "chain_ends F b c" "follows F b G c" "\<forall>i < length F. \<not> fragment (F ! i)"
  shows "\<exists>H. inline_loop b G = Some H \<and> jump_shape (H ! b) = None"
  using assms(1,2)
proof (induction arbitrary: G)
  case (stop c)
  then have "runMbbInlineOptimization b G = Some None" "jump_shape (G ! b) = None"
    using inline_step [OF stop(2) assms(3)] by (auto simp: jump_target_def follows_def)
  then show ?case by (intro exI [of _ G]) (simp add: inline_loop.simps)
next
  case (jump c k pre t)
  have "jump_target (F ! c) = Some t" using jump(1) by (simp add: jump_target_def)
  then obtain G' where "runMbbInlineOptimization b G = Some (Some G')" "follows F b G' t"
    using inline_step [OF jump(6) assms(3)] jump(2,3) by auto
  then show ?case using jump(5) by (simp add: inline_loop.simps)
qed

lemma inline_loop_only_ends:
  assumes loop: "inline_loop b G = Some H" and nf: "\<forall>i < length F. \<not> fragment (F ! i)"
  shows "\<forall>c. follows F b G c \<longrightarrow> chain_ends F b c"
proof (rule inline_loop.raw_induct [where P = "\<lambda>b G H. \<forall>c. follows F b G c \<longrightarrow> chain_ends F b c", OF _ loop])
  fix loop b G H
  assume IH: "\<And>b G H. loop b G = Some H \<Longrightarrow> \<forall>c. follows F b G c \<longrightarrow> chain_ends F b c"
    and body: "(case runMbbInlineOptimization b G of None \<Rightarrow> None | Some None \<Rightarrow> Some G
      | Some (Some F') \<Rightarrow> loop b F') = Some H"
  show "\<forall>c. follows F b G c \<longrightarrow> chain_ends F b c"
  proof (intro allI impI)
    fix c assume f: "follows F b G c"
    note step = inline_step [OF f nf]
    show "chain_ends F b c"
    proof (cases "jump_target (F ! c)")
      case None
      then show ?thesis by (subst chain_ends_alt) simp
    next
      case (Some t)
      have "\<not> (t = b \<or> t \<ge> length F)"
      proof
        assume "t = b \<or> t \<ge> length F"
        then have "runMbbInlineOptimization b G = None" using step Some by simp
        then show False using body by simp
      qed
      then obtain G' where G': "runMbbInlineOptimization b G = Some (Some G')" "follows F b G' t" "t \<noteq> b" "t < length F"
        using step Some by auto
      then have "loop b G' = Some H" using body by simp
      then have "chain_ends F b t" using IH G'(2) by blast
      then show ?thesis using Some G'(3,4) by (subst chain_ends_alt) simp
    qed
  qed
qed

lemma inline_loop_returns:
  assumes "b < length F" "\<forall>i < length F. \<not> fragment (F ! i)"
  shows "(\<exists>H. inline_loop b F = Some H) \<longleftrightarrow> chain_ends F b b"
proof -
  have "follows F b F b" using assms(1) by (simp add: follows_def)
  then show ?thesis using inline_loop_ends [OF _ _ assms(2)] inline_loop_only_ends assms(2) by metis
qed

end
