(* ===== verification/TVM_IfConversion.thy ===== *)
theory TVM_IfConversion
  imports TVM_Branch
begin

text \<open>
  The pass TVMIfConversionTerm: a block whose branch leads to a block of a single THROW gets the
  throw as a predicated instruction and is merged with the other successor. The dominator tree and
  the loops that the pass keeps up to date are LLVM's own structures and are not part of the state.
\<close>

section \<open>The model\<close>

definition pred_size :: "MachineFn \<Rightarrow> nat \<Rightarrow> nat" where
  "pred_size F b = count_list (concat (map (succs F) (blockIds F))) b"

definition removeSuccessor :: "nat \<Rightarrow> nat option \<Rightarrow> MachineFn \<Rightarrow> MachineFn option" where
  "removeSuccessor b S F = do {
     t \<leftarrow> S;
     check (t \<in> set (succs F b));
     Some (F \<lparr> succs := (succs F)(b := remove1 t (succs F b)) \<rparr>) }"

definition isPHI :: "MachineInstr \<Rightarrow> bool" where
  "isPHI MI \<longleftrightarrow> getOpcode MI = PHI"

text \<open>The operands of a PHI are its register and pairs of a value and its incoming block.\<close>

fun rename_incoming :: "nat \<Rightarrow> nat \<Rightarrow> MachineOperand list \<Rightarrow> MachineOperand list option" where
  "rename_incoming From To [] = Some []"
| "rename_incoming From To [v] = None"
| "rename_incoming From To (v # b # ops) = do {
     bb \<leftarrow> getMBB b;
     rest \<leftarrow> rename_incoming From To ops;
     Some (v # (if bb = From then MO_MachineBasicBlock To else b) # rest) }"

definition rename_phi :: "nat \<Rightarrow> nat \<Rightarrow> MachineInstr \<Rightarrow> MachineInstr option" where
  "rename_phi From To MI =
     (case operands MI of
        [] \<Rightarrow> None
      | d # ops \<Rightarrow> do { ops' \<leftarrow> rename_incoming From To ops; Some (MI \<lparr> operands := d # ops' \<rparr>) })"

definition rename_phis :: "nat \<Rightarrow> nat \<Rightarrow> nat \<Rightarrow> MachineFn \<Rightarrow> MachineFn option" where
  "rename_phis From To b F = do {
     phis \<leftarrow> mapM (rename_phi From To) (takeWhile isPHI (insts F b));
     Some (set_code b (phis @ dropWhile isPHI (insts F b)) F) }"

definition transferSuccessorsAndUpdatePHIs :: "nat \<Rightarrow> nat \<Rightarrow> MachineFn \<Rightarrow> MachineFn option" where
  "transferSuccessorsAndUpdatePHIs b From F =
     (if b = From then Some F
      else foldM (rename_phis From b) (succs F From)
             (F \<lparr> succs := (succs F)(b := succs F b @ succs F From, From := []) \<rparr>))"

definition eraseBlock :: "nat \<Rightarrow> MachineFn \<Rightarrow> MachineFn" where
  "eraseBlock b F = F \<lparr> blockIds := remove1 b (blockIds F) \<rparr>"

definition ends_in_throw :: "MCInstrInfo \<Rightarrow> MachineFn \<Rightarrow> nat \<Rightarrow> bool" where
  "ends_in_throw D F b \<longleftrightarrow> succs F b = [] \<and>
     (case getFirstTerminator D (insts F b) of
        None \<Rightarrow> False | Some i \<Rightarrow> getOpcode (insts F b ! i) = THROW)"

text \<open>setImm on the first part of the condition, which must be there.\<close>

definition negate_first :: "MachineOperand list \<Rightarrow> MachineOperand list option" where
  "negate_first Cond =
     (case Cond of
        [] \<Rightarrow> None
      | c # rest \<Rightarrow> do { i \<leftarrow> getImm c; Some (MO_Immediate (if i = 0 then 1 else 0) # rest) })"

text \<open>The merge of a block with the predicated throw and the block that goes on.\<close>

definition merge_blocks ::
  "nat \<Rightarrow> nat option \<Rightarrow> nat option \<Rightarrow> MachineInstr \<Rightarrow> nat \<Rightarrow> nat \<Rightarrow> MachineFn \<Rightarrow> MachineFn option" where
  "merge_blocks Head TBB FBB MI Succ0 Succ1 F = do {
     F1 \<leftarrow> removeSuccessor Head TBB F;
     F2 \<leftarrow> removeSuccessor Head FBB F1;
     let (n, bytes, F3) = removeBranch F2 Head;
     check (succs F3 Head = []);
     let F4 = set_code Head (insts F3 Head @ [MI] @ insts F3 Succ1) F3;
     F5 \<leftarrow> transferSuccessorsAndUpdatePHIs Head Succ1 (set_code Succ1 [] (set_code Succ0 [] F4));
     Some (eraseBlock Succ1 (eraseBlock Succ0 F5)) }"

definition tryConvertIf ::
  "(MachineInstr \<Rightarrow> bool) \<Rightarrow> MCInstrInfo \<Rightarrow> MachineFn \<Rightarrow> nat \<Rightarrow> (bool \<times> MachineFn) option" where
  "tryConvertIf isPredicable D F Head =
     (case succs F Head of
        [A, B] \<Rightarrow>
          if pred_size F A \<noteq> 1 \<or> pred_size F B \<noteq> 1 then Some (False, F)
          else
            (let (Succ0, Succ1) = (if ends_in_throw D F A then (A, B) else (B, A))
             in if succs F Succ0 \<noteq> [] then Some (False, F)
                else if insts F Succ1 \<noteq> [] \<and> isPHI (hd (insts F Succ1)) then Some (False, F)
                else if length (insts F Succ0) \<noteq> 1 then Some (False, F)
                else if getOpcode (hd (insts F Succ0)) \<noteq> THROW then Some (False, F)
                else do {
                  (bad, TBB, FBB, Cond) \<leftarrow> analyzeBranch D F Head;
                  if bad then Some (False, F)
                  else do {
                    Cond' \<leftarrow> (if TBB \<noteq> Some Succ0 then negate_first Cond else Some Cond);
                    (ok, MI) \<leftarrow> PredicateInstruction isPredicable (hd (insts F Succ0)) Cond';
                    if \<not> ok then Some (False, F)
                    else map_option (Pair True) (merge_blocks Head TBB FBB MI Succ0 Succ1 F) } })
      | _ \<Rightarrow> Some (False, F))"

text \<open>skip is skipFunction of the function; then the blocks in the dominator tree's post-order.\<close>

definition IfConversion_run ::
  "(MachineInstr \<Rightarrow> bool) \<Rightarrow> MCInstrInfo \<Rightarrow> bool \<Rightarrow> nat list \<Rightarrow> MachineFn \<Rightarrow>
   (bool \<times> MachineFn) option" where
  "IfConversion_run isPredicable D skip post_order F =
     (if skip then Some (False, F)
      else foldM (\<lambda>b (Changed, G). do {
             (c, G') \<leftarrow> tryConvertIf isPredicable D G b; Some (Changed \<or> c, G') })
           post_order (False, F))"

section \<open>The conversion keeps the behaviour\<close>

text \<open>Whether a predicated throw throws when its condition is c.\<close>

definition throws :: "MachineInstr \<Rightarrow> bool \<Rightarrow> bool" where
  "throws MI c \<longleftrightarrow> (getOpcode MI = THROWIF \<and> c) \<or> (getOpcode MI = THROWIFNOT \<and> \<not> c)"

lemma PredicateInstruction_throws:
  assumes "PredicateInstruction ip MI Pred = Some (True, MI')"
  shows "throws MI' c \<longleftrightarrow> c = (getImm (Pred ! 0) = Some 0)" "length Pred = 2"
    "isPredicated MI'"
  using assms
  by (auto simp: PredicateInstruction_def throws_def isPredicated_def bind_eq_Some_conv split: if_splits)

lemma PredicateInstruction_operands:
  assumes "PredicateInstruction ip MI Pred = Some (True, MI')" "operands MI = [Err]"
  shows "operands MI' = [Pred ! 1, Err]"
  using assms
  by (auto simp: PredicateInstruction_def getOperand_def bind_eq_Some_conv split: if_splits)

lemma removeSuccessor_eq:
  "removeSuccessor b S F = Some F' \<Longrightarrow>
   \<exists>t. S = Some t \<and> t \<in> set (succs F b) \<and> insts F' = insts F \<and> blockIds F' = blockIds F \<and>
     succs F' = (succs F)(b := remove1 t (succs F b))"
  by (auto simp: removeSuccessor_def bind_eq_Some_conv split: if_splits)

lemma rename_phis_frame:
  assumes "foldM (rename_phis From To) bs F = Some F'"
  shows "succs F' = succs F" "blockIds F' = blockIds F" "b \<notin> set bs \<Longrightarrow> insts F' b = insts F b"
  using assms
  by (induction bs arbitrary: F) (auto simp: rename_phis_def set_code_def bind_eq_Some_conv)

text \<open>The phis at the head of some code when their incoming block is renamed; a second renaming changes nothing.\<close>

definition renamed_phis :: "nat \<Rightarrow> nat \<Rightarrow> MachineInstr list \<Rightarrow> MachineInstr list option" where
  "renamed_phis From To code =
     map_option (\<lambda>phis. phis @ dropWhile isPHI code) (mapM (rename_phi From To) (takeWhile isPHI code))"

lemma rename_incoming_twice:
  "rename_incoming From To ops = Some ops' \<Longrightarrow> From \<noteq> To \<Longrightarrow> rename_incoming From To ops' = Some ops'"
  by (induction From To ops arbitrary: ops' rule: rename_incoming.induct) (auto simp: bind_eq_Some_conv)

lemma rename_phi_twice:
  assumes "rename_phi From To MI = Some MI'" "From \<noteq> To"
  shows "rename_phi From To MI' = Some MI'" "isPHI MI' = isPHI MI"
proof -
  obtain d ops ops' where "operands MI = d # ops" "rename_incoming From To ops = Some ops'" "MI' = MI \<lparr> operands := d # ops' \<rparr>"
    using assms(1) by (auto simp: rename_phi_def bind_eq_Some_conv split: list.splits)
  then show "rename_phi From To MI' = Some MI'" "isPHI MI' = isPHI MI"
    using rename_incoming_twice [of From To ops ops'] assms(2) by (simp_all add: rename_phi_def isPHI_def)
qed

lemma rename_phi_list:
  assumes "mapM (rename_phi From To) xs = Some ys" "From \<noteq> To" "\<forall>x \<in> set xs. isPHI x"
  shows "mapM (rename_phi From To) ys = Some ys \<and> (\<forall>y \<in> set ys. isPHI y)"
  using assms(1,3)
proof (induction xs arbitrary: ys)
  case (Cons x xs)
  then obtain y zs where "rename_phi From To x = Some y" "mapM (rename_phi From To) xs = Some zs" "ys = y # zs"
    by (auto simp: bind_eq_Some_conv)
  then show ?case using Cons rename_phi_twice [of From To x y] assms(2) by simp
qed simp

lemma renamed_phis_twice:
  assumes "renamed_phis From To code = Some code'" "From \<noteq> To"
  shows "renamed_phis From To code' = Some code'"
proof -
  obtain phis where phis: "mapM (rename_phi From To) (takeWhile isPHI code) = Some phis" "code' = phis @ dropWhile isPHI code"
    using assms(1) by (auto simp: renamed_phis_def)
  have all: "mapM (rename_phi From To) phis = Some phis" "\<forall>p \<in> set phis. isPHI p"
    using rename_phi_list [OF phis(1) assms(2)] by (auto dest: set_takeWhileD)
  have "takeWhile isPHI (dropWhile isPHI code) = []" "dropWhile isPHI (dropWhile isPHI code) = dropWhile isPHI code"
    by (induction code) auto
  then have "takeWhile isPHI code' = phis" "dropWhile isPHI code' = dropWhile isPHI code"
    using all(2) phis(2) by (simp_all add: takeWhile_append2 dropWhile_append2)
  then show ?thesis using all(1) phis(2) by (simp add: renamed_phis_def)
qed

lemma rename_phis_code:
  assumes "foldM (rename_phis From To) bs F = Some F'" "From \<noteq> To" "b \<in> set bs"
  shows "renamed_phis From To (insts F b) = Some (insts F' b)"
  using assms(1,3)
proof (induction bs arbitrary: F)
  case (Cons c bs)
  obtain G where G: "rename_phis From To c F = Some G" "foldM (rename_phis From To) bs G = Some F'"
    using Cons.prems(1) by (auto simp: bind_eq_Some_conv)
  have c: "renamed_phis From To (insts F c) = Some (insts G c)" "d \<noteq> c \<Longrightarrow> insts G d = insts F d" for d
    using G(1) by (auto simp: rename_phis_def renamed_phis_def set_code_def bind_eq_Some_conv)
  show ?case
  proof (cases "b \<in> set bs")
    case True
    have "renamed_phis From To (insts G b) = Some (insts F' b)" by (rule Cons.IH [OF G(2) True])
    then show ?thesis
      using c renamed_phis_twice [OF c(1) assms(2)] by (cases "b = c") auto
  next
    case False
    then show ?thesis using Cons.prems(2) c(1) rename_phis_frame(3) [OF G(2) False] by simp
  qed
qed simp

lemma transfer_frame:
  assumes "transferSuccessorsAndUpdatePHIs b From F = Some F'" "b \<noteq> From"
  shows "succs F' b = succs F b @ succs F From" "blockIds F' = blockIds F"
    "c \<notin> set (succs F From) \<Longrightarrow> insts F' c = insts F c"
    "c \<in> set (succs F From) \<Longrightarrow> renamed_phis From b (insts F c) = Some (insts F' c)"
proof -
  let ?F = "F \<lparr> succs := (succs F)(b := succs F b @ succs F From, From := []) \<rparr>"
  have run: "foldM (rename_phis From b) (succs F From) ?F = Some F'"
    using assms by (simp add: transferSuccessorsAndUpdatePHIs_def)
  note rename_phis_frame [OF run] rename_phis_code [OF run, of c]
  then show "succs F' b = succs F b @ succs F From" "blockIds F' = blockIds F"
    "c \<notin> set (succs F From) \<Longrightarrow> insts F' c = insts F c"
    "c \<in> set (succs F From) \<Longrightarrow> renamed_phis From b (insts F c) = Some (insts F' c)"
    using assms(2) by simp_all
qed

lemma removeBranch_jump:
  assumes "analyzeBranch D F b = Some (False, TBB, FBB, Cond)" "Cond \<noteq> []" "insts G b = insts F b"
    and "removeBranch G b = (n, bytes, G')"
  shows "G' = set_code b (erase_last_real (insts F b)) G"
proof -
  obtain I where I: "last_real (insts F b) = Some I" "is_jump I"
    using assms(1,2)
    by (auto simp: analyzeBranch_def is_jump_def bind_eq_Some_conv split: option.splits if_splits)
  with assms(3,4) show ?thesis by (simp add: removeBranch_def)
qed

text \<open>
  A successful conversion: the two successors are a throw and a block Cont; the converted block is
  the old one without its branch, the predicated throw, and Cont's code; it throws exactly when the
  branch led to the throw, and goes on to Cont's successors. When Cont jumps back to the head, the phis of
  the head name the head itself instead of Cont.
\<close>

lemma tryConvertIf_correct:
  assumes conv: "tryConvertIf ip D F Head = Some (True, F')"
    and Head: "Head \<in> set (blockIds F)"
    and self: "Head \<notin> set (succs F Head)"
  shows "\<exists>Throw Cont MI. {Throw, Cont} = set (succs F Head) \<and> Throw \<noteq> Cont \<and>
     length (insts F Throw) = 1 \<and> getOpcode (hd (insts F Throw)) = THROW \<and>
     (if Head \<in> set (succs F Cont)
      then renamed_phis Cont Head (erase_last_real (insts F Head) @ MI # insts F Cont) = Some (insts F' Head)
      else insts F' Head = erase_last_real (insts F Head) @ MI # insts F Cont) \<and>
     succs F' Head = succs F Cont \<and>
     (\<forall>c b. block_jump D F Head c = Some (Some b) \<longrightarrow>
        b \<in> {Throw, Cont} \<and> (throws MI c \<longleftrightarrow> b = Throw))"
proof -
  obtain A B where AB: "succs F Head = [A, B]" and one: "pred_size F A = 1" "pred_size F B = 1"
    using conv by (auto simp: tryConvertIf_def split: list.splits if_splits)
  have "A \<noteq> B"
  proof
    assume "A = B"
    obtain bs cs where "blockIds F = bs @ Head # cs" using Head by (meson split_list)
    then have "pred_size F A \<ge> count_list (succs F Head) A" by (simp add: pred_size_def)
    with one(1) AB \<open>A = B\<close> show False by simp
  qed
  obtain S0 S1 where S: "(S0, S1) = (if ends_in_throw D F A then (A, B) else (B, A))" by metis
  then have sets: "{S0, S1} = {A, B}" "S0 \<noteq> S1" using \<open>A \<noteq> B\<close> by (auto split: if_splits)
  obtain TBB FBB Cond Cond' MI where c: "length (insts F S0) = 1" "getOpcode (hd (insts F S0)) = THROW"
      "analyzeBranch D F Head = Some (False, TBB, FBB, Cond)"
      "(if TBB \<noteq> Some S0 then negate_first Cond else Some Cond) = Some Cond'"
      "PredicateInstruction ip (hd (insts F S0)) Cond' = Some (True, MI)"
      "merge_blocks Head TBB FBB MI S0 S1 F = Some F'"
    using conv AB one S [symmetric]
    by (auto simp: tryConvertIf_def bind_eq_Some_conv Let_def split: if_splits)
  obtain F1 F2 where m12: "removeSuccessor Head TBB F = Some F1" "removeSuccessor Head FBB F1 = Some F2"
    using c(6) by (auto simp: merge_blocks_def bind_eq_Some_conv)
  obtain n bytes F3 where m3: "removeBranch F2 Head = (n, bytes, F3)" by (metis prod_cases3)
  obtain F5 where m: "removeSuccessor Head TBB F = Some F1"
      "removeSuccessor Head FBB F1 = Some F2" "removeBranch F2 Head = (n, bytes, F3)"
      "succs F3 Head = []"
      "transferSuccessorsAndUpdatePHIs Head S1 (set_code S1 [] (set_code S0 []
         (set_code Head (insts F3 Head @ [MI] @ insts F3 S1) F3))) = Some F5"
      "F' = eraseBlock S1 (eraseBlock S0 F5)"
    using c(6) m12 m3 by (auto simp: merge_blocks_def bind_eq_Some_conv split: if_splits)
  obtain t where t: "TBB = Some t" "t \<in> {A, B}" "insts F1 = insts F"
      "succs F1 = (succs F)(Head := remove1 t [A, B])"
    using removeSuccessor_eq [OF m(1)] AB by auto
  obtain f where f: "FBB = Some f" "f \<in> set (remove1 t [A, B])" "insts F2 = insts F" "succs F2 = (succs F1)(Head := remove1 f (remove1 t [A, B]))"
    using removeSuccessor_eq [OF m(2)] t by auto
  have tf: "{t, f} = {S0, S1}" "t \<noteq> f" using t(2) f(2) sets \<open>A \<noteq> B\<close> by (auto split: if_splits)
  note pred = PredicateInstruction_throws [OF c(5)]
  have len: "length Cond = 2" and flip: "(getImm (Cond' ! 0) = Some 0) \<longleftrightarrow>
      (if t = S0 then getImm (Cond ! 0) = Some 0 else getImm (Cond ! 0) \<noteq> Some 0)"
    using c(4) pred(2) t(1) by (auto simp: negate_first_def bind_eq_Some_conv split: if_splits list.splits)
  then have "Cond \<noteq> []" by auto
  note F3 = removeBranch_jump [OF c(3) \<open>Cond \<noteq> []\<close> _ m(3), simplified f(3), OF refl]
  have S: "S0 \<noteq> Head" "S1 \<noteq> Head" using self AB sets(1) by auto
  have succ3: "succs F3 S1 = succs F S1" using F3 f(4) t(4) S by (simp add: set_code_def)
  let ?B = "erase_last_real (insts F Head) @ MI # insts F S1"
  let ?F4 = "set_code S1 [] (set_code S0 [] (set_code Head (insts F3 Head @ [MI] @ insts F3 S1) F3))"
  have F4: "insts ?F4 Head = ?B" "succs ?F4 S1 = succs F S1" "succs ?F4 Head = []"
    using m(4) S F3 succ3 f(3) by (simp_all add: set_code_def)
  have body: "if Head \<in> set (succs F S1) then renamed_phis S1 Head ?B = Some (insts F' Head) else insts F' Head = ?B"
      and succ: "succs F' Head = succs F S1"
    using transfer_frame(1,2) [OF m(5)] transfer_frame(3,4) [OF m(5), of Head] S(2) [symmetric] F4 m(6) by (simp_all add: eraseBlock_def)
  have "b \<in> {S0, S1} \<and> (throws MI x \<longleftrightarrow> b = S0)" if "block_jump D F Head x = Some (Some b)" for x b
    using that analyzeBranch_sound [OF c(3), of x] pred(1) [of x] flip \<open>Cond \<noteq> []\<close> t(1) f(1) tf sets(2)
    by (auto simp: branch_to_def doubleton_eq_iff split: if_splits)
  moreover have "{S0, S1} = set (succs F Head)" using sets AB by simp
  ultimately show ?thesis using sets(2) c(1,2) body succ by blast
qed

text \<open>
  The converse: without an else block, as for a head that ends in IFJMP and falls through otherwise,
  removeSuccessor is given a null pointer, so no conversion succeeds.
\<close>

lemma tryConvertIf_no_else:
  assumes "analyzeBranch D F Head = Some (False, TBB, None, Cond)"
  shows "tryConvertIf ip D F Head \<noteq> Some (True, F')"
proof
  assume conv: "tryConvertIf ip D F Head = Some (True, F')"
  then obtain A B where AB: "succs F Head = [A, B]" "pred_size F A = 1" "pred_size F B = 1"
    by (auto simp: tryConvertIf_def split: list.splits if_splits)
  obtain S0 S1 where S: "(if ends_in_throw D F A then (A, B) else (B, A)) = (S0, S1)" by fastforce
  have "\<exists>MI. merge_blocks Head TBB None MI S0 S1 F = Some F'"
    using conv AB S assms by (auto simp: tryConvertIf_def bind_eq_Some_conv Let_def split: if_splits)
  then show False by (auto simp: merge_blocks_def removeSuccessor_def)
qed

lemma tryConvertIf_has_else:
  assumes "tryConvertIf ip D F Head = Some (True, F')"
  shows "\<exists>TBB FBB Cond. analyzeBranch D F Head = Some (False, TBB, Some FBB, Cond)"
proof -
  obtain A B where AB: "succs F Head = [A, B]" "pred_size F A = 1" "pred_size F B = 1"
    using assms by (auto simp: tryConvertIf_def split: list.splits if_splits)
  obtain S0 S1 where S: "(if ends_in_throw D F A then (A, B) else (B, A)) = (S0, S1)" by fastforce
  obtain TBB FBB Cond where "analyzeBranch D F Head = Some (False, TBB, FBB, Cond)"
    using assms AB S by (auto simp: tryConvertIf_def bind_eq_Some_conv Let_def split: if_splits)
  with assms show ?thesis using tryConvertIf_no_else [of D F Head TBB Cond ip F'] by (cases FBB) auto
qed

end
