(* ===== verification/TVM_StoreCombine.thy ===== *)
theory TVM_StoreCombine
  imports TVM_Prelude "HOL-Library.Word"
begin

text \<open>
  The pass TVMStoreCombine on LLVM IR: a chain of constant stores into a builder becomes one store.
  The values are i257 words; what the store intrinsics do to a builder is the interface builder_ops.
\<close>

unbundle bit_operations_syntax

section \<open>Instructions\<close>

type_synonym i257 = "257 word"

datatype Operand = ConstantInt i257 | Result nat | OtherValue nat

datatype Intrinsic =
    tvm_stu | tvm_sti | tvm_stref | tvm_stslice | tvm_stvaruint16 | tvm_stvaruint32 | tvm_stvarint16
  | tvm_stvarint32 | tvm_stdict | tvm_newc | tvm_endc | tvm_ctos | tvm_pushnull | tvm_getglobal
  | tvm_cast_to_slice | tvm_cast_to_builder | tvm_cast_to_cell | tvm_cast_to_tuple
  | tvm_cast_from_slice | tvm_cast_from_builder | tvm_cast_from_cell | tvm_cast_from_tuple
  | tvm_sendrawmsg | other_intrinsic nat

text \<open>
  An instruction: its name, the intrinsic it calls if it calls one, its operands, and the number of
  uses of its result.
\<close>

record Instruction =
  instName :: nat
  getIntrinsicID :: "Intrinsic option"
  getArguments :: "Operand list"
  getNumUses :: nat

definition SizeLimit :: nat where
  "SizeLimit = 256"

fun isConstantInt :: "Operand \<Rightarrow> bool" where
  "isConstantInt (ConstantInt w) = True" | "isConstantInt _ = False"

definition storeConstCallSite :: "Instruction \<Rightarrow> bool" where
  "storeConstCallSite I \<longleftrightarrow>
     getIntrinsicID I \<in> {Some tvm_stu, Some tvm_sti} \<and>
     isConstantInt (getArguments I ! 0) \<and> isConstantInt (getArguments I ! 2)"

text \<open>The arguments that are read: the constants 0 and 2, and the builder, argument 1.\<close>

fun constantValue :: "Operand \<Rightarrow> i257 option" where
  "constantValue (ConstantInt w) = Some w" | "constantValue _ = None"

definition argument :: "Instruction \<Rightarrow> nat \<Rightarrow> Operand option" where
  "argument I k = (if k < length (getArguments I) then Some (getArguments I ! k) else None)"

definition stored_value :: "Instruction \<Rightarrow> i257 option" where
  "stored_value I = do { opd \<leftarrow> argument I 0; constantValue opd }"

text \<open>getZExtValue asserts that the value fits 64 bits.\<close>

definition stored_size :: "Instruction \<Rightarrow> nat option" where
  "stored_size I = do { opd \<leftarrow> argument I 2; w \<leftarrow> constantValue opd; check (unat w < 2 ^ 64); Some (unat w) }"

section \<open>The pass\<close>

datatype CanCombine = No | Yes | Last

text \<open>Size is a 32-bit unsigned; its sum with the 64-bit size of the next store wraps at 64 bits.\<close>

definition canCombine :: "nat \<Rightarrow> Instruction \<Rightarrow> CanCombine option" where
  "canCombine Size I =
     (if stored_value I = None then Some No
      else do {
        Sz \<leftarrow> stored_size I;
        if (Size + Sz) mod 2 ^ 64 > SizeLimit then Some No
        else if getNumUses I > 1 then Some Last else Some Yes })"

text \<open>One turn of the loop of combine: the size and the data so far, and the next store.\<close>

definition combine_step :: "Instruction \<Rightarrow> nat \<times> i257 \<Rightarrow> (nat \<times> i257) option" where
  "combine_step I sd = do {
     Val \<leftarrow> stored_value I;
     Sz64 \<leftarrow> stored_size I;
     let Sz = Sz64 mod 2 ^ 32;
     Val' \<leftarrow> (if Val <s 0
             then do { check (Sz + 1 < 257); Some (set_bit (Sz + 1) 0 - (- Val)) }
             else Some Val);
     Some ((fst sd + Sz) mod 2 ^ 32, push_bit Sz (snd sd) OR Val') }"

text \<open>The new store takes the place and the uses of the last one of the chain.\<close>

definition combine :: "Instruction list \<Rightarrow> Instruction option" where
  "combine Chain =
     (case Chain of
        [] \<Rightarrow> None
      | Start # Others \<Rightarrow> do {
          (Size, Data) \<leftarrow> foldM combine_step Chain (0, 0);
          BuilderArg \<leftarrow> argument Start 1;
          Some \<lparr> instName = instName (last Chain), getIntrinsicID = Some tvm_stu,
                 getArguments = [ConstantInt Data, BuilderArg, ConstantInt (of_nat Size)],
                 getNumUses = getNumUses (last Chain) \<rparr> })"

text \<open>
  The loop of tryCombine from the instruction after Start: Prev is the name of the instruction
  before, the result the number of further instructions to merge.
\<close>

fun scan :: "nat \<Rightarrow> nat \<Rightarrow> Instruction list \<Rightarrow> nat option" where
  "scan Size Prev [] = Some 0"
| "scan Size Prev (I # BB) =
     (if storeConstCallSite I
      then do {
        Status \<leftarrow> canCombine Size I;
        Builder \<leftarrow> argument I 1;
        if Status \<noteq> No \<and> Builder = Result Prev
        then if Status = Last \<or> getNumUses I \<noteq> 1 then Some 1
             else do {
               Sz \<leftarrow> stored_size I;
               n \<leftarrow> scan ((Size + Sz) mod 2 ^ 32) (instName I) BB;
               Some (n + 1) }
        else Some 0 }
      else Some 0)"

text \<open>
  tryCombine: the instructions that replace the chain, whether the iterator went further than the
  next instruction, and the instructions after it. The builder of the new call needs an instruction
  to stand before.
\<close>

definition tryCombine ::
  "Instruction \<Rightarrow> Instruction list \<Rightarrow> (Instruction list \<times> bool \<times> Instruction list) option" where
  "tryCombine Start BB = do {
     Sz \<leftarrow> stored_size Start;
     n \<leftarrow> scan (Sz mod 2 ^ 32) (instName Start) BB;
     if n = 0 then Some ([Start], False, BB)
     else do {
       check (n < length BB);
       New \<leftarrow> combine (Start # take n BB);
       Some ([New], True, drop n BB) } }"

lemma tryCombine_shorter:
  "tryCombine Start BB = Some (New, c, rest) \<Longrightarrow> length rest \<le> length BB"
  by (auto simp: tryCombine_def bind_eq_Some_conv split: if_splits)

function runOnBasicBlock :: "Instruction list \<Rightarrow> (bool \<times> Instruction list) option" where
  "runOnBasicBlock BB =
     (case BB of
        [] \<Rightarrow> Some (False, [])
      | I # rest \<Rightarrow>
          if getNumUses I = 1 \<and> storeConstCallSite I
          then (case tryCombine I rest of
                  None \<Rightarrow> None
                | Some (New, c, rest') \<Rightarrow> do {
                    (c', BB') \<leftarrow> runOnBasicBlock rest'; Some (c \<or> c', New @ BB') })
          else do { (c', BB') \<leftarrow> runOnBasicBlock rest; Some (c', I # BB') })"
  by pat_completeness auto
termination
  by (relation "measure length") (auto dest: tryCombine_shorter)

declare runOnBasicBlock.simps [simp del]

section \<open>What a store does\<close>

text \<open>The low n bits of a word, the highest first, and the values that a store of n bits accepts.\<close>

definition bits :: "nat \<Rightarrow> i257 \<Rightarrow> bool list" where
  "bits n w = map (bit w) (rev [0..<n])"

definition fits :: "Intrinsic \<Rightarrow> nat \<Rightarrow> i257 \<Rightarrow> bool" where
  "fits op n w \<longleftrightarrow>
     (if op = tvm_stu then n \<le> 256 \<and> unat w < 2 ^ n
      else op = tvm_sti \<and> 0 < n \<and> n \<le> 257 \<and> - (2 ^ (n - 1)) \<le> sint w \<and> sint w < 2 ^ (n - 1))"

text \<open>
  The interface: a store of a value that fits appends its bits to the builder, and appending twice is
  appending the concatenation.
\<close>

locale builder_ops =
  fixes store :: "Intrinsic \<Rightarrow> i257 \<Rightarrow> nat \<Rightarrow> 'b \<Rightarrow> 'b" and put :: "'b \<Rightarrow> bool list \<Rightarrow> 'b"
  assumes store_fits: "fits op n w \<Longrightarrow> store op w n b = put b (bits n w)"
    and put_put: "put (put b xs) ys = put b (xs @ ys)"

subsection \<open>Bits of combined words\<close>

lemma bits_append:
  assumes "\<And>i. m \<le> i \<Longrightarrow> \<not> bit w i" "n + m \<le> 257"
  shows "bits (n + m) (push_bit m v OR w) = bits n v @ bits m w"
proof (rule nth_equalityI)
  show "length (bits (n + m) (push_bit m v OR w)) = length (bits n v @ bits m w)"
    by (simp add: bits_def)
next
  fix i assume "i < length (bits (n + m) (push_bit m v OR w))"
  then have i: "i < n + m" by (simp add: bits_def)
  have nth: "bits k u ! j = bit u (k - Suc j)" if "j < k" for k j and u :: i257
    using that by (simp add: bits_def rev_nth)
  have len: "length (bits k u) = k" for k and u :: i257 by (simp add: bits_def)
  show "bits (n + m) (push_bit m v OR w) ! i = (bits n v @ bits m w) ! i"
    using i assms by (auto simp: nth nth_append len bit_or_iff bit_push_bit_iff algebra_simps)
qed

lemma bit_int_less_power: "0 \<le> k \<Longrightarrow> k < 2 ^ m \<Longrightarrow> m \<le> i \<Longrightarrow> \<not> bit (k :: int) i"
  by (metis bit_take_bit_iff not_le take_bit_int_eq_self)

lemma bit_less_power:
  assumes "unat w < 2 ^ m" "m \<le> i"
  shows "\<not> bit (w :: i257) i"
proof -
  have "uint w < 2 ^ m"
    using assms(1) by (metis of_nat_less_iff of_nat_numeral of_nat_power uint_nat)
  then have "\<not> bit (uint w) i" using assms(2) by (intro bit_int_less_power) auto
  then show ?thesis by (auto simp: bit_unsigned_iff dest: bit_imp_le_length)
qed

lemma unat_less_power:
  assumes "\<And>i. m \<le> i \<Longrightarrow> \<not> bit (w :: i257) i"
  shows "unat w < 2 ^ m"
proof -
  have "take_bit m w = w" using assms by (intro bit_eqI) (auto simp: bit_take_bit_iff intro: ccontr leI)
  then have "take_bit m (unat w) = unat w" by (metis unsigned_take_bit_eq)
  then show ?thesis by (metis take_bit_nat_less_exp)
qed

text \<open>A value that is not negative and fits as signed or unsigned has no bits beyond the size.\<close>

lemma fits_bits:
  assumes "fits op n w" "0 \<le> sint w" "n \<le> i"
  shows "\<not> bit w i"
proof (cases "op = tvm_stu")
  case True
  then show ?thesis using assms(1,3) by (intro bit_less_power [of w n]) (simp_all add: fits_def)
next
  case False
  then have "sint w < 2 ^ (n - 1)" using assms(1) by (simp add: fits_def)
  also have "\<dots> \<le> (2 :: int) ^ n" by (simp add: power_increasing)
  finally have "\<not> bit (sint w) i" using assms(2,3) by (intro bit_int_less_power [of _ n])
  then show ?thesis by (simp add: bit_sint_iff)
qed

subsection \<open>One combined store\<close>

text \<open>A constant store whose value is not negative and fits its size.\<close>

definition good_store :: "Instruction \<Rightarrow> bool" where
  "good_store I \<longleftrightarrow> (\<exists>op w n. getIntrinsicID I = Some op \<and> stored_value I = Some w \<and>
     stored_size I = Some n \<and> fits op n w \<and> 0 \<le> sint w)"

definition store_bits :: "Instruction \<Rightarrow> bool list" where
  "store_bits I = bits (the (stored_size I)) (the (stored_value I))"

lemma length_store_bits [simp]: "length (store_bits I) = the (stored_size I)"
  by (simp add: store_bits_def bits_def)

lemma combine_step_good:
  assumes "good_store I" "S + the (stored_size I) \<le> 256"
  shows "combine_step I (S, D) =
     Some (S + the (stored_size I), push_bit (the (stored_size I)) D OR the (stored_value I))"
  using assms
  by (auto simp: good_store_def combine_step_def word_sless_alt fits_def Let_def)

lemma combine_loop:
  assumes "\<forall>I \<in> set Js. good_store I" "S + sum_list (map (\<lambda>I. the (stored_size I)) Js) \<le> 256"
    and "\<And>i. S \<le> i \<Longrightarrow> \<not> bit D i"
  shows "\<exists>D'. foldM combine_step Js (S, D) =
       Some (S + sum_list (map (\<lambda>I. the (stored_size I)) Js), D') \<and>
     bits (S + sum_list (map (\<lambda>I. the (stored_size I)) Js)) D' =
       bits S D @ concat (map store_bits Js) \<and>
     (\<forall>i \<ge> S + sum_list (map (\<lambda>I. the (stored_size I)) Js). \<not> bit D' i)"
  using assms
proof (induction Js arbitrary: S D)
  case Nil
  then show ?case by simp
next
  case (Cons J Js)
  let ?n = "the (stored_size J)" and ?w = "the (stored_value J)"
  from Cons.prems(1) obtain op where J: "fits op ?n ?w" "0 \<le> sint ?w" "good_store J"
    by (auto simp: good_store_def)
  have high: "\<not> bit ?w i" if "?n \<le> i" for i using fits_bits [OF J(1,2) that] .
  have le: "S + ?n \<le> 256" using Cons.prems(2) by simp
  have new: "\<not> bit (push_bit ?n D OR ?w) i" if "S + ?n \<le> i" for i
    using that high Cons.prems(3) by (auto simp: bit_or_iff bit_push_bit_iff)
  have "bits (S + ?n) (push_bit ?n D OR ?w) = bits S D @ store_bits J"
    using bits_append [of ?n ?w S D] high le by (simp add: store_bits_def)
  moreover have "(S + ?n) + sum_list (map (\<lambda>I. the (stored_size I)) Js) \<le> 256"
    using Cons.prems(2) by simp
  note Cons.IH [OF _ this new]
  ultimately show ?case
    using Cons.prems(1) combine_step_good [OF J(3) le, of D] by (simp add: add.assoc) 
qed

lemma combine_good:
  assumes "\<forall>I \<in> set (J # Js). good_store I" "argument J 1 = Some b"
    and "sum_list (map (\<lambda>I. the (stored_size I)) (J # Js)) \<le> 256"
  shows "\<exists>New D. combine (J # Js) = Some New \<and> instName New = instName (last (J # Js)) \<and>
     getIntrinsicID New = Some tvm_stu \<and>
     getArguments New = [ConstantInt D, b, ConstantInt (of_nat (sum_list (map (\<lambda>I. the (stored_size I)) (J # Js))))] \<and>
     getNumUses New = getNumUses (last (J # Js)) \<and>
     storeConstCallSite New \<and> stored_value New = Some D \<and>
     stored_size New = Some (sum_list (map (\<lambda>I. the (stored_size I)) (J # Js))) \<and>
     store_bits New = concat (map store_bits (J # Js)) \<and>
     fits tvm_stu (sum_list (map (\<lambda>I. the (stored_size I)) (J # Js))) D"
proof -
  let ?S = "sum_list (map (\<lambda>I. the (stored_size I)) (J # Js))"
  obtain D where D: "foldM combine_step (J # Js) (0, 0) = Some (?S, D)"
      "bits ?S D = concat (map store_bits (J # Js))" "\<And>i. ?S \<le> i \<Longrightarrow> \<not> bit D i"
    using combine_loop [OF assms(1), of 0 0] assms(3) by (auto simp: bits_def)
  have unat: "unat (of_nat ?S :: i257) = ?S"
    using assms(3) by (subst unat_of_nat) (simp add: mod_less)
  define S where "S = ?S"
  have "unat D < 2 ^ S" unfolding S_def by (rule unat_less_power) (rule D(3))
  with D assms unat show ?thesis unfolding S_def [symmetric]
    by (auto simp: combine_def storeConstCallSite_def stored_value_def stored_size_def argument_def
        fits_def store_bits_def simp del: foldM.simps)
qed

subsection \<open>Chains\<close>

text \<open>The stores of a chain: each one stores into the result of the one before, its only use.\<close>

fun links :: "nat \<Rightarrow> Instruction list \<Rightarrow> bool" where
  "links p [] = True"
| "links p (J # Js) \<longleftrightarrow> storeConstCallSite J \<and> argument J 1 = Some (Result p) \<and>
     (Js = [] \<or> getNumUses J = 1) \<and> links (instName J) Js"

lemma good_size: "good_store I \<Longrightarrow> the (stored_size I) \<le> 257 \<and> stored_size I = Some (the (stored_size I))"
  by (auto simp: good_store_def fits_def split: if_splits)

lemma scan_links:
  assumes "scan S p BB = Some n"
  shows "n \<le> length BB \<and> links p (take n BB)"
  using assms
proof (induction S p BB arbitrary: n rule: scan.induct)
  case (1 S p)
  then show ?case by simp
next
  case (2 S p I BB)
  show ?case
  proof (cases "n = 0")
    case False
    with 2 show ?thesis
      by (auto simp: bind_eq_Some_conv split: if_splits)
  qed simp
qed

lemma scan_size:
  assumes "scan S p BB = Some n" "\<forall>I \<in> set BB. storeConstCallSite I \<longrightarrow> good_store I"
    and "S \<le> 257" "0 < n"
  shows "S + sum_list (map (\<lambda>I. the (stored_size I)) (take n BB)) \<le> 256"
  using assms
proof (induction S p BB arbitrary: n rule: scan.induct)
  case (1 S p)
  then show ?case by simp
next
  case (2 S p I BB)
  then have sc: "storeConstCallSite I" by (auto split: if_splits)
  with 2(3) have I: "good_store I" by simp
  then obtain z where z: "stored_size I = Some z" "z \<le> 257" using good_size by fastforce
  from 2(2,5) sc z have le: "S + z \<le> 256"
    using 2(4) by (auto simp: canCombine_def SizeLimit_def bind_eq_Some_conv split: if_splits)
  show ?case
  proof (cases "n = 1")
    case True
    then show ?thesis using le z by simp
  next
    case False
    with 2(2,5) sc z obtain Status m where m: "scan ((S + z) mod 2 ^ 32) (instName I) BB = Some m" "n = m + 1"
        "canCombine S I = Some Status" "argument I 1 = Some (Result p)" "Status \<noteq> No"
        "\<not> (Status = Last \<or> getNumUses I \<noteq> 1)"
      by (auto simp: bind_eq_Some_conv split: if_splits)
    have "(S + z) + sum_list (map (\<lambda>I. the (stored_size I)) (take m BB)) \<le> 256"
      using 2(1) [OF sc m(3,4) _ m(6) z(1), of m] m(1,2,5) le 2(3) False by simp
    then show ?thesis using m(2) z by simp
  qed
qed

section \<open>The value of every instruction\<close>

text \<open>
  What the values outside the block are, what a constant is as a value, and what the instructions other
  than constant stores compute from their arguments.
\<close>

record 'b Values =
  ofConstant :: "i257 \<Rightarrow> 'b"
  ofOther :: "nat \<Rightarrow> 'b"
  compute :: "Instruction \<Rightarrow> 'b list \<Rightarrow> 'b"

fun operand_value :: "'b Values \<Rightarrow> (nat \<Rightarrow> 'b) \<Rightarrow> Operand \<Rightarrow> 'b" where
  "operand_value V env (ConstantInt w) = ofConstant V w"
| "operand_value V env (Result n) = env n"
| "operand_value V env (OtherValue k) = ofOther V k"

definition inst_value ::
  "(Intrinsic \<Rightarrow> i257 \<Rightarrow> nat \<Rightarrow> 'b \<Rightarrow> 'b) \<Rightarrow> 'b Values \<Rightarrow> (nat \<Rightarrow> 'b) \<Rightarrow> Instruction \<Rightarrow> 'b" where
  "inst_value store V env I =
     (case (storeConstCallSite I, getIntrinsicID I, stored_value I, stored_size I) of
        (True, Some op, Some w, Some n) \<Rightarrow> store op w n (operand_value V env (getArguments I ! 1))
      | _ \<Rightarrow> compute V I (map (operand_value V env) (getArguments I)))"

fun exec ::
  "(Intrinsic \<Rightarrow> i257 \<Rightarrow> nat \<Rightarrow> 'b \<Rightarrow> 'b) \<Rightarrow> 'b Values \<Rightarrow> (nat \<Rightarrow> 'b) \<Rightarrow> Instruction list \<Rightarrow> nat \<Rightarrow> 'b"
where
  "exec store V env [] = env"
| "exec store V env (I # BB) = exec store V (env(instName I := inst_value store V env I)) BB"

definition reads :: "Instruction \<Rightarrow> nat set" where
  "reads I = {n. Result n \<in> set (getArguments I)}"

text \<open>
  SSA with truthful use counts: no name is defined twice, and an instruction is not used more often
  in the rest of the block than its count says.
\<close>

fun uses_ok :: "Instruction list \<Rightarrow> bool" where
  "uses_ok [] = True"
| "uses_ok (I # BB) \<longleftrightarrow> instName I \<notin> instName ` set BB \<and>
     count_list (concat (map getArguments BB)) (Result (instName I)) \<le> getNumUses I \<and> uses_ok BB"

lemma operand_value_cong:
  "(\<And>n. opd = Result n \<Longrightarrow> env n = env' n) \<Longrightarrow> operand_value V env opd = operand_value V env' opd"
  by (cases opd) auto

lemma argument_Some: "argument I k = Some opd \<Longrightarrow> getArguments I ! k = opd \<and> opd \<in> set (getArguments I)"
  by (auto simp: argument_def split: if_splits)

lemma inst_value_cong:
  assumes "\<forall>n \<in> reads I. env n = env' n"
  shows "inst_value store V env I = inst_value store V env' I"
proof -
  have "map (operand_value V env) (getArguments I) = map (operand_value V env') (getArguments I)"
    using assms by (auto simp: reads_def intro: operand_value_cong)
  moreover have "operand_value V env (getArguments I ! 1) = operand_value V env' (getArguments I ! 1)"
    if "stored_size I \<noteq> None"
  proof -
    have "1 < length (getArguments I)"
      using that by (auto simp: stored_size_def argument_def split: if_splits)
    then have "getArguments I ! 1 \<in> set (getArguments I)" by (rule nth_mem)
    then show ?thesis using assms by (intro operand_value_cong) (metis mem_Collect_eq reads_def)
  qed
  ultimately show ?thesis
    unfolding inst_value_def by (auto split: bool.splits option.splits simp del: map_eq_conv)
qed

lemma exec_env_cong:
  assumes "\<forall>n. n \<notin> X \<longrightarrow> env n = env' n" "\<forall>I \<in> set BB. reads I \<inter> X = {}" "n \<notin> X"
  shows "exec store V env BB n = exec store V env' BB n"
  using assms
proof (induction BB arbitrary: env env')
  case Nil
  then show ?case by simp
next
  case (Cons I BB)
  have "inst_value store V env I = inst_value store V env' I"
    using Cons.prems by (intro inst_value_cong) auto
  then show ?case using Cons.prems by (auto intro!: Cons.IH)
qed

lemma exec_append: "exec store V env (A @ B) = exec store V (exec store V env A) B"
  by (induction A arbitrary: env) auto

lemma exec_frame: "n \<notin> instName ` set BB \<Longrightarrow> exec store V env BB n = env n"
  by (induction BB arbitrary: env) auto

lemma image_last: "xs \<noteq> [] \<Longrightarrow> f ` set xs = insert (f (last xs)) (f ` set (butlast xs))"
  by (cases xs rule: rev_cases) auto

lemma distinct_last: "distinct (map f xs) \<Longrightarrow> xs \<noteq> [] \<Longrightarrow> f (last xs) \<notin> f ` set (butlast xs)"
  by (cases xs rule: rev_cases) auto

text \<open>The inner results of a chain are read by nothing after the chain.\<close>

lemma chain_reads:
  assumes "links p Js" "getNumUses J = 1" "instName J = p" "uses_ok (J # Js @ BB)" "Js \<noteq> []"
    and "n \<in> insert p (instName ` set (butlast Js))" "I \<in> set BB"
  shows "n \<notin> reads I"
  using assms
proof (induction Js arbitrary: J p)
  case Nil
  then show ?case by simp
next
  case (Cons K Js)
  have K: "Result p \<in> set (getArguments K)"
    using Cons.prems(1) by (auto dest: argument_Some)
  show ?case
  proof (cases "n = p")
    case True
    have "count_list (concat (map getArguments (K # Js @ BB))) (Result p) \<le> 1"
      using Cons.prems(2-4) by simp
    then have "count_list (concat (map getArguments BB)) (Result p) = 0"
      using K count_list_pos [of "getArguments K" "Result p"] by simp
    then show ?thesis using Cons.prems(7) True by (auto simp: count_list_0_iff reads_def)
  next
    case False
    then have "Js \<noteq> []" using Cons.prems(6) by (auto split: if_splits)
    then show ?thesis
      using Cons.IH [of "instName K" K] Cons.prems False by auto
  qed
qed

context builder_ops
begin

lemma good_store_value:
  assumes "good_store I" "storeConstCallSite I"
  shows "inst_value store V env I = put (operand_value V env (getArguments I ! 1)) (store_bits I)"
  using assms store_fits by (auto simp: good_store_def inst_value_def store_bits_def)

text \<open>The last result of a chain is the first builder with the bits of all the stores.\<close>

lemma chain_value:
  assumes "links p Js" "\<forall>I \<in> set Js. good_store I" "Js \<noteq> []"
  shows "exec store V env Js (instName (last Js)) = put (env p) (concat (map store_bits Js))"
  using assms
proof (induction Js arbitrary: env p)
  case Nil
  then show ?case by simp
next
  case (Cons J Js)
  have J: "inst_value store V env J = put (env p) (store_bits J)"
    using good_store_value [of J] Cons.prems(1,2) by (auto simp: argument_def split: if_splits)
  show ?case
  proof (cases "Js = []")
    case False
    then show ?thesis using Cons.IH [of "instName J"] Cons.prems J by (simp add: put_put)
  qed (simp add: J)
qed

lemma tryCombine_exec:
  assumes t: "tryCombine J BB = Some (New, c, rest)" "storeConstCallSite J" "getNumUses J = 1"
    and ok: "uses_ok (J # BB)" "\<forall>I \<in> set (J # BB). storeConstCallSite I \<longrightarrow> good_store I"
  obtains N Js where "New = [N]" "BB = Js @ rest" "instName N = instName (last (J # Js))"
    "reads N \<subseteq> reads J" "\<forall>I \<in> set rest. reads I \<inter> instName ` set (butlast (J # Js)) = {}"
    "\<And>env n. n \<notin> instName ` set (butlast (J # Js)) \<Longrightarrow>
       exec store V env [N] n = exec store V env (J # Js) n"
proof -
  from t(1) obtain z n where n: "stored_size J = Some z" "scan (z mod 2 ^ 32) (instName J) BB = Some n"
    by (auto simp: tryCombine_def bind_eq_Some_conv)
  show thesis
  proof (cases "n = 0")
    case True
    with t(1) n have "New = [J]" "BB = rest" by (auto simp: tryCombine_def)
    then show thesis using that [of J "[]"] by simp
  next
    case False
    define Js where "Js = take n BB"
    from t(1) n False obtain N where N: "n < length BB" "New = [N]" "rest = drop n BB" "combine (J # Js) = Some N"
      by (auto simp: tryCombine_def bind_eq_Some_conv Js_def split: if_splits)
    have BB: "BB = Js @ rest" and Js: "Js \<noteq> []" using N(1,3) False by (auto simp: Js_def)
    have links: "links (instName J) Js" using scan_links [OF n(2)] by (simp add: Js_def)
    have sc: "storeConstCallSite I" if "I \<in> set Js" for I using links that by (induction Js arbitrary: J) auto
    have good: "\<forall>I \<in> set (J # Js). good_store I" using ok(2) t(2) BB sc by auto
    have z: "the (stored_size J) = z" "z \<le> 257" using good_size [of J] good n(1) by auto
    have size: "sum_list (map (\<lambda>I. the (stored_size I)) (J # Js)) \<le> 256"
      using scan_size [OF n(2)] ok(2) z False by (simp add: Js_def)
    obtain b where b: "argument J 1 = Some b"
      using n(1) by (auto simp: stored_size_def argument_def bind_eq_Some_conv split: if_splits)
    obtain D where D: "instName N = instName (last (J # Js))" "getIntrinsicID N = Some tvm_stu"
        "getArguments N ! 1 = b" "reads N \<subseteq> {n. Result n = b}"
        "storeConstCallSite N" "stored_value N = Some D"
        "stored_size N = Some (sum_list (map (\<lambda>I. the (stored_size I)) (J # Js)))"
        "store_bits N = concat (map store_bits (J # Js))"
        "fits tvm_stu (sum_list (map (\<lambda>I. the (stored_size I)) (J # Js))) D"
      using combine_good [OF good b size] N(4) by (auto simp: reads_def)
    have "reads N \<subseteq> reads J" using D(4) argument_Some [OF b] by (auto simp: reads_def)
    moreover have "\<forall>I \<in> set rest. reads I \<inter> instName ` set (butlast (J # Js)) = {}"
      using chain_reads [OF links t(3) refl _ Js] ok(1) BB Js by auto
    moreover have "exec store V env [N] m = exec store V env (J # Js) m"
      if m: "m \<notin> instName ` set (butlast (J # Js))" for env m
    proof (cases "m = instName (last (J # Js))")
      case True
      have "inst_value store V env N = put (operand_value V env b) (store_bits N)"
        using D(2,3,5,6,7,9) store_fits by (simp add: inst_value_def store_bits_def)
      moreover have "inst_value store V env J = put (operand_value V env b) (store_bits J)"
        using good_store_value [of J] good t(2) argument_Some [OF b] by simp
      ultimately show ?thesis
        using True D(1,8) Js good chain_value [OF links _ Js] by (simp add: put_put)
    next
      case False
      have "m \<notin> instName ` set (J # Js)"
        using m False image_last [of "J # Js" instName] by simp
      then show ?thesis using False D(1) exec_frame [of m "J # Js" store V env] by simp
    qed
    ultimately show thesis using that N(2) BB D(1) by blast
  qed
qed

end

lemma uses_ok_append: "uses_ok (A @ B) \<Longrightarrow> uses_ok B"
  by (induction A) auto

lemma uses_ok_distinct: "uses_ok BB \<Longrightarrow> distinct (map instName BB)"
  by (induction BB) auto

context builder_ops
begin

text \<open>
  The pass keeps the value of every instruction that it does not erase; the erased ones are read by
  nothing that is left.
\<close>

lemma run_keeps_values:
  assumes "runOnBasicBlock BB = Some (c, BB')" "uses_ok BB"
    and "\<forall>I \<in> set BB. storeConstCallSite I \<longrightarrow> good_store I"
    and "\<forall>m. m \<notin> X \<longrightarrow> env m = env' m" "\<forall>I \<in> set BB. reads I \<inter> X = {}"
  shows "instName ` set BB' \<subseteq> instName ` set BB \<and>
     (\<forall>m. m \<notin> X \<and> m \<notin> instName ` set BB - instName ` set BB' \<longrightarrow>
        exec store V env BB' m = exec store V env' BB m)"
  using assms
proof (induction "length BB" arbitrary: BB c BB' env env' X rule: less_induct)
  case less
  show ?case
  proof (cases BB)
    case Nil
    with less.prems show ?thesis by (simp add: runOnBasicBlock.simps)
  next
    case (Cons J BB1)
    define Y where "Y Js = instName ` set (butlast (J # Js))" for Js
    obtain N Js rest c1 R where N: "BB = (J # Js) @ rest" "BB' = N # R"
        "runOnBasicBlock rest = Some (c1, R)" "instName N = instName (last (J # Js))"
        "reads N \<subseteq> reads J" "\<forall>I \<in> set rest. reads I \<inter> Y Js = {}"
        "\<And>e m. m \<notin> Y Js \<Longrightarrow> exec store V e [N] m = exec store V e (J # Js) m"
    proof (cases "getNumUses J = 1 \<and> storeConstCallSite J")
      case True
      with less.prems(1) Cons obtain New c2 rest c3 R where t: "tryCombine J BB1 = Some (New, c2, rest)"
          "runOnBasicBlock rest = Some (c3, R)" "BB' = New @ R"
        by (fastforce simp: runOnBasicBlock.simps [of "J # BB1"] bind_eq_Some_conv split: option.splits)
      obtain N Js where "New = [N]" "BB1 = Js @ rest" "instName N = instName (last (J # Js))"
          "reads N \<subseteq> reads J" "\<forall>I \<in> set rest. reads I \<inter> Y Js = {}"
          "\<And>e m. m \<notin> Y Js \<Longrightarrow> exec store V e [N] m = exec store V e (J # Js) m"
        using tryCombine_exec [OF t(1)] True less.prems(2,3) Cons unfolding Y_def by metis
      with t Cons show thesis using that [of Js rest N R c3] by simp
    next
      case False
      with less.prems(1) Cons obtain c3 R where "runOnBasicBlock BB1 = Some (c3, R)" "BB' = J # R"
        by (auto simp: runOnBasicBlock.simps [of "J # BB1"] bind_eq_Some_conv)
      with Cons show thesis using that [of "[]" BB1 J R c3] by (simp add: Y_def)
    qed
    have dist: "distinct (map instName BB)" using uses_ok_distinct less.prems(2) by blast
    define e where "e = exec store V env [N]"
    define e' where "e' = exec store V env' (J # Js)"
    have "reads N \<inter> X = {}" using N(1,5) less.prems(5) by auto
    then have agree: "e m = e' m" if "m \<notin> X \<union> Y Js" for m
      using exec_env_cong [of X env env' "[N]" m store V] less.prems(4) that N(7) [of m env']
      by (simp add: e_def e'_def del: exec.simps)
    have small: "length rest < length BB" using N(1) by simp
    have IH: "instName ` set R \<subseteq> instName ` set rest \<and>
       (\<forall>m. m \<notin> X \<union> Y Js \<and> m \<notin> instName ` set rest - instName ` set R \<longrightarrow>
          exec store V e R m = exec store V e' rest m)"
      using less.hyps [OF small N(3), of "X \<union> Y Js" e e'] agree N(1,6) less.prems(2,3,5)
        uses_ok_append [of "J # Js" rest] by (auto simp: Int_Un_distrib)
    have names: "instName ` set (J # Js) = insert (instName N) (Y Js)"
      using image_last [of "J # Js" instName] N(4) unfolding Y_def by simp
    have d: "distinct (map instName (J # Js))" and
        disj: "instName ` set (J # Js) \<inter> instName ` set rest = {}"
      using dist N(1) by auto
    have "instName N \<notin> Y Js" unfolding Y_def N(4) by (rule distinct_last [OF d]) simp
    moreover have "insert (instName N) (Y Js) \<inter> instName ` set rest = {}"
      using disj unfolding names .
    ultimately have sep: "instName N \<notin> Y Js" "insert (instName N) (Y Js) \<inter> instName ` set rest = {}" .
    have sets: "instName ` set BB = insert (instName N) (Y Js) \<union> instName ` set rest"
        "instName ` set BB' = insert (instName N) (instName ` set R)"
      unfolding names [symmetric] N(1,2) by auto
    have sub: "instName ` set R \<subseteq> instName ` set rest" using IH ..
    have keep: "Y Js \<inter> instName ` set BB' = {}" "instName ` set BB' \<subseteq> instName ` set BB"
      "instName ` set rest - instName ` set R \<subseteq> instName ` set BB - instName ` set BB'"
      "Y Js \<subseteq> instName ` set BB"
      unfolding sets using sep sub by blast+
    have "exec store V env BB' = exec store V e R"
      using exec_append [of store V env "[N]" R] by (simp add: e_def N(2))
    moreover have "exec store V env' BB = exec store V e' rest"
      unfolding N(1) exec_append e'_def ..
    moreover have "exec store V e R m = exec store V e' rest m"
      if "m \<notin> X \<and> m \<notin> instName ` set BB - instName ` set BB'" for m
    proof -
      have "m \<notin> X \<union> Y Js" "m \<notin> instName ` set rest - instName ` set R" using that keep by blast+
      then show ?thesis using IH by blast
    qed
    ultimately show ?thesis using keep(2) by simp
  qed
qed

end

section \<open>Builders without references\<close>

text \<open>
  The interface on the builders of the TVM: at most 1023 bits; None is the exception of an overflow or
  of a value out of range, after which there is no builder.
\<close>

definition bit_put :: "bool list option \<Rightarrow> bool list \<Rightarrow> bool list option" where
  "bit_put b xs = do { ys \<leftarrow> b; check (length (ys @ xs) \<le> 1023); Some (ys @ xs) }"

definition bit_store :: "Intrinsic \<Rightarrow> i257 \<Rightarrow> nat \<Rightarrow> bool list option \<Rightarrow> bool list option" where
  "bit_store op w n b = (if fits op n w then bit_put b (bits n w) else None)"

interpretation bit_builder: builder_ops bit_store bit_put
  by unfold_locales (auto simp: bit_store_def bit_put_def split: Option.bind_splits)

section \<open>Negative values\<close>

text \<open>
  The word that combine writes for a negative value has a bit at the position of the size, which
  belongs to the field before.
\<close>

lemma negative_extra_bit:
  assumes "fits tvm_sti n w" "sint w < 0" "n < 256"
  shows "bit (set_bit (n + 1) 0 - (- w) :: i257) n"
proof -
  define k where "k = 2 ^ (n + 1) + sint w"
  have low: "- (2 ^ (n - 1)) \<le> sint w" using assms(1) by (simp add: fits_def)
  have "(2 :: int) ^ (n - 1) \<le> 2 ^ n" by (simp add: power_increasing)
  with low assms(2) have k: "2 ^ n \<le> k" "k < 2 ^ n * 2"
    unfolding k_def power_add power_one_right by linarith+
  have "k div 2 ^ n = 1" using k by (intro int_div_pos_eq [of _ _ _ "k - 2 ^ n"]) simp_all
  then have "bit k n" by (simp add: bit_iff_odd)
  moreover have "set_bit (n + 1) 0 - (- w) = (of_int k :: i257)"
    by (simp add: k_def set_bit_eq_or push_bit_eq_mult)
  ultimately show ?thesis using assms(3) by (simp add: bit_of_int_iff possible_bit_def)
qed

lemma combine_negative:
  assumes New: "combine [J1, J2] = Some New" and J1: "good_store J1" "0 < the (stored_size J1)"
    and J2: "stored_value J2 = Some w" "stored_size J2 = Some n" "fits tvm_sti n w" "sint w < 0"
    and size: "the (stored_size J1) + n \<le> 256" and even: "\<not> bit (the (stored_value J1)) 0"
  shows "store_bits New \<noteq> store_bits J1 @ store_bits J2"
proof -
  let ?n1 = "the (stored_size J1)" and ?w1 = "the (stored_value J1)"
  define D where "D = push_bit n ?w1 OR (set_bit (n + 1) 0 - (- w))"
  have n: "n < 256" using size J1(2) by simp
  have step1: "combine_step J1 (0, 0) = Some (?n1, ?w1)"
    using combine_step_good [OF J1(1), of 0 0] size by simp
  have "combine_step J2 (?n1, ?w1) = Some (?n1 + n, D)"
    using J2 n size by (simp add: combine_step_def word_sless_alt D_def Let_def)
  with step1 New have "getArguments New ! 0 = ConstantInt D"
      "getArguments New ! 2 = ConstantInt (of_nat (?n1 + n))" "length (getArguments New) = 3"
    by (auto simp: combine_def bind_eq_Some_conv)
  moreover have "unat (of_nat (?n1 + n) :: i257) = ?n1 + n"
    using size by (subst unat_of_nat) (simp add: mod_less)
  ultimately have "store_bits New = bits (?n1 + n) D"
    using size by (simp add: store_bits_def stored_size_def stored_value_def argument_def)
  moreover have "bits (?n1 + n) D ! (?n1 - 1) = bit D n"
    using J1(2) by (simp add: bits_def rev_nth)
  moreover have "bit D n" using negative_extra_bit [OF J2(3,4) n] by (simp add: D_def bit_or_iff)
  moreover have "(store_bits J1 @ store_bits J2) ! (?n1 - 1) = bit ?w1 0"
    using J1(2) by (simp add: nth_append) (simp add: store_bits_def bits_def rev_nth)
  ultimately show ?thesis using even by metis
qed

end
