(* ===== verification/TVM_ReFunc.thy ===== *)
theory TVM_ReFunc
  imports TVM_StoreCombine
begin

text \<open>
  The pass TVMReFunc: the cells that a module sends are emulated as values, similar ones are merged
  into a format with unknown parts, and a function that serialises the format is generated; every
  message becomes a call of it with the unknown parts as arguments.
\<close>

section \<open>LLVM values\<close>

datatype Ty = Int257Ty | TVMCellTy | TVMSliceTy | TVMBuilderTy | TVMTupleTy | VoidTy | OtherTy nat

text \<open>A ConstantInt is unique for its width and its (unsigned) value.\<close>

type_synonym ConstInt = "nat \<times> nat"

text \<open>
  Values as trees of their operands. VArg is an argument of the generated function, VOther a value the
  pass does not look into.
\<close>

datatype Value =
    VConstantInt ConstInt
  | VCall Intrinsic "Value list"
  | VBinOp nat Value Value
  | VArg nat
  | VBitCast Value Ty
  | VOther Ty nat

text \<open>The result types of the intrinsics in IntrinsicsTVM.td.\<close>

fun intrinsic_type :: "Intrinsic \<Rightarrow> Ty" where
  "intrinsic_type tvm_endc = TVMCellTy"
| "intrinsic_type tvm_ctos = TVMSliceTy"
| "intrinsic_type tvm_pushnull = Int257Ty"
| "intrinsic_type tvm_getglobal = Int257Ty"
| "intrinsic_type tvm_cast_to_slice = TVMSliceTy"
| "intrinsic_type tvm_cast_to_cell = TVMCellTy"
| "intrinsic_type tvm_cast_to_tuple = TVMTupleTy"
| "intrinsic_type tvm_cast_from_slice = Int257Ty"
| "intrinsic_type tvm_cast_from_builder = Int257Ty"
| "intrinsic_type tvm_cast_from_cell = Int257Ty"
| "intrinsic_type tvm_cast_from_tuple = Int257Ty"
| "intrinsic_type tvm_sendrawmsg = VoidTy"
| "intrinsic_type (other_intrinsic n) = OtherTy n"
| "intrinsic_type _ = TVMBuilderTy"

fun getType :: "Ty list \<Rightarrow> Value \<Rightarrow> Ty" where
  "getType params (VConstantInt c) = (if fst c = 257 then Int257Ty else OtherTy (fst c))"
| "getType params (VCall i vs) = intrinsic_type i"
| "getType params (VBinOp opc l r) = getType params l"
| "getType params (VArg i) = (if i < length params then params ! i else VoidTy)"
| "getType params (VBitCast v ty) = ty"
| "getType params (VOther ty n) = ty"

section \<open>Emulated values\<close>

text \<open>The struct of a chunk, with its bit size where it has one.\<close>

datatype chunk_kind =
    Stu nat | Sti nat | Stref | Stslice | Stvaruint16 | Stvaruint32 | Stvarint16 | Stvarint32 | Stdict

text \<open>
  A value with the LLVM value it stands for (llvmVal, None is the null pointer). Builder, cell and
  slice hold the chunks of the builder they are made of.
\<close>

datatype val =
    Unknown (llvmVal: "Value option")
  | Builder (llvmVal: "Value option") "chunk list"
  | Cell (llvmVal: "Value option") "chunk list"
  | Slice (llvmVal: "Value option") "chunk list"
  | Constant (llvmVal: "Value option") ConstInt
  | Null (llvmVal: "Value option")
  | Binop (llvmVal: "Value option") nat val val
  | Global (llvmVal: "Value option") nat
and chunk = Chunk chunk_kind val

fun len :: "val \<Rightarrow> nat" and len_chunks :: "chunk list \<Rightarrow> nat" where
  "len (Unknown v) = 1"
| "len (Constant v c) = 1"
| "len (Null v) = 1"
| "len (Global v k) = 1"
| "len (Binop v opc l r) = 1 + len l + len r"
| "len (Builder v cs) = 1 + len_chunks cs"
| "len (Cell v cs) = 1 + (1 + len_chunks cs)"
| "len (Slice v cs) = 1 + (1 + len_chunks cs)"
| "len_chunks [] = 0"
| "len_chunks (Chunk k x # cs) = (1 + len x) + len_chunks cs"

fun chunk_type :: "chunk_kind \<Rightarrow> Ty" where
  "chunk_type Stref = TVMCellTy"
| "chunk_type Stdict = TVMCellTy"
| "chunk_type Stslice = TVMSliceTy"
| "chunk_type _ = Int257Ty"

text \<open>cur_ty is set before every visit of an operand, so it is an argument here.\<close>

fun gather_params :: "Ty \<Rightarrow> val \<Rightarrow> Ty list" and gather_chunks :: "chunk list \<Rightarrow> Ty list" where
  "gather_params cur_ty (Unknown v) = [cur_ty]"
| "gather_params cur_ty (Constant v c) = []"
| "gather_params cur_ty (Null v) = []"
| "gather_params cur_ty (Global v k) = []"
| "gather_params cur_ty (Binop v opc l r) = gather_params Int257Ty l @ gather_params Int257Ty r"
| "gather_params cur_ty (Builder v cs) = gather_chunks cs"
| "gather_params cur_ty (Cell v cs) = gather_chunks cs"
| "gather_params cur_ty (Slice v cs) = gather_chunks cs"
| "gather_chunks [] = []"
| "gather_chunks (Chunk k x # cs) = gather_params (chunk_type k) x @ gather_chunks cs"

section \<open>Generation of the function\<close>

definition int257 :: "nat \<Rightarrow> Value" where
  "int257 n = VConstantInt (257, n)"

definition cast_to :: "Ty list \<Rightarrow> Ty \<Rightarrow> Value \<Rightarrow> Value" where
  "cast_to params ty v = (if getType params v \<noteq> ty then VBitCast v ty else v)"

text \<open>The call for a chunk with the value x on the builder b.\<close>

fun chunk_call :: "chunk_kind \<Rightarrow> Value \<Rightarrow> Value \<Rightarrow> Value" where
  "chunk_call (Stu n) x b = VCall tvm_stu [x, b, int257 n]"
| "chunk_call (Sti n) x b = VCall tvm_stu [x, b, int257 n]"
| "chunk_call Stref x b = VCall tvm_stref [x, b]"
| "chunk_call Stslice x b = VCall tvm_stslice [x, b]"
| "chunk_call Stvaruint16 x b = VCall tvm_stvaruint16 [b, x]"
| "chunk_call Stvaruint32 x b = VCall tvm_stvaruint32 [b, x]"
| "chunk_call Stvarint16 x b = VCall tvm_stvarint16 [b, x]"
| "chunk_call Stvarint32 x b = VCall tvm_stvarint32 [b, x]"
| "chunk_call Stdict x b = VCall tvm_stdict [x, b]"

definition stvar :: "chunk_kind \<Rightarrow> bool" where
  "stvar k \<longleftrightarrow> k \<in> {Stvaruint16, Stvaruint32, Stvarint16, Stvarint32}"

text \<open>
  The state of gen_func_visitor is arg_idx and cur_b. The visit of a chunk's value may set cur_b, and
  C++ leaves open whether make_call's arguments are evaluated from the right (rtl) or from the left:
  the calls of the stvar group name cur_b before the value, the others after it.
\<close>

definition old_builder :: "bool \<Rightarrow> chunk_kind \<Rightarrow> bool" where
  "old_builder rtl k \<longleftrightarrow> (if stvar k then \<not> rtl else rtl)"

fun gen_func :: "bool \<Rightarrow> Ty list \<Rightarrow> val \<Rightarrow> nat \<times> Value option \<Rightarrow> (Value \<times> nat \<times> Value option) option"
  and gen_chunks :: "bool \<Rightarrow> Ty list \<Rightarrow> chunk list \<Rightarrow> nat \<times> Value option \<Rightarrow> (Value \<times> nat \<times> Value option) option"
where
  "gen_func rtl ps (Unknown v) (i, b) = Some (VArg i, i + 1, b)"
| "gen_func rtl ps (Constant v c) s = Some (VConstantInt c, s)"
| "gen_func rtl ps (Null v) s = Some (VCall tvm_pushnull [], s)"
| "gen_func rtl ps (Global v k) s = Some (VCall tvm_getglobal [int257 k], s)"
| "gen_func rtl ps (Binop v opc l r) s = do {
     (x, s1) \<leftarrow> gen_func rtl ps l s;
     (y, s2) \<leftarrow> gen_func rtl ps r s1;
     Some (VBinOp opc (cast_to ps Int257Ty x) (cast_to ps Int257Ty y), s2) }"
| "gen_func rtl ps (Builder v cs) s = gen_chunks rtl ps cs (fst s, Some (VCall tvm_newc []))"
| "gen_func rtl ps (Cell v cs) s = do {
     (x, s1) \<leftarrow> gen_chunks rtl ps cs (fst s, Some (VCall tvm_newc []));
     Some (VCall tvm_endc [x], s1) }"
| "gen_func rtl ps (Slice v cs) s = do {
     (x, s1) \<leftarrow> gen_chunks rtl ps cs (fst s, Some (VCall tvm_newc []));
     Some (VCall tvm_ctos [VCall tvm_endc [x]], s1) }"
| "gen_chunks rtl ps [] s = do { b \<leftarrow> snd s; Some (b, s) }"
| "gen_chunks rtl ps (Chunk k x # cs) s = do {
     (y, s1) \<leftarrow> gen_func rtl ps x s;
     b \<leftarrow> (if old_builder rtl k then snd s else snd s1);
     gen_chunks rtl ps cs (fst s1, Some (chunk_call k (cast_to ps (chunk_type k) y) b)) }"

section \<open>Generation of the calls\<close>

fun same_struct :: "chunk_kind \<Rightarrow> chunk_kind \<Rightarrow> bool" where
  "same_struct (Stu n) (Stu m) = True"
| "same_struct (Sti n) (Sti m) = True"
| "same_struct k k' = (k = k')"

text \<open>The arguments of the call: the LLVM values at the places where the format is unknown.\<close>

fun gen_call_args :: "val \<Rightarrow> val \<Rightarrow> Value list option"
  and gen_call_chunks :: "chunk list \<Rightarrow> chunk list \<Rightarrow> Value list option" where
  "gen_call_args l (Unknown v) = do { a \<leftarrow> llvmVal l; Some [a] }"
| "gen_call_args (Constant v c) (Constant v' c') = Some []"
| "gen_call_args (Null v) (Null v') = Some []"
| "gen_call_args (Global v k) (Global v' k') = Some []"
| "gen_call_args (Binop v opc l1 l2) (Binop v' opc' r1 r2) = do {
     a \<leftarrow> gen_call_args l1 r1; b \<leftarrow> gen_call_args l2 r2; Some (a @ b) }"
| "gen_call_args (Builder v cs) (Builder v' ds) = gen_call_chunks cs ds"
| "gen_call_args (Cell v cs) (Cell v' ds) = gen_call_chunks cs ds"
| "gen_call_args (Slice v cs) (Slice v' ds) = gen_call_chunks cs ds"
| "gen_call_args l r = None"
| "gen_call_chunks [] [] = Some []"
| "gen_call_chunks (Chunk k x # cs) (Chunk k' y # ds) = do {
     check (same_struct k k');
     a \<leftarrow> gen_call_args x y; b \<leftarrow> gen_call_chunks cs ds; Some (a @ b) }"
| "gen_call_chunks cs ds = None"

record Function =
  functionIdx :: nat
  returnType :: Ty
  paramTypes :: "Ty list"
  body :: Value

text \<open>The call as the function and its arguments; every parameter needs one.\<close>

definition gen_call :: "val \<Rightarrow> Function \<Rightarrow> val \<Rightarrow> Value list option" where
  "gen_call v F fmt = do {
     Args \<leftarrow> gen_call_args v fmt;
     check (length Args = length (paramTypes F));
     Some (map (\<lambda>(ty, a). cast_to [] ty a) (zip (paramTypes F) Args)) }"

definition makeFunction :: "bool \<Rightarrow> val \<Rightarrow> nat \<Rightarrow> Function option" where
  "makeFunction rtl v func_idx = do {
     RetTy \<leftarrow> (case v of Builder _ _ \<Rightarrow> Some TVMBuilderTy | Cell _ _ \<Rightarrow> Some TVMCellTy
                | Slice _ _ \<Rightarrow> Some TVMSliceTy | _ \<Rightarrow> None);
     let params = gather_params VoidTy v;
     (Rv, s) \<leftarrow> gen_func rtl params v (0, None);
     Some \<lparr> functionIdx = func_idx, returnType = RetTy, paramTypes = params, body = Rv \<rparr> }"

section \<open>Emulation\<close>

text \<open>A chunk appended to an emulated builder, unknown when there is no builder.\<close>

definition add_chunk :: "Value \<Rightarrow> val \<Rightarrow> chunk list \<Rightarrow> val" where
  "add_chunk CurVal b new =
     (case b of Builder _ cs \<Rightarrow> Builder (Some CurVal) (cs @ new) | _ \<Rightarrow> Unknown (Some CurVal))"

definition process_sti_stu :: "Value \<Rightarrow> (nat \<Rightarrow> chunk_kind) \<Rightarrow> val \<Rightarrow> val \<Rightarrow> val \<Rightarrow> val" where
  "process_sti_stu CurVal StOp v b sz =
     (case sz of
        Constant _ c \<Rightarrow>
          if snd c \<ge> 2 ^ 32 then Unknown (Some CurVal)
          else add_chunk CurVal b [Chunk (StOp (snd c)) v]
      | _ \<Rightarrow> Unknown (Some CurVal))"

definition process_stslice :: "Value \<Rightarrow> val \<Rightarrow> val \<Rightarrow> val" where
  "process_stslice CurVal v b =
     add_chunk CurVal b (case v of Slice _ cs \<Rightarrow> cs | _ \<Rightarrow> [Chunk Stslice v])"

definition process_endc :: "Value \<Rightarrow> val \<Rightarrow> val" where
  "process_endc CurVal b =
     (case b of Builder _ cs \<Rightarrow> Cell (Some CurVal) cs | _ \<Rightarrow> Unknown (Some CurVal))"

definition process_ctos :: "Value \<Rightarrow> val \<Rightarrow> val" where
  "process_ctos CurVal cl =
     (case cl of Cell _ cs \<Rightarrow> Slice (Some CurVal) cs | _ \<Rightarrow> Unknown (Some CurVal))"

definition process_global :: "Value \<Rightarrow> val \<Rightarrow> val" where
  "process_global CurVal idx =
     (case idx of
        Constant _ c \<Rightarrow> if snd c \<ge> 2 ^ 32 then Unknown (Some CurVal) else Global (Some CurVal) (snd c)
      | _ \<Rightarrow> Unknown (Some CurVal))"

definition casts :: "Intrinsic set" where
  "casts = {tvm_cast_to_slice, tvm_cast_to_builder, tvm_cast_to_cell, tvm_cast_to_tuple,
     tvm_cast_from_slice, tvm_cast_from_builder, tvm_cast_from_cell, tvm_cast_from_tuple}"

text \<open>
  The call with the emulated values of its arguments; the casts give their argument's value. The
  two stvarint calls make the chunks of the unsigned stores stvaruint16 and stvaruint32, as the code does.
\<close>

definition process_call :: "Value \<Rightarrow> Intrinsic \<Rightarrow> val list \<Rightarrow> val" where
  "process_call C i xs =
     (case xs of
        [x, b, sz] \<Rightarrow>
          if i = tvm_stu then process_sti_stu C Stu x b sz
          else if i = tvm_sti then process_sti_stu C Sti x b sz
          else Unknown (Some C)
      | [x, y] \<Rightarrow>
          if i = tvm_stref then add_chunk C y [Chunk Stref x]
          else if i = tvm_stslice then process_stslice C x y
          else if i = tvm_stvarint16 then add_chunk C x [Chunk Stvaruint16 y]
          else if i = tvm_stvarint32 then add_chunk C x [Chunk Stvaruint32 y]
          else if i = tvm_stvaruint16 then add_chunk C x [Chunk Stvaruint16 y]
          else if i = tvm_stvaruint32 then add_chunk C x [Chunk Stvaruint32 y]
          else if i = tvm_stdict then add_chunk C y [Chunk Stdict x]
          else Unknown (Some C)
      | [x] \<Rightarrow>
          if i = tvm_endc then process_endc C x
          else if i = tvm_ctos then process_ctos C x
          else if i = tvm_getglobal then process_global C x
          else if i \<in> casts then x
          else Unknown (Some C)
      | [] \<Rightarrow>
          if i = tvm_newc then Builder (Some C) []
          else if i = tvm_pushnull then Null (Some C)
          else Unknown (Some C)
      | _ \<Rightarrow> Unknown (Some C))"

fun process :: "Value \<Rightarrow> val" where
  "process (VCall i vs) = process_call (VCall i vs) i (map process vs)"
| "process (VConstantInt c) = Constant (Some (VConstantInt c)) c"
| "process (VBinOp opc l r) = Binop (Some (VBinOp opc l r)) opc (process l) (process r)"
| "process v = Unknown (Some v)"

section \<open>Comparison and merging\<close>

text \<open>
  val_compare gives a value and a flag: the flag means that the two cannot be compared, no value that
  they are equal, and a value is the common format. New unknown values have no LLVM value here. The
  right operand of a one-sided difference is taken from the left one's sibling, as in the code.
\<close>

fun val_compare :: "val \<Rightarrow> val \<Rightarrow> val option \<times> bool"
  and merge_chunks :: "chunk list \<Rightarrow> chunk list \<Rightarrow> bool \<times> bool \<times> chunk list" where
  "val_compare (Unknown v) (Unknown v') = (None, False)"
| "val_compare (Constant v c) (Constant v' c') =
     (if c = c' then (None, False) else (Some (Unknown None), False))"
| "val_compare (Null v) (Null v') = (None, False)"
| "val_compare (Global v k) (Global v' k') = (None, k \<noteq> k')"
| "val_compare (Binop v opc l1 l2) (Binop v' opc' r1 r2) =
     (if opc \<noteq> opc' then (None, True)
      else case val_compare l1 r1 of
        (left_cmp, True) \<Rightarrow> (None, True)
      | (left_cmp, False) \<Rightarrow>
          (case val_compare l2 r2 of
             (right_cmp, True) \<Rightarrow> (None, True)
           | (right_cmp, False) \<Rightarrow>
               (case (left_cmp, right_cmp) of
                  (None, None) \<Rightarrow> (None, False)
                | _ \<Rightarrow> (Some (Binop None opc (case left_cmp of None \<Rightarrow> l1 | Some x \<Rightarrow> x)
                                (case right_cmp of None \<Rightarrow> r1 | Some x \<Rightarrow> x)), False))))"
| "val_compare (Cell v cs) (Cell v' ds) =
     (if length cs \<noteq> length ds then (Some (Unknown None), False)
      else case merge_chunks cs ds of (broken, changed, b) \<Rightarrow>
        if \<not> broken \<and> \<not> changed then (None, False)
        else if length b \<noteq> length cs then (Some (Unknown None), False)
        else (Some (Cell None b), False))"
| "val_compare l r = (None, True)"
| "merge_chunks (Chunk k x # cs) (Chunk k' y # ds) =
     (if k \<noteq> k' then (True, False, [])
      else case val_compare x y of
        (cmp, break_cmp) \<Rightarrow>
          (case (if break_cmp then Some (Unknown None) else cmp) of
             None \<Rightarrow> (case merge_chunks cs ds of (broken, changed, b) \<Rightarrow> (broken, changed, Chunk k x # b))
           | Some z \<Rightarrow> (case merge_chunks cs ds of (broken, changed, b) \<Rightarrow> (broken, True, Chunk k z # b))))"
| "merge_chunks cs ds = (False, False, [])"

text \<open>
  merge_builders: the merged chunks up to the first pair that cannot be compared, whether the builders
  are fully equal, and whether the first is a proper prefix of the second.
\<close>

definition merge_builders :: "chunk list \<Rightarrow> chunk list \<Rightarrow> chunk list \<times> bool \<times> bool" where
  "merge_builders b1 b2 =
     (case merge_chunks b1 b2 of (broken, changed, rv) \<Rightarrow>
        (rv, \<not> broken \<and> \<not> changed \<and> length b1 = length b2,
         \<not> broken \<and> \<not> changed \<and> length b1 < length b2))"

section \<open>Candidates and messages\<close>

record sendmsg =
  msgVal :: val
  best_candidate :: nat

record candidate =
  candVal :: val
  candLen :: nat
  candIdx :: nat

text \<open>operator<: the longest first, then the highest index.\<close>

definition cand_less :: "candidate \<Rightarrow> candidate \<Rightarrow> bool" where
  "cand_less a b \<longleftrightarrow> candLen a > candLen b \<or> (candLen a = candLen b \<and> candIdx a > candIdx b)"

text \<open>insert of a std::set: nothing happens when an equivalent element is there.\<close>

fun cand_insert :: "candidate \<Rightarrow> candidate list \<Rightarrow> candidate list" where
  "cand_insert a [] = [a]"
| "cand_insert a (b # cs) =
     (if cand_less a b then a # b # cs else if cand_less b a then b # cand_insert a cs else b # cs)"

definition cell_chunks :: "val \<Rightarrow> chunk list option" where
  "cell_chunks v = (case v of Cell _ cs \<Rightarrow> Some cs | _ \<Rightarrow> None)"

text \<open>The loop of find_candidate with cur_best and max_merge.\<close>

fun find_loop :: "val \<Rightarrow> candidate list \<Rightarrow> nat \<times> nat \<Rightarrow> (nat \<times> nat) option" where
  "find_loop v [] (cur_best, max_merge) = Some (cur_best, max_merge)"
| "find_loop v (c # cs) (cur_best, max_merge) =
     (if candLen c > len v then find_loop v cs (cur_best, max_merge)
      else do {
        b1 \<leftarrow> cell_chunks (candVal c);
        b2 \<leftarrow> cell_chunks v;
        case merge_builders b1 b2 of (b, full_equal, left_prefix) \<Rightarrow>
          if full_equal \<or> left_prefix then Some (candIdx c, candLen c)
          else
            (let merge_len = 1 + len_chunks b;
                 (best, max) = (if merge_len > max_merge then (candIdx c, merge_len)
                                else (cur_best, max_merge))
             in if max \<ge> candLen c then Some (best, max) else find_loop v cs (best, max)) })"

definition find_candidate :: "candidate list \<Rightarrow> val \<Rightarrow> (nat \<times> nat) option" where
  "find_candidate candidates v = find_loop v candidates (0, 0)"

definition merge_cells :: "val \<Rightarrow> val \<Rightarrow> val option" where
  "merge_cells cl1 cl2 = do {
     b1 \<leftarrow> cell_chunks cl1;
     b2 \<leftarrow> cell_chunks cl2;
     case merge_builders b1 b2 of (b, full_equal, left_prefix) \<Rightarrow>
       Some (if full_equal \<or> left_prefix then cl1 else Cell None b) }"

definition collect_candidate :: "sendmsg \<Rightarrow> candidate list \<Rightarrow> candidate list option" where
  "collect_candidate m candidates =
     (let cur_len = len (msgVal m)
      in if cur_len < 5 then Some candidates
         else do {
           (best_idx, max_depth) \<leftarrow> find_candidate candidates (msgVal m);
           Some (if best_idx = 0 \<or> max_depth < min 10 cur_len \<or> cur_len > max_depth + 5
                 then cand_insert \<lparr> candVal = msgVal m, candLen = cur_len,
                        candIdx = length candidates + 1 \<rparr> candidates
                 else candidates) })"

text \<open>Choosing a candidate for every message; short messages keep theirs.\<close>

definition choose_candidate :: "candidate list \<Rightarrow> sendmsg \<Rightarrow> sendmsg option" where
  "choose_candidate candidates m =
     (if len (msgVal m) < 5 then Some m
      else do {
        (best_idx, max_depth) \<leftarrow> find_candidate candidates (msgVal m);
        Some (m \<lparr> best_candidate := best_idx \<rparr>) })"

definition weight :: "sendmsg list \<Rightarrow> nat \<Rightarrow> nat" where
  "weight msgs idx = length (filter (\<lambda>m. \<not> len (msgVal m) < 5 \<and> best_candidate m = idx) msgs)"

text \<open>The keys of the map of weights, in its order.\<close>

definition weight_keys :: "sendmsg list \<Rightarrow> nat list" where
  "weight_keys msgs = sort (remdups (map best_candidate (filter (\<lambda>m. \<not> len (msgVal m) < 5) msgs)))"

definition merged_value :: "candidate list \<Rightarrow> sendmsg list \<Rightarrow> nat \<Rightarrow> val option" where
  "merged_value candidates msgs idx = do {
     best_c \<leftarrow> List.find (\<lambda>c. candIdx c = idx) candidates;
     foldM (\<lambda>m best_val. if best_candidate m = idx then merge_cells best_val (msgVal m) else Some best_val)
       msgs (candVal best_c) }"

text \<open>The calls that replace the messages of a candidate: the message's position and the arguments.\<close>

fun replace_calls ::
  "nat \<Rightarrow> Function \<Rightarrow> val \<Rightarrow> nat \<Rightarrow> sendmsg list \<Rightarrow> (nat \<times> nat \<times> Value list) list option" where
  "replace_calls idx F best_val pos [] = Some []"
| "replace_calls idx F best_val pos (m # msgs) =
     (if len (msgVal m) < 5 \<or> best_candidate m \<noteq> idx then replace_calls idx F best_val (pos + 1) msgs
      else do {
        args \<leftarrow> gen_call (msgVal m) F best_val;
        rest \<leftarrow> replace_calls idx F best_val (pos + 1) msgs;
        Some ((pos, idx, args) # rest) })"

text \<open>
  merger::process: the functions it makes and the calls (message, function, arguments) whose results
  are sent instead.
\<close>

definition merger_process ::
  "bool \<Rightarrow> sendmsg list \<Rightarrow> (Function list \<times> (nat \<times> nat \<times> Value list) list) option" where
  "merger_process rtl msgs = do {
     candidates \<leftarrow> foldM collect_candidate msgs [];
     chosen \<leftarrow> mapM (choose_candidate candidates) msgs;
     foldM (\<lambda>idx (Fs, calls).
         if weight chosen idx > 1
         then do {
           best_val \<leftarrow> merged_value candidates chosen idx;
           F \<leftarrow> makeFunction rtl best_val idx;
           new \<leftarrow> replace_calls idx F best_val 0 chosen;
           Some (Fs @ [F], calls @ new) }
         else Some (Fs, calls))
       (weight_keys chosen) ([], []) }"

text \<open>
  processSendRawMsgUses over the users of the intrinsic's declaration: calls with their first argument,
  or other users. The iterator does not move on at another user, so the loop does not end there.
\<close>

partial_function (option) collect_messages :: "Value option list \<Rightarrow> sendmsg list option" where
  "collect_messages users =
     (case users of
        [] \<Rightarrow> Some []
      | None # _ \<Rightarrow> collect_messages users
      | Some arg # rest \<Rightarrow>
          collect_messages rest \<bind>
            (\<lambda>msgs. Some (\<lparr> msgVal = process arg, best_candidate = 0 \<rparr> # msgs)))"

definition processSendRawMsgUses ::
  "bool \<Rightarrow> Value option list \<Rightarrow> (Function list \<times> (nat \<times> nat \<times> Value list) list) option" where
  "processSendRawMsgUses rtl users = do { msgs \<leftarrow> collect_messages users; merger_process rtl msgs }"

text \<open>
  runOnModule over the functions of the module, each with whether it is a declaration, its intrinsic and
  its users: whether something changed and what the runs did.
\<close>

definition runOnModule ::
  "bool \<Rightarrow> bool \<Rightarrow> (bool \<times> Intrinsic option \<times> Value option list) list \<Rightarrow>
   (bool \<times> (Function list \<times> (nat \<times> nat \<times> Value list) list) list) option" where
  "runOnModule TVMEnableMReFunc rtl M =
     (if \<not> TVMEnableMReFunc then Some (False, [])
      else foldM (\<lambda>(isDeclaration, ID, users) (Changed, done).
             if \<not> isDeclaration \<or> ID \<noteq> Some tvm_sendrawmsg then Some (Changed, done)
             else do { r \<leftarrow> processSendRawMsgUses rtl users; Some (True, done @ [r]) })
           M (False, []))"

end
