(* ===== verification/TVM_ReFuncCorrect.thy ===== *)
theory TVM_ReFuncCorrect
  imports TVM_ReFunc
begin

text \<open>
  What the emulation, the formats and the generated functions of TVMReFunc mean: the interface to the
  builder intrinsics, the soundness of process, and that calls of the generated function give the cells
  of the messages.
\<close>

section \<open>Meaning\<close>

text \<open>What the intrinsics, the binary operators, the constants and the other values compute.\<close>

record 's Sem =
  callv :: "Intrinsic \<Rightarrow> 's list \<Rightarrow> 's"
  binv :: "nat \<Rightarrow> 's \<Rightarrow> 's \<Rightarrow> 's"
  numv :: "ConstInt \<Rightarrow> 's"
  otherv :: "nat \<Rightarrow> 's"

fun eval :: "'s Sem \<Rightarrow> 's list \<Rightarrow> Value \<Rightarrow> 's" where
  "eval S args (VConstantInt c) = numv S c"
| "eval S args (VCall i vs) = callv S i (map (eval S args) vs)"
| "eval S args (VBinOp opc l r) = binv S opc (eval S args l) (eval S args r)"
| "eval S args (VArg i) = args ! i"
| "eval S args (VBitCast v ty) = eval S args v"
| "eval S args (VOther ty n) = otherv S n"

fun chunk_sem :: "'s Sem \<Rightarrow> chunk_kind \<Rightarrow> 's \<Rightarrow> 's \<Rightarrow> 's" where
  "chunk_sem S (Stu n) x b = callv S tvm_stu [x, b, numv S (257, n)]"
| "chunk_sem S (Sti n) x b = callv S tvm_sti [x, b, numv S (257, n)]"
| "chunk_sem S Stref x b = callv S tvm_stref [x, b]"
| "chunk_sem S Stslice x b = callv S tvm_stslice [x, b]"
| "chunk_sem S Stvaruint16 x b = callv S tvm_stvaruint16 [b, x]"
| "chunk_sem S Stvaruint32 x b = callv S tvm_stvaruint32 [b, x]"
| "chunk_sem S Stvarint16 x b = callv S tvm_stvarint16 [b, x]"
| "chunk_sem S Stvarint32 x b = callv S tvm_stvarint32 [b, x]"
| "chunk_sem S Stdict x b = callv S tvm_stdict [x, b]"

fun den :: "'s Sem \<Rightarrow> val \<Rightarrow> 's" and den_chunks :: "'s Sem \<Rightarrow> 's \<Rightarrow> chunk list \<Rightarrow> 's" where
  "den S (Unknown v) = (case v of Some a \<Rightarrow> eval S [] a | None \<Rightarrow> otherv S 0)"
| "den S (Constant v c) = numv S c"
| "den S (Null v) = callv S tvm_pushnull []"
| "den S (Global v k) = callv S tvm_getglobal [numv S (257, k)]"
| "den S (Binop v opc l r) = binv S opc (den S l) (den S r)"
| "den S (Builder v cs) = den_chunks S (callv S tvm_newc []) cs"
| "den S (Cell v cs) = callv S tvm_endc [den_chunks S (callv S tvm_newc []) cs]"
| "den S (Slice v cs) = callv S tvm_ctos [callv S tvm_endc [den_chunks S (callv S tvm_newc []) cs]]"
| "den_chunks S b [] = b"
| "den_chunks S b (Chunk k x # cs) = den_chunks S (chunk_sem S k (den S x) b) cs"

text \<open>Every part has an LLVM value of the same meaning.\<close>

fun consistent :: "'s Sem \<Rightarrow> val \<Rightarrow> bool" and consistent_chunks :: "'s Sem \<Rightarrow> chunk list \<Rightarrow> bool" where
  "consistent S (Unknown v) \<longleftrightarrow> v \<noteq> None"
| "consistent S (Constant v c) \<longleftrightarrow> map_option (eval S []) v = Some (numv S c)"
| "consistent S (Null v) \<longleftrightarrow> map_option (eval S []) v = Some (den S (Null v))"
| "consistent S (Global v k) \<longleftrightarrow> map_option (eval S []) v = Some (den S (Global v k))"
| "consistent S (Binop v opc l r) \<longleftrightarrow> map_option (eval S []) v = Some (den S (Binop v opc l r)) \<and>
     consistent S l \<and> consistent S r"
| "consistent S (Builder v cs) \<longleftrightarrow> map_option (eval S []) v = Some (den S (Builder v cs)) \<and>
     consistent_chunks S cs"
| "consistent S (Cell v cs) \<longleftrightarrow> map_option (eval S []) v = Some (den S (Cell v cs)) \<and>
     consistent_chunks S cs"
| "consistent S (Slice v cs) \<longleftrightarrow> map_option (eval S []) v = Some (den S (Slice v cs)) \<and>
     consistent_chunks S cs"
| "consistent_chunks S [] \<longleftrightarrow> True"
| "consistent_chunks S (Chunk k x # cs) \<longleftrightarrow> consistent S x \<and> consistent_chunks S cs"

lemma consistent_llvm: "consistent S v \<Longrightarrow> \<exists>a. llvmVal v = Some a \<and> eval S [] a = den S v"
  by (cases v) auto

lemma consistent_chunks_append [simp]:
  "consistent_chunks S (cs @ ds) \<longleftrightarrow> consistent_chunks S cs \<and> consistent_chunks S ds"
proof (induction cs)
  case (Cons c cs)
  then show ?case by (cases c) simp
qed simp

lemma den_chunks_append [simp]: "den_chunks S b (cs @ ds) = den_chunks S (den_chunks S b cs) ds"
proof (induction cs arbitrary: b)
  case (Cons c cs)
  then show ?case by (cases c) simp
qed simp

section \<open>The emulation is sound\<close>

text \<open>
  What the pass relies on: a cast keeps the value, and storing the slice of a finished builder is
  joining the builders, chunk by chunk.
\<close>

locale builder_sem =
  fixes S :: "'s Sem" and join :: "'s \<Rightarrow> 's \<Rightarrow> 's" and is_builder :: "'s \<Rightarrow> bool"
  assumes cast_id: "i \<in> casts \<Longrightarrow> callv S i [x] = x"
    and newc_builder: "is_builder (callv S tvm_newc [])"
    and chunk_builder: "is_builder b \<Longrightarrow> is_builder (chunk_sem S k x b)"
    and stslice_join: "is_builder b \<Longrightarrow> is_builder b0 \<Longrightarrow>
      callv S tvm_stslice [callv S tvm_ctos [callv S tvm_endc [b]], b0] = join b0 b"
    and join_newc: "is_builder b0 \<Longrightarrow> join b0 (callv S tvm_newc []) = b0"
    and join_chunk: "is_builder b0 \<Longrightarrow> is_builder b \<Longrightarrow>
      join b0 (chunk_sem S k x b) = chunk_sem S k x (join b0 b)"

text \<open>The values that process treats soundly: i257 constants, and none of the stvarint calls.\<close>

fun plain :: "Value \<Rightarrow> bool" where
  "plain (VConstantInt c) \<longleftrightarrow> fst c = 257"
| "plain (VCall i vs) \<longleftrightarrow> i \<notin> {tvm_stvarint16, tvm_stvarint32} \<and> (\<forall>v \<in> set vs. plain v)"
| "plain (VBinOp opc l r) \<longleftrightarrow> plain l \<and> plain r"
| "plain (VArg i) \<longleftrightarrow> True"
| "plain (VBitCast v ty) \<longleftrightarrow> True"
| "plain (VOther ty n) \<longleftrightarrow> True"

text \<open>Constants inside the emulated value are i257 too.\<close>

fun wide :: "val \<Rightarrow> bool" where
  "wide (Constant v c) \<longleftrightarrow> fst c = 257" | "wide _ \<longleftrightarrow> True"

context builder_sem
begin

lemma den_builder: "is_builder b \<Longrightarrow> is_builder (den_chunks S b cs)"
proof (induction cs arbitrary: b)
  case (Cons c cs)
  then show ?case by (cases c) (simp add: chunk_builder)
qed simp

lemma join_chunks:
  assumes "is_builder b0"
  shows "join b0 (den_chunks S (callv S tvm_newc []) cs) = den_chunks S b0 cs"
proof (induction cs rule: rev_induct)
  case Nil
  then show ?case by (simp add: join_newc assms)
next
  case (snoc c cs)
  then show ?case
    by (cases c) (simp add: join_chunk assms den_builder newc_builder)
qed

lemma add_chunk_sound:
  assumes "consistent S b" "consistent_chunks S new"
    and "eval S [] C = den_chunks S (den S b) new"
  shows "consistent S (add_chunk C b new) \<and> den S (add_chunk C b new) = eval S [] C \<and> wide (add_chunk C b new)"
  using assms by (cases b) (simp_all add: add_chunk_def)

lemma stslice_sound:
  assumes "consistent S x" "consistent S b"
    and "eval S [] C = callv S tvm_stslice [den S x, den S b]"
  shows "consistent S (process_stslice C x b) \<and> den S (process_stslice C x b) = eval S [] C \<and>
     wide (process_stslice C x b)"
proof (cases "\<exists>v cs w ds. x = Slice v cs \<and> b = Builder w ds")
  case True
  then obtain v cs w ds where x: "x = Slice v cs" and b: "b = Builder w ds" by blast
  have "eval S [] C = den_chunks S (den S b) cs"
    using assms(3) by (simp add: x b stslice_join join_chunks den_builder newc_builder)
  then show ?thesis using assms(1,2) by (simp add: x b process_stslice_def add_chunk_def)
next
  case False
  show ?thesis
  proof (cases b)
    case (Builder w ds)
    with False have "process_stslice C x b = add_chunk C b [Chunk Stslice x]"
      by (cases x) (simp_all add: process_stslice_def)
    then show ?thesis using assms by (simp add: add_chunk_sound)
  qed (simp_all add: process_stslice_def add_chunk_def)
qed

lemma sti_stu_sound:
  assumes "consistent S x" "consistent S b" "wide sz"
    and "eval S [] C = callv S i [den S x, den S b, den S sz]"
    and "\<And>n y z. chunk_sem S (StOp n) y z = callv S i [y, z, numv S (257, n)]"
  shows "consistent S (process_sti_stu C StOp x b sz) \<and>
     den S (process_sti_stu C StOp x b sz) = eval S [] C \<and> wide (process_sti_stu C StOp x b sz)"
proof (cases "\<exists>v n. sz = Constant v (257, n) \<and> n < 2 ^ 32")
  case True
  then obtain v n where sz: "sz = Constant v (257, n)" "n < 2 ^ 32" by blast
  have "eval S [] C = den_chunks S (den S b) [Chunk (StOp n) x]" using assms(4,5) by (simp add: sz(1))
  from add_chunk_sound [OF assms(2) _ this] show ?thesis
    using assms(1) sz(2) by (simp add: process_sti_stu_def sz(1))
next
  case False
  then have "process_sti_stu C StOp x b sz = Unknown (Some C)"
    using assms(3) by (cases sz) (auto simp: process_sti_stu_def)
  then show ?thesis by simp
qed

lemma unary_sound:
  assumes "consistent S x" "wide x" "eval S [] C = callv S i [den S x]"
  shows "consistent S (process_call C i [x]) \<and> den S (process_call C i [x]) = eval S [] C \<and>
     wide (process_call C i [x])"
proof -
  consider (endc) "i = tvm_endc" | (ctos) "i = tvm_ctos" | (glob) "i = tvm_getglobal"
    | (cast) "i \<in> casts" | (other) "i \<notin> insert tvm_endc (insert tvm_ctos (insert tvm_getglobal casts))"
    by blast
  then show ?thesis
  proof cases
    case endc
    with assms show ?thesis by (cases x) (simp_all add: process_call_def process_endc_def)
  next
    case ctos
    with assms show ?thesis by (cases x) (simp_all add: process_call_def process_ctos_def)
  next
    case glob
    with assms show ?thesis
      by (cases x) (auto simp: process_call_def process_global_def prod_eq_iff)
  next
    case cast
    then have "process_call C i [x] = x" by (auto simp: process_call_def casts_def)
    with cast assms cast_id show ?thesis by simp
  next
    case other
    then have "process_call C i [x] = Unknown (Some C)" by (simp add: process_call_def)
    then show ?thesis by simp
  qed
qed

lemma binary_sound:
  assumes "consistent S x" "consistent S y" "i \<notin> {tvm_stvarint16, tvm_stvarint32}"
    and "eval S [] C = callv S i [den S x, den S y]"
  shows "consistent S (process_call C i [x, y]) \<and> den S (process_call C i [x, y]) = eval S [] C \<and>
     wide (process_call C i [x, y])"
proof (cases "i \<in> {tvm_stref, tvm_stslice, tvm_stvaruint16, tvm_stvaruint32, tvm_stdict}")
  case True
  then show ?thesis
    using assms stslice_sound [of x y C] add_chunk_sound [of y "[Chunk Stref x]" C]
      add_chunk_sound [of x "[Chunk Stvaruint16 y]" C] add_chunk_sound [of x "[Chunk Stvaruint32 y]" C]
      add_chunk_sound [of y "[Chunk Stdict x]" C]
    by (auto simp: process_call_def)
next
  case False
  with assms(3) have "process_call C i [x, y] = Unknown (Some C)" by (simp add: process_call_def)
  then show ?thesis by simp
qed

lemma ternary_sound:
  assumes "consistent S x" "consistent S y" "wide z"
    and "eval S [] C = callv S i [den S x, den S y, den S z]"
  shows "consistent S (process_call C i [x, y, z]) \<and>
     den S (process_call C i [x, y, z]) = eval S [] C \<and> wide (process_call C i [x, y, z])"
  using assms sti_stu_sound [of x y z C i Stu] sti_stu_sound [of x y z C i Sti]
  by (auto simp: process_call_def)

lemma nullary_sound:
  assumes "eval S [] C = callv S i []"
  shows "consistent S (process_call C i []) \<and> den S (process_call C i []) = eval S [] C \<and>
     wide (process_call C i [])"
  using assms by (auto simp: process_call_def)

text \<open>The emulated value of a plain value means the same, and so do all its parts.\<close>

lemma process_sound:
  "plain v \<Longrightarrow> consistent S (process v) \<and> den S (process v) = eval S [] v \<and> wide (process v)"
proof (induction v rule: process.induct)
  case (1 i vs)
  let ?C = "VCall i vs"
  have IH: "consistent S (process v) \<and> den S (process v) = eval S [] v \<and> wide (process v)"
    if "v \<in> set vs" for v using 1 that by simp
  have i: "i \<notin> {tvm_stvarint16, tvm_stvarint32}" using 1 by simp
  consider "vs = []" | x where "vs = [x]" | x y where "vs = [x, y]" | x y z where "vs = [x, y, z]"
    | x y z w ws where "vs = x # y # z # w # ws"
    by (metis list.exhaust)
  then show ?case
  proof cases
    case 1
    then show ?thesis using nullary_sound [of ?C i] by simp
  next
    case 2
    then show ?thesis using unary_sound [of "process x" ?C i] IH [of x] by simp
  next
    case 3
    then show ?thesis using binary_sound [of "process x" "process y" i ?C] IH [of x] IH [of y] i by simp
  next
    case 4
    then show ?thesis
      using ternary_sound [of "process x" "process y" "process z" ?C i] IH [of x] IH [of y] IH [of z] by simp
  next
    case 5
    then show ?thesis by (simp add: process_call_def)
  qed
qed simp_all

end

section \<open>Formats\<close>

text \<open>A format that is at least as general as a value: equal but for the unknown parts.\<close>

fun more_general :: "val \<Rightarrow> val \<Rightarrow> bool" and more_general_chunks :: "chunk list \<Rightarrow> chunk list \<Rightarrow> bool" where
  "more_general (Unknown v) y \<longleftrightarrow> True"
| "more_general (Constant v c) y \<longleftrightarrow> (\<exists>w. y = Constant w c)"
| "more_general (Null v) y \<longleftrightarrow> (\<exists>w. y = Null w)"
| "more_general (Global v k) y \<longleftrightarrow> (\<exists>w. y = Global w k)"
| "more_general (Binop v opc l r) y \<longleftrightarrow>
     (case y of Binop w opc' l' r' \<Rightarrow> opc = opc' \<and> more_general l l' \<and> more_general r r' | _ \<Rightarrow> False)"
| "more_general (Builder v cs) y \<longleftrightarrow> (case y of Builder w ds \<Rightarrow> more_general_chunks cs ds | _ \<Rightarrow> False)"
| "more_general (Cell v cs) y \<longleftrightarrow> (case y of Cell w ds \<Rightarrow> more_general_chunks cs ds | _ \<Rightarrow> False)"
| "more_general (Slice v cs) y \<longleftrightarrow> (case y of Slice w ds \<Rightarrow> more_general_chunks cs ds | _ \<Rightarrow> False)"
| "more_general_chunks [] ds \<longleftrightarrow> ds = []"
| "more_general_chunks (Chunk k x # cs) ds \<longleftrightarrow>
     (case ds of Chunk k' y # ds' \<Rightarrow> k = k' \<and> more_general x y \<and> more_general_chunks cs ds' | _ \<Rightarrow> False)"

text \<open>No builder inside, so that generating the value leaves cur_b alone.\<close>

fun flat :: "val \<Rightarrow> bool" where
  "flat (Builder v cs) \<longleftrightarrow> False"
| "flat (Cell v cs) \<longleftrightarrow> False"
| "flat (Slice v cs) \<longleftrightarrow> False"
| "flat (Binop v opc l r) \<longleftrightarrow> flat l \<and> flat r"
| "flat v \<longleftrightarrow> True"

text \<open>
  The formats that are generated right with an order of evaluation: no signed stores, and a chunk
  whose call names the builder after its value has a flat value.
\<close>

fun gen_ok :: "bool \<Rightarrow> val \<Rightarrow> bool" and gen_ok_chunks :: "bool \<Rightarrow> chunk list \<Rightarrow> bool" where
  "gen_ok rtl (Builder v cs) \<longleftrightarrow> gen_ok_chunks rtl cs"
| "gen_ok rtl (Cell v cs) \<longleftrightarrow> gen_ok_chunks rtl cs"
| "gen_ok rtl (Slice v cs) \<longleftrightarrow> gen_ok_chunks rtl cs"
| "gen_ok rtl (Binop v opc l r) \<longleftrightarrow> gen_ok rtl l \<and> gen_ok rtl r"
| "gen_ok rtl (Unknown v) \<longleftrightarrow> True"
| "gen_ok rtl (Constant v c) \<longleftrightarrow> True"
| "gen_ok rtl (Null v) \<longleftrightarrow> True"
| "gen_ok rtl (Global v k) \<longleftrightarrow> True"
| "gen_ok_chunks rtl [] \<longleftrightarrow> True"
| "gen_ok_chunks rtl (Chunk k x # cs) \<longleftrightarrow> (\<forall>n. k \<noteq> Sti n) \<and> (old_builder rtl k \<or> flat x) \<and>
     gen_ok rtl x \<and> gen_ok_chunks rtl cs"

lemma eval_cast_to [simp]: "eval S args (cast_to ps ty v) = eval S args v"
  by (simp add: cast_to_def)

lemma eval_chunk_call: "\<forall>n. k \<noteq> Sti n \<Longrightarrow>
    eval S args (chunk_call k x b) = chunk_sem S k (eval S args x) (eval S args b)"
  by (cases k) (simp_all add: int257_def)

lemma same_struct_refl [simp]: "same_struct k k"
  by (cases k) simp_all

text \<open>The part from i on of an argument list holds the values as.\<close>

definition passed :: "'s Sem \<Rightarrow> nat \<Rightarrow> Value list \<Rightarrow> 's list \<Rightarrow> bool" where
  "passed S i as args \<longleftrightarrow> (\<forall>k < length as. args ! (i + k) = eval S [] (as ! k))"

lemma passed_append:
  "passed S i (as @ bs) args \<longleftrightarrow> passed S i as args \<and> passed S (i + length as) bs args"
proof
  assume p: "passed S i (as @ bs) args"
  have "args ! (i + length as + k) = eval S [] (bs ! k)" if "k < length bs" for k
    using p that unfolding passed_def
    by (metis add.assoc length_append nat_add_left_cancel_less nth_append_length_plus)
  with p show "passed S i as args \<and> passed S (i + length as) bs args"
    unfolding passed_def by (metis length_append nth_append trans_less_add1)
next
  assume p: "passed S i as args \<and> passed S (i + length as) bs args"
  show "passed S i (as @ bs) args" unfolding passed_def
  proof (intro allI impI)
    fix k assume k: "k < length (as @ bs)"
    show "args ! (i + k) = eval S [] ((as @ bs) ! k)"
    proof (cases "k < length as")
      case True
      with p show ?thesis by (simp add: passed_def nth_append)
    next
      case False
      with p k have "args ! (i + length as + (k - length as)) = eval S [] (bs ! (k - length as))"
        unfolding passed_def by (metis add_diff_inverse_nat length_append nat_add_left_cancel_less)
      with False show ?thesis by (simp add: nth_append)
    qed
  qed
qed

text \<open>
  The arguments for a value are there for every more general format, and the code generated for the
  format computes the value from them.
\<close>

lemma gen_correct:
  "more_general fmt v \<Longrightarrow> consistent S v \<Longrightarrow> gen_ok rtl fmt \<Longrightarrow>
     \<exists>as. gen_call_args v fmt = Some as \<and> length as = length (gather_params ty fmt) \<and>
       (\<forall>i b. \<exists>y b'. gen_func rtl ps fmt (i, b) = Some (y, i + length as, b') \<and>
          (flat fmt \<longrightarrow> b' = b) \<and> (\<forall>args. passed S i as args \<longrightarrow> eval S args y = den S v))"
  "more_general_chunks cs ds \<Longrightarrow> consistent_chunks S ds \<Longrightarrow> gen_ok_chunks rtl cs \<Longrightarrow>
     \<exists>as. gen_call_chunks ds cs = Some as \<and> length as = length (gather_chunks cs) \<and>
       (\<forall>i z. \<exists>y b'. gen_chunks rtl ps cs (i, Some z) = Some (y, i + length as, b') \<and>
          (\<forall>args. passed S i as args \<longrightarrow> eval S args y = den_chunks S (eval S args z) ds))"
proof (induction fmt v and cs ds arbitrary: ty and rule: more_general_more_general_chunks.induct)
  case (1 v y)
  then obtain a where "llvmVal y = Some a" "eval S [] a = den S y" using consistent_llvm by blast
  then show ?case by (simp add: passed_def)
next
  case (2 v c y)
  then show ?case by auto
next
  case (3 v y)
  then show ?case by auto
next
  case (4 v k y)
  then show ?case by (auto simp: int257_def)
next
  case (5 v opc l r y)
  then obtain w l' r' where y: "y = Binop w opc l' r'" "more_general l l'" "more_general r r'"
    by (auto split: val.splits)
  from 5 y obtain as where as: "gen_call_args l' l = Some as" "length as = length (gather_params Int257Ty l)"
      "\<forall>i b. \<exists>y b'. gen_func rtl ps l (i, b) = Some (y, i + length as, b') \<and>
          (flat l \<longrightarrow> b' = b) \<and> (\<forall>args. passed S i as args \<longrightarrow> eval S args y = den S l')" by fastforce
  from 5 y obtain bs where bs: "gen_call_args r' r = Some bs" "length bs = length (gather_params Int257Ty r)"
      "\<forall>i b. \<exists>y b'. gen_func rtl ps r (i, b) = Some (y, i + length bs, b') \<and>
          (flat r \<longrightarrow> b' = b) \<and> (\<forall>args. passed S i bs args \<longrightarrow> eval S args y = den S r')" by fastforce
  have "\<exists>z b'. gen_func rtl ps (Binop v opc l r) (i, b) = Some (z, i + length (as @ bs), b') \<and>
      (flat (Binop v opc l r) \<longrightarrow> b' = b) \<and>
      (\<forall>args. passed S i (as @ bs) args \<longrightarrow> eval S args z = den S y)" for i b
  proof -
    obtain z1 b1 where z1: "gen_func rtl ps l (i, b) = Some (z1, i + length as, b1)" "flat l \<longrightarrow> b1 = b"
        "\<forall>args. passed S i as args \<longrightarrow> eval S args z1 = den S l'" using as(3) by blast
    obtain z2 b2 where z2: "gen_func rtl ps r (i + length as, b1) = Some (z2, (i + length as) + length bs, b2)"
        "flat r \<longrightarrow> b2 = b1" "\<forall>args. passed S (i + length as) bs args \<longrightarrow> eval S args z2 = den S r'"
      using bs(3) by blast
    show ?thesis using z1 z2 by (simp add: add.assoc passed_append y(1))
  qed
  then show ?case using as(1,2) bs(1,2) y(1) by simp
next
  case (6 v cs y)
  then obtain w ds where y: "y = Builder w ds" "more_general_chunks cs ds"
    by (auto split: val.splits)
  have "consistent_chunks S ds" "gen_ok_chunks rtl cs" using 6 y by simp_all
  from 6(1) [OF y this] obtain as where as: "gen_call_chunks ds cs = Some as"
      "length as = length (gather_chunks cs)"
      "\<forall>i z. \<exists>x b'. gen_chunks rtl ps cs (i, Some z) = Some (x, i + length as, b') \<and>
          (\<forall>args. passed S i as args \<longrightarrow> eval S args x = den_chunks S (eval S args z) ds)" by blast
  have "\<exists>x b'. gen_func rtl ps (Builder v cs) (i, b) = Some (x, i + length as, b') \<and>
      (\<forall>args. passed S i as args \<longrightarrow> eval S args x = den S y)" for i b
    using spec [OF spec [OF as(3), of i], of "VCall tvm_newc []"] by (fastforce simp: y(1))
  then show ?case using as(1,2) by (simp add: y(1))
next
  case (7 v cs y)
  then obtain w ds where y: "y = Cell w ds" "more_general_chunks cs ds"
    by (auto split: val.splits)
  have "consistent_chunks S ds" "gen_ok_chunks rtl cs" using 7 y by simp_all
  from 7(1) [OF y this] obtain as where as: "gen_call_chunks ds cs = Some as"
      "length as = length (gather_chunks cs)"
      "\<forall>i z. \<exists>x b'. gen_chunks rtl ps cs (i, Some z) = Some (x, i + length as, b') \<and>
          (\<forall>args. passed S i as args \<longrightarrow> eval S args x = den_chunks S (eval S args z) ds)" by blast
  have "\<exists>x b'. gen_func rtl ps (Cell v cs) (i, b) = Some (x, i + length as, b') \<and>
      (\<forall>args. passed S i as args \<longrightarrow> eval S args x = den S y)" for i b
    using spec [OF spec [OF as(3), of i], of "VCall tvm_newc []"] by (fastforce simp: y(1))
  then show ?case using as(1,2) by (simp add: y(1))
next
  case (8 v cs y)
  then obtain w ds where y: "y = Slice w ds" "more_general_chunks cs ds"
    by (auto split: val.splits)
  have "consistent_chunks S ds" "gen_ok_chunks rtl cs" using 8 y by simp_all
  from 8(1) [OF y this] obtain as where as: "gen_call_chunks ds cs = Some as"
      "length as = length (gather_chunks cs)"
      "\<forall>i z. \<exists>x b'. gen_chunks rtl ps cs (i, Some z) = Some (x, i + length as, b') \<and>
          (\<forall>args. passed S i as args \<longrightarrow> eval S args x = den_chunks S (eval S args z) ds)" by blast
  have "\<exists>x b'. gen_func rtl ps (Slice v cs) (i, b) = Some (x, i + length as, b') \<and>
      (\<forall>args. passed S i as args \<longrightarrow> eval S args x = den S y)" for i b
    using spec [OF spec [OF as(3), of i], of "VCall tvm_newc []"] by (fastforce simp: y(1))
  then show ?case using as(1,2) by (simp add: y(1))
next
  case (9 ds)
  then show ?case by simp
next
  case (10 k x cs ds)
  then obtain y ds' where ds: "ds = Chunk k y # ds'" "more_general x y" "more_general_chunks cs ds'"
    by (auto split: list.splits chunk.splits)
  from 10(3-5) ds have ok: "\<forall>n. k \<noteq> Sti n" "old_builder rtl k \<or> flat x"
      and sub: "consistent S y" "gen_ok rtl x" "consistent_chunks S ds'" "gen_ok_chunks rtl cs" by auto
  from 10(1) [OF ds(1) refl ds(2) sub(1,2), of "chunk_type k"] obtain as where as: "gen_call_args y x = Some as" "length as = length (gather_params (chunk_type k) x)"
      "\<forall>i b. \<exists>z b'. gen_func rtl ps x (i, b) = Some (z, i + length as, b') \<and>
          (flat x \<longrightarrow> b' = b) \<and> (\<forall>args. passed S i as args \<longrightarrow> eval S args z = den S y)" by blast
  from 10(2) [OF ds(1) refl ds(3) sub(3,4)] obtain bs where bs: "gen_call_chunks ds' cs = Some bs" "length bs = length (gather_chunks cs)"
      "\<forall>i z. \<exists>y b'. gen_chunks rtl ps cs (i, Some z) = Some (y, i + length bs, b') \<and>
          (\<forall>args. passed S i bs args \<longrightarrow> eval S args y = den_chunks S (eval S args z) ds')" by blast
  have "\<exists>w b'. gen_chunks rtl ps (Chunk k x # cs) (i, Some z) = Some (w, i + length (as @ bs), b') \<and>
      (\<forall>args. passed S i (as @ bs) args \<longrightarrow> eval S args w = den_chunks S (eval S args z) ds)" for i z
  proof -
    obtain z1 b1 where z1: "gen_func rtl ps x (i, Some z) = Some (z1, i + length as, b1)"
        "flat x \<longrightarrow> b1 = Some z" "\<forall>args. passed S i as args \<longrightarrow> eval S args z1 = den S y"
      using as(3) by blast
    let ?b = "chunk_call k (cast_to ps (chunk_type k) z1) z"
    obtain z2 b2 where z2: "gen_chunks rtl ps cs (i + length as, Some ?b) = Some (z2, (i + length as) + length bs, b2)"
        "\<forall>args. passed S (i + length as) bs args \<longrightarrow> eval S args z2 = den_chunks S (eval S args ?b) ds'"
      using bs(3) by blast
    have "gen_chunks rtl ps (Chunk k x # cs) (i, Some z) = Some (z2, i + length (as @ bs), b2)"
      using ok(2) z1(1,2) z2(1) by (cases "old_builder rtl k") (simp_all add: add.assoc)
    moreover have "eval S args z2 = den_chunks S (eval S args z) ds" if "passed S i (as @ bs) args" for args
      using that z1(3) z2(2) eval_chunk_call [OF ok(1), of S args] by (simp add: passed_append ds(1))
    ultimately show ?thesis by blast
  qed
  then show ?case using as(1,2) bs(1,2) ds(1) by simp
qed

section \<open>Merging\<close>

fun no_binop :: "val \<Rightarrow> bool" and no_binop_chunks :: "chunk list \<Rightarrow> bool" where
  "no_binop (Builder v cs) \<longleftrightarrow> no_binop_chunks cs"
| "no_binop (Cell v cs) \<longleftrightarrow> no_binop_chunks cs"
| "no_binop (Slice v cs) \<longleftrightarrow> no_binop_chunks cs"
| "no_binop (Binop v opc l r) \<longleftrightarrow> False"
| "no_binop (Unknown v) \<longleftrightarrow> True"
| "no_binop (Constant v c) \<longleftrightarrow> True"
| "no_binop (Null v) \<longleftrightarrow> True"
| "no_binop (Global v k) \<longleftrightarrow> True"
| "no_binop_chunks [] \<longleftrightarrow> True"
| "no_binop_chunks (Chunk k x # cs) \<longleftrightarrow> no_binop x \<and> no_binop_chunks cs"

lemma more_general_refl: "more_general v v" "more_general_chunks cs cs"
  by (induction v and cs rule: len_len_chunks.induct) simp_all

lemma more_general_trans:
  "more_general a b \<Longrightarrow> more_general b c \<Longrightarrow> more_general a c"
  "more_general_chunks as bs \<Longrightarrow> more_general_chunks bs cs \<Longrightarrow> more_general_chunks as cs"
proof (induction a b and as bs arbitrary: c and cs rule: more_general_more_general_chunks.induct)
  case (10 k x cs1 ds)
  then show ?case by (fastforce split: list.splits chunk.splits)
qed (fastforce split: val.splits)+

lemma more_general_chunks_length: "more_general_chunks cs ds \<Longrightarrow> length cs = length ds"
proof (induction cs arbitrary: ds)
  case (Cons c cs)
  then show ?case by (cases c) (auto split: list.splits chunk.splits)
qed simp

text \<open>
  Without binary operators, a comparison that is not broken off gives a format for both values, and a
  merge of chunks a format for as many chunks of both as it has.
\<close>

lemma merge_correct:
  "no_binop l \<Longrightarrow> val_compare l r = (cmp, False) \<Longrightarrow>
     (cmp = None \<longrightarrow> more_general l r) \<and>
     (\<forall>m. cmp = Some m \<longrightarrow> more_general m l \<and> more_general m r \<and> no_binop m \<and>
        (flat l \<longrightarrow> flat m) \<and> (gen_ok rtl l \<longrightarrow> gen_ok rtl m))"
  "no_binop_chunks cs \<Longrightarrow> merge_chunks cs ds = (broken, changed, b) \<Longrightarrow>
     length b \<le> length cs \<and> length b \<le> length ds \<and>
     more_general_chunks b (take (length b) cs) \<and> more_general_chunks b (take (length b) ds) \<and>
     (\<not> changed \<longrightarrow> b = take (length b) cs) \<and> (\<not> broken \<longrightarrow> length b = min (length cs) (length ds)) \<and>
     no_binop_chunks b \<and> (gen_ok_chunks rtl cs \<longrightarrow> gen_ok_chunks rtl b)"
proof (induction l r and cs ds arbitrary: cmp and broken changed b rule: val_compare_merge_chunks.induct)
  case (6 v cs v' ds)
  obtain br ch b where m: "merge_chunks cs ds = (br, ch, b)" by (cases "merge_chunks cs ds")
  show ?case
  proof (cases "length cs = length ds")
    case True
    with 6 m have "length b \<le> length cs \<and> length b \<le> length ds \<and>
       more_general_chunks b (take (length b) cs) \<and> more_general_chunks b (take (length b) ds) \<and>
       (\<not> ch \<longrightarrow> b = take (length b) cs) \<and> (\<not> br \<longrightarrow> length b = min (length cs) (length ds)) \<and>
       no_binop_chunks b \<and> (gen_ok_chunks rtl cs \<longrightarrow> gen_ok_chunks rtl b)" by simp
    with 6(3) m True show ?thesis by (auto split: if_splits)
  next
    case False
    with 6(3) show ?thesis by auto
  qed
next
  case (8 k x cs k' y ds)
  show ?case
  proof (cases "k = k'")
    case False
    with 8(5) show ?thesis by simp
  next
    case True
    obtain c0 brk where v: "val_compare x y = (c0, brk)" by fastforce
    obtain br ch bs where m: "merge_chunks cs ds = (br, ch, bs)" by (cases "merge_chunks cs ds")
    define z where "z = (case (if brk then Some (Unknown None) else c0) of None \<Rightarrow> x | Some z \<Rightarrow> z)"
    have nb: "no_binop x" "no_binop_chunks cs" using 8(4) by simp_all
    have z: "more_general z x \<and> more_general z y \<and> no_binop z \<and> (flat x \<longrightarrow> flat z) \<and>
        (gen_ok rtl x \<longrightarrow> gen_ok rtl z)"
    proof (cases brk)
      case False
      then show ?thesis
        using 8(1) [OF _ nb(1), of c0] True v nb(1) more_general_refl(1) by (cases c0) (simp_all add: z_def)
    qed (simp add: z_def)
    have IH: "length bs \<le> length cs \<and> length bs \<le> length ds \<and>
        more_general_chunks bs (take (length bs) cs) \<and> more_general_chunks bs (take (length bs) ds) \<and>
        (\<not> ch \<longrightarrow> bs = take (length bs) cs) \<and> (\<not> br \<longrightarrow> length bs = min (length cs) (length ds)) \<and>
        no_binop_chunks bs \<and> (gen_ok_chunks rtl cs \<longrightarrow> gen_ok_chunks rtl bs)"
    proof (cases "if brk then Some (Unknown None) else c0")
      case None
      show ?thesis by (rule 8(2) [OF _ v [symmetric] None nb(2) m]) (simp add: True)
    next
      case (Some w)
      show ?thesis by (rule 8(3) [OF _ v [symmetric] Some nb(2) m]) (simp add: True)
    qed
    have "b = Chunk k z # bs \<and> broken = br \<and> (\<not> changed \<longrightarrow> \<not> ch \<and> z = x)"
      using 8(5) True v m by (auto simp: z_def split: option.splits if_splits)
    then show ?thesis using z IH True by auto
  qed
qed (auto split: if_splits)

lemma more_general_chunks_take: "more_general_chunks cs ds \<Longrightarrow> more_general_chunks (take n cs) (take n ds)"
proof (induction cs arbitrary: ds n)
  case (Cons c cs)
  then show ?case by (cases c; cases n) (auto split: list.splits chunk.splits)
qed simp

lemma cell_chunks_Some: "cell_chunks v = Some cs \<longleftrightarrow> (\<exists>w. v = Cell w cs)"
  by (cases v) (auto simp: cell_chunks_def)

lemma merge_cells_general:
  assumes "merge_cells l r = Some m" "no_binop l"
  obtains cs ds es where "cell_chunks l = Some cs" "cell_chunks r = Some ds" "cell_chunks m = Some es"
    "length es \<le> length cs" "length es \<le> length ds"
    "more_general_chunks es (take (length es) cs)" "more_general_chunks es (take (length es) ds)"
    "no_binop m" "gen_ok rtl l \<longrightarrow> gen_ok rtl m"
proof -
  from assms obtain cs ds where cells: "cell_chunks l = Some cs" "cell_chunks r = Some ds"
    by (auto simp: merge_cells_def bind_eq_Some_conv)
  then obtain w where l: "l = Cell w cs" by (auto simp: cell_chunks_Some)
  obtain br ch b where b: "merge_chunks cs ds = (br, ch, b)" by (cases "merge_chunks cs ds")
  note M = merge_correct(2) [OF _ b, of rtl]
  have nb: "no_binop_chunks cs" using assms(2) l by simp
  show thesis
  proof (cases "\<not> br \<and> \<not> ch \<and> length cs \<le> length ds")
    case True
    then have "m = l" "b = cs" using assms(1) cells b M nb
      by (auto simp: merge_cells_def merge_builders_def)
    then show thesis using that [of cs ds cs] cells M nb assms(2) by simp
  next
    case False
    then have "m = Cell None b" using assms(1) cells b
      by (auto simp: merge_cells_def merge_builders_def)
    then show thesis using that [of cs ds b] cells M nb l by (simp add: cell_chunks_def)
  qed
qed

text \<open>The format of a group is general for the chunks of all its messages, as far as it goes.\<close>

lemma merged_group:
  assumes "foldM (\<lambda>m best_val. if best_candidate m = idx then merge_cells best_val (msgVal m) else Some best_val)
       msgs start = Some fmt"
    and "no_binop start" "gen_ok rtl start" "cell_chunks start = Some cs"
  shows "gen_ok rtl fmt \<and> (\<exists>es. cell_chunks fmt = Some es \<and> length es \<le> length cs \<and>
     more_general_chunks es (take (length es) cs) \<and>
     (\<forall>m \<in> set msgs. best_candidate m = idx \<longrightarrow>
        (\<exists>ds. cell_chunks (msgVal m) = Some ds \<and> length es \<le> length ds \<and>
           more_general_chunks es (take (length es) ds))))"
  using assms
proof (induction msgs arbitrary: start cs)
  case Nil
  then show ?case by (simp add: more_general_refl)
next
  case (Cons m msgs)
  show ?case
  proof (cases "best_candidate m = idx")
    case False
    with Cons show ?thesis by simp
  next
    case True
    with Cons.prems(1) obtain mid where mid: "merge_cells start (msgVal m) = Some mid"
        "foldM (\<lambda>m best_val. if best_candidate m = idx then merge_cells best_val (msgVal m)
           else Some best_val) msgs mid = Some fmt" by (auto simp: bind_eq_Some_conv)
    obtain cs' ds ms where M: "cell_chunks start = Some cs'" "cell_chunks (msgVal m) = Some ds"
        "cell_chunks mid = Some ms" "length ms \<le> length cs'" "length ms \<le> length ds"
        "more_general_chunks ms (take (length ms) cs')" "more_general_chunks ms (take (length ms) ds)"
        "no_binop mid" "gen_ok rtl start \<longrightarrow> gen_ok rtl mid"
      by (rule merge_cells_general [OF mid(1) Cons.prems(2)])
    from Cons.IH [OF mid(2) M(8) _ M(3)] M(9) Cons.prems(3) obtain es where es: "gen_ok rtl fmt"
        "cell_chunks fmt = Some es" "length es \<le> length ms" "more_general_chunks es (take (length es) ms)"
        "\<forall>m \<in> set msgs. best_candidate m = idx \<longrightarrow>
           (\<exists>ds. cell_chunks (msgVal m) = Some ds \<and> length es \<le> length ds \<and>
              more_general_chunks es (take (length es) ds))" by blast
    have below: "more_general_chunks es (take (length es) xs)"
      if "more_general_chunks ms (take (length ms) xs)" for xs
      using more_general_trans(2) [OF es(4) more_general_chunks_take [OF that, of "length es"]] es(3)
      by (simp add: min_def)
    have "cs' = cs" using M(1) Cons.prems(4) by simp
    then show ?thesis using es M below [OF M(6)] below [OF M(7)] by auto
  qed
qed

text \<open>The call of a generated function computes the value from which its arguments are taken.\<close>

lemma call_correct:
  assumes "more_general fmt v" "consistent S v" "gen_ok rtl fmt" "makeFunction rtl fmt idx = Some F"
  shows "\<exists>args. gen_call v F fmt = Some args \<and> eval S (map (eval S []) args) (body F) = den S v"
proof -
  define ps where "ps = gather_params VoidTy fmt"
  obtain as where as: "gen_call_args v fmt = Some as" "length as = length ps"
      "\<forall>i b. \<exists>y b'. gen_func rtl ps fmt (i, b) = Some (y, i + length as, b') \<and>
          (flat fmt \<longrightarrow> b' = b) \<and> (\<forall>args. passed S i as args \<longrightarrow> eval S args y = den S v)"
    using gen_correct(1) [OF assms(1-3), of VoidTy ps] unfolding ps_def by blast
  then obtain y b' where y: "gen_func rtl ps fmt (0, None) = Some (y, length as, b')"
      "\<forall>args. passed S 0 as args \<longrightarrow> eval S args y = den S v" by (metis add_0)
  have F: "paramTypes F = ps" "body F = y"
    using assms(4) y(1) by (auto simp: makeFunction_def ps_def bind_eq_Some_conv Let_def)
  let ?args = "map (\<lambda>(ty, a). cast_to [] ty a) (zip ps as)"
  have "gen_call v F fmt = Some ?args" using as(1,2) F(1) by (simp add: gen_call_def)
  moreover have "passed S 0 as (map (eval S []) ?args)"
    using as(2) by (simp add: passed_def)
  ultimately show ?thesis using y(2) F(2) by blast
qed

text \<open>A message with more chunks than the format has no call.\<close>

lemma call_lengths:
  assumes "cell_chunks v = Some ds" "cell_chunks fmt = Some es" "length ds \<noteq> length es"
  shows "gen_call v F fmt = None"
proof -
  have "gen_call_chunks ds es = None" if "length ds \<noteq> length es" for ds es
    using that
  proof (induction ds es rule: list_induct2')
    case (4 d ds e es)
    then show ?case by (cases d; cases e) simp
  qed (simp_all; metis chunk.exhaust gen_call_chunks.simps)+
  then show ?thesis using assms by (auto simp: cell_chunks_Some gen_call_def)
qed

context builder_sem
begin

lemma merged_call:
  assumes merged: "merged_value candidates msgs idx = Some fmt" "makeFunction rtl fmt idx = Some F"
    and ok: "\<forall>c \<in> set candidates. no_binop (candVal c) \<and> gen_ok rtl (candVal c)"
    and m: "m \<in> set msgs" "best_candidate m = idx" "msgVal m = process v" "plain v"
    and len: "cell_chunks (msgVal m) = Some ds" "cell_chunks fmt = Some es" "length ds = length es"
  shows "\<exists>args. gen_call (msgVal m) F fmt = Some args \<and>
     eval S (map (eval S []) args) (body F) = eval S [] v"
proof -
  from merged(1) obtain c where c: "List.find (\<lambda>c. candIdx c = idx) candidates = Some c"
      "foldM (\<lambda>m best_val. if best_candidate m = idx then merge_cells best_val (msgVal m) else Some best_val)
       msgs (candVal c) = Some fmt" by (auto simp: merged_value_def bind_eq_Some_conv)
  then have cok: "no_binop (candVal c)" "gen_ok rtl (candVal c)"
    using ok by (auto simp: find_Some_iff)
  have "\<exists>cs. cell_chunks (candVal c) = Some cs" using c(2) m(1,2)
  proof (induction msgs)
    case (Cons a msgs)
    then show ?case by (cases "best_candidate a = idx") (auto simp: merge_cells_def bind_eq_Some_conv)
  qed simp
  then obtain cs where cs: "cell_chunks (candVal c) = Some cs" ..
  from merged_group [OF c(2) cok cs] m(1,2) len have gen: "gen_ok rtl fmt"
      "more_general_chunks es (take (length es) ds)" by auto
  then have "more_general fmt (msgVal m)" using len by (auto simp: cell_chunks_Some)
  moreover have "consistent S (msgVal m) \<and> den S (msgVal m) = eval S [] v"
    using process_sound [OF m(4)] m(3) by simp
  ultimately show ?thesis using call_correct [OF _ _ gen(1) merged(2)] by metis
qed

end

end
