(* ===== verification/TVM_CellSem.thy ===== *)
theory TVM_CellSem
  imports TVM_ReFuncCorrect
begin

text \<open>
  The cells of the TVM as an instance of the interface of TVMReFunc: builders of at most 1023 bits and
  4 references, exceptions as a value of their own; and the formats for which the pass goes wrong.
\<close>

section \<open>Cells\<close>

datatype Sval =
    SInt int
  | SNull
  | SBuilder "bool list" "Sval list"
  | SCell "bool list" "Sval list"
  | SSlice "bool list" "Sval list"
  | SOther nat
  | SErr

definition int_bits :: "nat \<Rightarrow> int \<Rightarrow> bool list" where
  "int_bits n x = map (bit x) (rev [0..<n])"

definition signed_range :: "nat \<Rightarrow> int \<Rightarrow> bool" where
  "signed_range n x \<longleftrightarrow> 0 < n \<and> - (2 ^ (n - 1)) \<le> x \<and> x < 2 ^ (n - 1)"

text \<open>The number of bytes of a variable-length integer, None when it needs too many.\<close>

definition var_len :: "nat \<Rightarrow> (nat \<Rightarrow> bool) \<Rightarrow> nat option" where
  "var_len m ok = List.find ok [0..<m]"

definition var_bits :: "nat \<Rightarrow> nat option \<Rightarrow> int \<Rightarrow> (bool list \<times> Sval list) option" where
  "var_bits p l x = map_option (\<lambda>k. (int_bits p (int k) @ int_bits (8 * k) x, [])) l"

text \<open>The bits and references that a chunk appends, None for a value out of range or of a wrong type.\<close>

fun chunk_item :: "chunk_kind \<Rightarrow> Sval \<Rightarrow> (bool list \<times> Sval list) option" where
  "chunk_item (Stu n) (SInt x) = (if n \<le> 256 \<and> 0 \<le> x \<and> x < 2 ^ n then Some (int_bits n x, []) else None)"
| "chunk_item (Sti n) (SInt x) = (if n \<le> 257 \<and> signed_range n x then Some (int_bits n x, []) else None)"
| "chunk_item Stref (SCell bs rs) = Some ([], [SCell bs rs])"
| "chunk_item Stslice (SSlice bs rs) = Some (bs, rs)"
| "chunk_item Stvaruint16 (SInt x) = var_bits 4 (var_len 16 (\<lambda>k. 0 \<le> x \<and> x < 2 ^ (8 * k))) x"
| "chunk_item Stvaruint32 (SInt x) = var_bits 5 (var_len 32 (\<lambda>k. 0 \<le> x \<and> x < 2 ^ (8 * k))) x"
| "chunk_item Stvarint16 (SInt x) = var_bits 4 (var_len 16 (\<lambda>k. x = 0 \<or> signed_range (8 * k) x)) x"
| "chunk_item Stvarint32 (SInt x) = var_bits 5 (var_len 32 (\<lambda>k. x = 0 \<or> signed_range (8 * k) x)) x"
| "chunk_item Stdict SNull = Some ([False], [])"
| "chunk_item Stdict (SCell bs rs) = Some ([True], [SCell bs rs])"
| "chunk_item k x = None"

definition put_items :: "Sval \<Rightarrow> bool list \<Rightarrow> Sval list \<Rightarrow> Sval" where
  "put_items b bs rs =
     (case b of
        SBuilder bs' rs' \<Rightarrow>
          if length (bs' @ bs) \<le> 1023 \<and> length (rs' @ rs) \<le> 4 then SBuilder (bs' @ bs) (rs' @ rs) else SErr
      | _ \<Rightarrow> SErr)"

definition put_chunk :: "chunk_kind \<Rightarrow> Sval \<Rightarrow> Sval \<Rightarrow> Sval" where
  "put_chunk k x b = (case chunk_item k x of None \<Rightarrow> SErr | Some (bs, rs) \<Rightarrow> put_items b bs rs)"

definition cell_call :: "(nat \<Rightarrow> Sval) \<Rightarrow> Intrinsic \<Rightarrow> Sval list \<Rightarrow> Sval" where
  "cell_call glob i xs =
     (case xs of
        [] \<Rightarrow> if i = tvm_newc then SBuilder [] [] else if i = tvm_pushnull then SNull else SErr
      | [x] \<Rightarrow>
          if i \<in> casts then x
          else if i = tvm_endc then (case x of SBuilder bs rs \<Rightarrow> SCell bs rs | _ \<Rightarrow> SErr)
          else if i = tvm_ctos then (case x of SCell bs rs \<Rightarrow> SSlice bs rs | _ \<Rightarrow> SErr)
          else if i = tvm_getglobal then (case x of SInt k \<Rightarrow> glob (nat k) | _ \<Rightarrow> SErr)
          else SErr
      | [x, y] \<Rightarrow>
          if i = tvm_stref then put_chunk Stref x y
          else if i = tvm_stslice then put_chunk Stslice x y
          else if i = tvm_stdict then put_chunk Stdict x y
          else if i = tvm_stvaruint16 then put_chunk Stvaruint16 y x
          else if i = tvm_stvaruint32 then put_chunk Stvaruint32 y x
          else if i = tvm_stvarint16 then put_chunk Stvarint16 y x
          else if i = tvm_stvarint32 then put_chunk Stvarint32 y x
          else SErr
      | [x, y, SInt n] \<Rightarrow>
          if n < 0 then SErr
          else if i = tvm_stu then put_chunk (Stu (nat n)) x y
          else if i = tvm_sti then put_chunk (Sti (nat n)) x y
          else SErr
      | _ \<Rightarrow> SErr)"

text \<open>The binary operators, the global variables and the other values are parameters.\<close>

definition cell_sem ::
  "(nat \<Rightarrow> int \<Rightarrow> int \<Rightarrow> int) \<Rightarrow> (nat \<Rightarrow> Sval) \<Rightarrow> (nat \<Rightarrow> Sval) \<Rightarrow> Sval Sem" where
  "cell_sem bop glob oth = \<lparr>
     callv = cell_call glob,
     binv = (\<lambda>opc x y. case (x, y) of (SInt a, SInt b) \<Rightarrow> SInt (bop opc a b) | _ \<Rightarrow> SErr),
     numv = (\<lambda>(w, n). SInt (if 2 * n \<ge> 2 ^ w then int n - 2 ^ w else int n)),
     otherv = oth \<rparr>"

definition cell_join :: "Sval \<Rightarrow> Sval \<Rightarrow> Sval" where
  "cell_join b0 b = (case b of SBuilder bs rs \<Rightarrow> put_items b0 bs rs | _ \<Rightarrow> SErr)"

definition is_build :: "Sval \<Rightarrow> bool" where
  "is_build b \<longleftrightarrow>
     (case b of SBuilder bs rs \<Rightarrow> length bs \<le> 1023 \<and> length rs \<le> 4 | SErr \<Rightarrow> True | _ \<Rightarrow> False)"

lemma put_items_build: "is_build (put_items b bs rs)"
  by (cases b) (auto simp: put_items_def is_build_def)

lemma put_chunk_build: "is_build (put_chunk k x b)"
  by (auto simp: put_chunk_def put_items_build split: option.splits) (simp add: is_build_def)

lemma join_put_items:
  assumes "is_build b0" "is_build b"
  shows "cell_join b0 (put_items b bs rs) = put_items (cell_join b0 b) bs rs"
  using assms
  by (cases b; cases b0) (auto simp: put_items_def cell_join_def is_build_def)

lemma join_put_chunk:
  assumes "is_build b0" "is_build b"
  shows "cell_join b0 (put_chunk k x b) = put_chunk k x (cell_join b0 b)"
  using join_put_items [OF assms]
  by (auto simp: put_chunk_def split: option.splits) (simp add: cell_join_def)

text \<open>A chunk of a format is put_chunk of some chunk, or an exception where the size is negative.\<close>

lemma chunk_sem_cells:
  "(\<forall>x b. chunk_sem (cell_sem bop glob oth) k x b = SErr) \<or>
   (\<exists>k'. \<forall>x b. chunk_sem (cell_sem bop glob oth) k x b = put_chunk k' x b)"
proof -
  have n: "\<exists>m. numv (cell_sem bop glob oth) (257, n) = SInt m" for n by (simp add: cell_sem_def)
  show ?thesis
  proof (cases k)
    case (Stu l)
    obtain m where "numv (cell_sem bop glob oth) (257, l) = SInt m" using n by blast
    with Stu show ?thesis by (cases "m < 0") (auto simp: cell_sem_def cell_call_def)
  next
    case (Sti l)
    obtain m where "numv (cell_sem bop glob oth) (257, l) = SInt m" using n by blast
    with Sti show ?thesis by (cases "m < 0") (auto simp: cell_sem_def cell_call_def)
  qed (auto simp: cell_sem_def cell_call_def)
qed

interpretation cells: builder_sem "cell_sem bop glob oth" cell_join is_build
proof
  fix i x assume "i \<in> casts"
  then show "callv (cell_sem bop glob oth) i [x] = x" by (simp add: cell_sem_def cell_call_def)
next
  show "is_build (callv (cell_sem bop glob oth) tvm_newc [])"
    by (simp add: cell_sem_def cell_call_def is_build_def)
next
  fix b k x assume "is_build b"
  then show "is_build (chunk_sem (cell_sem bop glob oth) k x b)"
    using chunk_sem_cells [of bop glob oth k] put_chunk_build by (auto simp: is_build_def)
next
  fix b b0 assume "is_build b" "is_build b0"
  then show "callv (cell_sem bop glob oth) tvm_stslice [callv (cell_sem bop glob oth) tvm_ctos
      [callv (cell_sem bop glob oth) tvm_endc [b]], b0] = cell_join b0 b"
    by (cases b) (simp_all add: cell_sem_def cell_call_def casts_def is_build_def cell_join_def put_chunk_def)
next
  fix b0 assume "is_build b0"
  then show "cell_join b0 (callv (cell_sem bop glob oth) tvm_newc []) = b0"
    by (cases b0) (simp_all add: cell_sem_def cell_call_def is_build_def cell_join_def put_items_def)
next
  fix b0 b k x assume "is_build b0" "is_build b"
  then show "cell_join b0 (chunk_sem (cell_sem bop glob oth) k x b) =
      chunk_sem (cell_sem bop glob oth) k x (cell_join b0 b)"
    using chunk_sem_cells [of bop glob oth k] join_put_chunk by (auto simp: cell_join_def)
qed

section \<open>Where the pass goes wrong\<close>

text \<open>
  With the arguments of make_call evaluated from the left, the chunks before a nested cell are lost:
  cur_b is the builder of the nested cell when the outer call reads it.
\<close>

lemma gen_chunks_append:
  "gen_chunks rtl ps (cs @ ds) (i, Some b) =
     do { (y, s) \<leftarrow> gen_chunks rtl ps cs (i, Some b); gen_chunks rtl ps ds s }"
proof (induction cs arbitrary: i b)
  case (Cons c cs)
  then show ?case by (cases c) (auto simp: bind_assoc split: Option.bind_splits)
qed simp

lemma gen_loses_chunks:
  assumes "makeFunction False (Cell v (cs @ [Chunk Stref (Cell w [])])) idx = Some F"
  shows "body F = VCall tvm_endc [VCall tvm_stref [VCall tvm_endc [VCall tvm_newc []], VCall tvm_newc []]]"
  using assms
  by (auto simp: makeFunction_def gen_chunks_append old_builder_def stvar_def cast_to_def bind_eq_Some_conv Let_def)

text \<open>A merged cell has no more chunks than the first one.\<close>

lemma merge_cells_length:
  assumes "merge_cells l r = Some m" "cell_chunks l = Some cs" "cell_chunks r = Some ds"
  obtains es where "cell_chunks m = Some es" "length es \<le> length cs"
proof -
  have "length b \<le> length cs" if "merge_chunks cs ds = (br, ch, b)" for br ch b
    using that
  proof (induction cs ds arbitrary: br ch b rule: list_induct2')
    case (4 c cs d ds)
    then show ?case by (cases c; cases d) (auto split: prod.splits option.splits if_splits)
  qed (simp_all)
  then show thesis using assms that
    by (cases "merge_chunks cs ds") (auto simp: merge_cells_def merge_builders_def cell_chunks_def split: if_splits)
qed

text \<open>A format with a signed store is generated with an unsigned one, which refuses negative values.\<close>

lemma gen_signed:
  assumes "makeFunction rtl (Builder v [Chunk (Sti n) (Unknown u)]) idx = Some F"
    and "gen_call (Builder w [Chunk (Sti n) (Unknown (Some a))]) F (Builder v [Chunk (Sti n) (Unknown u)]) = Some args"
    and "eval (cell_sem bop glob oth) [] a = SInt x" "x < 0" "signed_range n x" "n \<le> 257"
  shows "den (cell_sem bop glob oth) (Builder w [Chunk (Sti n) (Unknown (Some a))]) = SBuilder (int_bits n x) []"
    and "eval (cell_sem bop glob oth) (map (eval (cell_sem bop glob oth) []) args) (body F) = SErr"
proof -
  have num: "numv (cell_sem bop glob oth) (257, n) = SInt (int n)"
  proof -
    have "(2 :: nat) * n \<le> 2 * 257" using assms(6) by simp
    also have "\<dots> < 2 ^ 257" by simp
    finally show ?thesis by (simp add: cell_sem_def not_le)
  qed
  have "length (int_bits n x) \<le> 1023" using assms(6) by (simp add: int_bits_def)
  with num assms(3,5,6) show "den (cell_sem bop glob oth) (Builder w [Chunk (Sti n) (Unknown (Some a))]) =
      SBuilder (int_bits n x) []"
    by (simp add: cell_sem_def cell_call_def put_chunk_def put_items_def)
  have "body F = VCall tvm_stu [VArg 0, VCall tvm_newc [], int257 n] \<and> paramTypes F = [Int257Ty]"
    using assms(1)
    by (auto simp: makeFunction_def old_builder_def stvar_def cast_to_def bind_eq_Some_conv Let_def split: if_splits)
  moreover from this have "args = [cast_to [] Int257Ty a]" using assms(2) by (simp add: gen_call_def)
  ultimately show "eval (cell_sem bop glob oth) (map (eval (cell_sem bop glob oth) []) args) (body F) = SErr"
    using num assms(3,4) by (simp add: int257_def cell_sem_def cell_call_def put_chunk_def)
qed

end
