(* ===== verification/TVM_CFGPrepare.thy ===== *)
theory TVM_CFGPrepare
  imports TVM_Prelude
begin

text \<open>
  The two passes that shape the control flow of the IR: TVMControlFlowPrepare.cpp gives every edge into
  a block with several predecessors a block of its own, and TVMLoopPrepare.cpp puts the successor that
  stays in the loop first. A block is its phis, a body that is not interpreted, and its terminator.
\<close>

section \<open>Functions of the IR\<close>

text \<open>A condition is a value, possibly under the instruction that CreateNot builds.\<close>

datatype Condition = CVal nat | CNot Condition

datatype Terminator =
    Branch nat
  | CondBranch Condition nat nat
  | Return
  | OtherTerm "nat list"

text \<open>A phi: its value and its incoming blocks with their values.\<close>

record 'i IRBlock =
  phis :: "(nat \<times> (nat \<times> nat) list) list"
  irBody :: "'i list"
  irTerm :: Terminator

record 'i IRFunction =
  irBlock :: "nat \<Rightarrow> 'i IRBlock"
  irIds :: "nat list"
  irNext :: nat

fun ir_succs :: "Terminator \<Rightarrow> nat list" where
  "ir_succs (Branch t) = [t]"
| "ir_succs (CondBranch c t f) = [t, f]"
| "ir_succs Return = []"
| "ir_succs (OtherTerm ts) = ts"

text \<open>One predecessor for every edge; useOrder is the order of the use list, which is LLVM's.\<close>

definition ir_preds :: "'i IRFunction \<Rightarrow> nat \<Rightarrow> nat list" where
  "ir_preds F b = concat (map (\<lambda>p. replicate (count_list (ir_succs (irTerm (irBlock F p))) b) p) (irIds F))"

definition set_block :: "nat \<Rightarrow> 'i IRBlock \<Rightarrow> 'i IRFunction \<Rightarrow> 'i IRFunction" where
  "set_block b B F = F \<lparr> irBlock := (irBlock F)(b := B) \<rparr>"

section \<open>TVMControlFlowPrepare\<close>

fun replaceSuccessorWith :: "Terminator \<Rightarrow> nat \<Rightarrow> nat \<Rightarrow> Terminator option" where
  "replaceSuccessorWith (Branch t) Old New = (if t = Old then Some (Branch New) else None)"
| "replaceSuccessorWith (CondBranch c t f) Old New =
     (if t = Old then Some (CondBranch c New f)
      else if f = Old then Some (CondBranch c t New) else None)"
| "replaceSuccessorWith _ Old New = None"

definition setIncomingBlock :: "nat \<Rightarrow> nat \<Rightarrow> nat \<times> (nat \<times> nat) list \<Rightarrow> nat \<times> (nat \<times> nat) list" where
  "setIncomingBlock Old New phi =
     (fst phi, map (\<lambda>iv. if fst iv = Old then (New, snd iv) else iv) (snd phi))"

text \<open>The body of the loop of insertCleanupBBs.\<close>

definition cleanupEdge :: "nat \<Rightarrow> nat \<Rightarrow> 'i IRFunction \<Rightarrow> 'i IRFunction option" where
  "cleanupEdge BB Predecessor F = do {
     let NewBB = irNext F;
     let F1 = set_block NewBB \<lparr> phis = [], irBody = [], irTerm = Branch BB \<rparr>
                (F \<lparr> irIds := irIds F @ [NewBB], irNext := NewBB + 1 \<rparr>);
     T \<leftarrow> replaceSuccessorWith (irTerm (irBlock F1 Predecessor)) BB NewBB;
     let F2 = set_block Predecessor ((irBlock F1 Predecessor) \<lparr> irTerm := T \<rparr>) F1;
     let B = irBlock F2 BB;
     Some (set_block BB (B \<lparr> phis := map (setIncomingBlock Predecessor NewBB) (phis B) \<rparr>) F2) }"

definition insertCleanupBBs :: "(nat list \<Rightarrow> nat list) \<Rightarrow> nat \<Rightarrow> 'i IRFunction \<Rightarrow> 'i IRFunction option" where
  "insertCleanupBBs useOrder BB F = foldM (cleanupEdge BB) (useOrder (ir_preds F BB)) F"

definition controlFlowPrepare :: "(nat list \<Rightarrow> nat list) \<Rightarrow> 'i IRFunction \<Rightarrow> (bool \<times> 'i IRFunction) option" where
  "controlFlowPrepare useOrder F =
     foldM (\<lambda>BB (Changed, G).
       if length (ir_preds G BB) > 1 then map_option (Pair True) (insertCleanupBBs useOrder BB G)
       else Some (Changed, G)) (irIds F) (False, F)"

section \<open>TVMLoopPrepare\<close>

text \<open>LoopInfo: the innermost loop of a block, its blocks, its predecessor and its latch.\<close>

record LoopInfo =
  getLoopFor :: "nat \<Rightarrow> nat option"
  loopContains :: "nat \<Rightarrow> nat \<Rightarrow> bool"
  getLoopPredecessor :: "nat \<Rightarrow> nat option"
  getLoopLatch :: "nat \<Rightarrow> nat option"

fun canonicalizeTerminator :: "(nat \<Rightarrow> bool) \<Rightarrow> Terminator \<Rightarrow> bool \<times> Terminator" where
  "canonicalizeTerminator inL (CondBranch c t f) =
     (if inL t then (False, CondBranch c t f) else (True, CondBranch (CNot c) f t))"
| "canonicalizeTerminator inL T = (False, T)"

definition canonicalizeBlock :: "(nat \<Rightarrow> bool) \<Rightarrow> nat \<Rightarrow> bool \<times> 'i IRFunction \<Rightarrow> bool \<times> 'i IRFunction" where
  "canonicalizeBlock inL b s =
     (let B = irBlock (snd s) b; (ch, T) = canonicalizeTerminator inL (irTerm B)
      in (fst s \<or> ch, set_block b (B \<lparr> irTerm := T \<rparr>) (snd s)))"

text \<open>A loop without predecessor or without latch is a failed assert.\<close>

definition prepareLoop ::
  "LoopInfo \<Rightarrow> nat \<Rightarrow> bool \<times> 'i IRFunction \<times> nat list \<Rightarrow> (bool \<times> 'i IRFunction \<times> nat list) option" where
  "prepareLoop LI BB s =
     (let (Changed, F, LoopsProcessed) = s
      in case getLoopFor LI BB of
           None \<Rightarrow> Some s
         | Some L \<Rightarrow>
             if L \<in> set LoopsProcessed then Some s
             else do {
               Predecessor \<leftarrow> getLoopPredecessor LI L;
               let s1 = canonicalizeBlock (loopContains LI L) Predecessor (Changed, F);
               Latch \<leftarrow> getLoopLatch LI L;
               let s2 = canonicalizeBlock (loopContains LI L) Latch s1;
               Some (fst s2, snd s2, L # LoopsProcessed) })"

definition loopPrepare :: "LoopInfo \<Rightarrow> 'i IRFunction \<Rightarrow> (bool \<times> 'i IRFunction) option" where
  "loopPrepare LI F = do {
     (Changed, G, _) \<leftarrow> foldM (prepareLoop LI) (irIds F) (False, F, []);
     Some (Changed, G) }"

section \<open>Execution\<close>

text \<open>
  A state is a block that has been entered and the values. A step runs the body, branches and enters
  the next block, whose phis all need a value for the edge.
\<close>

type_synonym 'v Env = "nat \<Rightarrow> 'v"

fun holds :: "('v \<Rightarrow> bool) \<Rightarrow> 'v Env \<Rightarrow> Condition \<Rightarrow> bool" where
  "holds truth e (CVal x) = truth (e x)"
| "holds truth e (CNot c) \<longleftrightarrow> \<not> holds truth e c"

fun target :: "('v \<Rightarrow> bool) \<Rightarrow> 'v Env \<Rightarrow> Terminator \<Rightarrow> nat option" where
  "target truth e (Branch t) = Some t"
| "target truth e (CondBranch c t f) = Some (if holds truth e c then t else f)"
| "target truth e Return = None"
| "target truth e (OtherTerm ts) = None"

definition enter :: "'i IRBlock \<Rightarrow> nat \<Rightarrow> 'v Env \<Rightarrow> 'v Env option" where
  "enter B prev e =
     (if list_all (\<lambda>p. map_of (snd p) prev \<noteq> None) (phis B)
      then Some (\<lambda>x. case map_of (phis B) x of
                       None \<Rightarrow> e x
                     | Some inc \<Rightarrow> (case map_of inc prev of None \<Rightarrow> e x | Some v \<Rightarrow> e v))
      else None)"

inductive ir_step ::
  "('i \<Rightarrow> 'v Env \<Rightarrow> 'v Env) \<Rightarrow> ('v \<Rightarrow> bool) \<Rightarrow> 'i IRFunction \<Rightarrow> nat \<times> 'v Env \<Rightarrow> nat \<times> 'v Env \<Rightarrow> bool"
  for exec truth F where
  step: "target truth (fold exec (irBody (irBlock F b)) e) (irTerm (irBlock F b)) = Some t \<Longrightarrow>
    enter (irBlock F t) b (fold exec (irBody (irBlock F b)) e) = Some e' \<Longrightarrow>
    ir_step exec truth F (b, e) (t, e')"

inductive_cases ir_stepE: "ir_step exec truth F (b, e) s"

text \<open>What a run shows of a state that returns.\<close>

definition returns :: "('i \<Rightarrow> 'v Env \<Rightarrow> 'v Env) \<Rightarrow> 'i IRFunction \<Rightarrow> nat \<times> 'v Env \<Rightarrow> 'v Env \<Rightarrow> bool" where
  "returns exec F s e' \<longleftrightarrow> irTerm (irBlock F (fst s)) = Return \<and> e' = fold exec (irBody (irBlock F (fst s))) (snd s)"

section \<open>LoopPrepare keeps the flow\<close>

lemma set_block_simps [simp]:
  "irBlock (set_block b B F) p = (if p = b then B else irBlock F p)"
  "irIds (set_block b B F) = irIds F" "irNext (set_block b B F) = irNext F"
  by (simp_all add: set_block_def)

lemma canonicalize_target [simp]:
  "target truth e (snd (canonicalizeTerminator inL T)) = target truth e T"
  by (cases T) auto

lemma canonicalize_return [simp]:
  "snd (canonicalizeTerminator inL T) = Return \<longleftrightarrow> T = Return"
  by (cases T) auto

lemma canonicalize_unchanged:
  "\<not> fst (canonicalizeTerminator inL T) \<Longrightarrow> snd (canonicalizeTerminator inL T) = T"
  by (cases T) (auto split: if_splits)

text \<open>The first successor stays in the loop when one of the two does.\<close>

lemma canonicalize_first:
  assumes "snd (canonicalizeTerminator inL T) = CondBranch c t f" "inL t \<or> inL f"
  shows "inL t"
  using assms by (cases T) (auto split: if_splits)

text \<open>A terminator without negations in its condition.\<close>

fun norm_cond :: "Condition \<Rightarrow> nat \<Rightarrow> nat \<Rightarrow> Terminator" where
  "norm_cond (CVal x) t f = CondBranch (CVal x) t f"
| "norm_cond (CNot c) t f = norm_cond c f t"

fun norm_term :: "Terminator \<Rightarrow> Terminator" where
  "norm_term (CondBranch c t f) = norm_cond c t f"
| "norm_term T = T"

lemma target_norm_cond: "target truth e (norm_cond c t f) = Some (if holds truth e c then t else f)"
  by (induction c t f rule: norm_cond.induct) auto

lemma target_norm [simp]: "target truth e (norm_term T) = target truth e T"
  by (cases T) (simp_all add: target_norm_cond)

lemma norm_cond_not_return [simp]: "norm_cond c t f \<noteq> Return"
  by (induction c t f rule: norm_cond.induct) auto

lemma norm_return: "norm_term T = Return \<longleftrightarrow> T = Return"
  by (cases T) auto

lemma canonicalize_norm [simp]: "norm_term (snd (canonicalizeTerminator inL T)) = norm_term T"
  by (cases T) auto

text \<open>Two functions whose blocks differ only in how a terminator says the same.\<close>

definition same_flow :: "'i IRFunction \<Rightarrow> 'i IRFunction \<Rightarrow> bool" where
  "same_flow F G \<longleftrightarrow> irIds G = irIds F \<and> irNext G = irNext F \<and>
     (\<forall>b. phis (irBlock G b) = phis (irBlock F b) \<and> irBody (irBlock G b) = irBody (irBlock F b) \<and>
       norm_term (irTerm (irBlock G b)) = norm_term (irTerm (irBlock F b)))"

lemma same_flow_refl: "same_flow F F"
  by (simp add: same_flow_def)

lemma same_flow_trans: "same_flow F G \<Longrightarrow> same_flow G H \<Longrightarrow> same_flow F H"
  by (simp add: same_flow_def)

lemma same_flow_target:
  "same_flow F G \<Longrightarrow> target truth e (irTerm (irBlock G b)) = target truth e (irTerm (irBlock F b))"
  by (metis same_flow_def target_norm)

lemma same_flow_enter: "same_flow F G \<Longrightarrow> enter (irBlock G b) p e = enter (irBlock F b) p e"
  by (simp add: same_flow_def enter_def)

lemma same_flow_step:
  assumes "same_flow F G"
  shows "ir_step exec truth G s t \<longleftrightarrow> ir_step exec truth F s t"
proof -
  have "irBody (irBlock G b) = irBody (irBlock F b)" for b using assms by (simp add: same_flow_def)
  then show ?thesis
    by (cases s; cases t) (simp add: ir_step.simps same_flow_target [OF assms] same_flow_enter [OF assms])
qed

lemma same_flow_returns: "same_flow F G \<Longrightarrow> returns exec G s e = returns exec F s e"
  unfolding returns_def same_flow_def by (metis norm_return)

lemma canonicalizeBlock_flow:
  "same_flow F (snd (canonicalizeBlock inL b (ch, F)))"
  "\<not> fst (canonicalizeBlock inL b (ch, F)) \<Longrightarrow> \<not> ch \<and> snd (canonicalizeBlock inL b (ch, F)) = F"
proof -
  let ?B = "irBlock F b"
  obtain c T where T: "canonicalizeTerminator inL (irTerm ?B) = (c, T)" by fastforce
  have res: "canonicalizeBlock inL b (ch, F) = (ch \<or> c, set_block b (?B \<lparr> irTerm := T \<rparr>) F)"
    by (simp add: canonicalizeBlock_def T)
  have "norm_term T = norm_term (irTerm ?B)"
    using canonicalize_norm [of inL "irTerm ?B"] T by simp
  then show "same_flow F (snd (canonicalizeBlock inL b (ch, F)))"
    by (simp add: res same_flow_def)
  show "\<not> ch \<and> snd (canonicalizeBlock inL b (ch, F)) = F" if "\<not> fst (canonicalizeBlock inL b (ch, F))"
  proof -
    have "\<not> c" "\<not> ch" using that by (simp_all add: res)
    then have "T = irTerm ?B" using canonicalize_unchanged [of inL "irTerm ?B"] T by simp
    then show ?thesis unfolding res using \<open>\<not> ch\<close> by (simp add: set_block_def)
  qed
qed

lemma prepareLoop_flow:
  assumes "prepareLoop LI BB (ch, F, done') = Some (ch', G, done'')"
  shows "same_flow F G" "\<not> ch' \<Longrightarrow> \<not> ch \<and> G = F"
proof -
  have "same_flow F G \<and> (\<not> ch' \<longrightarrow> \<not> ch \<and> G = F)"
  proof (cases "getLoopFor LI BB")
    case None
    then show ?thesis using assms by (simp add: prepareLoop_def same_flow_refl)
  next
    case (Some L)
    show ?thesis
    proof (cases "L \<in> set done'")
      case True
      then show ?thesis using assms Some by (simp add: prepareLoop_def same_flow_refl)
    next
      case False
      obtain P where P: "getLoopPredecessor LI L = Some P"
        using assms Some False by (auto simp: prepareLoop_def bind_eq_Some_conv)
      obtain c1 F1 where s1: "canonicalizeBlock (loopContains LI L) P (ch, F) = (c1, F1)" by fastforce
      obtain Q where Q: "getLoopLatch LI L = Some Q" "(ch', G) = canonicalizeBlock (loopContains LI L) Q (c1, F1)"
        using assms Some False P s1 by (auto simp: prepareLoop_def Let_def bind_eq_Some_conv)
      have "same_flow F F1" "\<not> c1 \<Longrightarrow> \<not> ch \<and> F1 = F"
        using canonicalizeBlock_flow [where F = F and inL = "loopContains LI L" and b = P and ch = ch] s1 by auto
      moreover have "same_flow F1 G" "\<not> ch' \<Longrightarrow> \<not> c1 \<and> G = F1"
        using canonicalizeBlock_flow [where F = F1 and inL = "loopContains LI L" and b = Q and ch = c1] Q(2) by (metis fst_conv snd_conv)+
      ultimately show ?thesis using same_flow_trans by blast
    qed
  qed
  then show "same_flow F G" "\<not> ch' \<Longrightarrow> \<not> ch \<and> G = F" by auto
qed

lemma loopPrepare_flow:
  assumes "loopPrepare LI F = Some (ch, G)"
  shows "same_flow F G" "\<not> ch \<Longrightarrow> G = F"
proof -
  have "same_flow F H \<and> (\<not> c \<longrightarrow> H = F)"
    if "foldM (prepareLoop LI) bs (False, F, []) = Some (c, H, d)" for bs c H d
  proof -
    have "case (c, H, d) of (c, H, d) \<Rightarrow> same_flow F H \<and> (\<not> c \<longrightarrow> H = F)"
    proof (rule foldM_invariant [OF that])
      show "case (False, F, []) of (c, H, d) \<Rightarrow> same_flow F H \<and> (\<not> c \<longrightarrow> H = F)"
        by (simp add: same_flow_refl)
      fix x u v assume "prepareLoop LI x u = Some v" "case u of (c, H, d) \<Rightarrow> same_flow F H \<and> (\<not> c \<longrightarrow> H = F)"
      then show "case v of (c, H, d) \<Rightarrow> same_flow F H \<and> (\<not> c \<longrightarrow> H = F)"
        using prepareLoop_flow same_flow_trans by (cases u; cases v) blast
    qed
    then show ?thesis by simp
  qed
  then show "same_flow F G" "\<not> ch \<Longrightarrow> G = F"
    using assms by (auto simp: loopPrepare_def bind_eq_Some_conv)
qed

section \<open>ControlFlowPrepare keeps the runs\<close>

text \<open>
  Terminators the pass is made for: branches whose successors differ, and returns. A conditional branch
  to the same block twice is treated below.
\<close>

fun plain_branch :: "Terminator \<Rightarrow> bool" where
  "plain_branch (CondBranch c t f) \<longleftrightarrow> t \<noteq> f"
| "plain_branch (OtherTerm ts) \<longleftrightarrow> False"
| "plain_branch _ \<longleftrightarrow> True"

definition wf_ir :: "'i IRFunction \<Rightarrow> bool" where
  "wf_ir F \<longleftrightarrow> distinct (irIds F) \<and> (\<forall>b \<in> set (irIds F). b < irNext F \<and> plain_branch (irTerm (irBlock F b)) \<and>
     set (ir_succs (irTerm (irBlock F b))) \<subseteq> set (irIds F) \<and>
     (\<forall>p \<in> set (phis (irBlock F b)). fst ` set (snd p) \<subseteq> set (irIds F)))"

definition simulates ::
  "('i \<Rightarrow> 'v Env \<Rightarrow> 'v Env) \<Rightarrow> ('v \<Rightarrow> bool) \<Rightarrow> 'i IRFunction \<Rightarrow> 'i IRFunction \<Rightarrow> bool" where
  "simulates exec truth F G \<longleftrightarrow>
     (\<forall>s t. fst s \<in> set (irIds F) \<longrightarrow> ir_step exec truth F s t \<longrightarrow> (ir_step exec truth G)\<^sup>+\<^sup>+ s t) \<and>
     (\<forall>s e. fst s \<in> set (irIds F) \<longrightarrow> returns exec F s e \<longrightarrow> returns exec G s e) \<and>
     set (irIds F) \<subseteq> set (irIds G)"

lemma target_succ: "target truth e T = Some t \<Longrightarrow> t \<in> set (ir_succs T)"
  by (cases T) auto

lemma step_stays:
  assumes "wf_ir F" "ir_step exec truth F s t" "fst s \<in> set (irIds F)"
  shows "fst t \<in> set (irIds F)"
  using assms(2)
proof cases
  case (step b e t' e')
  then show ?thesis using assms(1,3) target_succ unfolding wf_ir_def by fastforce
qed

lemma simulates_run:
  assumes "wf_ir G" "simulates exec truth G H" "(ir_step exec truth G)\<^sup>+\<^sup>+ s t" "fst s \<in> set (irIds G)"
  shows "(ir_step exec truth H)\<^sup>+\<^sup>+ s t \<and> fst t \<in> set (irIds G)"
  using assms(3)
proof induction
  case (base t)
  then show ?case using assms(2,4) step_stays [OF assms(1)] unfolding simulates_def by blast
next
  case (step t u)
  then have "(ir_step exec truth H)\<^sup>+\<^sup>+ t u" using assms(2) unfolding simulates_def by blast
  then show ?case using step step_stays [OF assms(1)] by (meson tranclp_trans)
qed

lemma simulates_refl: "simulates exec truth F F"
  by (auto simp: simulates_def)

lemma simulates_trans:
  assumes "wf_ir G" "simulates exec truth F G" "simulates exec truth G H"
  shows "simulates exec truth F H"
proof -
  have "(ir_step exec truth H)\<^sup>+\<^sup>+ s t" if "fst s \<in> set (irIds F)" "ir_step exec truth F s t" for s t
  proof -
    have "(ir_step exec truth G)\<^sup>+\<^sup>+ s t" "fst s \<in> set (irIds G)" using assms(2) that unfolding simulates_def by blast+
    then show ?thesis using simulates_run [OF assms(1,3)] by blast
  qed
  then show ?thesis using assms(2,3) unfolding simulates_def by (metis subset_iff)
qed

lemma map_of_setIncoming:
  "map_of (map (setIncomingBlock P n) ps) x = map_option (\<lambda>inc. snd (setIncomingBlock P n (x, inc))) (map_of ps x)"
  by (induction ps) (auto simp: setIncomingBlock_def)

lemma map_of_renamed:
  assumes "n \<notin> fst ` set inc"
  shows "map_of (snd (setIncomingBlock P n (x, inc))) n = map_of inc P"
    and "q \<noteq> P \<Longrightarrow> q \<noteq> n \<Longrightarrow> map_of (snd (setIncomingBlock P n (x, inc))) q = map_of inc q"
  using assms by (induction inc) (auto simp: setIncomingBlock_def)

lemma enter_renamed:
  assumes "\<forall>p \<in> set (phis B). n \<notin> fst ` set (snd p)"
  shows "enter (B \<lparr> phis := map (setIncomingBlock P n) (phis B) \<rparr>) n e = enter B P e"
    and "q \<noteq> P \<Longrightarrow> q \<noteq> n \<Longrightarrow> enter (B \<lparr> phis := map (setIncomingBlock P n) (phis B) \<rparr>) q e = enter B q e"
proof -
  have inc: "map_of (snd (setIncomingBlock P n p)) n = map_of (snd p) P"
      "q \<noteq> P \<Longrightarrow> q \<noteq> n \<Longrightarrow> map_of (snd (setIncomingBlock P n p)) q = map_of (snd p) q"
    if "p \<in> set (phis B)" for p q
    using map_of_renamed(1) [of n "snd p" P "fst p"] map_of_renamed(2) [of n "snd p" q P "fst p"] assms that
    by simp_all
  have phi: "map_of (map (setIncomingBlock P n) (phis B)) x = Some inc' \<Longrightarrow>
      \<exists>inc. map_of (phis B) x = Some inc \<and> inc' = snd (setIncomingBlock P n (x, inc)) \<and> (x, inc) \<in> set (phis B)" for x inc'
    by (auto simp: map_of_setIncoming dest: map_of_SomeD)
  have val: "(case map_of (map (setIncomingBlock P n) (phis B)) x of None \<Rightarrow> e x
        | Some inc \<Rightarrow> (case map_of inc q' of None \<Rightarrow> e x | Some v \<Rightarrow> e v)) =
      (case map_of (phis B) x of None \<Rightarrow> e x
        | Some inc \<Rightarrow> (case map_of inc q of None \<Rightarrow> e x | Some v \<Rightarrow> e v))"
    if "\<And>p. p \<in> set (phis B) \<Longrightarrow> map_of (snd (setIncomingBlock P n p)) q' = map_of (snd p) q" for x q q'
    using that map_of_SomeD [of "phis B" x] by (auto simp: map_of_setIncoming split: option.splits)
  show "enter (B \<lparr> phis := map (setIncomingBlock P n) (phis B) \<rparr>) n e = enter B P e"
    using inc(1) val [of n P] by (simp add: enter_def list_all_iff)
  show "q \<noteq> P \<Longrightarrow> q \<noteq> n \<Longrightarrow> enter (B \<lparr> phis := map (setIncomingBlock P n) (phis B) \<rparr>) q e = enter B q e"
    using inc(2) val [of q q] by (simp add: enter_def list_all_iff)
qed

lemma plain_branch_replace:
  assumes "plain_branch T" "BB \<in> set (ir_succs T)" "n \<notin> set (ir_succs T)"
  obtains T' where "replaceSuccessorWith T BB n = Some T'" "plain_branch T'"
    "\<And>b. b \<in> set (ir_succs T') \<longleftrightarrow> b = n \<or> b \<in> set (ir_succs T) \<and> b \<noteq> BB"
    "target truth e T' = map_option (\<lambda>t. if t = BB then n else t) (target truth e T)"
    "T' \<noteq> Return" "T \<noteq> Return"
proof (cases T)
  case (CondBranch c t f)
  show thesis
  proof (cases "t = BB")
    case True
    show thesis by (rule that [of "CondBranch c n f"]) (use CondBranch True assms in auto)
  next
    case False
    show thesis by (rule that [of "CondBranch c t n"]) (use CondBranch False assms in auto)
  qed
next
  case (Branch t)
  show thesis by (rule that [of "Branch n"]) (use Branch assms in auto)
qed (use assms in auto)

text \<open>The blocks after one edge was split.\<close>

lemma cleanupEdge_blocks:
  assumes F: "wf_ir F" "P \<in> set (irIds F)" "BB \<in> set (irIds F)"
    and T: "replaceSuccessorWith (irTerm (irBlock F P)) BB (irNext F) = Some T"
  obtains G where "cleanupEdge BB P F = Some G" "irIds G = irIds F @ [irNext F]" "irNext G = irNext F + 1"
    "irBlock G (irNext F) = \<lparr> phis = [], irBody = [], irTerm = Branch BB \<rparr>"
    "\<And>b. b \<noteq> irNext F \<Longrightarrow> irBlock G b =
       (irBlock F b) \<lparr> irTerm := (if b = P then T else irTerm (irBlock F b)),
         phis := (if b = BB then map (setIncomingBlock P (irNext F)) (phis (irBlock F b)) else phis (irBlock F b)) \<rparr>"
proof -
  let ?n = "irNext F"
  have n: "P \<noteq> ?n" "BB \<noteq> ?n" using F by (auto simp: wf_ir_def)
  define F1 where "F1 = set_block ?n \<lparr> phis = [], irBody = [], irTerm = Branch BB \<rparr>
    (F \<lparr> irIds := irIds F @ [?n], irNext := ?n + 1 \<rparr>)"
  have F1: "irBlock F1 b = (if b = ?n then \<lparr> phis = [], irBody = [], irTerm = Branch BB \<rparr> else irBlock F b)"
      "irIds F1 = irIds F @ [?n]" "irNext F1 = ?n + 1" for b
    by (simp_all add: F1_def)
  define F2 where "F2 = set_block P ((irBlock F1 P) \<lparr> irTerm := T \<rparr>) F1"
  define G where "G = set_block BB ((irBlock F2 BB) \<lparr> phis := map (setIncomingBlock P ?n) (phis (irBlock F2 BB)) \<rparr>) F2"
  have "replaceSuccessorWith (irTerm (irBlock F1 P)) BB ?n = Some T" using T n F1 by simp
  then have "cleanupEdge BB P F = Some G"
    unfolding cleanupEdge_def Let_def F1_def [symmetric] by (simp only: bind.bind_lunit F2_def G_def)
  then show thesis
    by (rule that) (use n in \<open>auto simp: G_def F2_def F1\<close>)
qed

lemma enter_cong: "phis B = phis C \<Longrightarrow> enter B p e = enter C p e"
  by (simp add: enter_def)

lemma plain_branch_once: "plain_branch T \<Longrightarrow> count_list (ir_succs T) b = (if b \<in> set (ir_succs T) then 1 else 0)"
  by (cases T) auto

lemma cleanupEdge_correct:
  assumes F: "wf_ir F" "P \<in> set (irIds F)" "BB \<in> set (irIds F)" "BB \<in> set (ir_succs (irTerm (irBlock F P)))"
  obtains G where "cleanupEdge BB P F = Some G" "wf_ir G" "simulates exec truth F G"
    "irIds G = irIds F @ [irNext F]" "irTerm (irBlock G (irNext F)) = Branch BB"
    "\<And>Q. Q \<in> set (irIds F) \<Longrightarrow> Q \<noteq> P \<Longrightarrow> irTerm (irBlock G Q) = irTerm (irBlock F Q)"
    "BB \<notin> set (ir_succs (irTerm (irBlock G P)))"
    "\<And>B. B \<noteq> BB \<Longrightarrow> B \<noteq> irNext F \<Longrightarrow> ir_preds G B = ir_preds F B"
proof -
  let ?n = "irNext F" and ?T = "irTerm (irBlock F P)"
  have wf: "plain_branch ?T" "distinct (irIds F)" "?n \<notin> set (irIds F)" "set (ir_succs ?T) \<subseteq> set (irIds F)"
    using F(1,2) by (auto simp: wf_ir_def)
  then have nt: "?n \<notin> set (ir_succs ?T)" by blast
  obtain T where T: "replaceSuccessorWith ?T BB ?n = Some T" "plain_branch T"
      "\<And>b. b \<in> set (ir_succs T) \<longleftrightarrow> b = ?n \<or> b \<in> set (ir_succs ?T) \<and> b \<noteq> BB" "T \<noteq> Return" "?T \<noteq> Return"
    by (rule plain_branch_replace [OF wf(1) F(4) nt]) (rule that)
  have tgt: "target truth e T = map_option (\<lambda>t. if t = BB then ?n else t) (target truth e ?T)" for e :: "nat \<Rightarrow> 'b"
    using plain_branch_replace [OF wf(1) F(4) nt, where truth = truth and e = e] T(1) by (metis option.inject)
  obtain G where G: "cleanupEdge BB P F = Some G" "irIds G = irIds F @ [?n]" "irNext G = ?n + 1"
      "irBlock G ?n = \<lparr> phis = [], irBody = [], irTerm = Branch BB \<rparr>"
      "\<And>b. b \<noteq> ?n \<Longrightarrow> irBlock G b =
       (irBlock F b) \<lparr> irTerm := (if b = P then T else irTerm (irBlock F b)),
         phis := (if b = BB then map (setIncomingBlock P ?n) (phis (irBlock F b)) else phis (irBlock F b)) \<rparr>"
    by (rule cleanupEdge_blocks [OF F(1-3) T(1)]) (rule that)
  have ne: "b \<noteq> ?n" if "b \<in> set (irIds F)" for b using wf(3) that by blast
  have terms: "irTerm (irBlock G b) = (if b = P then T else irTerm (irBlock F b))" if "b \<in> set (irIds F)" for b
    using G(5) [OF ne [OF that]] by simp
  have body: "irBody (irBlock G b) = irBody (irBlock F b)" if "b \<in> set (irIds F)" for b
    using G(5) [OF ne [OF that]] by simp
  have inc: "\<forall>p \<in> set (phis (irBlock F BB)). ?n \<notin> fst ` set (snd p)"
    using F(1,3) wf(3) unfolding wf_ir_def by blast
  have entBB: "enter (irBlock G BB) q e =
      enter ((irBlock F BB) \<lparr> phis := map (setIncomingBlock P ?n) (phis (irBlock F BB)) \<rparr>) q e" for q and e :: "nat \<Rightarrow> 'b"
    by (rule enter_cong) (use G(5) [OF ne [OF F(3)]] in simp)
  have ent: "enter (irBlock G t) b e = enter (irBlock F t) b e"
    if "t \<in> set (irIds F)" "b \<in> set (irIds F)" "\<not> (t = BB \<and> b = P)" for t b and e :: "nat \<Rightarrow> 'b"
  proof (cases "t = BB")
    case True
    then have "b \<noteq> P" "b \<noteq> ?n" using that ne by auto
    then show ?thesis
      using enter_renamed(2) [OF inc, of b P e] True entBB by simp
  next
    case False
    then show ?thesis by (intro enter_cong) (use G(5) [OF ne [OF that(1)]] in simp)
  qed
  have entn: "enter (irBlock G BB) ?n e = enter (irBlock F BB) P e" for e :: "nat \<Rightarrow> 'b"
    using enter_renamed(1) [OF inc, of P e] entBB by simp
  have "wf_ir G"
    unfolding wf_ir_def
  proof (intro conjI ballI)
    show "distinct (irIds G)" using G(2) wf(2,3) by simp
  next
    fix b assume b: "b \<in> set (irIds G)"
    then consider "b = ?n" | "b \<in> set (irIds F)" using G(2) by auto
    note cs = this
    show "b < irNext G" using cs F(1) by cases (auto simp: G(3) wf_ir_def less_SucI)
    show "plain_branch (irTerm (irBlock G b))"
      using cs F(1) T(2) by cases (auto simp: G(4) terms wf_ir_def)
    show "set (ir_succs (irTerm (irBlock G b))) \<subseteq> set (irIds G)"
      using cs
    proof cases
      case 2
      then show ?thesis using F(1,2) T(3) G(2) terms [OF 2] by (auto simp: wf_ir_def)
    qed (use F(3) G(2,4) in auto)
    show "fst ` set (snd p) \<subseteq> set (irIds G)" if p: "p \<in> set (phis (irBlock G b))" for p
      using cs
    proof cases
      case 2
      have inF: "fst ` set (snd q) \<subseteq> set (irIds F)" if "q \<in> set (phis (irBlock F b))" for q
        using F(1) 2 that by (auto simp: wf_ir_def)
      obtain q where q: "q \<in> set (phis (irBlock F b))" "p = q \<or> p = setIncomingBlock P ?n q"
        using p G(5) [OF ne [OF 2]] by (auto split: if_splits)
      then have "fst ` set (snd p) \<subseteq> insert ?n (fst ` set (snd q))"
        by (auto simp: setIncomingBlock_def split: if_splits)
      then show ?thesis using inF [OF q(1)] G(2) by auto
    qed (use p G(4) in simp)
  qed
  moreover have "simulates exec truth F G"
    unfolding simulates_def
  proof (intro conjI allI impI)
    fix s t assume s: "fst s \<in> set (irIds F)" "ir_step exec truth F s t"
    from s(2) show "(ir_step exec truth G)\<^sup>+\<^sup>+ s t"
    proof cases
      case (step b e u e')
      define e1 where "e1 = fold exec (irBody (irBlock F b)) e"
      have b: "b \<in> set (irIds F)" using s(1) step by simp
      have u: "u \<in> set (irIds F)" using step_stays [OF F(1) s(2,1)] step by simp
      have be: "fold exec (irBody (irBlock G b)) e = e1" using body [OF b] by (simp add: e1_def)
      have tF: "target truth e1 (irTerm (irBlock F b)) = Some u" and eF: "enter (irBlock F u) b e1 = Some e'"
        using step by (simp_all add: e1_def)
      show ?thesis
      proof (cases "u = BB \<and> b = P")
        case False
        have "target truth e1 (irTerm (irBlock G b)) = Some u"
          using False tF tgt [of e1] terms [OF b] by auto
        moreover have "enter (irBlock G u) b e1 = Some e'" using ent [OF u b False] eF by simp
        ultimately have "ir_step exec truth G (b, e) (u, e')" using be by (intro ir_step.step) simp_all
        then show ?thesis using step by auto
      next
        case True
        have "target truth e1 (irTerm (irBlock G b)) = Some ?n" using True tF tgt [of e1] terms [OF b] by simp
        moreover have "enter (irBlock G ?n) b e1 = Some e1" by (simp add: enter_def G(4))
        ultimately have one: "ir_step exec truth G (b, e) (?n, e1)" using be by (intro ir_step.step) simp_all
        have "target truth (fold exec (irBody (irBlock G ?n)) e1) (irTerm (irBlock G ?n)) = Some BB"
          by (simp add: G(4))
        moreover have "enter (irBlock G BB) ?n (fold exec (irBody (irBlock G ?n)) e1) = Some e'"
          using entn [of e1] eF True by (simp add: G(4))
        ultimately have "ir_step exec truth G (?n, e1) (BB, e')" by (rule ir_step.step)
        then show ?thesis using one step True by (auto intro: tranclp.intros)
      qed
    qed
  next
    fix s e assume "fst s \<in> set (irIds F)" "returns exec F s e"
    then show "returns exec G s e" using T(5) body terms by (auto simp: returns_def)
  qed (use G(2) in auto)
  moreover have "ir_preds G B = ir_preds F B" if B: "B \<noteq> BB" "B \<noteq> ?n" for B
  proof -
    have "count_list (ir_succs (irTerm (irBlock G p))) B = count_list (ir_succs (irTerm (irBlock F p))) B"
      if "p \<in> set (irIds F)" for p
      using terms [OF that] T(2,3) wf(1) B by (auto simp: plain_branch_once)
    then have "map (\<lambda>p. replicate (count_list (ir_succs (irTerm (irBlock G p))) B) p) (irIds F) =
        map (\<lambda>p. replicate (count_list (ir_succs (irTerm (irBlock F p))) B) p) (irIds F)"
      by (intro map_cong refl) (simp only:)
    then show ?thesis unfolding ir_preds_def G(2) using B G(4) by (simp del: map_eq_conv)
  qed
  moreover have "BB \<notin> set (ir_succs (irTerm (irBlock G P)))" using terms [OF F(2)] T(3) F(3) ne by auto
  ultimately show thesis using that G(1,2,4) terms by (simp add: that)
qed

text \<open>Every branch into BB is one that goes nowhere else.\<close>

definition split_into :: "'i IRFunction \<Rightarrow> nat \<Rightarrow> bool" where
  "split_into F BB \<longleftrightarrow> (\<forall>P \<in> set (irIds F). BB \<in> set (ir_succs (irTerm (irBlock F P))) \<longrightarrow>
     irTerm (irBlock F P) = Branch BB)"

lemma set_preds: "set (ir_preds F BB) = {P \<in> set (irIds F). BB \<in> set (ir_succs (irTerm (irBlock F P)))}"
  using count_list_0_iff by (fastforce simp: ir_preds_def)

lemma insertCleanup_edges:
  assumes F: "wf_ir F" "BB \<in> set (irIds F)" "distinct ps" "set ps \<subseteq> set (ir_preds F BB)"
    and rest: "\<And>P. P \<in> set (ir_preds F BB) \<Longrightarrow> P \<notin> set ps \<Longrightarrow> irTerm (irBlock F P) = Branch BB"
  obtains G where "foldM (cleanupEdge BB) ps F = Some G" "wf_ir G" "simulates exec truth F G" "split_into G BB"
    "\<And>B. B \<in> set (irIds F) \<Longrightarrow> B \<noteq> BB \<Longrightarrow> ir_preds G B = ir_preds F B \<and> (split_into F B \<longrightarrow> split_into G B)"
proof -
  have "\<exists>G. foldM (cleanupEdge BB) ps F = Some G \<and> wf_ir G \<and> simulates exec truth F G \<and> split_into G BB \<and>
      (\<forall>B \<in> set (irIds F). B \<noteq> BB \<longrightarrow> ir_preds G B = ir_preds F B \<and> (split_into F B \<longrightarrow> split_into G B))"
    using F rest
  proof (induction ps arbitrary: F)
    case Nil
    have "split_into F BB" using Nil.prems(5) by (simp add: split_into_def set_preds)
    then show ?case using Nil.prems(1) by (intro exI [of _ F]) (simp add: simulates_refl)
  next
    case (Cons P ps)
    have P: "P \<in> set (irIds F)" "BB \<in> set (ir_succs (irTerm (irBlock F P)))"
      using Cons.prems(4) by (auto simp: set_preds)
    let ?n = "irNext F"
    have n: "?n \<notin> set (irIds F)" using Cons.prems(1) by (auto simp: wf_ir_def)
    obtain H where H: "cleanupEdge BB P F = Some H" "wf_ir H" "simulates exec truth F H"
        "irIds H = irIds F @ [?n]" "irTerm (irBlock H ?n) = Branch BB"
        "\<And>Q. Q \<in> set (irIds F) \<Longrightarrow> Q \<noteq> P \<Longrightarrow> irTerm (irBlock H Q) = irTerm (irBlock F Q)"
        "BB \<notin> set (ir_succs (irTerm (irBlock H P)))"
        "\<And>B. B \<noteq> BB \<Longrightarrow> B \<noteq> ?n \<Longrightarrow> ir_preds H B = ir_preds F B"
      by (rule cleanupEdge_correct [OF Cons.prems(1) P(1) Cons.prems(2) P(2)]) (rule that)
    have pH: "Q \<in> set (ir_preds H BB) \<longleftrightarrow> Q = ?n \<or> (Q \<in> set (ir_preds F BB) \<and> Q \<noteq> P)" for Q
      using H(4-7) n P(1) by (cases "Q = P") (auto simp: set_preds)
    have "\<exists>G. foldM (cleanupEdge BB) ps H = Some G \<and> wf_ir G \<and> simulates exec truth H G \<and> split_into G BB \<and>
      (\<forall>B \<in> set (irIds H). B \<noteq> BB \<longrightarrow> ir_preds G B = ir_preds H B \<and> (split_into H B \<longrightarrow> split_into G B))"
    proof (rule Cons.IH [OF H(2)])
      show "BB \<in> set (irIds H)" using Cons.prems(2) H(4) by simp
      show "distinct ps" using Cons.prems(3) by simp
      show "set ps \<subseteq> set (ir_preds H BB)" using Cons.prems(3,4) pH by auto
      show "irTerm (irBlock H Q) = Branch BB" if "Q \<in> set (ir_preds H BB)" "Q \<notin> set ps" for Q
      proof (cases "Q = ?n")
        case False
        then have Q: "Q \<in> set (ir_preds F BB)" "Q \<noteq> P" using pH [of Q] that(1) by blast+
        then have "irTerm (irBlock F Q) = Branch BB" using that(2) by (intro Cons.prems(5)) simp_all
        moreover have "Q \<in> set (irIds F)" using Q(1) by (simp add: set_preds)
        ultimately show ?thesis using H(6) Q(2) by simp
      qed (use H(5) in simp)
    qed
    then obtain G where G: "foldM (cleanupEdge BB) ps H = Some G" "wf_ir G" "simulates exec truth H G" "split_into G BB"
        "\<forall>B \<in> set (irIds H). B \<noteq> BB \<longrightarrow> ir_preds G B = ir_preds H B \<and> (split_into H B \<longrightarrow> split_into G B)"
      by blast
    have "ir_preds G B = ir_preds F B \<and> (split_into F B \<longrightarrow> split_into G B)" if B: "B \<in> set (irIds F)" "B \<noteq> BB" for B
    proof -
      have "B \<noteq> ?n" using B(1) n by auto
      then have p: "ir_preds H B = ir_preds F B" using H(8) B(2) by simp
      have "split_into H B" if "split_into F B"
        unfolding split_into_def
      proof (intro ballI impI)
        fix Q assume Q: "Q \<in> set (irIds H)" "B \<in> set (ir_succs (irTerm (irBlock H Q)))"
        then have "Q \<in> set (ir_preds H B)" by (simp add: set_preds)
        then have QF: "Q \<in> set (irIds F)" "B \<in> set (ir_succs (irTerm (irBlock F Q)))"
          unfolding p by (auto simp: set_preds)
        then have "irTerm (irBlock F Q) = Branch B" using that by (simp add: split_into_def)
        moreover have "Q \<noteq> P" using calculation P(2) B(2) by auto
        ultimately show "irTerm (irBlock H Q) = Branch B" using H(6) QF(1) by simp
      qed
      then show ?thesis using G(5) B H(4) p by simp
    qed
    moreover have "foldM (cleanupEdge BB) (P # ps) F = Some G" using G(1) H(1) by simp
    ultimately show ?case
      using G(2,4) simulates_trans [OF H(2,3) G(3)] by blast
  qed
  then show thesis using that by blast
qed

lemma preds_distinct:
  assumes "wf_ir F"
  shows "distinct (ir_preds F BB)"
proof -
  have "ir_preds F BB = filter (\<lambda>p. BB \<in> set (ir_succs (irTerm (irBlock F p)))) (irIds F)"
  proof -
    have "concat (map (\<lambda>p. replicate (count_list (ir_succs (irTerm (irBlock F p))) BB) p) ps) =
        filter (\<lambda>p. BB \<in> set (ir_succs (irTerm (irBlock F p)))) ps" if "set ps \<subseteq> set (irIds F)" for ps
      using that
    proof (induction ps)
      case (Cons p ps)
      then have "plain_branch (irTerm (irBlock F p))" using assms by (simp add: wf_ir_def)
      then show ?case using Cons by (simp add: plain_branch_once)
    qed simp
    then show ?thesis by (simp add: ir_preds_def)
  qed
  then show ?thesis using assms by (simp add: wf_ir_def)
qed

text \<open>The use list holds every edge once, in whatever order.\<close>

lemma controlFlowPrepare_correct:
  assumes F: "wf_ir F" and uses: "\<And>xs. mset (useOrder xs) = mset xs"
  obtains ch G where "controlFlowPrepare useOrder F = Some (ch, G)" "wf_ir G" "simulates exec truth F G"
    "\<And>BB. BB \<in> set (irIds F) \<Longrightarrow> length (ir_preds G BB) \<le> 1 \<or> split_into G BB" "\<not> ch \<Longrightarrow> G = F"
proof -
  let ?f = "\<lambda>BB (ch, G). if length (ir_preds G BB) > 1 then map_option (Pair True) (insertCleanupBBs useOrder BB G)
      else Some (ch, G)"
  have "\<exists>ch' G'. foldM ?f bs (ch, G) = Some (ch', G') \<and> wf_ir G' \<and> simulates exec truth G G' \<and>
      (\<forall>BB \<in> set bs. length (ir_preds G' BB) \<le> 1 \<or> split_into G' BB) \<and>
      (\<forall>BB \<in> set (irIds G) - set bs. (length (ir_preds G BB) \<le> 1 \<or> split_into G BB) \<longrightarrow>
        length (ir_preds G' BB) \<le> 1 \<or> split_into G' BB) \<and> (\<not> ch' \<longrightarrow> \<not> ch \<and> G' = G)"
    if "wf_ir G" "set bs \<subseteq> set (irIds G)" "distinct bs" for bs ch G
    using that
  proof (induction bs arbitrary: ch G)
    case Nil
    then show ?case by (simp add: simulates_refl)
  next
    case (Cons BB bs)
    have "\<exists>ch1 H. ?f BB (ch, G) = Some (ch1, H) \<and> wf_ir H \<and> simulates exec truth G H \<and>
        (length (ir_preds H BB) \<le> 1 \<or> split_into H BB) \<and>
        (\<forall>B \<in> set (irIds G) - {BB}. ir_preds H B = ir_preds G B \<and> (split_into G B \<longrightarrow> split_into H B)) \<and>
        (\<not> ch1 \<longrightarrow> \<not> ch \<and> H = G)"
    proof (cases "length (ir_preds G BB) > 1")
      case False
      then show ?thesis using Cons.prems(1) by (intro exI [of _ ch] exI [of _ G]) (simp add: simulates_refl)
    next
      case True
      let ?ps = "useOrder (ir_preds G BB)"
      have "distinct ?ps" "set ?ps = set (ir_preds G BB)"
        using uses [of "ir_preds G BB"] preds_distinct [OF Cons.prems(1), of BB]
        by (metis mset_eq_imp_distinct_iff, metis mset_eq_setD)
      then obtain H where H: "foldM (cleanupEdge BB) ?ps G = Some H" "wf_ir H" "simulates exec truth G H" "split_into H BB"
          "\<And>B. B \<in> set (irIds G) \<Longrightarrow> B \<noteq> BB \<Longrightarrow> ir_preds H B = ir_preds G B \<and> (split_into G B \<longrightarrow> split_into H B)"
        using insertCleanup_edges [OF Cons.prems(1), of BB ?ps exec truth] Cons.prems(2) by auto
      then have "?f BB (ch, G) = Some (True, H)" using True by (simp add: insertCleanupBBs_def)
      then show ?thesis using H(2-5) by blast
    qed
    then obtain ch1 H where H: "?f BB (ch, G) = Some (ch1, H)" "wf_ir H" "simulates exec truth G H"
        "length (ir_preds H BB) \<le> 1 \<or> split_into H BB"
        "\<forall>B \<in> set (irIds G) - {BB}. ir_preds H B = ir_preds G B \<and> (split_into G B \<longrightarrow> split_into H B)"
        "\<not> ch1 \<longrightarrow> \<not> ch \<and> H = G" by blast
    have sub: "set (irIds G) \<subseteq> set (irIds H)" using H(3) by (simp add: simulates_def)
    then have "set bs \<subseteq> set (irIds H)" "distinct bs" using Cons.prems(2,3) by auto
    from Cons.IH [OF H(2) this, of ch1] obtain ch' G' where G': "foldM ?f bs (ch1, H) = Some (ch', G')" "wf_ir G'"
        "simulates exec truth H G'" "\<forall>BB \<in> set bs. length (ir_preds G' BB) \<le> 1 \<or> split_into G' BB"
        "\<forall>BB \<in> set (irIds H) - set bs. (length (ir_preds H BB) \<le> 1 \<or> split_into H BB) \<longrightarrow>
          length (ir_preds G' BB) \<le> 1 \<or> split_into G' BB" "\<not> ch' \<longrightarrow> \<not> ch1 \<and> G' = H"
      by blast
    have "foldM ?f (BB # bs) (ch, G) = Some (ch', G')" using H(1) G'(1) by simp
    moreover have "simulates exec truth G G'" by (rule simulates_trans [OF H(2,3) G'(3)])
    moreover have "length (ir_preds G' BB) \<le> 1 \<or> split_into G' BB"
      using G'(5) H(4) Cons.prems(2,3) sub by auto
    then have "\<forall>B \<in> set (BB # bs). length (ir_preds G' B) \<le> 1 \<or> split_into G' B" using G'(4) by simp
    moreover have "length (ir_preds G' B) \<le> 1 \<or> split_into G' B"
      if B: "B \<in> set (irIds G) - set (BB # bs)" "length (ir_preds G B) \<le> 1 \<or> split_into G B" for B
    proof -
      have "length (ir_preds H B) \<le> 1 \<or> split_into H B" using H(5) B by auto
      moreover have "B \<in> set (irIds H) - set bs" using B(1) sub by auto
      ultimately show ?thesis using G'(5) by blast
    qed
    ultimately show ?case using G'(2,6) H(6) by blast
  qed
  from this [OF F order_refl, of False] obtain ch G where
      "foldM ?f (irIds F) (False, F) = Some (ch, G)" "wf_ir G" "simulates exec truth F G"
      "\<forall>BB \<in> set (irIds F). length (ir_preds G BB) \<le> 1 \<or> split_into G BB" "\<not> ch \<longrightarrow> G = F"
    using F by (auto simp: wf_ir_def)
  then show thesis using that by (auto simp: controlFlowPrepare_def)
qed

section \<open>A conditional branch to the same block twice\<close>

text \<open>
  Both edges are split, but the first renaming of the incoming block takes both entries of every phi:
  the second new block has none.
\<close>

lemma mset_pair: "mset xs = mset [P, P] \<Longrightarrow> xs = [P, P]"
proof -
  assume m: "mset xs = mset [P, P]"
  then have "length xs = 2" "set xs \<subseteq> {P}"
    using mset_eq_length [OF m] mset_eq_setD [OF m] by auto
  then show "xs = [P, P]"
    by (auto simp: numeral_2_eq_2 length_Suc_conv)
qed

lemma enter_missing:
  assumes "p \<in> set (phis B)" "prev \<notin> fst ` set (snd p)"
  shows "enter B prev e = None"
  using assms by (auto simp: enter_def list_all_iff map_of_eq_None_iff [symmetric])

lemma cleanup_both_edges:
  assumes F: "P \<in> set (irIds F)" "BB \<in> set (irIds F)" "P \<noteq> BB" "\<forall>b \<in> set (irIds F). b < irNext F"
    and inc: "\<forall>p \<in> set (phis (irBlock F BB)). fst ` set (snd p) \<subseteq> set (irIds F)"
    and T: "irTerm (irBlock F P) = CondBranch c BB BB" "ir_preds F BB = [P, P]"
    and phi: "phis (irBlock F BB) \<noteq> []" and uses: "\<And>xs. mset (useOrder xs) = mset xs"
  shows "\<exists>G. insertCleanupBBs useOrder BB F = Some G \<and>
    irTerm (irBlock G P) = CondBranch c (irNext F) (irNext F + 1) \<and>
    irTerm (irBlock G (irNext F + 1)) = Branch BB \<and> enter (irBlock G BB) (irNext F + 1) e = None"
proof -
  let ?n = "irNext F"
  have n: "P \<noteq> ?n" "BB \<noteq> ?n" "P \<noteq> Suc ?n" "BB \<noteq> Suc ?n" using F by auto
  have ps: "useOrder (ir_preds F BB) = [P, P]" using uses [of "ir_preds F BB"] T(2) by (metis mset_pair)
  obtain G where G: "insertCleanupBBs useOrder BB F = Some G"
      "irTerm (irBlock G P) = CondBranch c ?n (?n + 1)" "irTerm (irBlock G (?n + 1)) = Branch BB"
      "phis (irBlock G BB) = map (setIncomingBlock P (?n + 1)) (map (setIncomingBlock P ?n) (phis (irBlock F BB)))"
    using n F(3) T(1) by (simp add: insertCleanupBBs_def ps cleanupEdge_def Let_def)
  obtain p where p: "p \<in> set (phis (irBlock F BB))" using phi by (meson hd_in_set)
  have "?n + 1 \<notin> fst ` set (snd (setIncomingBlock P (?n + 1) (setIncomingBlock P ?n p)))"
  proof -
    have "?n + 1 \<notin> fst ` set (snd p)" using inc p F(4) by force
    then show ?thesis using n by (auto simp: setIncomingBlock_def split: if_splits)
  qed
  then have "enter (irBlock G BB) (?n + 1) e = None"
    using p by (intro enter_missing [of "setIncomingBlock P (?n + 1) (setIncomingBlock P ?n p)"]) (simp_all add: G(4))
  with G show ?thesis by blast
qed

end
