(* ===== verification/Spec2Isabelle.thy ===== *)
theory Spec2Isabelle
  imports TVM_Encoding TVM_Printing TVM_LoweringSem TVM_MoveCorrect TVM_StackModel TVM_PeepholeEnds TVM_IfConversion TVM_CellSem TVM_EntryPasses TVM_CFGPrepare
begin

text \<open>
  A model of the core of the TVM backend, src/llvm/lib/Target/TVM. The compiler is LLVM 7 with a new
  target: what is its own, and what is modelled here, are the passes that turn LLVM's register code into
  code of a stack machine, and some of the passes on IR and on register code before them.

  The parts and how they interact.
  \<^item> TVMStackModel.cpp visits the blocks of a function. prepareRoads groups the edges of the flow graph
    into roads whose blocks agree on one stack, computeRoadPattern fixes that stack for each road. In
    a block, prepareStackFor asks for the stack that the next instruction needs,
    modelInstructionExecution computes the stack after it, and rewriteToSForm replaces its registers.
  \<^item> The asking is done through StackFixup (TVMStackFixup.h and .cpp): Diff reaches one stack from
    another, DiffForArgs brings arguments to the top (with StackPatterns for up to three arguments and
    a loop for more), DiffForReturn and DiffForReturnMulti leave the results. A fixup is a list of
    changes (exchanges, rolls, drops, pushes); InstructionGenerator turns it into instructions.
  \<^item> TVMPeephole.cpp shortens the stack instructions. TVMInstrInfo.cpp describes branches to LLVM's
    branch folding, and TVMIfConversionTerm.cpp predicates a throw with them. TVMContinuationsHoist.cpp
    leaves one push for every jump target. TVMArgumentMove.cpp, TVMPrepareForLiveIntervals.cpp,
    TVMReplacePhysRegs.cpp and TVMRegNumbering.cpp order the arguments and number the registers before
    the stack model, TVMRematerialize.cpp and TVMMoveMaterializable.cpp bring cheap values to their uses.
  \<^item> On IR, TVMControlFlowPrepare.cpp and TVMLoopPrepare.cpp shape the flow graph, TVMStoreCombine.cpp
    joins constant stores into a builder, TVMReFunc.cpp finds similar messages and serialises them by a
    common function.
  \<^item> Between the two, TVMISelLowering.cpp and TVMISelDAGToDAG.cpp turn the nodes of LLVM's selection DAG
    into nodes of the target; at the end TVMMCInstLower.cpp and TVMAsmPrinter.cpp print the blocks, the
    code of a continuation nested in braces under the instruction that pushes it.

  Which theory models what; inside a theory the definitions have the names of the functions they model,
  or of the function and the part of it (exchange_slots is the middle of DiffForReturn).
  \<^item> TVM_Prelude: the option monad (None is a failed assert, an llvm_unreachable, or an access out of
    range), 32-bit subtraction, std::find and std::set_difference, exchanges in lists.
  \<^item> TVM_Change: the variant StackFixup::Change and its factories. TVM_Stack: class Stack as the list of
    its registers from the top, and operator+= for a change (apply). TVM_Fixup: a StackFixup with its
    comments, optimizeEqualXchgs, optimize.
  \<^item> TVM_Patterns: StackPatterns. TVM_Deleter: the Deleter. TVM_Train: Vagon and Train. TVM_Diff: Diff
    and the variants for a return. TVM_Args: DiffForArgs.
  \<^item> TVM_Machine: machine instructions, the tables of TVMFunctionInfo, MachineInstrMatcher, the
    functions of Stack on instructions and live intervals. TVM_InstrGen: InstructionGenerator, with a
    reading of instructions back into changes and the ranges of their operands. TVM_Encoding: what the fixups
    hold can be encoded. TVM_Roads, TVM_StackModel: the two halves of TVMStackModel.cpp.
  \<^item> TVM_Peephole: TVMPeephole.cpp with an execution of blocks; TVM_PeepholeEnds: when its loop ends.
    TVM_Branch: TVMInstrInfo.cpp over a
    function with its blocks, successors and next virtual register (MachineFn), with the semantics
    block_jump of the last jump. TVM_IfConversion: TVMIfConversionTerm.cpp.
  \<^item> TVM_BlockUses: ReplaceUsesOfBlockWith of TVMInstrInfo.cpp and replaceSuccessor. TVM_ContHoist:
    TVMContinuationsHoist.cpp. TVM_EntryPasses: the four passes on arguments and registers. All three
    are over MachineFn. TVM_Materialize: TVMRematerialize.cpp and TVMMoveMaterializable.cpp.
    TVM_MachineRuns: runs of a MachineFn on any machine along the paths of its flow graph, functions in SSA
    form, and rewriting instruction by instruction; TVM_MaterializeCorrect and TVM_MoveCorrect: the two
    passes keep the runs.
  \<^item> TVM_CFGPrepare: the two passes on the IR's flow graph, over functions of phis, bodies and
    terminators, with a step relation ir_step.
  \<^item> TVM_StoreCombine: the pass on a block, values as 257-bit words, and the locale builder_ops of what
    a store does. TVM_ReFunc: emulated values, generated functions and calls, candidates and merging.
    TVM_ReFuncCorrect: the locale builder_sem and the theorems. TVM_CellSem: builders and cells as an
    instance of it, and the formats for which the pass goes wrong.
  \<^item> TVM_Lowering: the DAG as trees of nodes, the operations of TVMTargetLowering and Select.
    TVM_LoweringSem: values of nodes and targets of branch nodes. TVM_Printing: getFallThrough, lower,
    EmitInstruction, EmitFunctionBody and APInt::toString, with a reader of the assembly.

  What the lemmas show.
  \<^item> Fixups: the lists of changes reach the stack they are asked for (C1 to C3, C19, C21), keep the rest
    of the stack, and keep their effect when they are optimised (C17); the instructions generated for them
    read back as the changes and carry their comments (C14), and have operands that fit their encodings (C16).
  \<^item> The stack model: prepareRoads ends and gives every edge its road (C6), the blocks of a road agree
    on its stack (C7), an instruction finds its arguments and leaves its results (C9, C11), the S-form
    has the globals and immediates of the register form, in order, and no register (C12).
  \<^item> Peephole, branches and if-conversion keep the effect of the code (C27, C29, C30, C32); rematerialising
    and moving cheap definitions end and keep the runs of the code (C26, C40); where
    the blocks are jumped to is kept by hoisting (C4) and follows ReplaceUsesOfBlockWith (C10); the loop
    of the peephole pass returns exactly when the chain of jumps ends (C18); used registers get
    different numbers (C31).
  \<^item> IR: the flow graph passes keep the runs (C22, C25), combined stores keep every value of the block
    (C34), the emulation of a message is sound (C36), and calls of the generated function compute the
    messages (C37).
  \<^item> The DAG: branches go where they went and the combines keep what nodes mean (C13, C15), calls agree
    with the printed headers (C20), the search for the saved c0 is exact for different ids (C24), tuples
    become the instruction of their size (C33).
  \<^item> The assembly: lowering returns exactly when no continuation pushes itself (C5), the printed lines read
    back as the nesting of the continuations (C8), constants read back as their value (C28).
  \<^item> C23, C35, C38, C39 and parts of C13, C20, C21, C24, C27, C32 and C33 state what the code does where that
    is not what it means to do; the hypotheses of the other theorems exclude these cases by name
    (pattern_defect, plain_branch, push_ok, good_store, plain, no_binop, gen_ok, no_debug). C22 holds of loop
    headers, too, which the comment of the pass excludes.

  Bounds and recursion. The loops of the code are total functions here, by structural recursion or by a
  measure (the length of the block, of the fixup or of the list that is still to do). The work lists of
  prepareRoads and the loops whose ending is not evident (jump inlining, see C18, lowering, see C5, the two
  IFELSE rewrites, collect_messages) are partial functions in the option monad, where None is also a run that never ends;
  that prepareRoads ends is part of C6. There is no fuel. The constructors of pushI and xchgTop
  refuse a slot deeper than 255 by an assert, so the theorems on fixups speak of at most 256 slots, arguments
  included (C1, C2, C3, C9, C11); nothing is said of deeper ones. Sizes of stacks are natural numbers; unsigned
  subtraction, truncations to 32 bits and the sums that can wrap are written out. IR constants are
  257-bit words.

  Parameters: instruction descriptions (MCInstrInfo, generated from the .td files), live intervals, the
  orders in which LLVM enumerates blocks and uses, the dominator tree and the loops of a function, what
  an instruction other than those named does to the stack, the machine that runs register code, the TVM's store intrinsics (the laws of
  builder_ops and builder_sem), the order in which a C++ compiler evaluates the arguments of a call (rtl),
  the text of a single instruction and of inline assembly, what a DAG node that is not the target's
  evaluates to.

  Not modelled: debug values and debug output; implicit operands and kill flags; the dominator tree and
  loop info that if-conversion keeps up to date; constant folding in IRBuilder; reads of global
  variables that change between a message and its replacement. The DAG's nodes are built as given, without LLVM's folding; the generated matcher of selection,
  comments of the verbose assembly and the printing of single operands are outside. The target's
  registration is glue, and LLVM and Clang themselves are not this project's code. TVMDefineUndef and
  TVMLoadStoreReplace exchange single instructions of the IR for calls of intrinsics whose meaning is not in
  the repository; TVMLoopInstructions and TVMRegStackify are passes without a body.
\<close>

section \<open>Stacks are rearranged as asked\<close>

text \<open>
  C1. StackFixup::Diff, for a target of at least one and at most 256 slots: when every used register of the
  target lies on the current stack, which may be of any size, Diff succeeds (no assert of its own, of the
  Deleter, of the Train or of a change constructor fails), its fixup runs on the current stack, and the result
  is the target in every slot that is not unused. With a larger target a register may have to be copied from
  below slot 255, which the constructor of pushI refuses (PushLimit, an assert marked as unimplemented); an empty
  target makes generateVagonXchgs dereference the begin of an empty train.
\<close>

theorem Diff_correct:
  assumes "to \<noteq> []" "length to \<le> 256"
    and "\<forall>v \<in> set to. v \<noteq> UnusedReg \<longrightarrow> v \<in> set from"
  shows "\<exists>fx t. Diff to from = Some fx \<and> apply_fixup fx from = Some t \<and> matches t to"
  using assms by (rule Diff_reaches)

theorem Diff_correct_witness:
  "\<exists>fx t. Diff [4, UnusedReg, 2] [1, 2, 3, 4] = Some fx \<and>
     apply_fixup fx [1, 2, 3, 4] = Some t \<and> matches t [4, UnusedReg, 2]"
  by (rule Diff_correct) simp_all

text \<open>
  C2. StackFixup::DiffForArgs, for one or more arguments and a stack of at most 256 slots together with them
  (deeper slots are refused by the constructors of pushI and xchgTop): on a stack that holds every used register
  once, for arguments that lie on it, each register killed by all of its uses or by none, the fixup
  succeeds and leaves the arguments on top, the last one topmost; exactly the
  arguments that survive or repeat are duplicated, everything else stays on the stack; the top two
  arguments may come out exchanged for a commutative instruction; and the comments it carries are the
  stacks after each change. The two argument shapes for which the exchange tables are wrong are
  excluded (C21).
\<close>

theorem DiffForArgs_correct:
  assumes "args \<noteq> []" "unique_regs From" "args_ok args From"
    and "length From + length args \<le> 256"
    and "\<not> pattern_defect args (drop (top_unused From) From)"
  shows "\<exists>fx t. DiffForArgs From args comm = Some fx \<and> apply_fixup fx From = Some t \<and>
     commented fx From \<and> args_placed comm args (drop (top_unused From) From) t"
  using assms by (rule DiffForArgs_places)

theorem DiffForArgs_correct_witness:
  "\<exists>fx t. DiffForArgs [7, 8, 9] [\<lparr> Vreg = 9, IsKilled = True \<rparr>, \<lparr> Vreg = 7, IsKilled = False \<rparr>] False =
       Some fx \<and> apply_fixup fx [7, 8, 9] = Some t \<and> commented fx [7, 8, 9] \<and>
     args_placed False [\<lparr> Vreg = 9, IsKilled = True \<rparr>, \<lparr> Vreg = 7, IsKilled = False \<rparr>]
       (drop (top_unused [7, 8, 9]) [7, 8, 9]) t"
  by (rule DiffForArgs_correct)
     (simp_all add: unique_regs_def args_ok_def pattern_defect_def UnusedReg_def)

text \<open>
  C3. The fixups before a return. DiffForReturn keeps the returned register and drops all else, wherever
  the register lies and however deep the stack is (up to the 256 slots an exchange can reach), or drops
  everything. DiffForReturnMulti leaves the returned registers with the last one on top; a register may
  be returned twice and a slot may be left undefined.
\<close>

theorem DiffForReturn_correct:
  "(r \<in> set from \<and> r \<noteq> UnusedReg \<and> length from \<le> 256 \<longrightarrow>
      (\<exists>fx. DiffForReturn from (Some r) = Some fx \<and> apply_fixup fx from = Some [r] \<and> commented fx from)) \<and>
   (\<exists>fx. DiffForReturn from None = Some fx \<and> apply_fixup fx from = Some [] \<and> commented fx from) \<and>
   (RetRegs \<noteq> [] \<and> length RetRegs \<le> 256 \<and> (\<forall>q \<in> set RetRegs. q \<noteq> UnusedReg \<longrightarrow> q \<in> set from) \<longrightarrow>
      (\<exists>fx t. DiffForReturnMulti from RetRegs = Some fx \<and> apply_fixup fx from = Some t \<and>
         matches t (rev RetRegs)))"
  using DiffForReturn_preserves [of r "from"] DiffForReturn_nothing [of "from"]
    DiffForReturnMulti_reaches [of RetRegs "from"] by blast

theorem DiffForReturn_correct_witness:
  "(\<exists>fx. DiffForReturn [1, 2, 3] (Some 2) = Some fx \<and>
     apply_fixup fx [1, 2, 3] = Some [2] \<and> commented fx [1, 2, 3]) \<and>
   (\<exists>fx t. DiffForReturnMulti [1, 2, 3] [3, 3, 1] = Some fx \<and> apply_fixup fx [1, 2, 3] = Some t \<and>
     matches t (rev [3, 3, 1]))"
  using DiffForReturn_correct [of 2 "[1, 2, 3]" "[3, 3, 1]"] by (simp add: UnusedReg_def)

section \<open>Roads and what meets at their ends\<close>

text \<open>
  C6. TVMStackModel::prepareRoads ends on every control-flow graph whose successor and predecessor
  lists agree, none of its asserts fails, the two ends of every edge are on the same road, and every
  block reachable from the entry has its roads.
\<close>

theorem prepareRoads_assigns:
  assumes "cfg_ok G n" "First < n"
  shows "\<exists>mx st. prepareRoads G n First = Some (mx, st) \<and>
     (\<forall>b s. edge G n b s \<longrightarrow> roadEnd st ! b = roadBegin st ! s) \<and>
     (\<forall>b. reachable G First b \<longrightarrow> b < n \<and> roadEnd st ! b \<noteq> 0 \<and>
        (b \<noteq> First \<longrightarrow> roadBegin st ! b \<noteq> 0))"
  using assms by (rule prepareRoads_correct)

definition diamond :: CFG where
  "diamond = \<lparr> successors = (\<lambda>b. if b = 0 then [1, 2] else if b < 3 then [3] else []),
     predecessors = (\<lambda>b. if b = 3 then [1, 2] else if b = 0 then [] else if b < 3 then [0] else []) \<rparr>"

lemma diamond_ok: "cfg_ok diamond 4"
  by (auto simp: cfg_ok_def diamond_def numeral_eq_Suc less_Suc_eq)

theorem prepareRoads_assigns_witness:
  "\<exists>mx st. prepareRoads diamond 4 0 = Some (mx, st) \<and>
     (\<forall>b s. edge diamond 4 b s \<longrightarrow> roadEnd st ! b = roadBegin st ! s) \<and>
     (\<forall>b. reachable diamond 0 b \<longrightarrow> b < 4 \<and> roadEnd st ! b \<noteq> 0 \<and>
        (b \<noteq> 0 \<longrightarrow> roadBegin st ! b \<noteq> 0))"
  by (rule prepareRoads_assigns [OF diamond_ok]) simp

definition sample_desc :: MCInstrInfo where
  "sample_desc = \<lparr> NumDefs = (\<lambda>opc. if opc = SUB then 1 else 0), descReturn = (\<lambda>opc. False),
     descTerminator = (\<lambda>opc. opc = JMPX), descCommutable = (\<lambda>opc. False),
     RegForm2SForm = (\<lambda>opc. if opc = JMPX then Some JMPX_S else None) \<rparr>"

definition sample_context :: ModelContext where
  "sample_context = \<lparr> Desc = sample_desc,
     LIS = \<lparr> hasInterval = (\<lambda>r. True), isLiveInToMBB = (\<lambda>r b. r = index2VirtReg 1),
             isLiveOutOfMBB = (\<lambda>r b. True), liveAt = (\<lambda>r i. r = 2) \<rparr>,
     Graph = diamond, NumBlocks = 4, NumVirtRegs = 2 \<rparr>"

definition sample_infos :: BBInfos where
  "sample_infos = (\<lambda>b. \<lparr> FixedBegin = None, CalculatedEnd = None,
     FixedEnd = (if b = 1 then Some [5, 2] else None),
     RoadBegin = (if b = 3 then 2 else 1), RoadEnd = 2 \<rparr>)"

text \<open>
  C7. The blocks of a road agree on its stack. computeRoadPattern fixes, for an edge whose ends share a
  road, the begin of the successor as the end of the block with the registers that are not live into the
  successor unused; and a stack that matches that end, filtered by what the block had on its stack,
  matches the begin of the successor, provided that the registers live into the successor were there.
\<close>

theorem block_hand_over:
  assumes "b < NumBlocks C" "s < NumBlocks C" "RoadEnd (I b) = RoadBegin (I s)"
    and "J = computeRoadPattern C (RoadEnd (I b)) OutStack I"
  shows "\<exists>fe fb. FixedEnd (J b) = Some fe \<and> FixedBegin (J s) = Some fb \<and>
     fb = filteredByLiveIns (LIS C) s fe \<and>
     (\<forall>t r. matches t (filterByImpDefs fe r) \<and>
        (\<forall>v \<in> set fe. hasInterval (LIS C) v \<longrightarrow> isLiveInToMBB (LIS C) v s \<longrightarrow> v \<noteq> UnusedReg \<longrightarrow> v \<in> set r) \<longrightarrow>
        matches t fb)"
proof -
  obtain fe where "FixedEnd (J b) = Some fe" "FixedBegin (J s) = Some (filteredByLiveIns (LIS C) s fe)"
    using pattern_across_edge [OF assms] by blast
  then show ?thesis using hand_over [of _ fe _ "LIS C" s] by blast
qed

theorem block_hand_over_witness:
  "\<exists>fe fb. FixedEnd (computeRoadPattern sample_context (RoadEnd (sample_infos 1)) [] sample_infos 1) = Some fe \<and>
     FixedBegin (computeRoadPattern sample_context (RoadEnd (sample_infos 1)) [] sample_infos 3) = Some fb \<and>
     matches (filterByImpDefs fe fe) fb"
proof -
  let ?J = "computeRoadPattern sample_context (RoadEnd (sample_infos 1)) [] sample_infos"
  have "\<exists>fe fb. FixedEnd (?J 1) = Some fe \<and> FixedBegin (?J 3) = Some fb \<and>
     fb = filteredByLiveIns (LIS sample_context) 3 fe \<and>
     (\<forall>t r. matches t (filterByImpDefs fe r) \<and>
        (\<forall>v \<in> set fe. hasInterval (LIS sample_context) v \<longrightarrow> isLiveInToMBB (LIS sample_context) v 3 \<longrightarrow>
           v \<noteq> UnusedReg \<longrightarrow> v \<in> set r) \<longrightarrow> matches t fb)"
    by (rule block_hand_over [OF _ _ _ refl]) (simp_all add: sample_context_def sample_infos_def)
  then obtain fe fb where "FixedEnd (?J 1) = Some fe" "FixedBegin (?J 3) = Some fb"
      "\<forall>t r. matches t (filterByImpDefs fe r) \<and> (\<forall>v \<in> set fe. hasInterval (LIS sample_context) v \<longrightarrow>
         isLiveInToMBB (LIS sample_context) v 3 \<longrightarrow> v \<noteq> UnusedReg \<longrightarrow> v \<in> set r) \<longrightarrow> matches t fb"
    by blast
  moreover have "matches t t" for t by (simp add: matches_def)
  ultimately show ?thesis by blast
qed

section \<open>The instructions of a block\<close>

text \<open>
  C9. An instruction that is neither a return, IMPLICIT_DEF nor HIDDENSTACK, and neither a terminator nor the last
  one where its block has successors (ordinary), whose definitions are registers and whose used registers lie on the stack, each
  there once; a commutable one has two or more arguments, all defined (operands_ok). The stack and the
  arguments take at most 256 slots, and the arguments do not have one of the two shapes that the exchange
  tables get wrong (pattern_defect, C21). Then prepareStackFor succeeds, its fixup brings the arguments up,
  modelInstructionExecution accepts the stack (the argument asserts hold), the definitions end on top, the first
  one deepest, and below them lie the old contents without the killed arguments and without unused slots that
  were dropped. The uniqueness that prepareStackFor asserts of the next instruction is kept as long as no
  register is defined again while it is still on the stack.
\<close>

theorem ordinary_instruction_executes:
  assumes "ordinary C MBB hasNext MI" "operands_ok C MI s" "unique_regs s"
    and "length s + length (filter isReg (uses (Desc C) MI)) \<le> 256"
    and "\<not> pattern_defect (MIArgs_of (Desc C) (LIS C) MI i) (drop (top_unused s) s)"
  shows "\<exists>Fix t rest k. prepareStackFor C MBB hasNext MI s i I = Some (Fix, I, None) \<and>
     apply_fixup Fix s = Some t \<and> commented Fix s \<and>
     modelInstructionExecution (Desc C) MI t = Some (rev (map getReg (defs (Desc C) MI)) @ rest) \<and>
     mset rest + mset (moved_regs (MIArgs_of (Desc C) (LIS C) MI i)) + replicate_mset k UnusedReg =
       mset s \<and>
     (distinct (map getReg (defs (Desc C) MI)) \<and> UnusedReg \<notin> getReg ` set (defs (Desc C) MI) \<and>
        getReg ` set (defs (Desc C) MI) \<inter> set rest = {} \<longrightarrow>
        unique_regs (rev (map getReg (defs (Desc C) MI)) @ rest))"
proof -
  obtain Fix t rest k where *: "prepareStackFor C MBB hasNext MI s i I = Some (Fix, I, None)"
    "apply_fixup Fix s = Some t" "commented Fix s"
    "modelInstructionExecution (Desc C) MI t = Some (rev (map getReg (defs (Desc C) MI)) @ rest)"
    "mset rest + mset (moved_regs (MIArgs_of (Desc C) (LIS C) MI i)) + replicate_mset k UnusedReg = mset s"
    using ordinary_instruction [OF assms] by blast
  moreover note ordinary_keeps_unique [OF assms(3) *(5), of "map getReg (defs (Desc C) MI)"]
  ultimately show ?thesis unfolding set_map by blast
qed

definition sample_sub :: MachineInstr where
  "sample_sub = mk_instr SUB [MO_Register 9 False False, MO_Register 1 False False,
     MO_Register 2 False False]"

theorem ordinary_instruction_executes_witness:
  "\<exists>Fix t rest k. prepareStackFor sample_context 0 True sample_sub [1, 3, 2] 0 sample_infos =
       Some (Fix, sample_infos, None) \<and>
     apply_fixup Fix [1, 3, 2] = Some t \<and> commented Fix [1, 3, 2] \<and>
     modelInstructionExecution (Desc sample_context) sample_sub t =
       Some (rev (map getReg (defs (Desc sample_context) sample_sub)) @ rest) \<and>
     mset rest + mset (moved_regs (MIArgs_of (Desc sample_context) (LIS sample_context) sample_sub 0)) +
       replicate_mset k UnusedReg = mset [1, 3, 2]"
proof -
  have "ordinary sample_context 0 True sample_sub" "operands_ok sample_context sample_sub [1, 3, 2]"
    "unique_regs [1, 3, 2]" "length [1, 3, 2 :: nat] + length (filter isReg (uses (Desc sample_context) sample_sub)) \<le> 256"
    "\<not> pattern_defect (MIArgs_of (Desc sample_context) (LIS sample_context) sample_sub 0)
       (drop (top_unused [1, 3, 2]) [1, 3, 2])"
    by (simp_all add: ordinary_def operands_ok_def sample_context_def sample_desc_def sample_sub_def
       mk_instr_def uses_def defs_def unique_regs_def pattern_defect_def MIArgs_of_def UnusedReg_def)
  from ordinary_instruction_executes [OF this, of sample_infos] show ?thesis by blast
qed

text \<open>
  C11. The last instruction of a block with successors whose end is already fixed (prepare_last, the branch of
  prepareStackFor for it). The instruction is not commutable and not IMPLICIT_DEF, its definitions are
  registers and its used registers lie on the stack (operands_ok); its arguments and the fixed end are not both
  empty and take at most 256 slots together. Then the fixup reaches the arguments on top of the fixed end, the
  instruction executes, and what it leaves matches the fixed end wherever the registers were on the stack.
\<close>

theorem last_instruction_reaches_end:
  assumes "FixedEnd (I MBB) = Some fe" "operands_ok C MI s"
    and "\<not> descCommutable (Desc C) (getOpcode MI)" "getOpcode MI \<noteq> IMPLICIT_DEF"
    and "filter isReg (uses (Desc C) MI) \<noteq> [] \<or> fe \<noteq> []"
    and "length (filter isReg (uses (Desc C) MI)) + length fe \<le> 256"
  shows "\<exists>Fix need t rest. prepare_last C MBB MI s i I = Some (Fix, I, Some need) \<and>
     apply_fixup Fix s = Some t \<and> matches t need \<and>
     modelInstructionExecution (Desc C) MI t = Some (rev (map getReg (defs (Desc C) MI)) @ rest) \<and>
     matches rest (filterByImpDefs fe s)"
  using assms by (rule last_instruction)

definition sample_jump :: MachineInstr where
  "sample_jump = mk_instr JMPX [MO_Register 4 False False]"

theorem last_instruction_reaches_end_witness:
  "\<exists>Fix need t rest. prepare_last sample_context 1 sample_jump [2, 4, 5] 0 sample_infos =
       Some (Fix, sample_infos, Some need) \<and>
     apply_fixup Fix [2, 4, 5] = Some t \<and> matches t need \<and>
     modelInstructionExecution (Desc sample_context) sample_jump t =
       Some (rev (map getReg (defs (Desc sample_context) sample_jump)) @ rest) \<and>
     matches rest (filterByImpDefs [5, 2] [2, 4, 5])"
  by (rule last_instruction_reaches_end)
     (simp_all add: operands_ok_def sample_context_def sample_desc_def sample_jump_def sample_infos_def
       mk_instr_def uses_def defs_def UnusedReg_def)

text \<open>
  C12. rewriteToSForm of an instruction that has an S-form. It succeeds exactly when the global addresses and symbols
  come first among the uses and the immediates last (sform_order; otherwise an assert of its loops fails), and
  then it builds one instruction of the S-form's opcode, whose operands are the globals and the immediates of
  the register form, all of them and in order, so no register is left; for PUSH_GLOBAL_ADDRESS_S the globals
  become labels pushed before it. The registers are kept as the source registers of the new
  instruction, and dead definitions are unused on the stack. A PUSHCONT_MBB without globals keeps its block instead.
\<close>

theorem rewriteToSForm_copies:
  assumes "RegForm2SForm D (getOpcode MI) = Some NewOpcode"
  shows "(getOpcode MI \<noteq> PUSHCONT_MBB \<longrightarrow>
      (sform_order D MI \<longrightarrow>
        (\<exists>N. rewriteToSForm D MI c s =
           Some ((if NewOpcode = PUSH_GLOBAL_ADDRESS_S
                  then map (\<lambda>g. mk_instr PUSHCONT_LABEL [g]) (filter isGlobalOrSymbol (uses D MI)) else []) @ [N],
                 filterByDeadDefs D MI s) \<and>
         getOpcode N = NewOpcode \<and>
         operands N = (if NewOpcode = PUSH_GLOBAL_ADDRESS_S then [] else filter isGlobalOrSymbol (uses D MI)) @
           filter isImmOrCImm (uses D MI) \<and>
         sourceRegs N = Some (map getReg (filter isReg (operands MI))))) \<and>
      (\<not> sform_order D MI \<longrightarrow> rewriteToSForm D MI c s = None)) \<and>
    (getOpcode MI = PUSHCONT_MBB \<and> filter isGlobalOrSymbol (uses D MI) = [] \<and> getOperand MI 1 = Some m \<longrightarrow>
      (\<exists>N. rewriteToSForm D MI c s = Some ([N], filterByDeadDefs D MI s) \<and> getOpcode N = NewOpcode \<and>
         operands N = [m] \<and> sourceRegs N = Some (map getReg (filter isReg (operands MI)))))"
  using rewrite_operands [OF assms] rewrite_pushcont [OF assms] by blast

text \<open>A store of two registers with its width, and a global between its operands, which is out of order.\<close>

definition sample_forms :: MCInstrInfo where
  "sample_forms = sample_desc \<lparr> NumDefs := (\<lambda>opc. 1), RegForm2SForm := (\<lambda>opc. Some (OtherOpcode 3)) \<rparr>"

definition sample_store :: "MachineOperand list \<Rightarrow> MachineInstr" where
  "sample_store opds = mk_instr STU (map (\<lambda>r. MO_Register r False False) [9, 1, 2] @ opds)"

theorem rewriteToSForm_copies_witness:
  "(\<exists>N. rewriteToSForm sample_forms (sample_store [MO_CImmediate 8, MO_Immediate 1]) None [9, 5] = Some ([N], [9, 5]) \<and>
     getOpcode N = OtherOpcode 3 \<and> operands N = [MO_CImmediate 8, MO_Immediate 1] \<and> sourceRegs N = Some [9, 1, 2]) \<and>
   rewriteToSForm sample_forms (sample_store [MO_GlobalAddress 4 0]) None [9, 5] = None"
proof -
  have form: "RegForm2SForm sample_forms (getOpcode (sample_store opds)) = Some (OtherOpcode 3)" for opds
    by (simp add: sample_forms_def)
  have good: "sform_order sample_forms (sample_store [MO_CImmediate 8, MO_Immediate 1])"
    by (simp add: sform_order_def sample_forms_def sample_store_def mk_instr_def uses_def)
  have bad: "\<not> sform_order sample_forms (sample_store [MO_GlobalAddress 4 0])"
    by (simp add: sform_order_def sample_forms_def sample_store_def mk_instr_def uses_def)
  from rewriteToSForm_copies [OF form, of "[MO_CImmediate 8, MO_Immediate 1]" None "[9, 5]"]
    rewriteToSForm_copies [OF form, of "[MO_GlobalAddress 4 0]" None "[9, 5]"] good bad
  show ?thesis
    by (auto simp: sample_forms_def sample_store_def mk_instr_def uses_def defs_def filterByDeadDefs_def)
qed


section \<open>The generated code\<close>

text \<open>
  C14. StackFixup::InstructionGenerator never fails on a fixup whose changes satisfy what their constructors assert
  (made; every fixup of the stack model is of this kind, hidden pushes included, TVM_Encoding). The
  generated instructions, read back one change per instruction (with the constants pushed for the computed
  forms), are the changes of the fixup, in order; a hidden push is read back as the push of its slot. Apart
  from these constants every change has exactly one instruction, which carries the comment of the change.
\<close>

theorem generate_round_trip:
  assumes "\<forall>c \<in> set (changes fx). made c"
  shows "\<exists>code. generate fx = Some code \<and> read_code [] code = Some (map unhide (changes fx)) \<and>
     shown code = map (\<lambda>p. [StackComment (snd p)]) fx"
proof -
  obtain code where code: "generate fx = Some code" using generate_total [OF assms] by blast
  then show ?thesis using generate_reads [OF code assms] generate_shows [OF code] by blast
qed

definition sample_fixup :: StackFixup where
  "sample_fixup = [(roll 20, Some [1]), (xchg 1 2, None), (blkdrop 16, None), (pushHidden 30 7, None), (xc2pu 1 2 3, None)]"

theorem generate_round_trip_witness:
  "\<exists>code. generate sample_fixup = Some code \<and>
     read_code [] code = Some [roll 20, xchg 1 2, blkdrop 16, pushI 30, xc2pu 1 2 3] \<and>
     shown code = [[StackComment (Some [1])], [StackComment None], [StackComment None], [StackComment None], [StackComment None]]"
proof -
  have "\<forall>c \<in> set (changes sample_fixup). made c"
    by (simp add: sample_fixup_def changes_def compound_defs limit_defs)
  from generate_round_trip [OF this] show ?thesis by (simp add: sample_fixup_def changes_def compound_defs)
qed



section \<open>The parts of a fixup\<close>

text \<open>
  C17. StackFixup::optimize keeps the effect of a fixup; with IsCommutative it changes the effect at
  most by an exchange of the two topmost elements.
\<close>

theorem optimize_keeps_effect:
  assumes "apply_changes (map fst cs) s = Some t"
  shows "apply_changes (map fst (optimize c cs)) s = Some t \<or>
         (c \<and> 2 \<le> length t \<and> apply_changes (map fst (optimize c cs)) s = Some (swap_at 0 1 t))"
  using assms by (rule optimize_commutative_sound)

theorem optimize_keeps_effect_witness:
  "apply_changes (map fst (optimize False [(xchgTop 1, ()), (xchgTop 2, ()), (xchgTop 2, ())])) [1, 2, 3] =
   Some [2, 1, 3]"
  using optimize_keeps_effect [of "[(xchgTop 1, ()), (xchgTop 2, ()), (xchgTop 2, ())]" "[1, 2, 3]" "[2, 1, 3]" False]
  by (simp add: apply_changes_def swap_at_def)

text \<open>
  C19. The Deleter: for registers that lie on the stack, given in groups, it deletes exactly these
  occurrences, keeps the order of the rest, and records a fixup that has this effect.
\<close>

theorem Deleter_deletes:
  assumes "built s0 st" "mset del \<subseteq># mset (snd st)" "grouped (rev del)"
  shows "\<exists>st' idx. Deleter_run del st = Some st' \<and> built s0 st' \<and>
     snd st' = kept idx (snd st) \<and> mset (snd st') = mset (snd st) - mset del"
  using assms by (rule Deleter_run_correct)

theorem Deleter_deletes_witness:
  "\<exists>st' idx. Deleter_run [3, 1] ([], [1, 2, 3, 4]) = Some st' \<and> built [1, 2, 3, 4] st' \<and>
     snd st' = kept idx (snd ([] :: StackFixup, [1, 2, 3, 4])) \<and>
     mset (snd st') = mset (snd ([] :: StackFixup, [1, 2, 3, 4])) - mset [3, 1]"
  by (rule Deleter_deletes) (simp_all add:)

text \<open>
  C21. For two or three arguments in reach, each of them moved or duplicated as asked, the exchange
  tables bring them to the top and change nothing else, except for two patterns. Push-push-exchange with
  the second argument on top and the third below the second slot takes the third register for the
  second as well; push-exchange-push is wrong when the second argument is also the third and not on top.
\<close>

theorem patterns_correct:
  assumes "i < length s" "j < length s" "k < length s"
    and "i \<le> XchgLimit" "j \<le> XchgLimit" "k \<le> XchgLimit" "\<not> p1 \<longrightarrow> i \<noteq> j"
  shows "brings (pattern2 p0 p1 i j) s [i, j] ((if p0 then [i] else []) @ (if p1 then [j] else [])) \<and>
    ((\<not> p2 \<longrightarrow> i \<noteq> k \<and> j \<noteq> k) \<and> (p0 \<and> \<not> p1 \<and> p2 \<and> j = k \<longrightarrow> j = 0) \<and>
     (p0 \<and> p1 \<and> \<not> p2 \<and> j = 0 \<longrightarrow> k < 2) \<longrightarrow>
     brings (pattern3 p0 p1 p2 i j k) s [i, j, k]
       ((if p0 then [i] else []) @ (if p1 then [j] else []) @ (if p2 then [k] else []))) \<and>
    (distinct s \<and> i \<noteq> k \<and> 2 \<le> k \<and> i \<noteq> 0 \<longrightarrow>
     \<not> brings (pattern3 True True False i 0 k) s [i, 0, k] [i, 0]) \<and>
    (distinct s \<and> i \<noteq> k \<and> 0 < k \<longrightarrow> \<not> brings (pattern3 True False True i k k) s [i, k, k] [i, k])"
  using pattern2_brings [OF assms(1,2,4,5,7)] pattern3_brings [OF assms(1-7)]
    pattern3_defects [of s i k] assms(1,3) by auto

theorem patterns_correct_witness:
  "brings (pattern2 False True 3 1) [5, 6, 7, 8] [3, 1] ((if False then [3] else []) @ (if True then [1] else [])) \<and>
   brings (pattern3 False True False 3 1 0) [5, 6, 7, 8] [3, 1, 0]
    ((if False then [3] else []) @ (if True then [1] else []) @ (if False then [0] else [])) \<and>
   \<not> brings (pattern3 True True False 3 0 2) [5, 6, 7, 8] [3, 0, 2] [3, 0]"
  using patterns_correct [of 3 "[5, 6, 7, 8]" 1 0 True False False]
    patterns_correct [of 3 "[5, 6, 7, 8]" 1 2 True False False] by (simp add: limit_defs)

section \<open>The peephole pass\<close>

text \<open>
  C27. Combining drops into BLKDROP keeps the effect of a block on the stack, and so does combining pushes
  into BLKPUSH when every BLKPUSH written copies the top of the stack. A sequence of pushes that starts
  below the top copies one element, while the BLKPUSH written for it pushes different ones: PUSH r, PUSH r+1
  becomes BLKPUSH 2, r, which is PUSH r twice.
\<close>

theorem block_combines_effects:
  shows "(runBlkDropCombine B = Some B' \<and> (\<forall>MI \<in> set B. getOpcode MI = POP \<longrightarrow> length (operands MI) = 1) \<longrightarrow>
      exec_block val other B' s = exec_block val other B s) \<and>
    (runBlkPushCombine B = Some B' \<and> (\<forall>MI \<in> set B. push_ok MI \<and> getOpcode MI \<noteq> BLKPUSH) \<longrightarrow>
      ((\<forall>MI \<in> set B'. getOpcode MI = BLKPUSH \<longrightarrow> opd_imm MI 1 = Some 0) \<longrightarrow>
        exec_block val other B' s = exec_block val other B s) \<and>
      (0 < r \<and> r < 15 \<and> r + 1 < length s \<and> distinct s \<and>
         B = [mk_instr PUSH [imm r], mk_instr PUSH [imm (r + 1)], mk_instr POP [imm 0]] \<longrightarrow>
        exec_block val other (butlast B') s \<noteq> exec_block val other (butlast B) s))"
proof (intro conjI impI; (elim conjE)?)
  assume "runBlkDropCombine B = Some B'" "\<forall>MI \<in> set B. getOpcode MI = POP \<longrightarrow> length (operands MI) = 1"
  then show "exec_block val other B' s = exec_block val other B s" by (rule runBlkDropCombine_effect)
next
  assume "\<forall>MI \<in> set B'. getOpcode MI = BLKPUSH \<longrightarrow> opd_imm MI 1 = Some 0"
    and "runBlkPushCombine B = Some B'" "\<forall>MI \<in> set B. push_ok MI \<and> getOpcode MI \<noteq> BLKPUSH"
  then show "exec_block val other B' s = exec_block val other B s" using runBlkPushCombine_effect by blast
next
  assume r: "0 < r" "r < 15" "r + 1 < length s" "distinct s"
    and B: "B = [mk_instr PUSH [imm r], mk_instr PUSH [imm (r + 1)], mk_instr POP [imm 0]]"
    and run: "runBlkPushCombine B = Some B'"
  then show "exec_block val other (butlast B') s \<noteq> exec_block val other (butlast B) s"
    using runBlkPushCombine_shifted [OF r] by simp
qed

definition sample_pushes :: "nat \<Rightarrow> Block" where
  "sample_pushes r = [mk_instr PUSH [imm r], mk_instr PUSH [imm (r + 1)], mk_instr POP [imm 0]]"

theorem block_combines_effects_witness:
  "(\<exists>B'. runBlkDropCombine [mk_instr POP [imm 0], mk_instr POP [imm 0], mk_instr PUSH [imm 1]] = Some B' \<and>
     exec_block nat (\<lambda>MI s. None) B' [1, 2, 3, 4] =
     exec_block nat (\<lambda>MI s. None) [mk_instr POP [imm 0], mk_instr POP [imm 0], mk_instr PUSH [imm 1]] [1, 2, 3, 4]) \<and>
   (\<exists>B'. runBlkPushCombine (sample_pushes 0) = Some B' \<and>
     exec_block nat (\<lambda>MI s. None) B' [1, 2] = exec_block nat (\<lambda>MI s. None) (sample_pushes 0) [1, 2]) \<and>
   (\<exists>B'. runBlkPushCombine (sample_pushes 1) = Some B' \<and>
     exec_block nat (\<lambda>MI s. None) (butlast B') [5, 6, 7] \<noteq>
     exec_block nat (\<lambda>MI s. None) (butlast (sample_pushes 1)) [5, 6, 7])"
proof -
  obtain Bd where Bd: "runBlkDropCombine [mk_instr POP [imm 0], mk_instr POP [imm 0], mk_instr PUSH [imm 1]] = Some Bd"
    by (simp add: is_pop_def opd_imm_def getOperand_def imm_def mk_instr_def)
  have "exec_block nat (\<lambda>MI s. None) Bd [1, 2, 3, 4] =
      exec_block nat (\<lambda>MI s. None) [mk_instr POP [imm 0], mk_instr POP [imm 0], mk_instr PUSH [imm 1]] [1, 2, 3, 4]"
    by (rule block_combines_effects [THEN conjunct1, THEN mp]) (use Bd in \<open>auto simp: mk_instr_def imm_def\<close>)
  note drops = Bd this
  have B': "runBlkPushCombine (sample_pushes r) = Some [mk_instr BLKPUSH [imm 2, imm r], mk_instr POP [imm 0]]"
    if "r = 0 \<or> r = 1" for r using that nat_mod32 [of 1] nat_mod32 [of 2]
    by (elim disjE) (simp_all add: sample_pushes_def opd_imm_def getOperand_def imm_def mk_instr_def BlkPushLimit_def Let_def)
  have ok: "\<forall>MI \<in> set (sample_pushes r). push_ok MI \<and> getOpcode MI \<noteq> BLKPUSH"
    if "r = 0 \<or> r = 1" for r using that
    by (auto simp: sample_pushes_def push_ok_def opd_imm_def getOperand_def imm_def mk_instr_def)
  have "exec_block nat (\<lambda>MI s. None) [mk_instr BLKPUSH [imm 2, imm 0], mk_instr POP [imm 0]] [1, 2] =
      exec_block nat (\<lambda>MI s. None) (sample_pushes 0) [1, 2]"
    by (rule block_combines_effects [THEN conjunct2, THEN mp, OF conjI [OF B' ok], THEN conjunct1, THEN mp])
       (auto simp: opd_imm_def getOperand_def imm_def mk_instr_def)
  moreover have "exec_block nat (\<lambda>MI s. None) (butlast [mk_instr BLKPUSH [imm 2, imm 1], mk_instr POP [imm 0]]) [5, 6, 7] \<noteq>
      exec_block nat (\<lambda>MI s. None) (butlast (sample_pushes 1)) [5, 6, 7]"
    by (rule block_combines_effects [where r = 1, THEN conjunct2, THEN mp, OF conjI [OF B' ok], THEN conjunct2, THEN mp]) (simp_all add: sample_pushes_def)
  ultimately show ?thesis using B' [of 0] B' [of 1] drops by blast
qed

section \<open>Branches\<close>

definition sample_branches :: MCInstrInfo where
  "sample_branches = \<lparr> NumDefs = (\<lambda>opc. if opc = PUSHCONT_MBB then 1 else 0), descReturn = (\<lambda>opc. False),
     descTerminator = (\<lambda>opc. opc \<in> {JMPX, IFELSE, IFJMP, IFNOTJMP, THROW}),
     descCommutable = (\<lambda>opc. False), RegForm2SForm = (\<lambda>opc. None) \<rparr>"

definition sample_choice :: MachineFn where
  "sample_choice = \<lparr>
     insts = (\<lambda>b. [])(0 := [pushcont 0 1, pushcont 1 2, mk_instr IFELSE [reg 2, reg 0, reg 1]],
                    1 := [mk_instr THROW [MO_Immediate 7]]),
     succs = (\<lambda>b. [])(0 := [1, 2]), blockIds = [0, 1, 2], nextVReg = 3 \<rparr>"

lemmas sample_branch_defs = sample_branches_def sample_choice_def pushcont_def reg_def mk_instr_def

lemma sample_branch_ok:
  "branch_desc sample_branches" "fresh_regs sample_choice"
  "distinct (blockIds sample_choice)" "0 \<in> set (blockIds sample_choice)"
  "length (terminators sample_branches (insts sample_choice 0)) \<le> 1"
  by (simp_all add: branch_desc_def fresh_regs_def sample_branch_defs)











section \<open>Continuations and the flow graph\<close>

text \<open>
  C10. ReplaceUsesOfBlockWith sends the jumps of a block from Old to New: for every value of the
  conditions the block goes where it went before, but to New instead of Old, no other block of the
  function changes where it goes, and the successor lists follow.
\<close>

theorem ReplaceUsesOfBlockWith_redirects:
  assumes "cont_desc D" "fresh_regs F" "Pred \<in> set (blockIds F)" "distinct (blockIds F)"
    and "ReplaceUsesOfBlockWith D Pred Old New F = Some F'"
  shows "block_jump D F' Pred c = map_option (map_option (redirect Old New)) (block_jump D F Pred c) \<and>
     (\<forall>b \<in> set (blockIds F) - {Pred}. block_jump D F' b c = block_jump D F b c) \<and>
     replaceSuccessor Old New (succs F Pred) = Some (succs F' Pred) \<and>
     (\<forall>b. b \<noteq> Pred \<longrightarrow> succs F' b = succs F b)"
  using ReplaceUsesOfBlockWith_jumps [OF assms] by blast

lemma sample_cont_desc: "cont_desc sample_branches"
  using sample_branch_ok(1) by (simp add: cont_desc_def sample_branches_def)

lemma sample_replaced: "\<exists>F'. ReplaceUsesOfBlockWith sample_branches 0 1 0 sample_choice = Some F'"
proof -
  have "\<not> Option.is_none (ReplaceUsesOfBlockWith sample_branches 0 1 0 sample_choice)" by code_simp
  then show ?thesis by (simp add: Option.is_none_def)
qed

theorem ReplaceUsesOfBlockWith_redirects_witness:
  "\<exists>F'. ReplaceUsesOfBlockWith sample_branches 0 1 0 sample_choice = Some F' \<and>
     block_jump sample_branches F' 0 True =
       map_option (map_option (redirect 1 0)) (block_jump sample_branches sample_choice 0 True) \<and>
     replaceSuccessor 1 0 (succs sample_choice 0) = Some (succs F' 0)"
  using sample_replaced ReplaceUsesOfBlockWith_redirects [OF sample_cont_desc sample_branch_ok(2,4,3)]
  by blast

text \<open>
  C4. The hoisting of continuations: afterwards every target has at most one PUSHCONT_MBB, the
  function is still in SSA form, every block jumps where it jumped, and the definitions of what the
  jumps take still dominate them when they did before.
\<close>

theorem ContinuationsHoist_keeps_jumps:
  assumes "hoist_desc D" "wf_fn D F" "dominator_tree (set (blockIds F)) dms ncd"
    and "ContinuationsHoist D ncd isVirtual addr F = Some (Changed, F')"
  shows "wf_fn D F' \<and> (\<forall>T. length (sites_of F' T) \<le> 1) \<and>
     (\<forall>b \<in> set (blockIds F). \<forall>c. block_jump D F' b c = block_jump D F b c) \<and>
     (dominated dms D F \<longrightarrow> dominated dms D F')"
  using ContinuationsHoist_pass [OF assms] by (simp add: hoisted_def)

definition sample_hoist :: MachineFn where
  "sample_hoist = \<lparr>
     insts = (\<lambda>b. [])(0 := [pushcont 0 1, pushcont 1 2, mk_instr IFELSE [reg 2, reg 0, reg 1]],
                    1 := [pushcont 3 3, mk_instr JMPX [reg 3]], 2 := [pushcont 4 3, mk_instr JMPX [reg 4]]),
     succs = (\<lambda>b. [])(0 := [1, 2], 1 := [3], 2 := [3]), blockIds = [0, 1, 2, 3], nextVReg = 5 \<rparr>"

definition sample_dms :: "nat \<Rightarrow> nat \<Rightarrow> bool" where
  "sample_dms a b \<longleftrightarrow> a = 0 \<or> a = b"

definition sample_ncd :: "nat \<Rightarrow> nat \<Rightarrow> nat option" where
  "sample_ncd a b = Some (if a = b then a else 0)"

lemmas sample_hoist_defs = sample_branches_def sample_hoist_def pushcont_def reg_def mk_instr_def

lemma sample_hoist_ok:
  "hoist_desc sample_branches" "wf_fn sample_branches sample_hoist"
  "dominator_tree (set (blockIds sample_hoist)) sample_dms sample_ncd"
proof -
  show "hoist_desc sample_branches"
    using sample_cont_desc by (auto simp: hoist_desc_def sample_branches_def)
  have one: "sets_reg sample_branches r (pushcont m T) \<longleftrightarrow> m = r"
    "\<not> sets_reg sample_branches r (mk_instr JMPX opds)" "\<not> sets_reg sample_branches r (mk_instr IFELSE opds)"
    for r m T opds by (simp_all add: sets_reg_def defs_def sample_hoist_defs)
  have "ssa sample_branches sample_hoist"
    by (simp add: ssa_def def_instrs_def sample_hoist_def one)
  then show "wf_fn sample_branches sample_hoist"
    by (simp add: wf_fn_def fresh_regs_def wf_block_def wf_push_def reg_operand_def block_of_def
        getOperand_def sample_hoist_defs)
  show "dominator_tree (set (blockIds sample_hoist)) sample_dms sample_ncd"
    by (auto simp: dominator_tree_def reflp_def transp_def sample_dms_def sample_ncd_def sample_hoist_def)
qed

lemma sample_hoisted:
  "\<exists>s. ContinuationsHoist sample_branches sample_ncd (\<lambda>r. True) (\<lambda>b. b) sample_hoist = Some s"
proof -
  have "\<not> Option.is_none (ContinuationsHoist sample_branches sample_ncd (\<lambda>r. True) (\<lambda>b. b) sample_hoist)"
    by code_simp
  then show ?thesis by (simp add: Option.is_none_def)
qed

theorem ContinuationsHoist_keeps_jumps_witness:
  "\<exists>Changed F'. ContinuationsHoist sample_branches sample_ncd (\<lambda>r. True) (\<lambda>b. b) sample_hoist =
       Some (Changed, F') \<and> length (sites_of F' 3) \<le> 1 \<and>
     block_jump sample_branches F' 1 True = block_jump sample_branches sample_hoist 1 True"
proof -
  obtain Changed F' where F': "ContinuationsHoist sample_branches sample_ncd (\<lambda>r. True) (\<lambda>b. b) sample_hoist =
      Some (Changed, F')"
    using sample_hoisted by auto
  have "1 \<in> set (blockIds sample_hoist)" by (simp add: sample_hoist_def)
  with F' ContinuationsHoist_keeps_jumps [OF sample_hoist_ok F'] show ?thesis by blast
qed

text \<open>
  C22. ControlFlowPrepare on branches whose successors differ, whatever the order of the use lists: it
  succeeds, the new function runs through the old blocks as the old one did and returns what it
  returned, and a block has at most one predecessor or only branches into it that go nowhere else. This is so of
  every block, loop headers included: the pass does not tell them apart, although the comment at the head of
  its file excludes them.
\<close>

theorem controlFlowPrepare_splits:
  assumes "wf_ir F" "\<forall>xs. mset (useOrder xs) = mset xs"
  shows "\<exists>Changed G. controlFlowPrepare useOrder F = Some (Changed, G) \<and> wf_ir G \<and>
     simulates run truth F G \<and>
     (\<forall>BB \<in> set (irIds F). length (ir_preds G BB) \<le> 1 \<or> split_into G BB) \<and> (\<not> Changed \<longrightarrow> G = F)"
  using controlFlowPrepare_correct [OF assms(1), of useOrder run truth] assms(2) by metis

definition sample_ir :: "unit IRFunction" where
  "sample_ir = \<lparr>
     irBlock = (\<lambda>b. \<lparr> phis = [], irBody = [], irTerm = Return \<rparr>)
       (0 := \<lparr> phis = [], irBody = [()], irTerm = CondBranch (CVal 0) 1 2 \<rparr>,
        1 := \<lparr> phis = [], irBody = [], irTerm = Branch 2 \<rparr>,
        2 := \<lparr> phis = [(5, [(0, 3), (1, 4)])], irBody = [()], irTerm = Return \<rparr>),
     irIds = [0, 1, 2], irNext = 3 \<rparr>"

theorem controlFlowPrepare_splits_witness:
  "\<exists>Changed G. controlFlowPrepare rev sample_ir = Some (Changed, G) \<and>
     simulates (\<lambda>_ e. e(0 := e 0 + 1)) (\<lambda>v. v > (0 :: int)) sample_ir G \<and>
     (length (ir_preds G 2) \<le> 1 \<or> split_into G 2)"
proof -
  have "wf_ir sample_ir" by (simp add: wf_ir_def sample_ir_def)
  from controlFlowPrepare_splits [OF this, of rev "\<lambda>_ e. e(0 := e 0 + 1)" "\<lambda>v. v > (0 :: int)"]
  show ?thesis by (simp add: sample_ir_def) blast
qed

text \<open>
  C23. A conditional branch that goes to the same block both ways gets two cleanup blocks, but the phis
  of the block then have an entry for the first one only: the edge from the second cannot be taken.
\<close>

theorem insertCleanupBBs_same_successor:
  assumes "P \<in> set (irIds F)" "BB \<in> set (irIds F)" "P \<noteq> BB" "\<forall>b \<in> set (irIds F). b < irNext F"
    and "\<forall>p \<in> set (phis (irBlock F BB)). fst ` set (snd p) \<subseteq> set (irIds F)" "phis (irBlock F BB) \<noteq> []"
    and "irTerm (irBlock F P) = CondBranch c BB BB" "ir_preds F BB = [P, P]"
    and "\<forall>xs. mset (useOrder xs) = mset xs"
  shows "\<exists>G. insertCleanupBBs useOrder BB F = Some G \<and>
     irTerm (irBlock G P) = CondBranch c (irNext F) (irNext F + 1) \<and>
     irTerm (irBlock G (irNext F + 1)) = Branch BB \<and> enter (irBlock G BB) (irNext F + 1) e = None"
  using assms by (intro cleanup_both_edges) auto

definition sample_same :: "unit IRFunction" where
  "sample_same = set_block 0 \<lparr> phis = [], irBody = [], irTerm = CondBranch (CVal 0) 2 2 \<rparr>
     (set_block 2 \<lparr> phis = [(5, [(0, 3), (0, 3)])], irBody = [], irTerm = Return \<rparr>
       (sample_ir \<lparr> irIds := [0, 2] \<rparr>))"

theorem insertCleanupBBs_same_successor_witness:
  "\<exists>G. insertCleanupBBs id 2 sample_same = Some G \<and>
     irTerm (irBlock G 0) = CondBranch (CVal 0) 3 4 \<and> irTerm (irBlock G 4) = Branch 2 \<and>
     enter (irBlock G 2) 4 (\<lambda>x. 0 :: int) = None"
  using insertCleanupBBs_same_successor [of 0 sample_same 2 "CVal 0" id "\<lambda>x. 0"]
  by (simp add: sample_same_def sample_ir_def ir_preds_def numeral_2_eq_2)

text \<open>
  C25. LoopPrepare changes neither the steps of a function nor what it returns, whatever the loops are,
  and reports a change when it makes one.
\<close>

theorem loopPrepare_keeps_flow:
  assumes "loopPrepare LI F = Some (Changed, G)"
  shows "ir_step run truth G s t = ir_step run truth F s t \<and> returns run G s e = returns run F s e \<and>
     (\<not> Changed \<longrightarrow> G = F)"
  using loopPrepare_flow [OF assms] same_flow_step same_flow_returns by blast

definition sample_loop :: "unit IRFunction" where
  "sample_loop = set_block 1 \<lparr> phis = [], irBody = [()], irTerm = CondBranch (CVal 0) 2 1 \<rparr>
     (set_block 0 \<lparr> phis = [], irBody = [], irTerm = Branch 1 \<rparr> sample_ir)"

definition sample_loops :: LoopInfo where
  "sample_loops = \<lparr> getLoopFor = (\<lambda>b. if b = 1 then Some 7 else None), loopContains = (\<lambda>L b. b = 1),
     getLoopPredecessor = (\<lambda>L. Some 0), getLoopLatch = (\<lambda>L. Some 1) \<rparr>"

theorem loopPrepare_keeps_flow_witness:
  "\<exists>G. loopPrepare sample_loops sample_loop = Some (True, G) \<and>
     irTerm (irBlock G 1) = CondBranch (CNot (CVal 0)) 1 2 \<and>
     (\<forall>s t. ir_step (\<lambda>_ e. e) (\<lambda>v. v > (0 :: int)) G s t = ir_step (\<lambda>_ e. e) (\<lambda>v. v > 0) sample_loop s t)"
proof -
  obtain G where G: "loopPrepare sample_loops sample_loop = Some (True, G)"
      "irTerm (irBlock G 1) = CondBranch (CNot (CVal 0)) 1 2"
    by (simp add: loopPrepare_def prepareLoop_def canonicalizeBlock_def sample_loops_def sample_loop_def
        sample_ir_def Let_def)
  then show ?thesis using loopPrepare_keeps_flow [OF G(1)] by blast
qed

section \<open>Loops and numbers\<close>

text \<open>
  C18. The loop that inlines the target of a final jump returns exactly when the chain of jumps that
  starts at the block ends without coming back to the block, as long as no block consists of drops and
  a jump only.
\<close>

theorem inline_loop_ends_iff:
  assumes "b < length F" "\<forall>i < length F. \<not> fragment (F ! i)"
  shows "(\<exists>H. inline_loop b F = Some H) \<longleftrightarrow> chain_ends F b b"
  using assms by (rule inline_loop_returns)

definition sample_jump_to :: "nat \<Rightarrow> Block" where
  "sample_jump_to t = [mk_instr PUSHCONT_MBB_S [MO_MachineBasicBlock t], mk_instr JMPX_S []]"

lemma sample_jump_shape: "jump_shape (sample_jump_to t) = Some (0, [], t)"
  by (simp add: jump_shape_def sample_jump_to_def is_pop_def getOperand_def mk_instr_def)

lemma sample_fragments: "\<not> fragment (sample_jump_to t)" "\<not> fragment [mk_instr THROW []]"
  by (simp_all add: fragment_def sample_jump_to_def is_pop_def mk_instr_def)

theorem inline_loop_ends_iff_witness:
  "(\<exists>H. inline_loop 0 [sample_jump_to 1, sample_jump_to 2, [mk_instr THROW []]] = Some H) \<and>
   inline_loop 0 [sample_jump_to 1, sample_jump_to 0] = None"
proof -
  let ?F = "[sample_jump_to 1, sample_jump_to 2, [mk_instr THROW []]]"
    and ?G = "[sample_jump_to 1, sample_jump_to 0]"
  have nf: "\<forall>i < length ?F. \<not> fragment (?F ! i)" "\<forall>i < length ?G. \<not> fragment (?G ! i)"
    by (simp_all add: sample_fragments less_Suc_eq)
  have "jump_shape [mk_instr THROW []] = None" by (simp add: jump_shape_def mk_instr_def)
  then have "chain_ends ?F 0 2" by (intro chain_ends.stop) simp
  then have "chain_ends ?F 0 1"
    by (rule chain_ends.jump [where k = 0 and pre = "[]", rotated 3]) (simp_all add: sample_jump_shape)
  then have "chain_ends ?F 0 0"
    by (rule chain_ends.jump [where k = 0 and pre = "[]", rotated 3]) (simp_all add: sample_jump_shape)
  moreover have "\<not> chain_ends ?G 0 1"
    by (subst chain_ends_iff) (simp add: sample_jump_shape)
  then have "\<not> chain_ends ?G 0 0"
    by (subst chain_ends_iff) (simp add: sample_jump_shape)
  ultimately show ?thesis
    using inline_loop_ends_iff [OF _ nf(1), of 0] inline_loop_ends_iff [OF _ nf(2), of 0] by auto
qed

text \<open>
  C31. Register numbering always succeeds once the arguments are numbered, and gives every register
  that is used a number: no two the same, none the mark of an unused register, and below 2^31 exactly
  for the registers that are not stackified.
\<close>

theorem regNumbering_numbers:
  assumes "blockIds F \<noteq> []" "c + nextVReg F < 2 ^ 31"
    and "numberArguments (insts F (hd (blockIds F))) (replicate (nextVReg F) UnusedReg) = Some regs1"
    and "argument_numbers c regs1"
  shows "\<exists>regs. regNumbering D S c [] F = Some regs \<and> length regs = nextVReg F \<and>
     (\<forall>r < nextVReg F. used_reg D F r \<longrightarrow>
        regs ! r \<noteq> UnusedReg \<and> (regs ! r < 2 ^ 31 \<longleftrightarrow> \<not> isVRegStackified S r) \<and>
        (\<forall>q < nextVReg F. q \<noteq> r \<longrightarrow> used_reg D F q \<longrightarrow> regs ! q \<noteq> regs ! r))"
proof -
  obtain regs where regs: "regNumbering D S c [] F = Some regs" "length regs = nextVReg F"
    using regNumbering_succeeds [OF assms(1-3)] by blast
  show ?thesis
    using regs regNumbering_distinct [OF regs(1) assms(2-4)] by blast
qed

definition sample_numbered :: MachineFn where
  "sample_numbered = \<lparr>
     insts = (\<lambda>b. [])(0 := [mk_instr ARGUMENT [reg 1, MO_Immediate 0], mk_instr JMPX [reg 0], mk_instr JMPX [reg 1]]),
     succs = (\<lambda>b. []), blockIds = [0], nextVReg = 2 \<rparr>"

theorem regNumbering_numbers_witness:
  "\<exists>regs. regNumbering sample_branches [True, False] 1 [] sample_numbered = Some regs \<and>
     regs ! 0 \<noteq> regs ! 1 \<and> regs ! 1 < 2 ^ 31 \<and> \<not> regs ! 0 < 2 ^ 31"
proof -
  have two: "replicate 2 x = [x, x]" for x :: nat by (simp add: numeral_2_eq_2)
  have args: "numberArguments (insts sample_numbered (hd (blockIds sample_numbered)))
      (replicate (nextVReg sample_numbered) UnusedReg) = Some [UnusedReg, 0]"
    by (simp add: sample_numbered_def isArgument_def getOperand_def reg_operand_def reg_def mk_instr_def
        setTVMReg_def UnusedReg_def two)
  have ok: "argument_numbers 1 [UnusedReg, 0]"
    by (auto simp: argument_numbers_def less_Suc_eq UnusedReg_def numeral_2_eq_2)
  have used: "used_reg sample_branches sample_numbered 0" "used_reg sample_branches sample_numbered 1"
    by (simp_all add: used_reg_def uses_def sample_numbered_def reg_def mk_instr_def sample_branches_def)
  have n: "nextVReg sample_numbered = 2" "blockIds sample_numbered \<noteq> []" by (simp_all add: sample_numbered_def)
  show ?thesis
    using regNumbering_numbers [OF n(2) _ args ok, of sample_branches "[True, False]"] used
    by (auto simp: n less_2_cases_iff isVRegStackified_def)
qed

section \<open>Stores and messages\<close>

text \<open>
  C34. Combining constant stores keeps the program: every instruction that the pass leaves has the value
  it had before, for a block in SSA form with truthful use counts whose constant stores have values
  that are not negative and fit. The store intrinsics are a parameter with the laws of builder_ops.
\<close>

theorem runOnBasicBlock_keeps_values:
  assumes "builder_ops store put"
    and "runOnBasicBlock BB = Some (c, BB')" "uses_ok BB"
    and "\<forall>I \<in> set BB. storeConstCallSite I \<longrightarrow> good_store I"
    and "m \<notin> instName ` set BB - instName ` set BB'"
  shows "instName ` set BB' \<subseteq> instName ` set BB \<and> exec store V env BB' m = exec store V env BB m"
  using builder_ops.run_keeps_values [OF assms(1-4), of "{}" env env V] assms(5) by blast

definition const_store :: "nat \<Rightarrow> i257 \<Rightarrow> Operand \<Rightarrow> nat \<Rightarrow> Instruction" where
  "const_store n w b sz = \<lparr> instName = n, getIntrinsicID = Some tvm_stu,
     getArguments = [ConstantInt w, b, ConstantInt (of_nat sz)], getNumUses = 1 \<rparr>"

definition sample_stores :: "Instruction list" where
  "sample_stores = [const_store 1 5 (OtherValue 0) 4, const_store 2 6 (Result 1) 4,
     \<lparr> instName = 3, getIntrinsicID = None, getArguments = [Result 2], getNumUses = 0 \<rparr>]"

lemmas const_store_simps = const_store_def storeConstCallSite_def stored_value_def stored_size_def
  argument_def

lemma sample_stores_run:
  "runOnBasicBlock sample_stores =
     Some (True, [const_store 2 86 (OtherValue 0) 8,
       \<lparr> instName = 3, getIntrinsicID = None, getArguments = [Result 2], getNumUses = 0 \<rparr>])"
  by (simp add: runOnBasicBlock.simps sample_stores_def const_store_simps tryCombine_def canCombine_def
      SizeLimit_def combine_def combine_step_def word_sless_alt push_bit_eq_mult)

definition sample_values :: "bool list option Values" where
  "sample_values = \<lparr> ofConstant = (\<lambda>w. None), ofOther = (\<lambda>k. Some []), compute = (\<lambda>I xs. None) \<rparr>"

theorem runOnBasicBlock_keeps_values_witness:
  "exec bit_store sample_values (\<lambda>n. None) [const_store 2 86 (OtherValue 0) 8,
       \<lparr> instName = 3, getIntrinsicID = None, getArguments = [Result 2], getNumUses = 0 \<rparr>] 2 =
     exec bit_store sample_values (\<lambda>n. None) sample_stores 2"
proof -
  have "\<forall>I \<in> set sample_stores. storeConstCallSite I \<longrightarrow> good_store I"
    by (simp add: sample_stores_def const_store_simps good_store_def fits_def)
  moreover have "uses_ok sample_stores" by (simp add: sample_stores_def const_store_def)
  moreover have "(2 :: nat) \<notin> instName ` set sample_stores - instName ` set [const_store 2 86 (OtherValue 0) 8]"
    by (simp add: const_store_def)
  ultimately show ?thesis
    using runOnBasicBlock_keeps_values [OF bit_builder.builder_ops_axioms sample_stores_run,
      of 2 sample_values "\<lambda>n. None"]
    by (simp add: const_store_def)
qed

text \<open>
  C35. With a negative value the combined store is wrong: combine sets the bit above the sign bit
  (Pow2.setBit(Sz + 1)), which lies in the field before, so that an even field before is changed.
\<close>

theorem combine_negative_wrong:
  assumes "combine [J1, J2] = Some New" "good_store J1" "0 < the (stored_size J1)"
    and "stored_value J2 = Some w" "stored_size J2 = Some n" "fits tvm_sti n w" "sint w < 0"
    and "the (stored_size J1) + n \<le> 256" "\<not> bit (the (stored_value J1)) 0"
  shows "store_bits New \<noteq> store_bits J1 @ store_bits J2"
  using assms by (rule combine_negative)

theorem combine_negative_wrong_witness:
  "\<exists>New. combine [const_store 1 4 (OtherValue 0) 4,
       const_store 2 (-1) (Result 1) 4 \<lparr> getIntrinsicID := Some tvm_sti \<rparr>] = Some New \<and>
     store_bits New \<noteq> store_bits (const_store 1 4 (OtherValue 0) 4) @
       store_bits (const_store 2 (-1) (Result 1) 4 \<lparr> getIntrinsicID := Some tvm_sti \<rparr>)"
proof -
  obtain New where New: "combine [const_store 1 4 (OtherValue 0) 4,
      const_store 2 (-1) (Result 1) 4 \<lparr> getIntrinsicID := Some tvm_sti \<rparr>] = Some New"
    by (simp add: combine_def combine_step_def const_store_simps word_sless_alt)
  have "store_bits New \<noteq> store_bits (const_store 1 4 (OtherValue 0) 4) @
      store_bits (const_store 2 (-1) (Result 1) 4 \<lparr> getIntrinsicID := Some tvm_sti \<rparr>)"
    by (rule combine_negative_wrong [OF New, where w = "-1" and n = 4])
       (simp_all add: const_store_simps good_store_def fits_def bit_iff_odd)
  with New show ?thesis by blast
qed


text \<open>
  C36. The emulation of a message is sound: with i257 constants and without stvarint calls, the emulated
  value means what the LLVM value means, whatever the intrinsics compute, as long as casts keep values
  and storing the slice of a finished builder joins the builders (builder_sem).
\<close>

theorem process_keeps_meaning:
  assumes "builder_sem S join is_builder" "plain v"
  shows "den S (process v) = eval S [] v"
  using builder_sem.process_sound [OF assms] by blast

definition sample_cell :: "Value \<Rightarrow> Value" where
  "sample_cell x = VCall tvm_endc [VCall tvm_stslice [VCall tvm_ctos [VCall tvm_endc
     [VCall tvm_stu [x, VCall tvm_newc [], int257 8]]],
     VCall tvm_stu [int257 7, VCall tvm_newc [], int257 8]]]"

definition sample_sem :: "Sval Sem" where
  "sample_sem = cell_sem (\<lambda>opc a b. a + b) (\<lambda>k. SNull) (\<lambda>k. SInt (-1))"

lemma sample_sem_ok: "builder_sem sample_sem cell_join is_build"
  unfolding sample_sem_def by (rule cells.builder_sem_axioms)

theorem process_keeps_meaning_witness:
  "den sample_sem (process (sample_cell (VOther Int257Ty 0))) =
     eval sample_sem [] (sample_cell (VOther Int257Ty 0))"
  by (rule process_keeps_meaning [OF sample_sem_ok]) (simp add: sample_cell_def int257_def)

text \<open>
  C37. The messages of a group are sent as before: for every message whose cell has as many chunks as
  the merged format, the call of the generated function has all its arguments and computes the cell of
  the message. The formats are without binary operators and signed stores, and no chunk whose call
  names the builder after its value has a builder in the value (gen_ok, for either order rtl).
\<close>

theorem merged_function_keeps_messages:
  assumes "builder_sem S join is_builder"
    and "merged_value candidates msgs idx = Some fmt" "makeFunction rtl fmt idx = Some F"
    and "\<forall>c \<in> set candidates. no_binop (candVal c) \<and> gen_ok rtl (candVal c)"
    and "m \<in> set msgs" "best_candidate m = idx" "msgVal m = process v" "plain v"
    and "cell_chunks (msgVal m) = Some ds" "cell_chunks fmt = Some es" "length ds = length es"
  shows "\<exists>args. gen_call (msgVal m) F fmt = Some args \<and>
     eval S (map (eval S []) args) (body F) = eval S [] v"
  by (rule builder_sem.merged_call [OF assms])

definition sample_msg :: "nat \<Rightarrow> sendmsg" where
  "sample_msg k = \<lparr> msgVal = process (sample_cell (int257 k)), best_candidate = 1 \<rparr>"

definition sample_cands :: "candidate list" where
  "sample_cands = [\<lparr> candVal = msgVal (sample_msg 5), candLen = 6, candIdx = 1 \<rparr>]"

definition sample_format :: val where
  "sample_format = Cell None [Chunk (Stu 8) (Constant (Some (int257 7)) (257, 7)), Chunk (Stu 8) (Unknown None)]"

lemma sample_process: "\<exists>c. msgVal (sample_msg k) =
    Cell c [Chunk (Stu 8) (Constant (Some (int257 7)) (257, 7)),
      Chunk (Stu 8) (Constant (Some (int257 k)) (257, k))]"
  by (simp add: sample_msg_def sample_cell_def int257_def process_call_def process_sti_stu_def add_chunk_def
      process_endc_def process_ctos_def process_stslice_def casts_def)

lemma sample_merged: "merged_value sample_cands [sample_msg 5, sample_msg 6] 1 = Some sample_format"
proof -
  obtain c5 c6 where "msgVal (sample_msg 5) = Cell c5 [Chunk (Stu 8) (Constant (Some (int257 7)) (257, 7)),
      Chunk (Stu 8) (Constant (Some (int257 5)) (257, 5))]"
    "msgVal (sample_msg 6) = Cell c6 [Chunk (Stu 8) (Constant (Some (int257 7)) (257, 7)),
      Chunk (Stu 8) (Constant (Some (int257 6)) (257, 6))]"
    using sample_process by blast
  moreover have "best_candidate (sample_msg k) = 1" for k by (simp add: sample_msg_def)
  ultimately show ?thesis
    by (simp add: merged_value_def sample_cands_def sample_format_def merge_cells_def cell_chunks_def
        merge_builders_def)
qed

lemma sample_function: "\<exists>F. makeFunction True sample_format 1 = Some F"
  by (simp add: makeFunction_def sample_format_def old_builder_def stvar_def Let_def)

theorem merged_function_keeps_messages_witness:
  "\<exists>F args. makeFunction True sample_format 1 = Some F \<and>
     gen_call (msgVal (sample_msg 6)) F sample_format = Some args \<and>
     eval sample_sem (map (eval sample_sem []) args) (body F) =
       eval sample_sem [] (sample_cell (int257 6))"
proof -
  obtain F where F: "makeFunction True sample_format 1 = Some F" using sample_function ..
  obtain c5 where c5: "msgVal (sample_msg 5) = Cell c5 [Chunk (Stu 8) (Constant (Some (int257 7)) (257, 7)),
      Chunk (Stu 8) (Constant (Some (int257 5)) (257, 5))]" using sample_process by blast
  obtain c6 where c6: "msgVal (sample_msg 6) = Cell c6 [Chunk (Stu 8) (Constant (Some (int257 7)) (257, 7)),
      Chunk (Stu 8) (Constant (Some (int257 6)) (257, 6))]" using sample_process by blast
  have ok: "\<forall>c \<in> set sample_cands. no_binop (candVal c) \<and> gen_ok True (candVal c)"
    by (simp add: sample_cands_def c5 old_builder_def stvar_def)
  have plain: "plain (sample_cell (int257 6))" by (simp add: sample_cell_def int257_def)
  have m: "sample_msg 6 \<in> set [sample_msg 5, sample_msg 6]" "best_candidate (sample_msg 6) = 1"
      "msgVal (sample_msg 6) = process (sample_cell (int257 6))" by (simp_all add: sample_msg_def)
  have cells: "cell_chunks (msgVal (sample_msg 6)) = Some [Chunk (Stu 8) (Constant (Some (int257 7)) (257, 7)),
        Chunk (Stu 8) (Constant (Some (int257 6)) (257, 6))]"
      "cell_chunks sample_format = Some [Chunk (Stu 8) (Constant (Some (int257 7)) (257, 7)),
        Chunk (Stu 8) (Unknown None)]"
    by (simp_all add: c6 cell_chunks_def sample_format_def)
  have "\<exists>args. gen_call (msgVal (sample_msg 6)) F sample_format = Some args \<and>
      eval sample_sem (map (eval sample_sem []) args) (body F) =
        eval sample_sem [] (sample_cell (int257 6))"
    by (rule merged_function_keeps_messages [OF sample_sem_ok sample_merged F ok m plain cells]) simp
  with F show ?thesis by blast
qed

text \<open>
  C38. A message with more chunks than the cell it is merged with has no call: the merged format has at
  most as many chunks as the first cell, and gen_call reaches its llvm_unreachable. So it is when the
  first cell is a proper prefix of the second, which find_candidate prefers.
\<close>

theorem prefix_has_no_call:
  assumes "merge_cells cl1 cl2 = Some fmt" "cell_chunks cl1 = Some b1" "cell_chunks cl2 = Some b2"
    and "length b1 < length b2"
  shows "gen_call cl2 F fmt = None"
proof -
  from assms(1-3) obtain es where "cell_chunks fmt = Some es" "length es \<le> length b1"
    using merge_cells_length by metis
  then show ?thesis using assms(3,4) by (intro call_lengths) auto
qed

theorem prefix_has_no_call_witness:
  "gen_call (Cell None [Chunk Stdict (Null None)])
     \<lparr> functionIdx = 1, returnType = TVMCellTy, paramTypes = [], body = VCall tvm_newc [] \<rparr>
     (Cell None []) = None"
  by (rule prefix_has_no_call [of "Cell None []" _ _ "[]" "[Chunk Stdict (Null None)]"])
     (simp_all add: merge_cells_def cell_chunks_def merge_builders_def)

text \<open>
  C39. Two formats for which the generated function is wrong. When the compiler evaluates the arguments
  of make_call from the left, the stores before a nested cell are lost: whatever chunks come first, the
  function returns a cell with nothing but the reference, because visiting the nested cell has set
  cur_b. A signed store of a negative value is generated as an unsigned one: the message's builder has
  the value's bits, while the generated function fails with a range error on the same argument.
\<close>

theorem generated_function_defects:
  "(makeFunction False (Cell v (cs @ [Chunk Stref (Cell w [])])) idx = Some F \<longrightarrow>
      body F = VCall tvm_endc [VCall tvm_stref [VCall tvm_endc [VCall tvm_newc []], VCall tvm_newc []]]) \<and>
   (makeFunction rtl (Builder v [Chunk (Sti n) (Unknown u)]) idx = Some G \<and>
    gen_call (Builder w [Chunk (Sti n) (Unknown (Some a))]) G (Builder v [Chunk (Sti n) (Unknown u)]) = Some args \<and>
    eval (cell_sem bop glob oth) [] a = SInt x \<and> x < 0 \<and> signed_range n x \<and> n \<le> 257 \<longrightarrow>
      den (cell_sem bop glob oth) (Builder w [Chunk (Sti n) (Unknown (Some a))]) = SBuilder (int_bits n x) [] \<and>
      eval (cell_sem bop glob oth) (map (eval (cell_sem bop glob oth) []) args) (body G) = SErr)"
  using gen_loses_chunks [of v cs w idx F] gen_signed [of rtl v n u idx G w a args bop glob oth x] by blast

theorem generated_function_defects_witness:
  "(\<exists>F. makeFunction False (Cell None ([Chunk (Stu 8) (Constant None (257, 1))] @ [Chunk Stref (Cell None [])])) 1 =
       Some F \<and>
     body F = VCall tvm_endc [VCall tvm_stref [VCall tvm_endc [VCall tvm_newc []], VCall tvm_newc []]]) \<and>
   (\<exists>G args. makeFunction True (Builder None [Chunk (Sti 8) (Unknown None)]) 1 = Some G \<and>
     gen_call (Builder None [Chunk (Sti 8) (Unknown (Some (VOther Int257Ty 0)))]) G
       (Builder None [Chunk (Sti 8) (Unknown None)]) = Some args \<and>
     eval sample_sem (map (eval sample_sem []) args) (body G) = SErr)"
proof -
  let ?S = sample_sem
  obtain F where F: "makeFunction False
      (Cell None ([Chunk (Stu 8) (Constant None (257, 1))] @ [Chunk Stref (Cell None [])])) 1 = Some F"
    by (simp add: makeFunction_def old_builder_def stvar_def Let_def)
  obtain G where G: "makeFunction True (Builder None [Chunk (Sti 8) (Unknown None)]) 1 = Some G"
      "paramTypes G = [Int257Ty]"
    by (simp add: makeFunction_def old_builder_def stvar_def Let_def)
  then obtain args where args: "gen_call (Builder None [Chunk (Sti 8) (Unknown (Some (VOther Int257Ty 0)))]) G
      (Builder None [Chunk (Sti 8) (Unknown None)]) = Some args"
    by (simp add: gen_call_def)
  have "eval ?S [] (VOther Int257Ty 0) = SInt (-1)" by (simp add: sample_sem_def cell_sem_def)
  then have "eval ?S (map (eval ?S []) args) (body G) = SErr"
    using generated_function_defects [THEN conjunct2, rule_format, where rtl = True and v = None and n = 8
        and u = None and idx = 1 and G = G and w = None and a = "VOther Int257Ty 0" and args = args
        and bop = "\<lambda>opc a b. a + b" and glob = "\<lambda>k. SNull" and oth = "\<lambda>k. SInt (-1)" and x = "-1"] G(1) args
    by (simp add: signed_range_def sample_sem_def)
  moreover have "body F = VCall tvm_endc [VCall tvm_stref [VCall tvm_endc [VCall tvm_newc []], VCall tvm_newc []]]"
    using generated_function_defects [THEN conjunct1, rule_format, OF F] .
  ultimately show ?thesis using F G(1) args by blast
qed

section \<open>From the DAG to machine code\<close>

text \<open>
  C13. The lowering of branches. LowerBR keeps where the branch goes, for every value of its condition,
  alone or together with the conditional branch before it. LowerBRCOND builds an IFJMP with condition and
  destination the wrong way round: the node is none that the instruction takes.
\<close>

theorem branches_lowered:
  "(kind N = BR \<and> LowerBR N = Some M \<longrightarrow> dag_target env M = dag_target env N) \<and>
   (LowerBRCOND N = Some M \<and> nodeOperand N 1 = Some Cond \<and> kind (fst Cond) \<noteq> BBWrapper \<longrightarrow>
      kind M = T_IFJMP \<and> dag_target env M = None)"
  using LowerBR_target [of N M env] LowerBRCOND_target(1) [of N M Cond] LowerBRCOND_target(2) [of N M Cond env] by blast

definition sample_brcond :: SDNode where
  "sample_brcond = SDNode BRCOND 1 [OtherVT] [leaf EntryToken OtherVT, leaf (NodeKind.Constant 1) I257,
     leaf (BasicBlock 4) OtherVT]"

definition sample_br :: SDNode where
  "sample_br = SDNode BR 2 [OtherVT] [(sample_brcond, 0), leaf (BasicBlock 5) OtherVT]"

theorem branches_lowered_witness:
  "(\<exists>M. LowerBR sample_br = Some M \<and> kind M = T_IFELSE \<and> dag_target (\<lambda>v. VErr) M = Some (Some 4)) \<and>
   (\<exists>M. LowerBRCOND sample_brcond = Some M \<and> dag_target (\<lambda>v. VErr) M = None)"
proof -
  obtain M where M: "LowerBR sample_br = Some M" "kind M = T_IFELSE"
    by (simp add: LowerBR_def sample_br_def sample_brcond_def nodeOperand_def leaf_def)
  obtain M' where M': "LowerBRCOND sample_brcond = Some M'"
    by (simp add: LowerBRCOND_def sample_brcond_def nodeOperand_def)
  have "dag_target (\<lambda>v. VErr) M = dag_target (\<lambda>v. VErr) sample_br"
    using branches_lowered [THEN conjunct1, rule_format, of sample_br M] M(1) by (simp add: sample_br_def)
  moreover have "dag_target (\<lambda>v. VErr) sample_br = Some (Some 4)"
    by code_simp
  moreover have "dag_target (\<lambda>v. VErr) M' = None"
    using branches_lowered [THEN conjunct2, rule_format, of sample_brcond M' "leaf (NodeKind.Constant 1) I257"] M'
    by (simp add: sample_brcond_def nodeOperand_def leaf_def)
  ultimately show ?thesis using M M' by auto
qed

text \<open>
  C15. PerformDAGCombine keeps what a node means: a branch on a comparison with zero goes where the
  branch on the compared value goes, with the destinations exchanged for an equality, a truncation and
  its masked form have the same value, and so has an extension to the type of its operand.
\<close>

theorem PerformDAGCombine_keeps_meaning:
  assumes "PerformDAGCombine UseTruncMasks isBeforeLegalizeOps N = Some (Some v)"
  shows "(kind N \<in> {T_IFELSE, T_IFJMP} \<longrightarrow> dag_target env (fst v) = dag_target env N) \<and>
     (kind N \<in> {TRUNCATE, ANY_EXTEND} \<longrightarrow> dag_eval env (fst v) (snd v) = dag_eval env N n) \<and>
     kind N \<in> {T_IFELSE, T_IFJMP, TRUNCATE, ANY_EXTEND}"
  using PerformDAGCombine_keeps [OF assms] PerformDAGCombine_kinds [OF assms] by blast

definition sample_setcc :: SDValue where
  "sample_setcc = getNode SETCC [I257] [leaf (NodeKind.Constant 3) I257, leaf (NodeKind.Constant 0) I257, leaf (CONDCODE SETEQ) OtherVT]"

definition sample_ifelse :: SDNode where
  "sample_ifelse = fst (getNode T_IFELSE [OtherVT]
     [leaf EntryToken OtherVT, sample_setcc, wrapBlock (leaf (BasicBlock 4) OtherVT), wrapBlock (leaf (BasicBlock 5) OtherVT)])"

theorem PerformDAGCombine_keeps_meaning_witness:
  "\<exists>v. PerformDAGCombine False True sample_ifelse = Some (Some v) \<and>
     dag_target (\<lambda>v. VErr) (fst v) = Some (Some 5)"
proof -
  have "\<not> (PerformDAGCombine False True sample_ifelse = Some None \<or>
      Option.is_none (PerformDAGCombine False True sample_ifelse))" by code_simp
  then obtain v where v: "PerformDAGCombine False True sample_ifelse = Some (Some v)"
    by (cases "PerformDAGCombine False True sample_ifelse") auto
  moreover have "dag_target (\<lambda>v. VErr) sample_ifelse = Some (Some 5)" by code_simp
  ultimately show ?thesis
    using PerformDAGCombine_keeps_meaning [OF v, of "\<lambda>v. VErr"] by (auto simp: sample_ifelse_def)
qed

text \<open>
  C20. Calls and headers agree, except for raw functions: a function is called through the dictionary
  exactly when the assembly printer does not print it as a macro; one with the attribute tvm_raw_func is
  never printed as a macro, but is called as one when it is internal and not recursive.
\<close>

theorem call_matches_header:
  assumes "kind Callee = GlobalAddress g off" "fns g = Some F"
    and "LowerCall fns Chain (Callee, 0) OutVals Ins = Some (InVals, Out)"
  shows "kind (fst Out) \<in> (if isDictCall fns Callee then {CALLDICT0, CALLDICT1, CALLDICTN} else {CALL0, CALL1, CALLN}) \<and>
     (\<not> rawFunc F \<longrightarrow> (isDictCall fns Callee \<longleftrightarrow> EmitFunctionHeader F \<noteq> MacroHeader)) \<and>
     (rawFunc F \<longrightarrow> EmitFunctionHeader F = InternalHeader \<and>
        (isDictCall fns Callee \<longleftrightarrow> EmitFunctionHeader (F \<lparr> rawFunc := False \<rparr>) \<noteq> MacroHeader))"
  using call_header [where Callee = Callee and fns = fns and F = F] LowerCall_kind(2) [OF assms(3)] assms(1,2)
  by (auto simp: isDictCall_def EmitFunctionHeader_def)

definition sample_fns :: "nat \<Rightarrow> FunctionAttr option" where
  "sample_fns g = (if g < 2 then Some \<lparr> fnName = ''f'', internalLinkage = True, doesNotRecurse = True,
     rawFunc = (g = 1) \<rparr> else None)"

theorem call_matches_header_witness:
  "\<exists>InVals Out. LowerCall sample_fns (leaf EntryToken OtherVT) (leaf (GlobalAddress 1 0) I257) [] [I257] =
       Some (InVals, Out) \<and> kind (fst Out) = CALL1 \<and>
     EmitFunctionHeader (the (sample_fns 1)) \<noteq> MacroHeader"
proof -
  have leaf: "leaf (GlobalAddress 1 0) I257 = (fst (leaf (GlobalAddress 1 0) I257), 0)" by (simp add: leaf_def getNode_def)
  have macro: "\<not> isDictCall sample_fns (fst (leaf (GlobalAddress 1 0) I257))"
    by (simp add: leaf_def isDictCall_def sample_fns_def find_substring_def)
  then obtain InVals Out where call: "LowerCall sample_fns (leaf EntryToken OtherVT)
      (fst (leaf (GlobalAddress 1 0) I257), 0) [] [I257] = Some (InVals, Out)" "kind (fst Out) = CALL1"
    by (simp add: LowerCall_def callCmd_def supportedVT_def Let_def)
  have "kind (fst (leaf (GlobalAddress 1 0) I257)) = GlobalAddress 1 0" "sample_fns 1 = Some (the (sample_fns 1))"
    by (simp_all add: leaf_def sample_fns_def)
  from call_matches_header [OF this call(1)] call leaf show ?thesis
    by (auto simp: sample_fns_def)
qed

text \<open>
  C24. hasPushC0Predecessor decides whether the node that SaveC0 marks is among the nodes below, whatever
  an earlier search left in its cache, when different nodes have different ids. When a node shares its
  id with one searched before in vain, as fresh nodes do, it is reported to have none below.
\<close>

theorem hasPushC0_decides:
  "(ids_ok U \<and> below N \<subseteq> U \<and> cache_ok U cache \<longrightarrow>
      fst (hasPushC0Predecessor N cache) = reaches_push N \<and> cache_ok U (snd (hasPushC0Predecessor N cache))) \<and>
   (\<not> fst (hasPushC0Predecessor A cache) \<and> nodeId B = nodeId A \<longrightarrow>
      \<not> fst (hasPushC0Predecessor B (snd (hasPushC0Predecessor A cache))))"
  using hasPushC0_search(1) [of U N cache] hasPushC0_shared_id [of A cache B] by blast

definition sample_push :: "int \<Rightarrow> SDNode" where
  "sample_push i = SDNode CopyToReg i [OtherVT]
     [(SDNode CopyToReg PUSH_C0_FUNCTION_UNIQUE_ID [OtherVT] [], 0)]"

theorem hasPushC0_decides_witness:
  "fst (hasPushC0Predecessor (sample_push 7) {}) \<and>
   reaches_push (sample_push (-1)) \<and>
   \<not> fst (hasPushC0Predecessor (sample_push (-1)) (snd (hasPushC0Predecessor (SDNode EntryToken (-1) [] []) {})))"
proof -
  have "fst (hasPushC0Predecessor (sample_push 7) {}) = reaches_push (sample_push 7)"
    using hasPushC0_decides [THEN conjunct1, of "below (sample_push 7)" "sample_push 7" "{}"]
    by (simp add: ids_ok_def cache_ok_def sample_push_def PUSH_C0_FUNCTION_UNIQUE_ID_def)
  moreover have "\<not> fst (hasPushC0Predecessor (sample_push (-1)) (snd (hasPushC0Predecessor (SDNode EntryToken (-1) [] []) {})))"
    using hasPushC0_decides [THEN conjunct2, of "SDNode EntryToken (-1) [] []" "{}" "sample_push (-1)"]
    by (simp add: sample_push_def PUSH_C0_FUNCTION_UNIQUE_ID_def)
  ultimately show ?thesis by (simp add: sample_push_def PUSH_C0_FUNCTION_UNIQUE_ID_def)
qed

text \<open>
  C33. The intrinsics lowered by hand. A tuple becomes an instruction that builds the tuple of its arguments:
  NIL without any, TUPLE with an immediate size for up to 15 and TUPLEVAR with the size as an operand for
  more. Two others are lowered to the wrong nodes. A retrieved integer is loaded from the bits that were
  cut off in front of it, not from the rest behind them, so it is the integer at the slice's beginning, or
  the load fails when it is longer than what is skipped. A retrieved reference is the rest of the slice.
\<close>

theorem intrinsics_lowered:
  shows "(ops Op = (SDNode (IntrinsicId tvm_tuple) x ts [], 0) # vs \<longrightarrow>
      (\<exists>M S. LowerINTRINSIC_WO_CHAIN Op = Some (Some M) \<and> Select M = Some (Some S) \<and>
        (kind S, ops S) =
          (if vs = [] then (M_NIL, [])
           else if length vs \<le> 15 then (M_TUPLE, vs @ [leaf (TargetConstant (int (length vs))) I257])
           else (M_TUPLEVAR, vs @ [leaf (NodeKind.Constant (int (length vs))) I257])))) \<and>
    (dag_eval env (fst s) (snd s) = VSlice bs refs \<longrightarrow>
      (ops Op = [Chain, (SDNode (IntrinsicId i) x ts [], 0), s, f, l] \<and>
        (i = tvm_retrieve_signed \<or> i = tvm_retrieve_unsigned) \<and>
        dag_eval env (fst f) (snd f) = VInt (int n) \<and> dag_eval env (fst l) (snd l) = VInt (int m) \<and>
        n \<le> length bs \<and> n \<le> 1023 \<and> m \<le> 256 \<longrightarrow>
        (\<exists>M. LowerINTRINSIC_W_CHAIN Op = Some (Some M) \<and> dag_eval env M 0 =
          (if m \<le> n then VInt ((if i = tvm_retrieve_signed then bits_signed else bits_unsigned) (take m bs)) else VErr))) \<and>
      (ops Op = [Chain, (SDNode (IntrinsicId tvm_retrieve_ref) x ts [], 0), s] \<and> refs \<noteq> [] \<longrightarrow>
        (\<exists>M. LowerINTRINSIC_W_CHAIN Op = Some (Some M) \<and> dag_eval env M 0 = VSlice bs (tl refs))))"
proof (rule conjI, rule impI, erule tuple_selected, rule impI, rule conjI)
  assume s: "dag_eval env (fst s) (snd s) = VSlice bs refs"
  show "ops Op = [Chain, (SDNode (IntrinsicId i) x ts [], 0), s, f, l] \<and>
      (i = tvm_retrieve_signed \<or> i = tvm_retrieve_unsigned) \<and>
      dag_eval env (fst f) (snd f) = VInt (int n) \<and> dag_eval env (fst l) (snd l) = VInt (int m) \<and>
      n \<le> length bs \<and> n \<le> 1023 \<and> m \<le> 256 \<longrightarrow>
      (\<exists>M. LowerINTRINSIC_W_CHAIN Op = Some (Some M) \<and> dag_eval env M 0 =
        (if m \<le> n then VInt ((if i = tvm_retrieve_signed then bits_signed else bits_unsigned) (take m bs)) else VErr))"
    using retrieve_bits [of Op Chain i x ts s f l env bs refs n m] s by simp
  show "ops Op = [Chain, (SDNode (IntrinsicId tvm_retrieve_ref) x ts [], 0), s] \<and> refs \<noteq> [] \<longrightarrow>
      (\<exists>M. LowerINTRINSIC_W_CHAIN Op = Some (Some M) \<and> dag_eval env M 0 = VSlice bs (tl refs))"
    using retrieve_ref [of Op Chain x ts s env bs "hd refs" "tl refs"] s by (metis list.collapse)
qed

definition sample_retrieve :: SDNode where
  "sample_retrieve = fst (getNode INTRINSIC_W_CHAIN [I257, OtherVT] [leaf EntryToken OtherVT,
     (SDNode (IntrinsicId tvm_retrieve_unsigned) 0 [I257] [], 0), leaf UNDEF TVMSlice,
     leaf (NodeKind.Constant 2) I257, leaf (NodeKind.Constant 1) I257])"

theorem intrinsics_lowered_witness:
  "(\<exists>M. LowerINTRINSIC_W_CHAIN sample_retrieve = Some (Some M) \<and>
      dag_eval (\<lambda>v. VSlice [True, True, False] []) M 0 = VInt 1) \<and>
   (\<exists>M S. LowerINTRINSIC_WO_CHAIN (fst (getNode INTRINSIC_WO_CHAIN [TVMTuple]
        ((SDNode (IntrinsicId tvm_tuple) 0 [I257] [], 0) # replicate 16 (leaf (NodeKind.Constant 1) I257)))) = Some (Some M) \<and>
      Select M = Some (Some S) \<and> kind S = M_TUPLEVAR)"
proof -
  let ?env = "\<lambda>v :: SDValue. VSlice [True, True, False] []"
  have "dag_eval ?env (fst (leaf UNDEF TVMSlice)) (snd (leaf UNDEF TVMSlice)) = VSlice [True, True, False] []"
    "dag_eval ?env (fst (leaf (NodeKind.Constant 2) I257)) (snd (leaf (NodeKind.Constant 2) I257)) = VInt (int 2)"
    "dag_eval ?env (fst (leaf (NodeKind.Constant 1) I257)) (snd (leaf (NodeKind.Constant 1) I257)) = VInt (int 1)"
    by (simp_all add: leaf_def getNode_def node_value_def)
  from intrinsics_lowered [THEN conjunct2, THEN mp, OF this(1), THEN conjunct1, rule_format, OF conjI, OF _ conjI, OF _ _ conjI,
      OF _ _ this(2) conjI, OF _ _ this(3) conjI, of sample_retrieve "leaf EntryToken OtherVT"
      tvm_retrieve_unsigned 0 "[I257]"]
  have bits: "\<exists>M. LowerINTRINSIC_W_CHAIN sample_retrieve = Some (Some M) \<and>
      dag_eval (\<lambda>v. VSlice [True, True, False] []) M 0 = VInt 1" by (simp add: sample_retrieve_def bits_unsigned_def)
  let ?Op = "fst (getNode INTRINSIC_WO_CHAIN [TVMTuple]
       ((SDNode (IntrinsicId tvm_tuple) 0 [I257] [], 0) # replicate 16 (leaf (NodeKind.Constant 1) I257)))"
  have "\<exists>M S. LowerINTRINSIC_WO_CHAIN ?Op = Some (Some M) \<and> Select M = Some (Some S) \<and> kind S = M_TUPLEVAR"
    using intrinsics_lowered [THEN conjunct1, of ?Op 0 "[I257]" "replicate 16 (leaf (NodeKind.Constant 1) I257)"]
    by (simp add: getNode_def) blast
  with bits show ?thesis by blast
qed

section \<open>The assembly\<close>

text \<open>
  C5. Lowering an instruction for the printer, which puts the code of a continuation into the operands of
  its push and falls through to further blocks, returns exactly when the continuations it pushes end: a
  continuation that pushes itself, directly or not, is lowered for ever. The other operands of the
  function's instructions are such that they can be lowered.
\<close>

theorem lowering_returns_iff:
  assumes "\<forall>b \<in> set (blockIds (Fn C)). \<forall>I \<in> set (insts (Fn C) b). leaves_ok C I" "leaves_ok C MI"
  shows "((\<exists>I. lower C p MI = Some I) \<longleftrightarrow>
      (\<forall>t. MO_MachineBasicBlock t \<in> set (operands MI) \<longrightarrow> nest_ends C t)) \<and>
    (\<forall>b code q I. cont_code C b = Some code \<and> (q, I) \<in> set code \<and> MO_MachineBasicBlock b \<in> set (operands I) \<longrightarrow>
      \<not> nest_ends C b)"
  using lower_ends [OF assms] nest_irrefl by blast

definition sample_cont :: "nat \<Rightarrow> MachineInstr" where
  "sample_cont t = mk_instr PUSHCONT_MBB_S [MO_MachineBasicBlock t]"

definition sample_lower :: LowerCtx where
  "sample_lower = \<lparr> LDesc = sample_branches,
     Fn = \<lparr> insts = (\<lambda>b. [])(0 := [sample_cont 1], 1 := [mk_instr THROW [imm 7]], 2 := [sample_cont 2]),
       succs = (\<lambda>b. []), blockIds = [0, 1, 2], nextVReg = 0 \<rparr>,
     isBarrier = (\<lambda>opc. False), globals = (\<lambda>g. GlobalOther) \<rparr>"

theorem lowering_returns_iff_witness:
  "(\<exists>I. lower sample_lower 0 (sample_cont 1) = Some I) \<and> lower sample_lower 0 (sample_cont 2) = None"
proof -
  have leaves: "\<forall>b \<in> set (blockIds (Fn sample_lower)). \<forall>I \<in> set (insts (Fn sample_lower) b). leaves_ok sample_lower I"
      "leaves_ok sample_lower (sample_cont t)" for t
    by (simp_all add: sample_lower_def sample_cont_def leaves_ok_def lower_leaf_def mk_instr_def imm_def)
  have code: "cont_code sample_lower 1 = Some [(1, mk_instr THROW [imm 7])]"
      "cont_code sample_lower 2 = Some [(2, sample_cont 2)]"
    by (simp_all add: cont_code_def sample_lower_def getFallThrough_def)
  have "nest_ends sample_lower 1"
    by (rule nest_ends.nest [OF code(1)]) (simp add: mk_instr_def imm_def)
  moreover have "\<not> nest_ends sample_lower 2"
    using lowering_returns_iff [OF leaves, THEN conjunct2, rule_format, of 2 _ 2 "sample_cont 2"] code(2)
    by (simp add: sample_cont_def mk_instr_def)
  ultimately show ?thesis
    using lowering_returns_iff [OF leaves, THEN conjunct1, of 0 1] lowering_returns_iff [OF leaves, THEN conjunct1, of 0 2]
    by (simp add: sample_cont_def mk_instr_def)
qed

text \<open>
  C8. The assembly of an instruction reads back as the nesting of its continuations: a reader that matches
  braces and their depths finds one statement, with the continuation of a push below it, its entry block
  and the statements of its code, and so on inside, whatever the text of the single instructions is.
\<close>

theorem assembly_reads_back:
  assumes "EmitInstruction C gen p MI = Some ls" "ls \<noteq> []"
  shows "\<exists>I. lower C p MI = Some I \<and> read_lines ls [(d, e, [])] = Some [statement_of gen I]"
  using assms by (rule EmitInstruction_reads)

theorem assembly_reads_back_witness:
  "\<exists>ls. EmitInstruction sample_lower (\<lambda>I. ''x'') 0 (sample_cont 1) = Some ls \<and>
     read_lines ls [(0, None, [])] = Some [Statement ''x'' (Some (Some 1, [Statement ''x'' None]))]"
proof -
  have lower: "lower sample_lower 0 (sample_cont 1) =
      Some (MCInst PUSHCONT_MBB_S 0 [MCNested (MCInst THROW 1 [MCImm 7])])"
    by (simp add: lower.simps sample_cont_def sample_lower_def cont_code_def getFallThrough_def mk_instr_def
        lower_leaf_def imm_def)
  then obtain ls where ls: "EmitInstruction sample_lower (\<lambda>I. ''x'') 0 (sample_cont 1) = Some ls" "ls \<noteq> []"
    by (simp add: EmitInstruction_def sample_cont_def isArgument_def is_copy_def mk_instr_def)
  from assembly_reads_back [OF this, of 0 None] lower ls show ?thesis
    by (simp add: printInst_def printed_empty_def)
qed

text \<open>
  C28. The constants that do not fit into 64 bits are printed by APInt::toString: read as hexadecimal
  numbers they are the constant again, signed or unsigned as asked, over all 257 bits.
\<close>

theorem constants_read_back:
  "read16 (toString16 Signed v) = Some (if Signed then sint v else uint v)"
  by (rule toString16_reads)

section \<open>Cheap definitions\<close>

text \<open>
  C26. Rematerialisation ends on every function in SSA form and keeps its runs: on any machine, a run of the
  resulting code along a path of the flow graph is a run of the code given, with the same effects, and the
  result is in SSA form again. Every operand that reads a cheap definition then reads a copy of its own: a
  stackified register that the pass has made and that no other operand of the function reads (inline assembly
  and debug values are not visited). What the pass copies reads no register, sets one, and has no effect;
  LiveIntervals names a definition as dead only when it is not read.
\<close>

theorem rematerialize_keeps_runs:
  assumes "intervals_ok D L" "ssa_fn D F" "cheap_ok D M cheap F"
  shows "\<exists>c G S'. rematerialize D L cheap (F, S) = Some (c, G, S') \<and> refines D M F G \<and> ssa_fn D G \<and>
    (\<forall>b \<in> set (blockIds G). \<forall>I \<in> set (insts G b). served D cheap (nextVReg F) G S' I)"
  using assms by (rule rematerialize_total)

definition sample_cheap :: MCInstrInfo where
  "sample_cheap = sample_branches \<lparr> NumDefs := (\<lambda>opc. if opc \<in> {CONST_I257, PUSH_GLOBAL_ADDRESS} then 1 else 0) \<rparr>"

definition sample_intervals :: IntervalQueries where
  "sample_intervals = \<lparr> reachingDef = (\<lambda>F r s. None), liveAtDeadSlot = (\<lambda>F r d. True),
     valueIn = (\<lambda>F r d s. True), isKillAt = (\<lambda>F r s. s = (0, 1)) \<rparr>"

text \<open>A machine that records what the other instructions read.\<close>

definition sample_machine :: "(int, int list) Machine" where
  "sample_machine opc sh vs w =
     (if opc = CONST_I257 then ([case sh of [MO_CImmediate v] \<Rightarrow> v | _ \<Rightarrow> 0], w) else ([], w @ vs))"

definition sample_code :: "MachineInstr list \<Rightarrow> MachineFn" where
  "sample_code B = \<lparr> insts = (\<lambda>b. [])(0 := B), succs = (\<lambda>b. []), blockIds = [0], nextVReg = 2 \<rparr>"

definition is_cheap :: "MachineInstr \<Rightarrow> bool" where
  "is_cheap MI \<longleftrightarrow> getOpcode MI = CONST_I257 \<and> filter isReg (uses sample_cheap MI) = []"

abbreviation sample_const :: MachineInstr where
  "sample_const \<equiv> mk_instr CONST_I257 [reg 0, MO_CImmediate 5]"

abbreviation sample_reader :: "MachineOperand list \<Rightarrow> MachineInstr" where
  "sample_reader \<equiv> mk_instr (OtherOpcode 1)"

lemmas sample_cheap_simps = sample_cheap_def sample_branches_def sample_code_def mk_instr_def reg_def uses_def defs_def

lemma sample_intervals_ok: "intervals_ok D sample_intervals"
  by (simp add: intervals_ok_def sample_intervals_def)

lemma sample_const_instr:
  "const_instr sample_cheap sample_machine (mk_instr CONST_I257 [reg r, MO_CImmediate v])"
  by (simp add: const_instr_def sample_cheap_simps isDebugInstr_def reg_operand_def getOperand_def shape_def sample_machine_def)

lemma sample_ssa:
  assumes "\<forall>MI \<in> set B. getOpcode MI \<noteq> CONST_I257 \<and> getOpcode MI \<noteq> PUSH_GLOBAL_ADDRESS"
    and "\<forall>MI \<in> set B. \<forall>opd \<in> set (operands MI). isReg opd \<longrightarrow> getReg opd < 2 \<and> (isUndef opd \<longleftrightarrow> getReg opd = 1)"
  shows "ssa_fn sample_cheap (sample_code (sample_const # B))"
proof -
  have none: "\<not> sets_reg sample_cheap r MI" if "MI \<in> set B" for r MI
    using assms(1) that by (auto simp: sets_reg_def defs_def sample_cheap_def sample_branches_def)
  have const: "sets_reg sample_cheap r sample_const \<longleftrightarrow> r = 0" for r
    by (auto simp: sets_reg_def sample_cheap_simps)
  have defs: "def_instrs sample_cheap (sample_code (sample_const # B)) r = (if r = 0 then [sample_const] else [])" for r
    using none const by (auto simp: def_instrs_def sample_code_def filter_empty_conv)
  have "defined_first sample_cheap (sample_code (sample_const # B))"
    unfolding defined_first_def
  proof (intro allI impI)
    fix p b u MI v r
    assume p: "is_path (sample_code (sample_const # B)) (p @ [b])" and code: "insts (sample_code (sample_const # B)) b = u @ MI # v"
      and r: "reads_reg sample_cheap r MI" "def_instrs sample_cheap (sample_code (sample_const # B)) r \<noteq> []"
    have b: "b = 0" using is_path_blocks [OF p] by (simp add: sample_code_def)
    have "MI \<noteq> sample_const" using r(1) by (auto simp: reads_reg_def sample_cheap_simps)
    then have "sample_const \<in> set u" using code b by (cases u) (auto simp: sample_code_def)
    moreover have "r = 0" using r(2) defs by (simp split: if_splits)
    ultimately show "\<exists>I \<in> set (path_code (sample_code (sample_const # B)) p @ u). sets_reg sample_cheap r I"
      using const by auto
  qed
  then show ?thesis
    using assms(2) defs
    by (auto simp: ssa_fn_def fresh_regs_def ssa_def undef_ok_def sample_code_def uses_def mk_instr_def reg_def
        sample_cheap_def dest: in_set_dropD)
qed

lemma sample_cheap_ok: "cheap_ok sample_cheap sample_machine is_cheap (sample_code [sample_const, sample_reader [reg 0], sample_reader [reg 0]])"
  unfolding cheap_ok_def
proof (intro conjI allI impI)
  show "filter isReg (uses sample_cheap MI) = []" if "is_cheap MI" for MI using that by (simp add: is_cheap_def)
  fix s :: Pos
  assume "valid_pos (sample_code [sample_const, sample_reader [reg 0], sample_reader [reg 0]]) s"
    "ShouldRematerialize is_cheap (instr_at (sample_code [sample_const, sample_reader [reg 0], sample_reader [reg 0]]) s)"
  then have "instr_at (sample_code [sample_const, sample_reader [reg 0], sample_reader [reg 0]]) s = sample_const"
    by (cases s) (auto simp: valid_pos_def sample_code_def instr_at_def less_Suc_eq ShouldRematerialize_def is_cheap_def mk_instr_def)
  then show "const_instr sample_cheap sample_machine (instr_at (sample_code [sample_const, sample_reader [reg 0], sample_reader [reg 0]]) s)"
    using sample_const_instr by simp
qed

lemma sample_next: "nextVReg (sample_code B) = 2"
  by (simp add: sample_code_def)

theorem rematerialize_keeps_runs_witness:
  "\<exists>c G S'. rematerialize sample_cheap sample_intervals is_cheap
       (sample_code [sample_const, sample_reader [reg 0], sample_reader [reg 0]], []) = Some (c, G, S') \<and>
     refines sample_cheap sample_machine (sample_code [sample_const, sample_reader [reg 0], sample_reader [reg 0]]) G \<and>
     (\<forall>b \<in> set (blockIds G). \<forall>I \<in> set (insts G b). served sample_cheap is_cheap 2 G S' I)"
proof -
  have "ssa_fn sample_cheap (sample_code [sample_const, sample_reader [reg 0], sample_reader [reg 0]])"
    by (rule sample_ssa) (simp_all add: mk_instr_def reg_def)
  from rematerialize_keeps_runs [OF sample_intervals_ok this sample_cheap_ok, of "[]"] show ?thesis
    unfolding sample_next by blast
qed

text \<open>
  C40. Moving materialisable definitions to their only use, and defining undefined operands, ends on every
  function in SSA form without debug instructions and keeps its runs; the result is in SSA form again, and
  no instruction of the blocks visited, the arguments aside, has an undefined operand. What the pass moves
  are constants. Each block in the order given can be reached.
\<close>

theorem moveMaterializable_keeps_runs:
  assumes "intervals_ok D L" "ssa_fn D F" "move_ok D M remat F" "\<And>b. b \<in> set rpo \<Longrightarrow> reachable_block F b"
  shows "\<exists>c G. moveMaterializable D L remat rpo F = Some (c, G) \<and> refines D M F G \<and> ssa_fn D G \<and>
    (\<forall>b \<in> set rpo. \<forall>I \<in> set (insts G b). settled D I)"
  using assms by (rule moveMaterializable_total)

lemma sample_entry: "reachable_block (sample_code B) 0"
  unfolding reachable_block_def by (rule exI [of _ "[]"]) (simp add: is_path_def sample_code_def)

abbreviation sample_moves :: MachineFn where
  "sample_moves \<equiv> sample_code [sample_const, sample_reader [], sample_reader [reg 0, MO_Register 1 True False]]"

lemma sample_move_ok: "move_ok sample_cheap sample_machine (\<lambda>opc. opc = CONST_I257) sample_moves"
  unfolding move_ok_def no_debug_def
proof (intro conjI allI impI)
  fix s :: Pos assume "valid_pos sample_moves s"
  then have at: "instr_at sample_moves s \<in> {sample_const, sample_reader [], sample_reader [reg 0, MO_Register 1 True False]}"
    by (cases s) (auto simp: valid_pos_def sample_code_def instr_at_def less_Suc_eq)
  then show "\<not> isDebugInstr (instr_at sample_moves s)" by (auto simp: isDebugInstr_def mk_instr_def)
  have const: "instr_at sample_moves s = sample_const" if "getOpcode (instr_at sample_moves s) \<in> {CONST_I257, CONST_U257}"
    using that at by (auto simp: mk_instr_def)
  show "const_instr sample_cheap sample_machine (instr_at sample_moves s)" if "getOpcode (instr_at sample_moves s) = CONST_I257"
    using const that sample_const_instr by simp
  show "\<exists>v. getOperand (instr_at sample_moves s) 1 = Some (MO_CImmediate v)" if "isConstInt (instr_at sample_moves s)"
    using const that by (simp add: isConstInt_def getOperand_def mk_instr_def)
qed (rule sample_const_instr)

theorem moveMaterializable_keeps_runs_witness:
  "\<exists>c G. moveMaterializable sample_cheap sample_intervals (\<lambda>opc. opc = CONST_I257) [0] sample_moves = Some (c, G) \<and>
     refines sample_cheap sample_machine sample_moves G \<and> (\<forall>I \<in> set (insts G 0). settled sample_cheap I)"
proof -
  have "ssa_fn sample_cheap sample_moves" by (rule sample_ssa) (simp_all add: mk_instr_def reg_def)
  from moveMaterializable_keeps_runs [OF sample_intervals_ok this sample_move_ok, of "[0]"] sample_entry
  show ?thesis by auto
qed

text \<open>
  With debug instructions the pass can break the code: the use of a register by DBG_VALUE does not count
  as a second one, and its definition is moved in front of the DBG_VALUE, behind its only real use.
\<close>

abbreviation sample_debug :: MachineFn where
  "sample_debug \<equiv> sample_code [sample_const, sample_reader [reg 0], mk_instr DBG_VALUE [reg 0]]"

lemma debug_value_moves_definition:
  "ssa_fn sample_cheap sample_debug"
  "\<exists>G. moveMaterializable sample_cheap sample_intervals (\<lambda>opc. opc = CONST_I257) [0] sample_debug = Some (True, G) \<and>
     insts G 0 = [sample_reader [reg 0], sample_const, mk_instr DBG_VALUE [reg 0]] \<and>
     \<not> refines sample_cheap sample_machine sample_debug G"
proof -
  show "ssa_fn sample_cheap sample_debug" by (rule sample_ssa) (simp_all add: mk_instr_def reg_def)
  let ?B = "[sample_reader [reg 0], sample_const, mk_instr DBG_VALUE [reg 0]]" and ?M = sample_machine
  have "map_option (\<lambda>(c, H). (c, insts H 0)) (moveMaterializable sample_cheap sample_intervals (\<lambda>opc. opc = CONST_I257) [0] sample_debug) =
      Some (True, ?B)"
    by code_simp
  then obtain G where G: "moveMaterializable sample_cheap sample_intervals (\<lambda>opc. opc = CONST_I257) [0] sample_debug = Some (True, G)"
      "insts G 0 = ?B"
    by auto
  have reader: "instr_step sample_cheap ?M (sample_reader [reg 0]) s t \<longleftrightarrow> t = (fst s, snd s @ [fst s 0])" for s t
    by (auto simp: instr_step_def isDebugInstr_def reads_args_def def_regs_def sample_cheap_simps sample_machine_def list_all2_Cons1)
  have const: "instr_step sample_cheap ?M sample_const s t \<longleftrightarrow> t = ((fst s)(0 := 5), snd s)" for s t
    by (auto simp: instr_step_def isDebugInstr_def reads_args_def def_regs_def sample_cheap_simps sample_machine_def shape_def)
  have debug: "instr_step sample_cheap ?M (mk_instr DBG_VALUE [reg 0]) s t \<longleftrightarrow> t = s" for s t
    by (simp add: instr_step_def isDebugInstr_def mk_instr_def)
  have "is_path sample_debug [0]" by (simp add: is_path_def sample_code_def)
  moreover have "code_run sample_cheap ?M (path_code G [0]) (\<lambda>r. 9, []) ((\<lambda>r. 9)(0 := 5), [9])"
    by (simp add: path_code_def G(2) reader const debug del: One_nat_def)
  moreover have "\<not> code_run sample_cheap ?M (path_code sample_debug [0]) (\<lambda>r. 9, []) (\<sigma>, [9])" for \<sigma>
    by (simp add: path_code_def sample_code_def reader const debug del: One_nat_def)
  ultimately have "\<not> refines sample_cheap ?M sample_debug G" unfolding refines_def by metis
  then show "\<exists>G. moveMaterializable sample_cheap sample_intervals (\<lambda>opc. opc = CONST_I257) [0] sample_debug = Some (True, G) \<and>
      insts G 0 = ?B \<and> \<not> refines sample_cheap ?M sample_debug G"
    using G by blast
qed

end
